(* ===== verification/Prelude.thy ===== *)
theory Prelude
  imports Main "HOL-Library.Word" "HOL-Library.Monad_Syntax" "HOL-Library.Sublist"
begin

text \<open>
  What every component of the development shares: the names of Go's machine integers, the
  big-endian codecs of \<^verbatim>\<open>encoding/binary\<close>, Go's bounds-checked slicing, the wrap-around of
  \<^verbatim>\<open>int32\<close> arithmetic, and the general lemmas on words, bits and lists the component proofs
  use. A Go expression that can panic (an index or a slice out of range, an explicit
  \<^verbatim>\<open>panic\<close>) is an \<open>option\<close>: \<open>None\<close> is the panic, and \<open>Option.bind\<close> sequences.
\<close>

unbundle bit_operations_syntax

named_theorems go_defs \<open>definitions of one-line Go accessors, unfolded by the component proofs\<close>
named_theorems be_simps \<open>round trips of the big-endian codecs\<close>

type_synonym u8 = "8 word"
type_synonym u16 = "16 word"
type_synonym u32 = "32 word"
type_synonym u64 = "64 word"
type_synonym bytes = "u8 list"

section \<open>int32 arithmetic\<close>

text \<open>\<open>i32 x\<close> is the value an \<^verbatim>\<open>int32\<close> holds after a computation whose exact result is \<open>x\<close>.\<close>

definition i32 :: "int \<Rightarrow> int" where
  "i32 x = (x + 2 ^ 31) mod 2 ^ 32 - 2 ^ 31"

lemma i32_id [simp]: "- (2 ^ 31) \<le> x \<Longrightarrow> x < 2 ^ 31 \<Longrightarrow> i32 x = x"
  by (simp add: i32_def)

lemma i32_range: "- (2 ^ 31) \<le> i32 x \<and> i32 x < 2 ^ 31"
  by (simp add: i32_def)

section \<open>Big-endian codecs\<close>

text \<open>
  \<^verbatim>\<open>binary.BigEndian.Uint16/Uint32/Uint64\<close> read the leading bytes of a slice and panic when
  it is too short; \<^verbatim>\<open>PutUint16/PutUint32/PutUint64\<close> produce these bytes.
\<close>

fun be_uint16 :: "bytes \<Rightarrow> u16 option" where
  "be_uint16 (a # b # _) = Some (push_bit 8 (ucast a) OR ucast b)"
| "be_uint16 _ = None"

fun be_uint32 :: "bytes \<Rightarrow> u32 option" where
  "be_uint32 (a # b # c # d # _) =
     Some (push_bit 24 (ucast a) OR push_bit 16 (ucast b) OR push_bit 8 (ucast c) OR ucast d)"
| "be_uint32 _ = None"

fun be_uint64 :: "bytes \<Rightarrow> u64 option" where
  "be_uint64 (a # b # c # d # e # f # g # h # _) =
     Some (push_bit 56 (ucast a) OR push_bit 48 (ucast b) OR push_bit 40 (ucast c)
       OR push_bit 32 (ucast d) OR push_bit 24 (ucast e) OR push_bit 16 (ucast f)
       OR push_bit 8 (ucast g) OR ucast h)"
| "be_uint64 _ = None"

definition put16 :: "u16 \<Rightarrow> bytes" where
  "put16 w = [ucast (drop_bit 8 w), ucast w]"

definition put32 :: "u32 \<Rightarrow> bytes" where
  "put32 w = [ucast (drop_bit 24 w), ucast (drop_bit 16 w), ucast (drop_bit 8 w), ucast w]"

definition put64 :: "u64 \<Rightarrow> bytes" where
  "put64 w = [ucast (drop_bit 56 w), ucast (drop_bit 48 w), ucast (drop_bit 40 w),
     ucast (drop_bit 32 w), ucast (drop_bit 24 w), ucast (drop_bit 16 w),
     ucast (drop_bit 8 w), ucast w]"

lemma length_put16 [simp]: "length (put16 w) = 2" by (simp add: put16_def)
lemma length_put32 [simp]: "length (put32 w) = 4" by (simp add: put32_def)
lemma length_put64 [simp]: "length (put64 w) = 8" by (simp add: put64_def)

lemma put_neq_Nil [simp]: "put16 v \<noteq> []" "put32 w \<noteq> []"
  by (simp_all add: put16_def put32_def)

lemma be_uint16_put16 [simp, be_simps]: "be_uint16 (put16 w @ r) = Some w"
  unfolding put16_def
  by (simp, rule bit_word_eqI) (auto simp: bit_simps dest: bit_imp_le_length)

lemma be32_bit:
  fixes a b c d :: u8
  shows "bit (push_bit 24 (ucast a) OR push_bit 16 (ucast b) OR push_bit 8 (ucast c) OR ucast d :: u32) n \<longleftrightarrow>
    (if n < 8 then bit d n else if n < 16 then bit c (n - 8)
     else if n < 24 then bit b (n - 16) else bit a (n - 24))"
proof -
  consider "n < 8" | "8 \<le> n \<and> n < 16" | "16 \<le> n \<and> n < 24" | "24 \<le> n \<and> n < 32" | "32 \<le> n"
    by linarith
  then show ?thesis
    by cases (auto simp: bit_simps dest: bit_imp_le_length)
qed

lemma be64_bit:
  fixes a b c d e f g h :: u8
  shows "bit (push_bit 56 (ucast a) OR push_bit 48 (ucast b) OR push_bit 40 (ucast c)
       OR push_bit 32 (ucast d) OR push_bit 24 (ucast e) OR push_bit 16 (ucast f)
       OR push_bit 8 (ucast g) OR ucast h :: u64) n \<longleftrightarrow>
    (if n < 8 then bit h n else if n < 16 then bit g (n - 8)
     else if n < 24 then bit f (n - 16) else if n < 32 then bit e (n - 24)
     else if n < 40 then bit d (n - 32) else if n < 48 then bit c (n - 40)
     else if n < 56 then bit b (n - 48) else bit a (n - 56))"
proof -
  consider "n < 8" | "8 \<le> n \<and> n < 16" | "16 \<le> n \<and> n < 24" | "24 \<le> n \<and> n < 32"
    | "32 \<le> n \<and> n < 40" | "40 \<le> n \<and> n < 48" | "48 \<le> n \<and> n < 56" | "56 \<le> n \<and> n < 64"
    | "64 \<le> n"
    by linarith
  then show ?thesis
    by cases (auto simp: bit_simps dest: bit_imp_le_length)
qed

lemma be_uint32_put32 [simp, be_simps]: "be_uint32 (put32 w @ r) = Some w"
  unfolding put32_def
  by (simp, rule bit_word_eqI, subst be32_bit) (auto simp: bit_simps)

lemma be_uint16_None [simp]: "be_uint16 xs = None \<longleftrightarrow> length xs < 2"
  by (cases xs rule: be_uint16.cases) auto

lemma be_uint32_None [simp]: "be_uint32 xs = None \<longleftrightarrow> length xs < 4"
  by (cases xs rule: be_uint32.cases) auto

lemma be_uint64_put64 [simp, be_simps]: "be_uint64 (put64 w @ r) = Some w"
  unfolding put64_def
  by (simp, rule bit_word_eqI, subst be64_bit) (auto simp: bit_simps)

lemma be_uint64_None [simp]: "be_uint64 xs = None \<longleftrightarrow> length xs < 8"
  by (cases xs rule: be_uint64.cases) auto

lemma be_uint64_Some_ex: "8 \<le> length xs \<Longrightarrow> \<exists>w. be_uint64 xs = Some w"
  using be_uint64_None [of xs] by (cases "be_uint64 xs") auto

lemma be_uint16_Some_ex: "2 \<le> length xs \<Longrightarrow> \<exists>w. be_uint16 xs = Some w"
  using be_uint16_None [of xs] by (cases "be_uint16 xs") auto

lemma be_uint32_Some_ex: "4 \<le> length xs \<Longrightarrow> \<exists>w. be_uint32 xs = Some w"
  using be_uint32_None [of xs] by (cases "be_uint32 xs") auto

section \<open>Slices\<close>

text \<open>
  \<open>go_slice xs lo hi\<close> is \<^verbatim>\<open>xs[lo:hi]\<close> (on a slice whose capacity is its length) and
  \<open>go_index xs i\<close> is \<^verbatim>\<open>xs[i]\<close>; \<open>overwrite xs i ys\<close> is \<open>xs\<close> after
  \<^verbatim>\<open>copy(xs[i:], ys)\<close>, which stops at the end of the shorter of the two.
\<close>

definition go_slice :: "'a list \<Rightarrow> int \<Rightarrow> int \<Rightarrow> 'a list option" where
  "go_slice xs lo hi =
     (if 0 \<le> lo \<and> lo \<le> hi \<and> hi \<le> int (length xs)
      then Some (take (nat hi - nat lo) (drop (nat lo) xs)) else None)"

definition go_index :: "'a list \<Rightarrow> int \<Rightarrow> 'a option" where
  "go_index xs i = (if 0 \<le> i \<and> i < int (length xs) then Some (xs ! nat i) else None)"

definition overwrite :: "'a list \<Rightarrow> nat \<Rightarrow> 'a list \<Rightarrow> 'a list" where
  "overwrite xs i ys =
     take i xs @ take (length xs - i) ys @ drop (i + length ys) xs"

lemma length_overwrite [simp]: "i \<le> length xs \<Longrightarrow> length (overwrite xs i ys) = length xs"
  by (auto simp: overwrite_def)

lemma take_overwrite: "i \<le> length xs \<Longrightarrow> take i (overwrite xs i ys) = take i xs"
  by (simp add: overwrite_def)

lemma drop_overwrite:
  "i + length ys \<le> length xs \<Longrightarrow> drop (i + length ys) (overwrite xs i ys) = drop (i + length ys) xs"
  by (simp add: overwrite_def)

lemma nth_overwrite:
  "i + length ys \<le> length xs \<Longrightarrow> j < length xs \<Longrightarrow>
   overwrite xs i ys ! j = (if i \<le> j \<and> j < i + length ys then ys ! (j - i) else xs ! j)"
  by (auto simp: overwrite_def nth_append min_def)

lemma overwrite_slice:
  "s \<le> i \<Longrightarrow> i \<le> length xs \<Longrightarrow>
   take (i + min (length xs - i) (length ys) - s) (drop s (overwrite xs i ys)) =
   drop s (take i xs) @ take (length xs - i) ys"
  by (simp add: overwrite_def take_drop min_def)

section \<open>Lists\<close>

lemma length_filter_takeWhile_le: "length (takeWhile P xs) \<le> length xs"
  by (rule length_takeWhile_le)

lemma strict_prefix_take: "n < length xs \<Longrightarrow> strict_prefix (take n xs) xs"
  by (simp add: strict_prefix_def take_is_prefix)

end
