(* ===== verification/Awg_Replay.thy ===== *)
theory Awg_Replay
  imports Prelude
begin

text \<open>
  The anti-replay window of the WireGuard data path (\<^verbatim>\<open>awg-ios/replay/replay.go\<close>, RFC 6479):
  the record \<open>Filter\<close> is the Go struct, \<open>Filter_Reset\<close> and \<open>ValidateCounter\<close> its two
  methods. The abstract state is the set of counters accepted since the last reset;
  \<open>replay_inv\<close> relates the two and \<open>ValidateCounter_spec\<close> is the refinement. The locale
  \<open>replay_guard\<close> states what a client of any replay filter relies on.
\<close>

section \<open>What a client of a replay filter relies on\<close>

text \<open>\<open>accepted check s is\<close> runs a filter over a sequence of inputs and returns the accepted ones.\<close>

fun accepted :: "('i \<Rightarrow> 's \<Rightarrow> bool \<times> 's) \<Rightarrow> 's \<Rightarrow> 'i list \<Rightarrow> 'i list" where
  "accepted check s [] = []"
| "accepted check s (i # is) =
     (let (ok, s') = check i s in (if ok then [i] else []) @ accepted check s' is)"

fun final_state :: "('i \<Rightarrow> 's \<Rightarrow> bool \<times> 's) \<Rightarrow> 's \<Rightarrow> 'i list \<Rightarrow> 's" where
  "final_state check s [] = s"
| "final_state check s (i # is) = final_state check (snd (check i s)) is"

text \<open>
  A value is \<open>marked\<close> in a state when the filter will not take it any more. A filter refuses
  marked values, marks what it accepts, and never unmarks.
\<close>

locale replay_guard =
  fixes check :: "'i \<Rightarrow> 's \<Rightarrow> bool \<times> 's"
    and marked :: "'s \<Rightarrow> 'i \<Rightarrow> bool"
    and good :: "'s \<Rightarrow> bool"
  assumes good_check: "good s \<Longrightarrow> good (snd (check i s))"
    and refuse: "good s \<Longrightarrow> marked s i \<Longrightarrow> \<not> fst (check i s)"
    and mark: "good s \<Longrightarrow> fst (check i s) \<Longrightarrow> marked (snd (check i s)) i"
    and persist: "good s \<Longrightarrow> marked s j \<Longrightarrow> marked (snd (check i s)) j"
begin

lemma marked_not_accepted:
  "good s \<Longrightarrow> marked s j \<Longrightarrow> j \<notin> set (accepted check s is)"
proof (induction "is" arbitrary: s)
  case (Cons i "is")
  then have "j \<notin> set (accepted check (snd (check i s)) is)"
    using good_check persist by blast
  then show ?case
    using Cons.prems refuse by (auto simp: split_def Let_def)
qed simp

lemma accepted_distinct: "good s \<Longrightarrow> distinct (accepted check s is)"
proof (induction "is" arbitrary: s)
  case (Cons i "is")
  then show ?case
    using good_check [of s i] mark [of s i] marked_not_accepted [of "snd (check i s)" i "is"]
    by (simp add: split_def Let_def)
qed simp

lemma good_final: "good s \<Longrightarrow> good (final_state check s is)"
  by (induction "is" arbitrary: s) (auto intro: good_check)

end

section \<open>The filter\<close>

definition blockBitLog :: nat where "blockBitLog = 6"
definition blockBits :: u64 where "blockBits = push_bit blockBitLog 1"
definition ringBlocks :: u64 where "ringBlocks = push_bit 7 1"
definition windowSize :: u64 where "windowSize = (ringBlocks - 1) * blockBits"
definition blockMask :: u64 where "blockMask = ringBlocks - 1"
definition bitMask :: u64 where "bitMask = blockBits - 1"

lemmas replay_consts = blockBitLog_def blockBits_def ringBlocks_def windowSize_def
  blockMask_def bitMask_def

record Filter =
  last_ctr :: u64
  ring :: "u64 list"

text \<open>The zero value of the struct.\<close>

definition zero_Filter :: Filter where
  "zero_Filter = \<lparr>last_ctr = 0, ring = replicate 128 0\<rparr>"

definition Filter_Reset :: "Filter \<Rightarrow> Filter" where
  "Filter_Reset f = f\<lparr>last_ctr := 0, ring := (ring f)[0 := 0]\<rparr>"

lemma unat_succ: "(i :: u64) < hi \<Longrightarrow> unat (i + 1) = Suc (unat i)"
  using unsigned_less [of hi, where ?'a = nat]
  by (simp add: word_less_nat_alt unat_plus_if')

text \<open>
  The loop \<^verbatim>\<open>for i := lo; i <= hi; i++ { f.ring[i&blockMask] = 0 }\<close>. It stops at \<open>hi\<close>
  by the equality test because \<open>hi\<close> is never the largest \<^verbatim>\<open>uint64\<close> here: block numbers are
  counters shifted right by six.
\<close>

function clear_blocks :: "u64 \<Rightarrow> u64 \<Rightarrow> u64 list \<Rightarrow> u64 list" where
  "clear_blocks i hi r =
     (if i \<le> hi
      then (let r' = r[unat (i AND blockMask) := 0]
            in if i = hi then r' else clear_blocks (i + 1) hi r')
      else r)"
  by pat_completeness auto
termination
proof (relation "measure (\<lambda>(i, hi, r). unat hi - unat i)")
  fix i hi :: u64 and r x :: "u64 list"
  assume "i \<le> hi" "i \<noteq> hi"
  then have "i < hi" by simp
  then have "unat (i + 1) = Suc (unat i)" "unat i < unat hi"
    by (rule unat_succ, simp add: word_less_nat_alt)
  then show "((i + 1, hi, x), i, hi, r) \<in> measure (\<lambda>(i, hi, r). unat hi - unat i)"
    by simp
qed simp

declare clear_blocks.simps [simp del]

text \<open>The common tail of the method: test the counter's bit and set it.\<close>

definition check_and_set :: "Filter \<Rightarrow> u64 \<Rightarrow> bool \<times> Filter" where
  "check_and_set f counter =
     (let indexBlock = unat (drop_bit blockBitLog counter AND blockMask);
          indexBit = unat (counter AND bitMask);
          old = ring f ! indexBlock;
          new = old OR push_bit indexBit 1
      in (old \<noteq> new, f\<lparr>ring := (ring f)[indexBlock := new]\<rparr>))"

definition ValidateCounter :: "Filter \<Rightarrow> u64 \<Rightarrow> u64 \<Rightarrow> bool \<times> Filter" where
  "ValidateCounter f counter limit =
     (if counter \<ge> limit then (False, f)
      else
        let indexBlock = drop_bit blockBitLog counter in
        if counter > last_ctr f then
          (let current = drop_bit blockBitLog (last_ctr f);
               diff = indexBlock - current;
               diff = (if diff > ringBlocks then ringBlocks else diff)
           in check_and_set
                (f\<lparr>ring := clear_blocks (current + 1) (current + diff) (ring f),
                   last_ctr := counter\<rparr>) counter)
        else if last_ctr f - counter > windowSize then (False, f)
        else check_and_set f counter)"

section \<open>Blocks and bits as natural numbers\<close>

lemma unat_block [simp]: "unat (drop_bit 6 (c :: u64)) = unat c div 64"
  by (simp add: drop_bit_eq_div unat_div)

lemma unat_and_127: "unat ((c :: u64) AND 127) = unat c mod 128"
  using take_bit_eq_mask [of 7 c, symmetric]
  by (simp add: mask_eq_exp_minus_1 take_bit_eq_mod unat_mod)

lemma unat_and_63: "unat ((c :: u64) AND 63) = unat c mod 64"
  using take_bit_eq_mask [of 6 c, symmetric]
  by (simp add: mask_eq_exp_minus_1 take_bit_eq_mod unat_mod)

lemma replay_consts_simps [simp]:
  "blockBitLog = 6" "ringBlocks = 128" "windowSize = 8128" "blockMask = 127" "bitMask = 63"
  by (simp_all add: replay_consts)

lemma length_clear_blocks [simp]: "length (clear_blocks i hi r) = length r"
  by (induction i hi r rule: clear_blocks.induct) (subst clear_blocks.simps, simp add: Let_def)

text \<open>Exactly the slots of the blocks \<open>i, \<dots>, hi\<close> are zero afterwards; the rest is kept.\<close>

lemma clear_blocks_nth:
  assumes "length r = 128" "k < 128"
  shows "clear_blocks i hi r ! k =
    (if \<exists>b. unat i \<le> b \<and> b \<le> unat hi \<and> b mod 128 = k then 0 else r ! k)"
  using assms
proof (induction i hi r rule: clear_blocks.induct)
  case (1 i hi r)
  let ?r = "r[unat (i AND blockMask) := 0]"
  have upd: "?r ! k = (if unat i mod 128 = k then 0 else r ! k)"
    using "1.prems" by (simp add: unat_and_127)
  consider "\<not> i \<le> hi" | "i = hi" | "i < hi" by (auto simp: order.order_iff_strict)
  then show ?case
  proof cases
    case 1
    then have "\<not> unat i \<le> unat hi" by (simp add: word_le_nat_alt)
    with 1 show ?thesis by (auto simp: clear_blocks.simps [of i hi r])
  next
    case 2
    have "(\<exists>b. unat hi \<le> b \<and> b \<le> unat hi \<and> b mod 128 = k) \<longleftrightarrow> unat hi mod 128 = k"
      by (metis le_antisym order_refl)
    with 2 upd show ?thesis by (simp add: clear_blocks.simps [of hi hi r] Let_def)
  next
    case 3
    then have lt: "unat i < unat hi" by (simp add: word_less_nat_alt)
    have "clear_blocks i hi r ! k = clear_blocks (i + 1) hi ?r ! k"
      using 3 by (simp add: clear_blocks.simps [of i hi r] Let_def less_imp_le less_imp_neq)
    also have "\<dots> = (if \<exists>b. unat (i + 1) \<le> b \<and> b \<le> unat hi \<and> b mod 128 = k then 0 else ?r ! k)"
      using "1.IH" [OF _ refl] "1.prems" 3 by simp
    also have "(\<exists>b. unat (i + 1) \<le> b \<and> b \<le> unat hi \<and> b mod 128 = k) \<or> unat i mod 128 = k \<longleftrightarrow>
        (\<exists>b. unat i \<le> b \<and> b \<le> unat hi \<and> b mod 128 = k)"
      unfolding unat_succ [OF 3] using lt by (metis Suc_leD Suc_leI le_neq_implies_less less_imp_le order_refl)
    then have "(if \<exists>b. unat (i + 1) \<le> b \<and> b \<le> unat hi \<and> b mod 128 = k then 0 else ?r ! k) =
        (if \<exists>b. unat i \<le> b \<and> b \<le> unat hi \<and> b mod 128 = k then 0 else r ! k)"
      unfolding upd by auto
    finally show ?thesis .
  qed
qed

section \<open>Refinement: the set of accepted counters\<close>

text \<open>
  \<open>blk c\<close> is the block of a counter. The invariant covers the blocks still in the ring: there
  the bit of \<open>c\<close> is set exactly when \<open>c\<close> was accepted. Slots of other blocks are stale,
  which is why \<^verbatim>\<open>Reset\<close> may clear the first slot only.
\<close>

abbreviation blk :: "u64 \<Rightarrow> nat" where
  "blk c \<equiv> unat c div 64"

definition ctr_bit :: "Filter \<Rightarrow> u64 \<Rightarrow> bool" where
  "ctr_bit f c \<longleftrightarrow> bit (ring f ! (blk c mod 128)) (unat c mod 64)"

definition replay_inv :: "Filter \<Rightarrow> u64 set \<Rightarrow> bool" where
  "replay_inv f S \<longleftrightarrow> length (ring f) = 128 \<and> (\<forall>c\<in>S. c \<le> last_ctr f) \<and>
     (\<forall>c. blk c \<le> blk (last_ctr f) \<and> blk (last_ctr f) < blk c + 128 \<longrightarrow> (ctr_bit f c \<longleftrightarrow> c \<in> S))"

lemma replay_inv_zero: "replay_inv zero_Filter {}"
  by (auto simp: replay_inv_def zero_Filter_def ctr_bit_def)

lemma replay_inv_Reset: "replay_inv f S \<Longrightarrow> replay_inv (Filter_Reset f) {}"
  by (auto simp: replay_inv_def Filter_Reset_def ctr_bit_def)

lemma replay_inv_bit:
  "replay_inv f S \<Longrightarrow> blk c \<le> blk (last_ctr f) \<Longrightarrow> blk (last_ctr f) < blk c + 128 \<Longrightarrow>
   ctr_bit f c \<longleftrightarrow> c \<in> S"
  by (simp add: replay_inv_def)

text \<open>Two counters with the same block and the same bit are equal.\<close>

lemma ctr_eqI: "blk c = blk d \<Longrightarrow> unat c mod 64 = unat d mod 64 \<Longrightarrow> c = d"
  by (metis div_mult_mod_eq word_unat_eq_iff)

lemma blk_mod_inj:
  assumes "a mod 128 = b mod (128::nat)" "a \<le> l" "b \<le> l" "l < a + 128" "l < b + 128"
  shows "a = b"
proof (rule ccontr)
  assume "a \<noteq> b"
  then consider d where "b = a + d" "0 < d" "d < 128" | d where "a = b + d" "0 < d" "d < 128"
    using assms by (metis less_imp_add_positive linorder_neqE_nat add_less_cancel_left le_less_trans)
  then show False
    using assms(1) by cases (metis add_cancel_right_right add_diff_cancel_left' less_numeral_extra(3) mod_eq_dvd_iff_nat
        nat_dvd_not_less le_add1 not_le)+
qed

text \<open>Setting the bit of an in-window counter accepts it exactly once.\<close>

lemma check_and_set_spec:
  assumes inv: "replay_inv f S" and le: "c \<le> last_ctr f" and win: "blk (last_ctr f) < blk c + 128"
  shows "fst (check_and_set f c) \<longleftrightarrow> c \<notin> S"
    and "replay_inv (snd (check_and_set f c)) (insert c S)"
    and "last_ctr (snd (check_and_set f c)) = last_ctr f"
proof -
  let ?old = "ring f ! (blk c mod 128)" and ?j = "unat c mod 64"
  have lec: "blk c \<le> blk (last_ctr f)"
    using le by (simp add: word_le_nat_alt div_le_mono)
  have cs: "check_and_set f c =
      (?old \<noteq> ?old OR push_bit ?j 1, f\<lparr>ring := (ring f)[blk c mod 128 := ?old OR push_bit ?j 1]\<rparr>)"
    by (simp add: check_and_set_def Let_def unat_and_127 unat_and_63)
  have setbit: "bit (?old OR push_bit ?j 1) n \<longleftrightarrow> bit ?old n \<or> n = ?j" for n
    by (auto simp: bit_simps)
  have "?old = ?old OR push_bit ?j 1 \<longleftrightarrow> bit ?old ?j"
    by (metis (no_types, lifting) bit_word_eqI setbit)
  then show "fst (check_and_set f c) \<longleftrightarrow> c \<notin> S"
    using replay_inv_bit [OF inv lec win] by (simp add: cs ctr_bit_def)
  show "last_ctr (snd (check_and_set f c)) = last_ctr f"
    by (simp add: cs)
  have "ctr_bit (snd (check_and_set f c)) d \<longleftrightarrow> d \<in> insert c S"
    if d: "blk d \<le> blk (last_ctr f)" "blk (last_ctr f) < blk d + 128" for d
  proof (cases "blk d mod 128 = blk c mod 128")
    case True
    then have "blk d = blk c" using blk_mod_inj d lec win by blast
    then have "d = c \<longleftrightarrow> unat d mod 64 = ?j" using ctr_eqI by blast
    then show ?thesis
      using replay_inv_bit [OF inv d] inv True
      by (simp add: cs ctr_bit_def replay_inv_def setbit [simplified]) blast
  next
    case False
    then show ?thesis
      using replay_inv_bit [OF inv d] by (auto simp: cs ctr_bit_def)
  qed
  then show "replay_inv (snd (check_and_set f c)) (insert c S)"
    using inv le by (auto simp: replay_inv_def cs)
qed

text \<open>Moving the window forward keeps what stays in it and clears what is new.\<close>

lemma replay_inv_forward:
  fixes c :: u64
  assumes inv: "replay_inv f S" and lt: "last_ctr f < c"
    and diff: "diff = (if drop_bit 6 c - drop_bit 6 (last_ctr f) > (128::u64) then 128
                 else drop_bit 6 c - drop_bit 6 (last_ctr f))"
  shows "replay_inv (f\<lparr>ring := clear_blocks (drop_bit 6 (last_ctr f) + 1)
             (drop_bit 6 (last_ctr f) + diff) (ring f), last_ctr := c\<rparr>) S"
    (is "replay_inv ?g S")
proof -
  let ?cur = "drop_bit 6 (last_ctr f) :: u64" and ?l = "blk (last_ctr f)"
  have le: "?l \<le> blk c" using lt by (simp add: word_less_nat_alt div_le_mono)
  have bound: "?l < 2 ^ 58" "blk c < 2 ^ 58"
    using unsigned_less [of "last_ctr f", where ?'a = nat] unsigned_less [of c, where ?'a = nat]
    by simp_all
  have sub: "unat (drop_bit 6 c - ?cur) = blk c - ?l"
    using le by (simp add: unat_sub word_le_nat_alt)
  have d: "unat diff = min 128 (blk c - ?l)"
    unfolding diff by (auto simp: word_less_nat_alt sub)
  have lo: "unat (?cur + 1) = ?l + 1" and hi: "unat (?cur + diff) = ?l + min 128 (blk c - ?l)"
    using bound d by (simp_all add: unat_plus_if' min_def)
  have len: "length (ring f) = 128" using inv by (simp add: replay_inv_def)
  have bit: "ctr_bit ?g e \<longleftrightarrow> \<not> (\<exists>b. ?l + 1 \<le> b \<and> b \<le> ?l + min 128 (blk c - ?l) \<and> b mod 128 = blk e mod 128)
      \<and> ctr_bit f e" for e
    unfolding ctr_bit_def using clear_blocks_nth [OF len, of "blk e mod 128" "?cur + 1" "?cur + diff"]
    by (auto simp: lo hi)
  have "ctr_bit ?g e \<longleftrightarrow> e \<in> S" if e: "blk e \<le> blk c" "blk c < blk e + 128" for e
  proof (cases "blk e \<le> ?l")
    case True
    have win: "b \<noteq> blk e" "b \<le> blk c" "blk c < b + 128" if "?l + 1 \<le> b" "b \<le> ?l + min 128 (blk c - ?l)" for b
      using that e True le by (auto simp: min_def split: if_splits)
    then have "\<not> (\<exists>b. ?l + 1 \<le> b \<and> b \<le> ?l + min 128 (blk c - ?l) \<and> b mod 128 = blk e mod 128)"
      using blk_mod_inj [of _ "blk e" "blk c"] e by metis
    moreover have "ctr_bit f e \<longleftrightarrow> e \<in> S"
      using replay_inv_bit [OF inv True] e le by linarith
    ultimately show ?thesis by (simp add: bit)
  next
    case False
    have "e \<le> last_ctr f \<Longrightarrow> blk e \<le> ?l"
      by (simp add: word_le_nat_alt div_le_mono)
    with False have "e \<notin> S"
      using inv unfolding replay_inv_def by blast
    moreover have "\<exists>b. ?l + 1 \<le> b \<and> b \<le> ?l + min 128 (blk c - ?l) \<and> b mod 128 = blk e mod 128"
    proof (cases "blk c - ?l \<le> 128")
      case True
      then show ?thesis using False e by (intro exI [of _ "blk e"]) auto
    next
      case big: False
      define b where "b = ?l + 1 + (blk e - (?l + 1)) mod 128"
      have "b mod 128 = (?l + 1 + (blk e - (?l + 1))) mod 128"
        unfolding b_def by (rule mod_add_right_eq)
      then have "b mod 128 = blk e mod 128" using False by simp
      moreover have "?l + 1 \<le> b" "b \<le> ?l + 128"
        unfolding b_def using mod_less_divisor [of 128 "blk e - (?l + 1)"] by simp_all
      ultimately show ?thesis using big by (intro exI [of _ b]) simp
    qed
    ultimately show ?thesis by (simp add: bit)
  qed
  then show ?thesis
    using inv lt by (auto simp: replay_inv_def)
qed

section \<open>The method as a whole\<close>

text \<open>The counters a filter may still take: below the limit, new, and not behind the window.\<close>

definition acceptable :: "Filter \<Rightarrow> u64 set \<Rightarrow> u64 \<Rightarrow> u64 \<Rightarrow> bool" where
  "acceptable f S c limit \<longleftrightarrow> c < limit \<and> c \<notin> S \<and> (last_ctr f < c \<or> last_ctr f - c \<le> windowSize)"

lemma window_blocks:
  assumes "c \<le> l" "l - c \<le> (8128 :: u64)"
  shows "blk l < blk c + 128"
proof -
  have "unat l - unat c \<le> 8128" using assms by (simp add: unat_sub word_le_nat_alt)
  then have "unat l \<le> unat c + 8128" by simp
  then show ?thesis by linarith
qed

lemma ValidateCounter_cases:
  assumes "replay_inv f S"
  obtains (over) "limit \<le> c" "ValidateCounter f c limit = (False, f)"
  | (behind) "c < limit" "c \<le> last_ctr f" "8128 < last_ctr f - c"
      "ValidateCounter f c limit = (False, f)"
  | (within) g where "c < limit" "c \<le> last_ctr f" "last_ctr f - c \<le> 8128" "g = f"
      "replay_inv g S" "last_ctr g = max (last_ctr f) c" "blk (last_ctr g) < blk c + 128"
      "ValidateCounter f c limit = check_and_set g c"
  | (ahead) g where "c < limit" "last_ctr f < c"
      "replay_inv g S" "last_ctr g = max (last_ctr f) c" "blk (last_ctr g) < blk c + 128"
      "ValidateCounter f c limit = check_and_set g c"
proof -
  consider "limit \<le> c" | "c < limit" "last_ctr f < c" | "c < limit" "c \<le> last_ctr f" "8128 < last_ctr f - c"
    | "c < limit" "c \<le> last_ctr f" "last_ctr f - c \<le> 8128" by (meson leI)
  then show thesis
  proof cases
    case 1
    then show thesis by (intro over) (auto simp: ValidateCounter_def)
  next
    case 3
    then show thesis by (intro behind) (auto simp: ValidateCounter_def)
  next
    case 2
    from replay_inv_forward [OF assms 2(2) refl] 2 show thesis
      by (intro ahead) (auto simp: ValidateCounter_def Let_def not_le max_def)
  next
    case 4
    then show thesis
      using window_blocks [OF 4(2,3)] assms
      by (intro within [OF _ _ _ refl]) (auto simp: ValidateCounter_def not_le not_less max_def)
  qed
qed

lemma ValidateCounter_refines:
  assumes inv: "replay_inv f S"
  shows "fst (ValidateCounter f c limit) \<longleftrightarrow> acceptable f S c limit"
    and "replay_inv (snd (ValidateCounter f c limit)) (if acceptable f S c limit then insert c S else S)"
    and "last_ctr (snd (ValidateCounter f c limit)) =
      (if acceptable f S c limit then max (last_ctr f) c else last_ctr f)"
proof -
  have new: "last_ctr f < c \<Longrightarrow> c \<notin> S" using inv by (auto simp: replay_inv_def)
  have "(fst (ValidateCounter f c limit) \<longleftrightarrow> acceptable f S c limit) \<and>
      replay_inv (snd (ValidateCounter f c limit)) (if acceptable f S c limit then insert c S else S) \<and>
      last_ctr (snd (ValidateCounter f c limit)) =
        (if acceptable f S c limit then max (last_ctr f) c else last_ctr f)"
    using inv
  proof (cases rule: ValidateCounter_cases [of f S limit c])
    case (within g)
    then show ?thesis
      using check_and_set_spec [of g S c] by (auto simp: acceptable_def insert_absorb max_def)
  next
    case (ahead g)
    then show ?thesis
      using check_and_set_spec [of g S c] new by (auto simp: acceptable_def max_def)
  qed (use inv in \<open>auto simp: acceptable_def not_less\<close>)
  then show "fst (ValidateCounter f c limit) \<longleftrightarrow> acceptable f S c limit"
    and "replay_inv (snd (ValidateCounter f c limit)) (if acceptable f S c limit then insert c S else S)"
    and "last_ctr (snd (ValidateCounter f c limit)) =
      (if acceptable f S c limit then max (last_ctr f) c else last_ctr f)" by blast+
qed

section \<open>Properties\<close>

text \<open>
  A counter the filter will not take any more: its bit is set, or it lies behind the window.
\<close>

definition burnt :: "Filter \<Rightarrow> u64 \<Rightarrow> bool" where
  "burnt f c \<longleftrightarrow> c \<le> last_ctr f \<and> (8128 < last_ctr f - c \<or> ctr_bit f c)"

lemma burnt_iff:
  assumes "replay_inv f S"
  shows "burnt f c \<longleftrightarrow> c \<le> last_ctr f \<and> (8128 < last_ctr f - c \<or> c \<in> S)"
proof (cases "c \<le> last_ctr f \<and> last_ctr f - c \<le> 8128")
  case True
  then have "ctr_bit f c \<longleftrightarrow> c \<in> S"
    using window_blocks [of c "last_ctr f"] replay_inv_bit [OF assms]
    by (simp add: word_le_nat_alt div_le_mono)
  with True show ?thesis by (simp add: burnt_def)
qed (auto simp: burnt_def not_le)

lemma sub_mono_window:
  fixes c l m :: u64
  assumes "c \<le> l" "l \<le> m" "8128 < l - c"
  shows "8128 < m - c"
  using assms by (simp add: word_less_nat_alt word_le_nat_alt unat_sub)

interpretation awg_replay: replay_guard "\<lambda>c f. ValidateCounter f c limit" burnt
  "\<lambda>f. \<exists>S. replay_inv f S" for limit
proof
  fix s :: Filter and i j :: u64
  assume "\<exists>S. replay_inv s S"
  then obtain S where S: "replay_inv s S" ..
  note ref = ValidateCounter_refines [OF S, of i limit]
  show "\<exists>S. replay_inv (snd (ValidateCounter s i limit)) S"
    using ref(2) by blast
  show "burnt s i \<Longrightarrow> \<not> fst (ValidateCounter s i limit)"
    using ref(1) by (auto simp: burnt_iff [OF S] acceptable_def)
  show "fst (ValidateCounter s i limit) \<Longrightarrow> burnt (snd (ValidateCounter s i limit)) i"
    using ref by (simp add: burnt_iff [OF ref(2)])
  assume "burnt s j"
  then show "burnt (snd (ValidateCounter s i limit)) j"
    using sub_mono_window [of j "last_ctr s" "max (last_ctr s) i"] ref(3)
    by (auto simp: burnt_iff [OF S] burnt_iff [OF ref(2)] max_def)
qed

text \<open>
  C1. \<^verbatim>\<open>ValidateCounter\<close> implements the abstract anti-replay filter. In every state that
  represents a set \<open>S\<close> of accepted counters it accepts a counter exactly when the counter is
  below the limit, was not accepted before and is not more than \<^verbatim>\<open>windowSize\<close> behind the
  highest one; the new state represents \<open>S\<close> with the accepted counter added.
\<close>

theorem ValidateCounter_spec:
  assumes "replay_inv f S"
  shows "(fst (ValidateCounter f c limit) \<longleftrightarrow>
      c < limit \<and> c \<notin> S \<and> (last_ctr f < c \<or> last_ctr f - c \<le> windowSize)) \<and>
    replay_inv (snd (ValidateCounter f c limit))
      (if fst (ValidateCounter f c limit) then insert c S else S)"
  using ValidateCounter_refines [OF assms, of c limit] by (simp add: acceptable_def)

theorem ValidateCounter_spec_witness:
  "replay_inv zero_Filter {} \<and> fst (ValidateCounter zero_Filter 5 10) \<and>
   replay_inv (snd (ValidateCounter zero_Filter 5 10)) {5}"
  using ValidateCounter_spec [OF replay_inv_zero, of 5 10] replay_inv_zero
  by (auto simp: zero_Filter_def)

text \<open>
  C2. No replay: whatever counters arrive, in whatever order, at a zero filter, and again after
  a reset at any later point, no counter is accepted twice.
\<close>

theorem ValidateCounter_no_replay:
  "distinct (accepted (\<lambda>c f. ValidateCounter f c limit) zero_Filter ds) \<and>
   distinct (accepted (\<lambda>c f. ValidateCounter f c limit)
     (Filter_Reset (final_state (\<lambda>c f. ValidateCounter f c limit) zero_Filter ds)) cs)"
proof
  have z: "\<exists>S. replay_inv zero_Filter S" using replay_inv_zero by blast
  then show "distinct (accepted (\<lambda>c f. ValidateCounter f c limit) zero_Filter ds)"
    by (rule awg_replay.accepted_distinct)
  from z have "\<exists>S. replay_inv (final_state (\<lambda>c f. ValidateCounter f c limit) zero_Filter ds) S"
    by (rule awg_replay.good_final)
  then show "distinct (accepted (\<lambda>c f. ValidateCounter f c limit)
      (Filter_Reset (final_state (\<lambda>c f. ValidateCounter f c limit) zero_Filter ds)) cs)"
    using replay_inv_Reset by (intro awg_replay.accepted_distinct) blast
qed

end
