(* ===== verification/Go_Time.thy ===== *)
theory Go_Time
  imports Prelude
begin

text \<open>
  The part of Go's package \<^verbatim>\<open>time\<close> the components use. An instant is a number of nanoseconds on the monotonic
  clock, unbounded; a \<^verbatim>\<open>time.Duration\<close> is an \<^verbatim>\<open>int64\<close> of nanoseconds. \<^verbatim>\<open>t.Sub(u)\<close> saturates at the limits of a
  duration; arithmetic on durations and other \<^verbatim>\<open>int64\<close> values wraps (\<open>i64\<close>).
\<close>

type_synonym instant = int
type_synonym duration = int

definition i64 :: "int \<Rightarrow> int" where
  "i64 x = (x + 2 ^ 63) mod 2 ^ 64 - 2 ^ 63"

definition max_duration :: duration where "max_duration = 2 ^ 63 - 1"
definition min_duration :: duration where "min_duration = - (2 ^ 63)"

definition Second :: duration where "Second = 1000000000"

definition Sub :: "instant \<Rightarrow> instant \<Rightarrow> duration" where
  "Sub t u = max min_duration (min max_duration (t - u))"

lemma i64_id [simp]: "- (2 ^ 63) \<le> x \<Longrightarrow> x < 2 ^ 63 \<Longrightarrow> i64 x = x"
  by (simp add: i64_def)

lemma i64_range: "- (2 ^ 63) \<le> i64 x \<and> i64 x < 2 ^ 63"
  by (simp add: i64_def)

lemma Sub_nonneg [simp]: "u \<le> t \<Longrightarrow> 0 \<le> Sub t u"
  by (simp add: Sub_def max_duration_def min_duration_def)

lemma Sub_range: "- (2 ^ 63) \<le> Sub t u \<and> Sub t u < 2 ^ 63"
  by (auto simp: Sub_def max_duration_def min_duration_def)

lemma Sub_le: "u \<le> t \<Longrightarrow> Sub t u \<le> t - u"
  by (simp add: Sub_def max_duration_def min_duration_def)

text \<open>Comparing a saturated difference with a duration decides the exact difference.\<close>

lemma Sub_ge_iff: "d < 2 ^ 63 \<Longrightarrow> u \<le> t \<Longrightarrow> d \<le> Sub t u \<longleftrightarrow> d \<le> t - u"
  by (auto simp: Sub_def max_duration_def min_duration_def)

lemma Sub_less_iff: "d < max_duration \<Longrightarrow> u \<le> t \<Longrightarrow> d < Sub t u \<longleftrightarrow> d < t - u"
  by (auto simp: Sub_def max_duration_def min_duration_def)

end
