(* ===== verification/Awg_RateLimiter.thy ===== *)
theory Awg_RateLimiter
  imports Go_Time "HOL-Library.AList"
begin

text \<open>
  The limiter of handshake messages per source address, \<^verbatim>\<open>awg-ios/ratelimiter/ratelimiter.go\<close>: \<^verbatim>\<open>Init\<close>, \<^verbatim>\<open>Close\<close>,
  \<^verbatim>\<open>cleanup\<close> and \<^verbatim>\<open>Allow\<close>, with the goroutine that \<^verbatim>\<open>Init\<close> starts. Each call is one step and the clock is an
  argument. The table is an association list without double keys, \<open>None\<close> for the nil map before \<^verbatim>\<open>Init\<close>; the
  goroutine's state is whether its ticker runs. A panic (closing a closed channel, sending on one, storing
  into a nil map) is \<open>None\<close>.
\<close>

definition packetsPerSecond :: int where "packetsPerSecond = 20"
definition packetsBurstable :: int where "packetsBurstable = 5"
definition garbageCollectTime :: duration where "garbageCollectTime = Second"
definition packetCost :: int where "packetCost = 1000000000 div packetsPerSecond"
definition maxTokens :: int where "maxTokens = packetCost * packetsBurstable"

lemma packetCost_value [simp]: "packetCost = 50000000"
  by (simp add: packetCost_def packetsPerSecond_def)

lemma maxTokens_value [simp]: "maxTokens = 250000000"
  by (simp add: maxTokens_def packetsBurstable_def)

record RatelimiterEntry =
  re_lastTime :: instant
  re_tokens :: int

datatype stop_chan = ChanNil | ChanOpen | ChanClosed

record 'ip ratelimiter =
  rl_stopReset :: stop_chan
  rl_table :: "('ip \<times> RatelimiterEntry) list option"
  rl_ticker :: bool

text \<open>Closing the channel ends the goroutine, which stops its ticker.\<close>

definition Rl_Close :: "'ip ratelimiter \<Rightarrow> 'ip ratelimiter option" where
  "Rl_Close r =
     (case rl_stopReset r of
        ChanNil \<Rightarrow> Some r
      | ChanOpen \<Rightarrow> Some (r\<lparr>rl_stopReset := ChanClosed, rl_ticker := False\<rparr>)
      | ChanClosed \<Rightarrow> None)"

definition Rl_Init :: "'ip ratelimiter \<Rightarrow> 'ip ratelimiter option" where
  "Rl_Init r =
     do { r \<leftarrow> (if rl_stopReset r \<noteq> ChanNil then Rl_Close r else Some r);
          Some (r\<lparr>rl_stopReset := ChanOpen, rl_table := Some [], rl_ticker := False\<rparr>) }"

text \<open>\<open>nows k\<close> is the time read when the loop is at key \<open>k\<close>.\<close>

definition cleanup :: "('ip \<Rightarrow> instant) \<Rightarrow> 'ip ratelimiter \<Rightarrow> bool \<times> 'ip ratelimiter" where
  "cleanup nows r =
     (let t = map_option (filter (\<lambda>(k, e). \<not> Sub (nows k) (re_lastTime e) > garbageCollectTime)) (rl_table r)
      in (t = None \<or> t = Some [], r\<lparr>rl_table := t\<rparr>))"

text \<open>The goroutine when its ticker fires; a stopped ticker never does.\<close>

definition gc_tick :: "('ip \<Rightarrow> instant) \<Rightarrow> 'ip ratelimiter \<Rightarrow> 'ip ratelimiter" where
  "gc_tick nows r =
     (if rl_ticker r then (let (empty, r) = cleanup nows r in if empty then r\<lparr>rl_ticker := False\<rparr> else r) else r)"

definition Rl_Allow :: "'ip \<Rightarrow> instant \<Rightarrow> 'ip ratelimiter \<Rightarrow> (bool \<times> 'ip ratelimiter) option" where
  "Rl_Allow ip now r =
     (case map_of (case rl_table r of None \<Rightarrow> [] | Some t \<Rightarrow> t) ip of
        None \<Rightarrow>
          do { t \<leftarrow> rl_table r;
               let t = (ip, \<lparr>re_lastTime = now, re_tokens = maxTokens - packetCost\<rparr>) # t;
               if length t = 1 then
                 (if rl_stopReset r = ChanOpen then Some (True, r\<lparr>rl_table := Some t, rl_ticker := True\<rparr>) else None)
               else Some (True, r\<lparr>rl_table := Some t\<rparr>) }
      | Some e \<Rightarrow>
          (let tokens = i64 (re_tokens e + Sub now (re_lastTime e));
               tokens = (if tokens > maxTokens then maxTokens else tokens);
               ok = tokens > packetCost;
               tokens = (if ok then i64 (tokens - packetCost) else tokens)
           in Some (ok, r\<lparr>rl_table := map_option (AList.update ip \<lparr>re_lastTime = now, re_tokens = tokens\<rparr>) (rl_table r)\<rparr>)))"

section \<open>The level of an address\<close>

text \<open>
  What an address could spend at time \<open>t\<close>. An address without an entry has the full level, which is why
  forgetting an entry older than the collection time changes nothing.
\<close>

definition level :: "('ip \<times> RatelimiterEntry) list \<Rightarrow> 'ip \<Rightarrow> instant \<Rightarrow> int" where
  "level t ip now = (case map_of t ip of None \<Rightarrow> maxTokens | Some e \<Rightarrow> min maxTokens (re_tokens e + (now - re_lastTime e)))"

definition entry_ok :: "instant \<Rightarrow> instant \<Rightarrow> RatelimiterEntry \<Rightarrow> bool" where
  "entry_ok start now e \<longleftrightarrow> 0 \<le> re_tokens e \<and> re_tokens e \<le> maxTokens \<and> start \<le> re_lastTime e \<and> re_lastTime e \<le> now"

definition rl_inv :: "instant \<Rightarrow> instant \<Rightarrow> 'ip ratelimiter \<Rightarrow> ('ip \<times> RatelimiterEntry) list \<Rightarrow> bool" where
  "rl_inv start now r t \<longleftrightarrow> rl_stopReset r = ChanOpen \<and> rl_table r = Some t \<and> (rl_ticker r \<longleftrightarrow> t \<noteq> []) \<and>
     distinct (map fst t) \<and> (\<forall>e\<in>snd ` set t. entry_ok start now e)"

lemma entry_ok_mono: "entry_ok start now e \<Longrightarrow> now \<le> now' \<Longrightarrow> entry_ok start now' e"
  by (auto simp: entry_ok_def)

lemma rl_inv_mono: "rl_inv start now r t \<Longrightarrow> now \<le> now' \<Longrightarrow> rl_inv start now' r t"
  by (auto simp: rl_inv_def entry_ok_mono)

lemma rl_inv_entry: "rl_inv start now r t \<Longrightarrow> map_of t ip = Some e \<Longrightarrow> entry_ok start now e"
  by (force simp: rl_inv_def dest: map_of_SomeD)

lemma Init_inv: "Rl_Init r = Some r' \<Longrightarrow> rl_inv start start r' []"
  by (auto simp: Rl_Init_def rl_inv_def Rl_Close_def split: stop_chan.splits option.splits if_splits bind_splits)

lemma level_le: "level t ip now \<le> maxTokens"
  by (simp add: level_def split: option.splits)

text \<open>\<^verbatim>\<open>Allow\<close> on an entry, within the range of an \<^verbatim>\<open>int64\<close>.\<close>

lemma Allow_known:
  assumes "rl_inv start prev r t" "map_of t ip = Some e" "prev \<le> now" "now - start \<le> 2 ^ 62"
  shows "Rl_Allow ip now r =
    Some (level t ip now > packetCost, r\<lparr>rl_table := Some (AList.update ip
      \<lparr>re_lastTime = now, re_tokens = (if level t ip now > packetCost then level t ip now - packetCost else level t ip now)\<rparr> t)\<rparr>)"
proof -
  have e: "0 \<le> re_tokens e" "re_tokens e \<le> 250000000" "start \<le> re_lastTime e" "re_lastTime e \<le> now"
    using rl_inv_entry [OF assms(1,2)] assms(3) by (auto simp: entry_ok_def)
  have s: "Sub now (re_lastTime e) = now - re_lastTime e"
    using e assms(4) by (simp add: Sub_def max_duration_def min_duration_def)
  have i: "i64 (re_tokens e + (now - re_lastTime e)) = re_tokens e + (now - re_lastTime e)"
    using e assms(4) by (intro i64_id) auto
  let ?k = "re_tokens e + (now - re_lastTime e)"
  have l: "(if ?k > maxTokens then maxTokens else ?k) = level t ip now" using assms(2) by (simp add: level_def)
  have "0 \<le> level t ip now" using e assms(2) by (simp add: level_def)
  then have "i64 (level t ip now - packetCost) = level t ip now - packetCost"
    using level_le [of t ip now] by (intro i64_id) auto
  then show ?thesis using assms(1,2) unfolding Rl_Allow_def rl_inv_def by (simp add: s i l Let_def del: packetCost_value maxTokens_value)
qed

lemma Allow_unknown:
  assumes "rl_inv start prev r t" "map_of t ip = None"
  shows "Rl_Allow ip now r = Some (True,
    r\<lparr>rl_table := Some ((ip, \<lparr>re_lastTime = now, re_tokens = maxTokens - packetCost\<rparr>) # t), rl_ticker := True\<rparr>)"
  using assms by (cases t) (auto simp: Rl_Allow_def rl_inv_def)

lemma snd_set_update: "snd ` set (AList.update k v al) \<subseteq> insert v (snd ` set al)"
  by (induction al) auto

lemma Allow_step:
  assumes "rl_inv start prev r t" "prev \<le> now" "start \<le> now" "now - start \<le> 2 ^ 62"
  shows "\<exists>r' t'. Rl_Allow ip now r = Some (level t ip now > packetCost, r') \<and> rl_inv start now r' t' \<and>
    (\<forall>u\<ge>now. level t' ip u = min maxTokens ((if level t ip now > packetCost then level t ip now - packetCost else level t ip now) + (u - now))) \<and>
    (\<forall>ip'. ip' \<noteq> ip \<longrightarrow> level t' ip' = level t ip')"
proof (cases "map_of t ip")
  case None
  let ?t = "(ip, \<lparr>re_lastTime = now, re_tokens = maxTokens - packetCost\<rparr>) # t"
  have "ip \<notin> fst ` set t" using None by (simp add: map_of_eq_None_iff)
  then have "rl_inv start now (r\<lparr>rl_table := Some ?t, rl_ticker := True\<rparr>) ?t"
    using rl_inv_mono [OF assms(1,2)] assms(3) by (auto simp: rl_inv_def entry_ok_def)
  then show ?thesis using Allow_unknown [OF assms(1) None] None by (auto simp: level_def fun_eq_iff)
next
  case (Some e)
  let ?L = "level t ip now"
  let ?e = "\<lparr>re_lastTime = now, re_tokens = (if ?L > packetCost then ?L - packetCost else ?L)\<rparr>"
  let ?t = "AList.update ip ?e t"
  have "0 \<le> ?L" using Some rl_inv_entry [OF assms(1) Some] assms(2) by (simp add: level_def entry_ok_def)
  then have "entry_ok start now ?e" using level_le [of t ip now] assms(3) by (auto simp: entry_ok_def)
  moreover have "\<forall>x\<in>snd ` set t. entry_ok start now x" using rl_inv_mono [OF assms(1,2)] by (simp add: rl_inv_def)
  ultimately have "\<forall>x\<in>insert ?e (snd ` set t). entry_ok start now x" by blast
  then have "\<forall>x\<in>snd ` set ?t. entry_ok start now x" using snd_set_update [of ip ?e t] by blast
  moreover have "?t \<noteq> []" "t \<noteq> []" using Some by (cases t; auto)+
  moreover have "distinct (map fst ?t)" using assms(1) by (simp add: rl_inv_def distinct_update)
  ultimately have "rl_inv start now (r\<lparr>rl_table := Some ?t\<rparr>) ?t"
    using assms(1) unfolding rl_inv_def by simp
  then show ?thesis using Allow_known [OF assms(1) Some assms(2,4)]
    by (auto simp: level_def update_conv fun_eq_iff)
qed

lemma map_of_filter_keys:
  "distinct (map fst t) \<Longrightarrow> map_of (filter (\<lambda>(k, e). P k e) t) ip = (case map_of t ip of None \<Rightarrow> None | Some e \<Rightarrow> if P ip e then Some e else None)"
  by (induction t) (auto split: option.splits simp: map_of_eq_None_iff image_iff dest: map_of_SomeD)

lemma tick_step:
  assumes "rl_inv start prev r t" "prev \<le> now" "\<And>k. nows k \<le> now"
  shows "\<exists>t'. rl_inv start now (gc_tick nows r) t' \<and> (\<forall>ip. \<forall>u\<ge>now. level t' ip u = level t ip u)"
proof (cases "t = []")
  case True
  then show ?thesis using rl_inv_mono [OF assms(1,2)] assms(1) by (intro exI [of _ t]) (simp add: gc_tick_def rl_inv_def)
next
  case False
  let ?P = "\<lambda>(k, e). \<not> Sub (nows k) (re_lastTime e) > garbageCollectTime"
  let ?t = "filter ?P t"
  have "distinct (map fst ?t)" using assms(1) by (auto simp: rl_inv_def distinct_map_filter)
  then have "rl_inv start now (gc_tick nows r) ?t"
    using rl_inv_mono [OF assms(1,2)] False by (auto simp: rl_inv_def gc_tick_def cleanup_def Let_def)
  moreover have "level ?t ip u = level t ip u" if "now \<le> u" for ip u
  proof (cases "map_of t ip")
    case (Some e)
    have "maxTokens \<le> re_tokens e + (u - re_lastTime e)" if "Sub (nows ip) (re_lastTime e) > garbageCollectTime"
      using that \<open>now \<le> u\<close> assms(3) [of ip] rl_inv_entry [OF assms(1) Some]
      by (auto simp: Sub_def garbageCollectTime_def Second_def entry_ok_def max_duration_def min_duration_def split: if_splits)
    then show ?thesis using Some assms(1)
      by (auto simp: level_def rl_inv_def map_of_filter_keys [where P = "\<lambda>k e. \<not> Sub (nows k) (re_lastTime e) > garbageCollectTime"])
  qed (use assms(1) in \<open>simp add: level_def rl_inv_def map_of_filter_keys\<close>)
  ultimately show ?thesis by blast
qed

section \<open>The reference: one token bucket per address\<close>

fun bucket_run :: "instant list \<Rightarrow> int \<Rightarrow> instant \<Rightarrow> bool list" where
  "bucket_run [] tokens since = []"
| "bucket_run (now # ts) tokens since =
     (let tokens = min maxTokens (tokens + (now - since))
      in if tokens > packetCost then True # bucket_run ts (tokens - packetCost) now
         else False # bucket_run ts tokens now)"

datatype 'ip rl_event = EvAllow 'ip instant | EvTick "'ip \<Rightarrow> instant" instant

fun ev_time :: "'ip rl_event \<Rightarrow> instant" where
  "ev_time (EvAllow ip t) = t"
| "ev_time (EvTick nows t) = t"

fun rl_run :: "'ip rl_event list \<Rightarrow> 'ip ratelimiter \<Rightarrow> (('ip \<times> bool) list \<times> 'ip ratelimiter) option" where
  "rl_run [] r = Some ([], r)"
| "rl_run (EvAllow ip now # evs) r =
     do { (ok, r) \<leftarrow> Rl_Allow ip now r; (rs, r) \<leftarrow> rl_run evs r; Some ((ip, ok) # rs, r) }"
| "rl_run (EvTick nows now # evs) r = rl_run evs (gc_tick nows r)"

text \<open>The times at which an address asks, and the answers it gets.\<close>

fun asked :: "'ip \<Rightarrow> 'ip rl_event list \<Rightarrow> instant list" where
  "asked ip [] = []"
| "asked ip (EvAllow ip' t # evs) = (if ip' = ip then t # asked ip evs else asked ip evs)"
| "asked ip (EvTick nows t # evs) = asked ip evs"

definition answers :: "'ip \<Rightarrow> ('ip \<times> bool) list \<Rightarrow> bool list" where
  "answers ip rs = map snd (filter (\<lambda>(i, _). i = ip) rs)"

definition clock_ok :: "instant \<Rightarrow> 'ip rl_event list \<Rightarrow> bool" where
  "clock_ok start evs \<longleftrightarrow> sorted (start # map ev_time evs) \<and> (\<forall>e\<in>set evs. ev_time e - start \<le> 2 ^ 62) \<and>
     (\<forall>nows t. EvTick nows t \<in> set evs \<longrightarrow> (\<forall>k. nows k \<le> t))"

lemma clock_ok_Cons:
  assumes "start \<le> now" "sorted (now # map ev_time (e # evs))" "\<forall>e\<in>set (e # evs). ev_time e - start \<le> 2 ^ 62"
  shows "now \<le> ev_time e" "start \<le> ev_time e" "sorted (ev_time e # map ev_time evs)" "ev_time e - start \<le> 2 ^ 62"
  using assms by auto

lemma rl_run_buckets:
  assumes "rl_inv start now r t" "start \<le> now"
    and "\<forall>ip. \<forall>u\<ge>now. level t ip u = min maxTokens (b ip + (u - since ip))"
    and "sorted (now # map ev_time evs)" "\<forall>e\<in>set evs. ev_time e - start \<le> 2 ^ 62"
    and "\<forall>nows t. EvTick nows t \<in> set evs \<longrightarrow> (\<forall>k. nows k \<le> t)"
  shows "\<exists>rs r' t' now'. rl_run evs r = Some (rs, r') \<and> rl_inv start now' r' t' \<and>
    (\<forall>ip. answers ip rs = bucket_run (asked ip evs) (b ip) (since ip))"
  using assms
proof (induction evs r arbitrary: now t b since rule: rl_run.induct)
  case (1 r)
  then show ?case by (auto simp: answers_def)
next
  case (2 ip t0 evs r)
  note c = clock_ok_Cons [OF 2(3,5,6), unfolded ev_time.simps]
  let ?L = "level t ip t0"
  let ?b = "if ?L > packetCost then ?L - packetCost else ?L"
  obtain r1 t1 where s: "Rl_Allow ip t0 r = Some (?L > packetCost, r1)" "rl_inv start t0 r1 t1"
    "\<forall>u\<ge>t0. level t1 ip u = min maxTokens (?b + (u - t0))" "\<forall>ip'. ip' \<noteq> ip \<longrightarrow> level t1 ip' = level t ip'"
    using Allow_step [OF 2(2) c(1,2,4), of ip] by blast
  have L: "?L = min maxTokens (b ip + (t0 - since ip))" using 2(4) c(1) by blast
  have lv: "\<forall>ip'. \<forall>u\<ge>t0. level t1 ip' u = min maxTokens ((b(ip := ?b)) ip' + (u - (since(ip := t0)) ip'))"
    using s(3,4) 2(4) c(1) by (auto simp del: maxTokens_value packetCost_value)
  have "\<exists>rs r' t' now'. rl_run evs r1 = Some (rs, r') \<and> rl_inv start now' r' t' \<and>
      (\<forall>i. answers i rs = bucket_run (asked i evs) ((b(ip := ?b)) i) ((since(ip := t0)) i))"
    using 2(6,7) c(3) by (intro 2(1) [OF s(1) refl s(2) c(2) lv]) auto
  then obtain rs r' t' now' where IH: "rl_run evs r1 = Some (rs, r')" "rl_inv start now' r' t'"
    "\<forall>i. answers i rs = bucket_run (asked i evs) ((b(ip := ?b)) i) ((since(ip := t0)) i)" by blast
  have "answers i ((ip, ?L > packetCost) # rs) = bucket_run (asked i (EvAllow ip t0 # evs)) (b i) (since i)" for i
    using IH(3) [rule_format, of i] L by (auto simp: answers_def Let_def simp del: maxTokens_value packetCost_value)
  then show ?case using s(1) IH(1,2) by auto
next
  case (3 nows t0 evs r)
  note c = clock_ok_Cons [OF 3(3,5,6), unfolded ev_time.simps]
  have "nows k \<le> t0" for k using 3(7) by simp
  then obtain t1 where s: "rl_inv start t0 (gc_tick nows r) t1" "\<forall>ip. \<forall>u\<ge>t0. level t1 ip u = level t ip u"
    using tick_step [OF 3(2) c(1)] by blast
  have lv: "\<forall>ip. \<forall>u\<ge>t0. level t1 ip u = min maxTokens (b ip + (u - since ip))"
    using s(2) 3(4) c(1) by auto
  then show ?case using 3(1) [OF s(1) c(2) lv] 3(6,7) c(3) by simp
qed

section \<open>The bucket limits the rate\<close>

definition allowed_count :: "bool list \<Rightarrow> int" where
  "allowed_count rs = int (length (filter id rs))"

lemma allowed_count_simps [simp]:
  "allowed_count [] = 0" "allowed_count (True # rs) = 1 + allowed_count rs" "allowed_count (False # rs) = allowed_count rs"
  by (simp_all add: allowed_count_def)

lemma bucket_run_length [simp]: "length (bucket_run ts b since) = length ts"
  by (induction ts b since rule: bucket_run.induct) (auto simp: Let_def)

text \<open>What a bucket lets through is paid by what it held and what time brought; waiting for one packet's time is enough.\<close>

lemma bucket_spent:
  assumes "sorted (since # ts)" "0 \<le> b" "b \<le> maxTokens"
  shows "packetCost * allowed_count (bucket_run ts b since) \<le> b + (List.last (since # ts) - since)"
  using assms
proof (induction ts b since rule: bucket_run.induct)
  case (2 now ts b since)
  let ?b = "min maxTokens (b + (now - since))"
  have n: "since \<le> now" "sorted (now # ts)" "0 \<le> ?b" using 2(3,4) by auto
  have l: "List.last (since # now # ts) = List.last (now # ts)" by simp
  show ?case
  proof (cases "?b > packetCost")
    case True
    then have "packetCost * allowed_count (bucket_run ts (?b - packetCost) now) \<le> ?b - packetCost + (List.last (now # ts) - now)"
      using n by (intro 2(1)) auto
    moreover have "bucket_run (now # ts) b since = True # bucket_run ts (?b - packetCost) now" using True by (simp only: bucket_run.simps Let_def if_True)
    ultimately show ?thesis using n unfolding l by (simp del: bucket_run.simps)
  next
    case False
    then have "packetCost * allowed_count (bucket_run ts ?b now) \<le> ?b + (List.last (now # ts) - now)"
      using n by (intro 2(2)) auto
    moreover have "bucket_run (now # ts) b since = False # bucket_run ts ?b now" using False by (simp only: bucket_run.simps Let_def if_False)
    ultimately show ?thesis using n unfolding l by (simp del: bucket_run.simps)
  qed
qed simp

text \<open>After some requests the bucket is again a bucket within the maximum, counted from the last of them.\<close>

lemma bucket_run_append:
  assumes "sorted (since # us @ ts)" "0 \<le> b" "b \<le> maxTokens"
  shows "\<exists>b'\<ge>0. b' \<le> maxTokens \<and> bucket_run (us @ ts) b since = bucket_run us b since @ bucket_run ts b' (List.last (since # us))"
  using assms
proof (induction us b since rule: bucket_run.induct)
  case (1 b since)
  then show ?case by auto
next
  case (2 now us b since)
  let ?b = "min maxTokens (b + (now - since))"
  have n: "since \<le> now" "sorted (now # us @ ts)" "0 \<le> ?b" using 2(3,4) by auto
  show ?case
  proof (cases "?b > packetCost")
    case True
    have "\<exists>b'\<ge>0. b' \<le> maxTokens \<and> bucket_run (us @ ts) (?b - packetCost) now = bucket_run us (?b - packetCost) now @ bucket_run ts b' (List.last (now # us))"
      using n True by (intro 2(1)) auto
    then show ?thesis using True by (auto simp add: Let_def simp del: packetCost_value maxTokens_value)
  next
    case False
    have "\<exists>b'\<ge>0. b' \<le> maxTokens \<and> bucket_run (us @ ts) ?b now = bucket_run us ?b now @ bucket_run ts b' (List.last (now # us))"
      using n False by (intro 2(2)) auto
    then show ?thesis using False by (auto simp add: Let_def simp del: packetCost_value maxTokens_value)
  qed
qed

text \<open>The packets let through in a window are paid from a full bucket and the length of the window.\<close>

lemma bucket_window:
  assumes "sorted (since # us @ now # ws @ vs)" "0 \<le> b" "b \<le> maxTokens"
  shows "packetCost * allowed_count (take (Suc (length ws)) (drop (length us) (bucket_run (us @ now # ws @ vs) b since)))
    \<le> maxTokens + (List.last (now # ws) - now)"
proof -
  obtain b1 where b1: "0 \<le> b1" "b1 \<le> maxTokens"
    "bucket_run (us @ now # ws @ vs) b since = bucket_run us b since @ bucket_run (now # ws @ vs) b1 (List.last (since # us))"
    using bucket_run_append [OF assms] by blast
  let ?s = "List.last (since # us)"
  have s: "sorted (?s # (now # ws) @ vs)" using assms(1) by (cases us rule: rev_cases) (auto simp: sorted_append)
  obtain b2 where "bucket_run ((now # ws) @ vs) b1 ?s = bucket_run (now # ws) b1 ?s @ bucket_run vs b2 (List.last (?s # now # ws))"
    using bucket_run_append [OF s b1(1,2)] by blast
  then have w: "take (Suc (length ws)) (drop (length us) (bucket_run (us @ now # ws @ vs) b since)) = bucket_run (now # ws) b1 ?s"
    using b1(3) by (simp del: bucket_run.simps)
  let ?b = "min maxTokens (b1 + (now - ?s))"
  have e: "bucket_run (now # ws) b1 ?s = bucket_run (now # ws) ?b now"
    using b1(1) s by (simp add: Let_def min_def)
  have p: "packetCost * allowed_count (bucket_run (now # ws) ?b now) \<le> ?b + (List.last (now # now # ws) - now)"
    using s b1 by (intro bucket_spent) (auto simp: sorted_append)
  show ?thesis unfolding w e by (rule order_trans [OF p]) simp
qed

lemma bucket_waited:
  assumes "sorted (since # us @ [now])" "0 \<le> b" "b \<le> maxTokens" "List.last (since # us) + packetCost < now"
  shows "List.last (bucket_run (us @ [now]) b since)"
proof -
  obtain b' where "b' \<ge> 0" "b' \<le> maxTokens" "bucket_run (us @ [now]) b since = bucket_run us b since @ bucket_run [now] b' (List.last (since # us))"
    using bucket_run_append [OF assms(1-3)] by blast
  then show ?thesis using assms(4) by (simp add: Let_def)
qed

section \<open>Property\<close>

lemma asked_sorted: "sorted (start # map ev_time evs) \<Longrightarrow> sorted (start # asked ip evs)"
  by (induction ip evs arbitrary: start rule: asked.induct) auto

text \<open>
  C39. The limiter is one token bucket per address. After \<^verbatim>\<open>Init\<close>, for every sequence of \<^verbatim>\<open>Allow\<close> calls from any
  addresses and of rounds of the collector, at times that do not go back (over at most \<open>2\<^sup>6\<^sup>2\<close> ns), no call
  panics, and each address gets exactly the answers of its own token bucket: neither other addresses nor the
  collector change them. Over any window of an address's calls, those let through cost at most a full burst
  plus the time the window spans; an address that has waited longer than the cost of a packet is let through;
  and the collector runs exactly while there are entries.
\<close>

theorem ratelimiter_is_token_bucket:
  assumes "Rl_Init r = Some r0" "clock_ok start evs"
  shows "\<exists>rs r' t. rl_run evs r0 = Some (rs, r') \<and> rl_table r' = Some t \<and> (rl_ticker r' \<longleftrightarrow> t \<noteq> []) \<and>
    (\<forall>ip. answers ip rs = bucket_run (asked ip evs) maxTokens start) \<and>
    (\<forall>ip us now ws vs. asked ip evs = us @ now # ws @ vs \<longrightarrow>
       packetCost * allowed_count (take (Suc (length ws)) (drop (length us) (answers ip rs))) \<le> maxTokens + (List.last (now # ws) - now)) \<and>
    (\<forall>ip us now. asked ip evs = us @ [now] \<and> List.last (start # us) + packetCost < now \<longrightarrow> List.last (answers ip rs))"
proof -
  have c: "sorted (start # map ev_time evs)" "\<forall>e\<in>set evs. ev_time e - start \<le> 2 ^ 62"
    "\<forall>nows t. EvTick nows t \<in> set evs \<longrightarrow> (\<forall>k. nows k \<le> t)" using assms(2) unfolding clock_ok_def by blast+
  have "\<forall>ip. \<forall>u\<ge>start. level [] ip u = min maxTokens (maxTokens + (u - start))" by (simp add: level_def)
  then obtain rs r' t now' where run: "rl_run evs r0 = Some (rs, r')" "rl_inv start now' r' t"
    "\<forall>ip. answers ip rs = bucket_run (asked ip evs) maxTokens start"
    using rl_run_buckets [OF Init_inv [OF assms(1)] order_refl _ c, where b = "\<lambda>_. maxTokens" and since = "\<lambda>_. start"] by blast
  have w: "packetCost * allowed_count (take (Suc (length ws)) (drop (length us) (answers ip rs))) \<le> maxTokens + (List.last (now # ws) - now)"
    if "asked ip evs = us @ now # ws @ vs" for ip us now ws vs
    using asked_sorted [OF c(1), of ip] bucket_window [of start us now ws vs maxTokens] unfolding run(3) [rule_format] that by simp
  have l: "List.last (answers ip rs)" if "asked ip evs = us @ [now]" "List.last (start # us) + packetCost < now" for ip us now
    using asked_sorted [OF c(1), of ip] run(3) bucket_waited [of start us now maxTokens] that by simp
  have "rl_table r' = Some t" "rl_ticker r' \<longleftrightarrow> t \<noteq> []" using run(2) unfolding rl_inv_def by blast+
  then show ?thesis using run(1,3) w l by (intro exI [of _ rs] exI [of _ r'] exI [of _ t]) blast
qed

definition fresh_limiter :: "string ratelimiter" where
  "fresh_limiter = \<lparr>rl_stopReset = ChanNil, rl_table = None, rl_ticker = False\<rparr>"

definition burst :: "string rl_event list" where
  "burst = [EvAllow ''a'' 0, EvAllow ''a'' 1, EvAllow ''b'' 2, EvAllow ''a'' 3, EvTick (\<lambda>_. 4) 4, EvAllow ''a'' 5, EvAllow ''a'' 6,
     EvAllow ''a'' 7, EvAllow ''a'' 2000000000]"

theorem ratelimiter_is_token_bucket_witness:
  "\<exists>rs r'. rl_run burst (the (Rl_Init fresh_limiter)) = Some (rs, r') \<and>
     answers ''a'' rs = [True, True, True, True, True, False, True] \<and> answers ''b'' rs = [True]"
proof -
  have "clock_ok 0 burst" by (auto simp: clock_ok_def burst_def)
  moreover have "Rl_Init fresh_limiter = Some (the (Rl_Init fresh_limiter))" by (simp add: Rl_Init_def fresh_limiter_def)
  ultimately obtain rs r' where "rl_run burst (the (Rl_Init fresh_limiter)) = Some (rs, r')"
    "\<forall>ip. answers ip rs = bucket_run (asked ip burst) maxTokens 0"
    using ratelimiter_is_token_bucket [of fresh_limiter "the (Rl_Init fresh_limiter)" 0 burst] by blast
  then show ?thesis by (simp add: burst_def)
qed

end
