(* ===== verification/Awg_Ranges.thy ===== *)
theory Awg_Ranges
  imports Prelude
begin

text \<open>
  The text of settings in \<^verbatim>\<open>awg-ios/device\<close>: decimal and hexadecimal numbers, truth values, and the ranges of
  32-bit integers (\<^verbatim>\<open>noise-types.go\<close>) that hold the message types H1 to H4, the content padding and the timings. A
  range picks a number inside it, and what it prints reads back as itself. A Go string is a list of ASCII characters.
\<close>

section \<open>UintRange\<close>

type_synonym UintRange = u64

definition FromUint32 :: "u32 \<Rightarrow> u32 \<Rightarrow> UintRange" where
  "FromUint32 lo hi = push_bit 32 (ucast hi) OR ucast lo"

definition Lo :: "UintRange \<Rightarrow> u32" where "Lo r = ucast r"
definition Hi :: "UintRange \<Rightarrow> u32" where "Hi r = ucast (drop_bit 32 r)"

definition Contains :: "UintRange \<Rightarrow> u32 \<Rightarrow> bool" where
  "Contains r num \<longleftrightarrow> Lo r \<le> num \<and> num \<le> Hi r"

definition Range_IsZero :: "UintRange \<Rightarrow> bool" where "Range_IsZero r \<longleftrightarrow> r = 0"

definition PickOne :: "(u32 \<Rightarrow> u32) \<Rightarrow> UintRange \<Rightarrow> u32" where
  "PickOne fr r = Lo r + fr (Hi r - Lo r + 1)"

definition Overlap :: "UintRange \<Rightarrow> UintRange \<Rightarrow> bool" where
  "Overlap l r \<longleftrightarrow> Lo l \<le> Hi r \<and> Lo r \<le> Hi l"

text \<open>The text of a range; \<^verbatim>\<open>strconv.ParseUint(s, 10, 32)\<close> and \<^verbatim>\<open>strings.Split(s, "-")\<close>.\<close>

definition digit_value :: "char \<Rightarrow> nat" where "digit_value c = of_char c - 48"
definition is_dec :: "char \<Rightarrow> bool" where "is_dec c \<longleftrightarrow> 48 \<le> (of_char c :: nat) \<and> (of_char c :: nat) \<le> 57"

definition ParseUint :: "nat \<Rightarrow> string \<Rightarrow> nat option" where
  "ParseUint bits s =
     (if s = [] \<or> \<not> list_all is_dec s then None
      else let n = foldl (\<lambda>acc c. 10 * acc + digit_value c) 0 s in if n < 2 ^ bits then Some n else None)"

fun split_dash :: "string \<Rightarrow> string list" where
  "split_dash [] = [[]]"
| "split_dash (c # s) = (case split_dash s of (p # ps) \<Rightarrow> if c = CHR ''-'' then [] # p # ps else (c # p) # ps | [] \<Rightarrow> [])"

definition FromString :: "string \<Rightarrow> UintRange option" where
  "FromString str =
     (let parts = split_dash str in
      if length parts < 1 \<or> length parts > 2 then None
      else do {
        lo \<leftarrow> ParseUint 32 (parts ! 0);
        hi \<leftarrow> (if length parts > 1 then ParseUint 32 (parts ! 1) else Some lo);
        if hi < lo then None else Some (FromUint32 (of_nat lo) (of_nat hi)) })"

fun decimal :: "nat \<Rightarrow> string" where
  "decimal n = (if n < 10 then [char_of (48 + n)] else decimal (n div 10) @ [char_of (48 + n mod 10)])"

declare decimal.simps [simp del]

definition ToString :: "UintRange \<Rightarrow> string" where
  "ToString r = (if Lo r = Hi r then decimal (unat (Lo r)) else decimal (unat (Lo r)) @ ''-'' @ decimal (unat (Hi r)))"

text \<open>\<^verbatim>\<open>hex.DecodeString\<close>, \<^verbatim>\<open>loadExactHex\<close> and \<^verbatim>\<open>strconv.ParseBool\<close>.\<close>

definition hex_value :: "char \<Rightarrow> nat option" where
  "hex_value c =
     (let n = (of_char c :: nat) in
      if 48 \<le> n \<and> n \<le> 57 then Some (n - 48)
      else if 97 \<le> n \<and> n \<le> 102 then Some (n - 87)
      else if 65 \<le> n \<and> n \<le> 70 then Some (n - 55)
      else None)"

fun hex_decode :: "string \<Rightarrow> bytes option" where
  "hex_decode [] = Some []"
| "hex_decode [_] = None"
| "hex_decode (a # b # s) = do { x \<leftarrow> hex_value a; y \<leftarrow> hex_value b; r \<leftarrow> hex_decode s; Some (of_nat (16 * x + y) # r) }"

definition loadExactHex :: "nat \<Rightarrow> string \<Rightarrow> bytes option" where
  "loadExactHex n src = do { slice \<leftarrow> hex_decode src; if length slice \<noteq> n then None else Some slice }"

definition ParseBool :: "string \<Rightarrow> bool option" where
  "ParseBool s =
     (if s \<in> set [''1'', ''t'', ''T'', ''TRUE'', ''true'', ''True''] then Some True
      else if s \<in> set [''0'', ''f'', ''F'', ''FALSE'', ''false'', ''False''] then Some False
      else None)"

section \<open>Ranges\<close>

lemma Lo_FromUint32 [simp]: "Lo (FromUint32 lo hi) = lo"
  unfolding Lo_def FromUint32_def by (rule bit_word_eqI) (auto simp: bit_simps)

lemma Hi_FromUint32 [simp]: "Hi (FromUint32 lo hi) = hi"
  unfolding Hi_def FromUint32_def by (rule bit_word_eqI) (auto simp: bit_simps dest: bit_imp_le_length)

lemma Overlap_Contains: "Contains l n \<Longrightarrow> Contains r n \<Longrightarrow> Overlap l r"
  by (auto simp: Contains_def Overlap_def)

text \<open>What \<^verbatim>\<open>runtime.fastrandn\<close> documents: a number below its argument, and zero for zero.\<close>

definition fastrandn_ok :: "(u32 \<Rightarrow> u32) \<Rightarrow> bool" where
  "fastrandn_ok fr \<longleftrightarrow> (\<forall>n. if n = 0 then fr n = 0 else fr n < n)"

lemma PickOne_Contains:
  assumes "fastrandn_ok fr" "Lo r \<le> Hi r"
  shows "Contains r (PickOne fr r)"
proof -
  let ?d = "Hi r - Lo r"
  have d: "unat ?d = unat (Hi r) - unat (Lo r)" "unat (Lo r) \<le> unat (Hi r)" using assms(2) by (simp_all add: unat_sub_if' word_le_nat_alt)
  have "unat (Hi r) < 2 ^ LENGTH(32)" by (rule unsigned_less)
  then have hi: "unat (Hi r) < 4294967296" by simp
  have "unat (fr (?d + 1)) \<le> unat ?d"
  proof (cases "?d + 1 = 0")
    case False
    then have "fr (?d + 1) < ?d + 1" using assms(1) by (auto simp: fastrandn_ok_def dest: spec [of _ "?d + 1"])
    moreover have "unat (?d + 1) = unat ?d + 1" using False by (simp add: unatSuc add.commute)
    ultimately show ?thesis by (simp add: word_less_nat_alt)
  qed (use assms(1) in \<open>simp add: fastrandn_ok_def\<close>)
  then have u: "unat (fr (?d + 1)) \<le> unat (Hi r) - unat (Lo r)" using d by simp
  then have "unat (Lo r + fr (?d + 1)) = unat (Lo r) + unat (fr (?d + 1))"
    using d(2) hi by (simp add: unat_plus_if')
  then show ?thesis using u d(2) by (simp add: Contains_def PickOne_def word_le_nat_alt)
qed

lemma FromString_range: "FromString s = Some r \<Longrightarrow> Lo r \<le> Hi r"
proof -
  assume "FromString s = Some r"
  then obtain lo hi where r: "r = FromUint32 (of_nat lo) (of_nat hi)" "lo \<le> hi" "hi < 2 ^ 32"
    by (fastforce simp: FromString_def ParseUint_def Let_def split: Option.bind_splits if_splits)
  then have "unat (of_nat lo :: u32) = lo" "unat (of_nat hi :: u32) = hi" by (simp_all add: unat_of_nat)
  then show ?thesis using r(1,2) by (simp add: word_le_nat_alt)
qed

section \<open>The text of a range\<close>

lemma digit_char [simp]: "n < 10 \<Longrightarrow> is_dec (char_of (48 + n))" "n < 10 \<Longrightarrow> digit_value (char_of (48 + n)) = n"
  by (simp_all add: is_dec_def digit_value_def)

lemma decimal_digits: "list_all is_dec (decimal n) \<and> decimal n \<noteq> [] \<and> foldl (\<lambda>acc c. 10 * acc + digit_value c) 0 (decimal n) = n"
proof (induction n rule: decimal.induct)
  case (1 n)
  show ?case
  proof (cases "n < 10")
    case True
    then show ?thesis by (simp add: decimal.simps [of n])
  next
    case False
    then show ?thesis using 1 by (simp add: decimal.simps [of n])
  qed
qed

lemma ParseUint_decimal: "n < 2 ^ b \<Longrightarrow> ParseUint b (decimal n) = Some n"
  using decimal_digits [of n] by (simp add: ParseUint_def Let_def)

lemma no_dash: "list_all is_dec s \<Longrightarrow> CHR ''-'' \<notin> set s"
  by (auto simp: list_all_iff is_dec_def)

lemma split_dash_plain: "CHR ''-'' \<notin> set s \<Longrightarrow> split_dash s = [s]"
  by (induction s) auto

lemma split_dash_two: "CHR ''-'' \<notin> set s \<Longrightarrow> CHR ''-'' \<notin> set u \<Longrightarrow> split_dash (s @ CHR ''-'' # u) = [s, u]"
  by (induction s) (auto simp: split_dash_plain)

lemma range_bits: "FromUint32 (Lo r) (Hi r) = r"
  unfolding Lo_def Hi_def FromUint32_def
  by (rule bit_word_eqI) (auto simp: bit_simps dest: bit_imp_le_length)

lemma FromString_ToString:
  assumes "Lo r \<le> Hi r"
  shows "FromString (ToString r) = Some r"
proof -
  have "unat (Lo r) < 2 ^ LENGTH(32)" "unat (Hi r) < 2 ^ LENGTH(32)" by (rule unsigned_less)+
  then have p: "ParseUint 32 (decimal (unat (Lo r))) = Some (unat (Lo r))" "ParseUint 32 (decimal (unat (Hi r))) = Some (unat (Hi r))"
    by (simp_all add: ParseUint_decimal)
  have d: "CHR ''-'' \<notin> set (decimal n)" for n using no_dash decimal_digits by blast
  show ?thesis
  proof (cases "Lo r = Hi r")
    case True
    then show ?thesis using p d range_bits [of r] by (simp add: FromString_def ToString_def split_dash_plain)
  next
    case False
    then show ?thesis using p d range_bits [of r] assms
      by (simp add: FromString_def ToString_def split_dash_two word_le_nat_alt)
  qed
qed

end
