(* ===== verification/Awg_ObfChain.thy ===== *)
theory Awg_ObfChain
  imports Awg_Ranges Go_Time
begin

text \<open>
  The special packets I1 to I5 that precede a handshake: the chain of tags of \<^verbatim>\<open>awg-ios/device/obf*.go\<close>, its parser
  and the packet that \<^verbatim>\<open>SendHandshakeInitiation\<close> builds from it. The reverse direction (\<^verbatim>\<open>Deobfuscate\<close>) is defined in
  the sources and called by nothing. \<open>rnd k i\<close> is byte \<open>i\<close> of the random bytes of tag \<open>k\<close> and \<open>unix\<close> the Unix time
  in seconds; \<open>None\<close> is a panic. A specification is a string of ASCII characters.
\<close>

section \<open>Tags\<close>

datatype obf =
    bytesObf bytes
  | timestampObf
  | randObf int
  | randCharObf int
  | randDigitObf int
  | dataObf
  | dataStringObf
  | dataSizeObf int

text \<open>\<^verbatim>\<open>base64.RawStdEncoding\<close>.\<close>

definition b64_alphabet :: string where
  "b64_alphabet = ''ABCDEFGHIJKLMNOPQRSTUVWXYZabcdefghijklmnopqrstuvwxyz0123456789+/''"

definition b64_char :: "nat \<Rightarrow> u8" where
  "b64_char n = of_char (b64_alphabet ! n)"

fun b64_encode :: "bytes \<Rightarrow> bytes" where
  "b64_encode [] = []"
| "b64_encode [a] = [b64_char (unat a div 4), b64_char (unat a mod 4 * 16)]"
| "b64_encode [a, b] =
     [b64_char (unat a div 4), b64_char (unat a mod 4 * 16 + unat b div 16), b64_char (unat b mod 16 * 4)]"
| "b64_encode (a # b # c # r) =
     b64_char (unat a div 4) # b64_char (unat a mod 4 * 16 + unat b div 16) #
     b64_char (unat b mod 16 * 4 + unat c div 64) # b64_char (unat c mod 64) # b64_encode r"

definition EncodedLen :: "int \<Rightarrow> int" where
  "EncodedLen n = n div 3 * 4 + (n mod 3 * 8 + 5) div 6"

fun ObfuscatedLen :: "obf \<Rightarrow> int \<Rightarrow> int" where
  "ObfuscatedLen (bytesObf data) n = int (length data)"
| "ObfuscatedLen timestampObf n = 4"
| "ObfuscatedLen (randObf len) n = len"
| "ObfuscatedLen (randCharObf len) n = len"
| "ObfuscatedLen (randDigitObf len) n = len"
| "ObfuscatedLen dataObf n = n"
| "ObfuscatedLen dataStringObf n = EncodedLen n"
| "ObfuscatedLen (dataSizeObf len) n = len"

text \<open>The loop that stores a length in big-endian order, last byte first.\<close>

fun size_bytes :: "nat \<Rightarrow> nat \<Rightarrow> bytes" where
  "size_bytes 0 n = []"
| "size_bytes (Suc k) n = size_bytes k (n div 256) @ [of_nat (n mod 256)]"

definition chars52 :: string where "chars52 = ''abcdefghijklmnopqrstuvwxyzABCDEFGHIJKLMNOPQRSTUVWXYZ''"
definition digits10 :: string where "digits10 = ''0123456789''"

text \<open>
  What \<^verbatim>\<open>Obfuscate\<close> leaves in a slice \<open>dst\<close>. The tags with a length write \<^verbatim>\<open>dst[:length]\<close>, which panics when the
  length is negative or beyond the end (the chain passes a slice of that length).
\<close>

definition fill :: "bytes \<Rightarrow> int \<Rightarrow> (nat \<Rightarrow> bytes) \<Rightarrow> bytes option" where
  "fill dst len f = (if 0 \<le> len \<and> len \<le> int (length dst) then Some (overwrite dst 0 (f (nat len))) else None)"

fun Obfuscate :: "(nat \<Rightarrow> u8) \<Rightarrow> u32 \<Rightarrow> obf \<Rightarrow> bytes \<Rightarrow> bytes \<Rightarrow> bytes option" where
  "Obfuscate r unix (bytesObf data) dst src = Some (overwrite dst 0 data)"
| "Obfuscate r unix timestampObf dst src = (if length dst < 4 then None else Some (overwrite dst 0 (put32 unix)))"
| "Obfuscate r unix (randObf len) dst src = fill dst len (\<lambda>n. map r [0..<n])"
| "Obfuscate r unix (randCharObf len) dst src = fill dst len (\<lambda>n. map (\<lambda>i. of_char (chars52 ! (unat (r i) mod 52))) [0..<n])"
| "Obfuscate r unix (randDigitObf len) dst src = fill dst len (\<lambda>n. map (\<lambda>i. of_char (digits10 ! (unat (r i) mod 10))) [0..<n])"
| "Obfuscate r unix dataObf dst src = Some (overwrite dst 0 src)"
| "Obfuscate r unix dataStringObf dst src = (if length dst < length (b64_encode src) then None else Some (overwrite dst 0 (b64_encode src)))"
| "Obfuscate r unix (dataSizeObf len) dst src =
     (if len \<le> 0 then Some dst else fill dst len (\<lambda>n. size_bytes n (length src)))"

section \<open>Chains\<close>

record obfChain =
  oc_Spec :: string
  oc_obfs :: "obf list"

definition chain_ObfuscatedLen :: "obfChain \<Rightarrow> int \<Rightarrow> int" where
  "chain_ObfuscatedLen c n = foldl (\<lambda>tot ob. i64 (tot + ObfuscatedLen ob n)) 0 (oc_obfs c)"

text \<open>The loop of \<^verbatim>\<open>obfChain.Obfuscate\<close>: each tag gets the next slice of the buffer; \<open>k\<close> numbers the tags.\<close>

fun chain_loop :: "(nat \<Rightarrow> nat \<Rightarrow> u8) \<Rightarrow> u32 \<Rightarrow> nat \<Rightarrow> obf list \<Rightarrow> int \<Rightarrow> bytes \<Rightarrow> bytes \<Rightarrow> bytes option" where
  "chain_loop rnd unix k [] written dst src = Some dst"
| "chain_loop rnd unix k (ob # obs) written dst src =
     (let obfLen = ObfuscatedLen ob (int (length src)) in
      do { part \<leftarrow> go_slice dst written (i64 (written + obfLen));
           part' \<leftarrow> Obfuscate (rnd k) unix ob part src;
           chain_loop rnd unix (Suc k) obs (i64 (written + obfLen)) (overwrite dst (nat written) part') src })"

definition chain_Obfuscate :: "(nat \<Rightarrow> nat \<Rightarrow> u8) \<Rightarrow> u32 \<Rightarrow> obfChain \<Rightarrow> bytes \<Rightarrow> bytes \<Rightarrow> bytes option" where
  "chain_Obfuscate rnd unix c dst src = chain_loop rnd unix 0 (oc_obfs c) 0 dst src"

text \<open>\<^verbatim>\<open>make([]byte, n)\<close> and the packet of one chain in \<^verbatim>\<open>SendHandshakeInitiation\<close>.\<close>

definition make_bytes :: "int \<Rightarrow> bytes option" where
  "make_bytes n = (if n < 0 then None else Some (replicate (nat n) 0))"

definition ipacket :: "(nat \<Rightarrow> nat \<Rightarrow> u8) \<Rightarrow> u32 \<Rightarrow> obfChain \<Rightarrow> bytes option" where
  "ipacket rnd unix c = do { buf \<leftarrow> make_bytes (chain_ObfuscatedLen c 0); chain_Obfuscate rnd unix c buf [] }"

section \<open>The parser\<close>

text \<open>\<^verbatim>\<open>strconv.Atoi\<close>, \<^verbatim>\<open>strings.IndexByte\<close>, \<^verbatim>\<open>strings.Fields\<close> and \<^verbatim>\<open>strings.TrimPrefix\<close>.\<close>

definition Atoi :: "string \<Rightarrow> int option" where
  "Atoi s =
     (let neg = (s \<noteq> [] \<and> hd s = CHR ''-'');
          ds = (if s \<noteq> [] \<and> hd s \<in> {CHR ''-'', CHR ''+''} then tl s else s) in
      if ds = [] \<or> \<not> list_all is_dec ds then None
      else let n = int (foldl (\<lambda>acc c. 10 * acc + digit_value c) 0 ds); v = (if neg then - n else n) in
           if - (2 ^ 63) \<le> v \<and> v < 2 ^ 63 then Some v else None)"

fun cut_at :: "char \<Rightarrow> string \<Rightarrow> (string \<times> string) option" where
  "cut_at x [] = None"
| "cut_at x (c # s) = (if c = x then Some ([], s) else map_option (\<lambda>(a, b). (c # a, b)) (cut_at x s))"

definition is_space :: "char \<Rightarrow> bool" where
  "is_space c \<longleftrightarrow> (of_char c :: nat) \<in> {9, 10, 11, 12, 13, 32}"

fun Fields_loop :: "string \<Rightarrow> string \<Rightarrow> string list" where
  "Fields_loop cur [] = (if cur = [] then [] else [rev cur])"
| "Fields_loop cur (c # s) =
     (if is_space c then (if cur = [] then Fields_loop [] s else rev cur # Fields_loop [] s) else Fields_loop (c # cur) s)"

definition Fields :: "string \<Rightarrow> string list" where "Fields s = Fields_loop [] s"

definition TrimPrefix :: "string \<Rightarrow> string \<Rightarrow> string" where
  "TrimPrefix s pre = (if take (length pre) s = pre then drop (length pre) s else s)"

definition newBytesObf :: "string \<Rightarrow> obf option" where
  "newBytesObf val =
     (let v = TrimPrefix val ''0x'' in
      if v = [] then None
      else if length v mod 2 \<noteq> 0 then None
      else map_option bytesObf (hex_decode v))"

definition obfBuilders :: "string \<Rightarrow> (string \<Rightarrow> obf option) option" where
  "obfBuilders key =
     (if key = ''b'' then Some newBytesObf
      else if key = ''t'' then Some (\<lambda>_. Some timestampObf)
      else if key = ''r'' then Some (\<lambda>v. map_option randObf (Atoi v))
      else if key = ''rc'' then Some (\<lambda>v. map_option randCharObf (Atoi v))
      else if key = ''rd'' then Some (\<lambda>v. map_option randDigitObf (Atoi v))
      else if key = ''d'' then Some (\<lambda>_. Some dataObf)
      else if key = ''ds'' then Some (\<lambda>_. Some dataStringObf)
      else if key = ''dz'' then Some (\<lambda>v. map_option dataSizeObf (Atoi v))
      else None)"

datatype chain_error = MissingClose | EmptyTag | UnknownTag string | BuildFailed string

lemma cut_at_shorter: "cut_at x s = Some (a, b) \<Longrightarrow> length b < length s"
  by (induction x s arbitrary: a b rule: cut_at.induct) (auto split: if_splits)

text \<open>One tag: its text between the brackets gives an element or an error.\<close>

definition parse_tag :: "string \<Rightarrow> chain_error + obf" where
  "parse_tag tag =
     (case Fields tag of
        [] \<Rightarrow> Inl EmptyTag
      | key # rest \<Rightarrow>
          (case obfBuilders key of
             None \<Rightarrow> Inl (UnknownTag key)
           | Some builder \<Rightarrow>
               (case builder (case rest of [] \<Rightarrow> [] | v # _ \<Rightarrow> v) of None \<Rightarrow> Inl (BuildFailed key) | Some ob \<Rightarrow> Inr ob)))"

text \<open>The loop over the tags; \<open>Inl\<close> is the early return.\<close>

function parse_tags :: "string \<Rightarrow> chain_error + (chain_error list \<times> obf list)" where
  "parse_tags remaining =
     (case cut_at (CHR ''<'') remaining of
        None \<Rightarrow> Inr ([], [])
      | Some (_, rest) \<Rightarrow>
          (case cut_at (CHR ''>'') rest of
             None \<Rightarrow> Inl MissingClose
           | Some (tag, remaining') \<Rightarrow>
               (case parse_tags remaining' of
                  Inl e \<Rightarrow> Inl e
                | Inr (errs, obfs) \<Rightarrow>
                    (case parse_tag tag of Inl e \<Rightarrow> Inr (e # errs, obfs) | Inr ob \<Rightarrow> Inr (errs, ob # obfs)))))"
  by pat_completeness auto
termination
  by (relation "measure length") (auto dest!: cut_at_shorter)

declare parse_tags.simps [simp del]

text \<open>\<^verbatim>\<open>newObfChain\<close>: errors, or the chain, which is nil when there is no tag.\<close>

definition newObfChain :: "string \<Rightarrow> chain_error list + obfChain option" where
  "newObfChain spec =
     (case parse_tags spec of
        Inl e \<Rightarrow> Inl [e]
      | Inr (errs, obfs) \<Rightarrow>
          if errs \<noteq> [] then Inl errs
          else if obfs = [] then Inr None
          else Inr (Some \<lparr>oc_Spec = spec, oc_obfs = obfs\<rparr>))"

section \<open>What a chain writes\<close>

fun piece :: "(nat \<Rightarrow> u8) \<Rightarrow> u32 \<Rightarrow> bytes \<Rightarrow> obf \<Rightarrow> bytes" where
  "piece r unix src (bytesObf data) = data"
| "piece r unix src timestampObf = put32 unix"
| "piece r unix src (randObf len) = map r [0..<nat len]"
| "piece r unix src (randCharObf len) = map (\<lambda>i. of_char (chars52 ! (unat (r i) mod 52))) [0..<nat len]"
| "piece r unix src (randDigitObf len) = map (\<lambda>i. of_char (digits10 ! (unat (r i) mod 10))) [0..<nat len]"
| "piece r unix src dataObf = src"
| "piece r unix src dataStringObf = b64_encode src"
| "piece r unix src (dataSizeObf len) = size_bytes (nat len) (length src)"

lemma length_b64_encode: "int (length (b64_encode b)) = EncodedLen (int (length b))"
proof (induction b rule: b64_encode.induct)
  case (4 a b c r)
  have "(int (length r) + 3) div 3 = int (length r) div 3 + 1" by presburger
  then have "EncodedLen (int (length r) + 3) = EncodedLen (int (length r)) + 4"
    by (simp add: EncodedLen_def)
  moreover have "int (length (a # b # c # r)) = int (length r) + 3" by simp
  ultimately show ?case using 4 by (simp add: add.commute)
qed (simp_all add: EncodedLen_def)

lemma length_size_bytes [simp]: "length (size_bytes k n) = k"
  by (induction k n rule: size_bytes.induct) auto

lemma length_piece: "0 \<le> ObfuscatedLen ob (int (length src)) \<Longrightarrow> int (length (piece r unix src ob)) = ObfuscatedLen ob (int (length src))"
  by (cases ob) (simp_all add: length_b64_encode)

lemma overwrite_all [simp]: "length x = length dst \<Longrightarrow> overwrite dst 0 x = x"
  by (simp add: overwrite_def)

lemma Obfuscate_piece:
  assumes "0 \<le> ObfuscatedLen ob (int (length src))" "int (length dst) = ObfuscatedLen ob (int (length src))"
  shows "Obfuscate r unix ob dst src = Some (piece r unix src ob)"
proof -
  have "length (piece r unix src ob) = length dst" using length_piece [OF assms(1), of r unix] assms(2) by simp
  then have w: "overwrite dst 0 (piece r unix src ob) = piece r unix src ob"
    and d: "length dst = length (piece r unix src ob)" by simp_all
  show ?thesis using assms w d by (cases ob) (auto simp: fill_def simp del: overwrite_all)
qed

fun pieces :: "(nat \<Rightarrow> nat \<Rightarrow> u8) \<Rightarrow> u32 \<Rightarrow> bytes \<Rightarrow> nat \<Rightarrow> obf list \<Rightarrow> bytes" where
  "pieces rnd unix src k [] = []"
| "pieces rnd unix src k (ob # obs) = piece (rnd k) unix src ob @ pieces rnd unix src (Suc k) obs"

definition len_sum :: "int \<Rightarrow> obf list \<Rightarrow> int" where
  "len_sum n obs = sum_list (map (\<lambda>ob. \<bar>ObfuscatedLen ob n\<bar>) obs)"

lemma len_sum_nonneg: "0 \<le> len_sum n obs"
  unfolding len_sum_def by (rule sum_list_nonneg) auto

lemma len_sum_Cons [simp]: "len_sum n (ob # obs) = \<bar>ObfuscatedLen ob n\<bar> + len_sum n obs"
  by (simp add: len_sum_def)

lemma chain_len_loop:
  assumes "\<bar>tot\<bar> + len_sum n obs < 2 ^ 63"
  shows "foldl (\<lambda>tot ob. i64 (tot + ObfuscatedLen ob n)) tot obs = tot + sum_list (map (\<lambda>ob. ObfuscatedLen ob n) obs)"
  using assms
proof (induction obs arbitrary: tot)
  case (Cons ob obs)
  have "i64 (tot + ObfuscatedLen ob n) = tot + ObfuscatedLen ob n"
    using Cons.prems len_sum_nonneg [of n obs] by (intro i64_id) auto
  then show ?case using Cons.IH [of "tot + ObfuscatedLen ob n"] Cons.prems by simp
qed simp

lemma chain_loop_writes:
  assumes "\<forall>ob\<in>set obs. 0 \<le> ObfuscatedLen ob (int (length src))"
    and "length dst = w + length rest" "int (length rest) = len_sum (int (length src)) obs" "int (length dst) < 2 ^ 63"
  shows "chain_loop rnd unix k obs (int w) dst src = Some (take w dst @ pieces rnd unix src k obs)"
  using assms
proof (induction obs arbitrary: k w dst rest)
  case Nil
  then show ?case by (simp add: len_sum_def)
next
  case (Cons ob obs)
  let ?n = "ObfuscatedLen ob (int (length src))"
  let ?p = "piece (rnd k) unix src ob"
  have n: "0 \<le> ?n" "int (length ?p) = ?n" using Cons.prems(1) length_piece by auto
  have l: "int w + ?n \<le> int (length dst)" using Cons.prems n len_sum_nonneg [of "int (length src)" obs] by simp
  have i: "i64 (int w + ?n) = int (w + length ?p)" using n l Cons.prems(4) by (subst i64_id) auto
  have g: "go_slice dst (int w) (int (w + length ?p)) = Some (take (length ?p) (drop w dst))" 
  proof -
    have "0 \<le> int w \<and> int w \<le> int (w + length ?p) \<and> int (w + length ?p) \<le> int (length dst)" using l n by linarith
    then show ?thesis by (simp only: go_slice_def nat_int add_diff_cancel_left' if_True simp_thms)
  qed
  have ob: "Obfuscate (rnd k) unix ob (take (length ?p) (drop w dst)) src = Some ?p"
    using l n by (intro Obfuscate_piece) auto
  have "chain_loop rnd unix k (ob # obs) (int w) dst src = chain_loop rnd unix (Suc k) obs (int (w + length ?p)) (overwrite dst w ?p) src"
    using i g ob by (simp add: Let_def)
  also have "\<dots> = Some (take (w + length ?p) (overwrite dst w ?p) @ pieces rnd unix src (Suc k) obs)"
  proof (rule Cons.IH [of _ "w + length ?p" "drop (length ?p) rest"])
    show "length (overwrite dst w ?p) = w + length ?p + length (drop (length ?p) rest)" using Cons.prems l n by simp
  qed (use Cons.prems l n in auto)
  also have "take (w + length ?p) (overwrite dst w ?p) = take w dst @ ?p"
    using l n by (simp add: overwrite_def)
  finally show ?case by simp
qed

lemma chain_loop_nonneg:
  assumes "chain_loop rnd unix k obs (int w) dst src = Some out" "int w + len_sum (int (length src)) obs < 2 ^ 63"
  shows "\<forall>ob\<in>set obs. 0 \<le> ObfuscatedLen ob (int (length src))"
  using assms
proof (induction obs arbitrary: k w dst)
  case (Cons ob obs)
  let ?n = "ObfuscatedLen ob (int (length src))"
  have i: "i64 (int w + ?n) = int w + ?n" using Cons.prems(2) len_sum_nonneg [of "int (length src)" obs] by (intro i64_id) auto
  have "go_slice dst (int w) (int w + ?n) \<noteq> None"
    using Cons.prems(1) i by (cases "go_slice dst (int w) (int w + ?n)") (simp_all add: Let_def)
  then have n: "0 \<le> ?n" by (auto simp: go_slice_def split: if_splits)
  then obtain m where m: "?n = int m" by (metis nonneg_int_cases)
  obtain p where "chain_loop rnd unix (Suc k) obs (int (w + m)) (overwrite dst w p) src = Some out"
    using Cons.prems(1) i m by (auto simp: Let_def split: Option.bind_splits)
  from Cons.IH [OF this] show ?case using n m Cons.prems(2) by simp
qed simp

section \<open>Property\<close>

lemma len_sum_eq: "\<forall>ob\<in>set obs. 0 \<le> ObfuscatedLen ob n \<Longrightarrow> len_sum n obs = sum_list (map (\<lambda>ob. ObfuscatedLen ob n) obs)"
  unfolding len_sum_def by (rule arg_cong [where f = sum_list]) simp

lemma negative_length_accepted:
  "newObfChain ''<b 0x16><r -5>'' = Inr (Some \<lparr>oc_Spec = ''<b 0x16><r -5>'', oc_obfs = [bytesObf [0x16], randObf (- 5)]\<rparr>)"
  by code_simp

text \<open>
  C14. The special packets before a handshake. The packet of a chain is, tag after tag, the bytes each tag stands
  for, and its length is what \<^verbatim>\<open>ObfuscatedLen\<close> announces, if no tag has a negative length; with a negative length
  building it panics. The parser accepts negative lengths, so such a setting stops the program at the next
  handshake.
\<close>

theorem special_packet_built:
  assumes "len_sum 0 (oc_obfs c) < 2 ^ 63"
  shows "(ipacket rnd unix c = Some out \<longleftrightarrow>
      (\<forall>ob\<in>set (oc_obfs c). 0 \<le> ObfuscatedLen ob 0) \<and> out = pieces rnd unix [] 0 (oc_obfs c)) \<and>
    (ipacket rnd unix c = Some out \<longrightarrow> int (length out) = chain_ObfuscatedLen c 0) \<and>
    newObfChain ''<b 0x16><r -5>'' = Inr (Some \<lparr>oc_Spec = ''<b 0x16><r -5>'', oc_obfs = [bytesObf [0x16], randObf (- 5)]\<rparr>)"
proof -
  let ?obs = "oc_obfs c" and ?l = "chain_ObfuscatedLen c 0"
  have l: "?l = sum_list (map (\<lambda>ob. ObfuscatedLen ob 0) ?obs)" using chain_len_loop [of 0 0 ?obs] assms by (simp add: chain_ObfuscatedLen_def)
  have built: "ipacket rnd unix c = Some (pieces rnd unix [] 0 ?obs)" "int (length (pieces rnd unix [] 0 ?obs)) = ?l"
    if pos: "\<forall>ob\<in>set ?obs. 0 \<le> ObfuscatedLen ob 0"
  proof -
    have e: "?l = len_sum 0 ?obs" using l len_sum_eq [OF pos] by simp
    then have "0 \<le> ?l" using len_sum_nonneg by simp
    then show "ipacket rnd unix c = Some (pieces rnd unix [] 0 ?obs)"
      using chain_loop_writes [of ?obs "[]" "replicate (nat ?l) 0" 0 "replicate (nat ?l) 0" rnd unix 0] pos e assms
      by (simp add: ipacket_def make_bytes_def chain_Obfuscate_def)
    have "int (length (pieces rnd unix [] k obs)) = sum_list (map (\<lambda>ob. ObfuscatedLen ob 0) obs)"
      if "\<forall>ob\<in>set obs. 0 \<le> ObfuscatedLen ob 0" for k obs
      using that length_piece [where src = "[]"] by (induction obs arbitrary: k) auto
    then show "int (length (pieces rnd unix [] 0 ?obs)) = ?l" using pos l by simp
  qed
  have "\<forall>ob\<in>set ?obs. 0 \<le> ObfuscatedLen ob 0" if "ipacket rnd unix c = Some out"
    using that chain_loop_nonneg [of rnd unix 0 ?obs 0 _ "[]"] assms
    by (auto simp: ipacket_def make_bytes_def chain_Obfuscate_def split: if_splits)
  then show ?thesis using built by (auto simp: negative_length_accepted)
qed

theorem special_packet_built_witness:
  "ipacket (\<lambda>k i. of_nat i) 7 \<lparr>oc_Spec = [], oc_obfs = [bytesObf [0x16, 3], timestampObf, randDigitObf 2]\<rparr>
     = Some [0x16, 3, 0, 0, 0, 7, 48, 49]
   \<and> ipacket (\<lambda>k i. of_nat i) 7 \<lparr>oc_Spec = [], oc_obfs = [bytesObf [0x16], randObf (- 5)]\<rparr> = None"
  using special_packet_built [of "\<lparr>oc_Spec = [], oc_obfs = [bytesObf [0x16, 3], timestampObf, randDigitObf 2]\<rparr>"
      "\<lambda>k i. of_nat i" 7 "[0x16, 3, 0, 0, 0, 7, 48, 49]"]
    special_packet_built [of "\<lparr>oc_Spec = [], oc_obfs = [bytesObf [0x16], randObf (- 5)]\<rparr>" "\<lambda>k i. of_nat i" 7]
  by (simp add: digits10_def put32_def len_sum_def upt_conv_Cons) (metis not_None_eq)

end
