(* ===== verification/Awg_Framing.thy ===== *)
theory Awg_Framing
  imports Awg_ObfChain
begin

text \<open>
  The obfuscation of WireGuard messages on the wire in \<^verbatim>\<open>awg-ios/device\<close>: the ranges of message types H1 to H4
  (\<^verbatim>\<open>noise-types.go\<close>), the paddings S1 to S4, the header protection cipher, random trailers and junk packets
  (\<^verbatim>\<open>send.go\<close>, \<^verbatim>\<open>noise-protocol.go\<close>), what the receiver does to tell the messages apart (\<^verbatim>\<open>receive.go\<close>) and the
  configuration it rests on (\<^verbatim>\<open>uapi.go\<close>).

  Parameters: \<open>ks nonce i\<close> is byte \<open>i\<close> of the ChaCha20 key stream for the configured key and a nonce, \<open>fr\<close> is the
  runtime's \<^verbatim>\<open>fastrandn\<close>, \<open>rnd k i\<close> is byte \<open>i\<close> of the \<open>k\<close>-th read of random bytes, \<open>seal\<close> is the AEAD of a key
  pair. The body of a handshake message is what the Noise handshake and the cookie generator put there.
\<close>

section \<open>Little-endian integers\<close>

definition le32 :: "u32 \<Rightarrow> bytes" where "le32 w = rev (put32 w)"
definition le64 :: "u64 \<Rightarrow> bytes" where "le64 w = rev (put64 w)"

definition le_uint32 :: "bytes \<Rightarrow> u32 option" where
  "le_uint32 b = (if length b < 4 then None else be_uint32 (rev (take 4 b)))"

lemma length_le [simp]: "length (le32 w) = 4" "length (le64 v) = 8"
  by (simp_all add: le32_def le64_def)

lemma le_uint32_le32 [simp]: "le_uint32 (le32 w @ r) = Some w" "le_uint32 (le32 w) = Some w"
  using be_uint32_put32 [of w "[]"] by (simp_all add: le_uint32_def le32_def)

section \<open>Configuration\<close>

definition MessageUnknownType :: u32 where "MessageUnknownType = 0"
definition MessageInitiationType :: u32 where "MessageInitiationType = 1"
definition MessageResponseType :: u32 where "MessageResponseType = 2"
definition MessageCookieReplyType :: u32 where "MessageCookieReplyType = 3"
definition MessageTransportType :: u32 where "MessageTransportType = 4"
definition MessageInitiationSize :: nat where "MessageInitiationSize = 148"
definition MessageResponseSize :: nat where "MessageResponseSize = 92"
definition MessageCookieReplySize :: nat where "MessageCookieReplySize = 64"
definition MessageTransportHeaderSize :: nat where "MessageTransportHeaderSize = 16"
definition MessageTransportSize :: nat where "MessageTransportSize = MessageTransportHeaderSize + 16"
definition MinMessageSize :: nat where "MinMessageSize = MessageTransportSize"
definition HeaderCipherNonceSize :: nat where "HeaderCipherNonceSize = 12"
definition HeaderCipherKeySize :: nat where "HeaderCipherKeySize = 32"
definition DefaultUdpWindow :: int where "DefaultUdpWindow = 500"
definition PaddingMultiple :: int where "PaddingMultiple = 16"
definition MaxSegmentSize :: nat where "MaxSegmentSize = 1700"

lemmas message_consts = MessageUnknownType_def MessageInitiationType_def MessageResponseType_def MessageCookieReplyType_def
  MessageTransportType_def MessageInitiationSize_def MessageResponseSize_def MessageCookieReplySize_def
  MessageTransportHeaderSize_def MessageTransportSize_def MinMessageSize_def HeaderCipherNonceSize_def HeaderCipherKeySize_def

text \<open>The four of each kind, in the order the code has them.\<close>

record 'a per_message =
  m_init :: 'a
  m_response :: 'a
  m_cookie :: 'a
  m_transport :: 'a

record junk_conf =
  jc_min :: u32
  jc_max :: u32
  jc_count :: u32

record timings_conf =
  rekeyAfterTimeSec :: UintRange
  rekeyTimeoutSec :: UintRange
  rejectAfterTimeSec :: UintRange
  keepaliveTimeoutSec :: UintRange
  maxHandshakeAttemps :: UintRange

record obf_device =
  dv_junk :: junk_conf
  dv_headers :: "UintRange per_message"
  dv_paddings :: "u32 per_message"
  dv_headerKey :: bytes
  dv_contentPaddingAddition :: UintRange
  dv_randomTrailers :: bool
  dv_disableCookies :: bool
  dv_ipackets :: "obfChain option list"
  dv_timings :: timings_conf

definition Key_IsZero :: "bytes \<Rightarrow> bool" where
  "Key_IsZero key \<longleftrightarrow> key = replicate HeaderCipherKeySize 0"

definition default_headers :: "UintRange per_message" where
  "default_headers =
     \<lparr>m_init = FromUint32 MessageInitiationType MessageInitiationType,
      m_response = FromUint32 MessageResponseType MessageResponseType,
      m_cookie = FromUint32 MessageCookieReplyType MessageCookieReplyType,
      m_transport = FromUint32 MessageTransportType MessageTransportType\<rparr>"

text \<open>The settings of a new device: the message types of \<^verbatim>\<open>NewDevice\<close>, everything else zero.\<close>

definition default_device :: obf_device where
  "default_device = \<lparr>dv_junk = \<lparr>jc_min = 0, jc_max = 0, jc_count = 0\<rparr>, dv_headers = default_headers,
     dv_paddings = \<lparr>m_init = 0, m_response = 0, m_cookie = 0, m_transport = 0\<rparr>, dv_headerKey = replicate HeaderCipherKeySize 0,
     dv_contentPaddingAddition = 0, dv_randomTrailers = False, dv_disableCookies = False, dv_ipackets = replicate 5 None,
     dv_timings = \<lparr>rekeyAfterTimeSec = 0, rekeyTimeoutSec = 0, rejectAfterTimeSec = 0, keepaliveTimeoutSec = 0, maxHandshakeAttemps = 0\<rparr>\<rparr>"

text \<open>\<^verbatim>\<open>ipcSetDevice\<close>: a copy of the settings that one configuration request changes, then merges back.\<close>

record ipcSetDevice =
  ipc_headers :: "UintRange per_message"
  ipc_paddings :: "u32 per_message"
  ipc_headerKey :: bytes

definition fromDevice :: "obf_device \<Rightarrow> ipcSetDevice" where
  "fromDevice dev = \<lparr>ipc_headers = dv_headers dev, ipc_paddings = dv_paddings dev, ipc_headerKey = dv_headerKey dev\<rparr>"

definition listed :: "'a per_message \<Rightarrow> 'a list" where
  "listed m = [m_init m, m_response m, m_cookie m, m_transport m]"

datatype merge_error = HeadersOverlap | PaddingTooSmall nat

fun overlapping :: "UintRange list \<Rightarrow> bool" where
  "overlapping [] = False"
| "overlapping (left # rest) = ((\<exists>right\<in>set rest. Overlap left right) \<or> overlapping rest)"

fun small_padding :: "nat \<Rightarrow> u32 list \<Rightarrow> nat option" where
  "small_padding i [] = None"
| "small_padding i (p # ps) = (if unat p < HeaderCipherNonceSize then Some i else small_padding (Suc i) ps)"

text \<open>\<^verbatim>\<open>mergeWithDevice\<close>: the error, if any, and the device, which keeps what was stored before the error.\<close>

definition mergeWithDevice :: "ipcSetDevice \<Rightarrow> obf_device \<Rightarrow> merge_error option \<times> obf_device" where
  "mergeWithDevice d dev =
     (if overlapping (listed (ipc_headers d)) then (Some HeadersOverlap, dev)
      else
        let dev1 = dev\<lparr>dv_headers := ipc_headers d\<rparr> in
        case (if \<not> Key_IsZero (ipc_headerKey d) then small_padding 0 (listed (ipc_paddings d)) else None) of
          Some i \<Rightarrow> (Some (PaddingTooSmall i), dev1)
        | None \<Rightarrow> (None, dev1\<lparr>dv_paddings := ipc_paddings d, dv_headerKey := ipc_headerKey d\<rparr>))"

section \<open>Sending\<close>

definition rand_bytes :: "(nat \<Rightarrow> nat \<Rightarrow> u8) \<Rightarrow> nat \<Rightarrow> nat \<Rightarrow> bytes" where
  "rand_bytes rnd k n = map (rnd k) [0..<n]"

text \<open>The cipher is the key stream of a nonce, \<open>None\<close> without a key. The stream is used from position \<open>pos\<close> on.\<close>

definition HeaderProtectionCipher :: "(bytes \<Rightarrow> nat \<Rightarrow> u8) \<Rightarrow> obf_device \<Rightarrow> bytes \<Rightarrow> (nat \<Rightarrow> u8) option" where
  "HeaderProtectionCipher ks dev salt = (if Key_IsZero (dv_headerKey dev) then None else Some (ks salt))"

fun XORKeyStream :: "(nat \<Rightarrow> u8) \<Rightarrow> nat \<Rightarrow> bytes \<Rightarrow> bytes" where
  "XORKeyStream s pos [] = []"
| "XORKeyStream s pos (b # src) = (b XOR s pos) # XORKeyStream s (Suc pos) src"

definition xor_all :: "(nat \<Rightarrow> u8) option \<Rightarrow> bytes \<Rightarrow> bytes" where
  "xor_all cip b = (case cip of None \<Rightarrow> b | Some s \<Rightarrow> XORKeyStream s 0 b)"

definition peer_randomTrailer :: "(u32 \<Rightarrow> u32) \<Rightarrow> obf_device \<Rightarrow> u32 \<Rightarrow> int \<Rightarrow> int" where
  "peer_randomTrailer fr dev udpWindow packetSize =
     (if \<not> dv_randomTrailers dev then - 1
      else if uint udpWindow < packetSize then 0
      else int (unat (fr (of_int (uint udpWindow - packetSize)))))"

definition device_randomTrailer :: "(u32 \<Rightarrow> u32) \<Rightarrow> obf_device \<Rightarrow> int \<Rightarrow> int" where
  "device_randomTrailer fr dev packetSize =
     (if \<not> dv_randomTrailers dev then - 1
      else if DefaultUdpWindow < packetSize then 0
      else int (unat (fr (of_int (DefaultUdpWindow - packetSize)))))"

text \<open>
  The end of \<^verbatim>\<open>SendHandshakeInitiation\<close>, \<^verbatim>\<open>SendHandshakeResponse\<close> and \<^verbatim>\<open>SendHandshakeCookie\<close>: the buffer with random
  padding, the message and a trailer that is still zero; the cipher takes its nonce from the front of the buffer,
  then the message is enciphered in place and the trailer filled.
\<close>

definition handshake_packet :: "(bytes \<Rightarrow> nat \<Rightarrow> u8) \<Rightarrow> (nat \<Rightarrow> nat \<Rightarrow> u8) \<Rightarrow> obf_device \<Rightarrow> nat \<Rightarrow> bytes \<Rightarrow> nat \<Rightarrow> bytes" where
  "handshake_packet ks rnd dev padding msg trailerLen =
     (let crypt = rand_bytes rnd 0 padding;
          cip = HeaderProtectionCipher ks dev (take HeaderCipherNonceSize (crypt @ msg @ replicate trailerLen 0))
      in crypt @ xor_all cip msg @ rand_bytes rnd 1 trailerLen)"

definition initiation_datagram :: "(bytes \<Rightarrow> nat \<Rightarrow> u8) \<Rightarrow> (u32 \<Rightarrow> u32) \<Rightarrow> (nat \<Rightarrow> nat \<Rightarrow> u8) \<Rightarrow> obf_device \<Rightarrow> u32 \<Rightarrow> bytes \<Rightarrow> bytes" where
  "initiation_datagram ks fr rnd dev udpWindow body =
     (let padding = unat (m_init (dv_paddings dev));
          trailerLen = nat (max (peer_randomTrailer fr dev udpWindow (int (padding + MessageInitiationSize))) 0)
      in handshake_packet ks rnd dev padding (le32 (PickOne fr (m_init (dv_headers dev))) @ body) trailerLen)"

definition response_datagram :: "(bytes \<Rightarrow> nat \<Rightarrow> u8) \<Rightarrow> (u32 \<Rightarrow> u32) \<Rightarrow> (nat \<Rightarrow> nat \<Rightarrow> u8) \<Rightarrow> obf_device \<Rightarrow> u32 \<Rightarrow> bytes \<Rightarrow> bytes" where
  "response_datagram ks fr rnd dev udpWindow body =
     (let padding = unat (m_response (dv_paddings dev));
          trailerLen = nat (max (peer_randomTrailer fr dev udpWindow (int (padding + MessageResponseSize))) 0)
      in handshake_packet ks rnd dev padding (le32 (PickOne fr (m_response (dv_headers dev))) @ body) trailerLen)"

definition cookie_datagram :: "(bytes \<Rightarrow> nat \<Rightarrow> u8) \<Rightarrow> (u32 \<Rightarrow> u32) \<Rightarrow> (nat \<Rightarrow> nat \<Rightarrow> u8) \<Rightarrow> obf_device \<Rightarrow> bytes \<Rightarrow> bytes" where
  "cookie_datagram ks fr rnd dev body =
     (let padding = unat (m_cookie (dv_paddings dev));
          trailerLen = nat (max (device_randomTrailer fr dev (int (padding + MessageCookieReplySize))) 0)
      in handshake_packet ks rnd dev padding (le32 (PickOne fr (m_cookie (dv_headers dev))) @ body) trailerLen)"

definition JunkPackets :: "(u32 \<Rightarrow> u32) \<Rightarrow> (nat \<Rightarrow> nat \<Rightarrow> u8) \<Rightarrow> obf_device \<Rightarrow> bytes list" where
  "JunkPackets fr rnd dev =
     (let mn = jc_min (dv_junk dev); mx = jc_max (dv_junk dev)
      in map (\<lambda>k. rand_bytes rnd k (unat (mn + fr (mx - mn)))) [0..<unat (jc_count (dv_junk dev))])"

text \<open>
  What one handshake sends at once: the special packets that are set, then the junk packets, then the initiation.
  Each part has random bytes of its own.
\<close>

fun ipackets_loop :: "(nat \<Rightarrow> nat \<Rightarrow> nat \<Rightarrow> u8) \<Rightarrow> u32 \<Rightarrow> nat \<Rightarrow> obfChain option list \<Rightarrow> bytes list option" where
  "ipackets_loop rnd unix i [] = Some []"
| "ipackets_loop rnd unix i (None # cs) = ipackets_loop rnd unix (Suc i) cs"
| "ipackets_loop rnd unix i (Some c # cs) = do { buf \<leftarrow> ipacket (rnd i) unix c; bufs \<leftarrow> ipackets_loop rnd unix (Suc i) cs; Some (buf # bufs) }"

definition handshake_batch ::
  "(bytes \<Rightarrow> nat \<Rightarrow> u8) \<Rightarrow> (u32 \<Rightarrow> u32) \<Rightarrow> (nat \<Rightarrow> nat \<Rightarrow> nat \<Rightarrow> u8) \<Rightarrow> (nat \<Rightarrow> nat \<Rightarrow> u8) \<Rightarrow> (nat \<Rightarrow> nat \<Rightarrow> u8) \<Rightarrow> u32 \<Rightarrow>
   obf_device \<Rightarrow> u32 \<Rightarrow> bytes \<Rightarrow> bytes list option" where
  "handshake_batch ks fr rndI rndJ rnd unix dev udpWindow body = do {
     special \<leftarrow> ipackets_loop rndI unix 0 (dv_ipackets dev);
     Some (special @ JunkPackets fr rndJ dev @ [initiation_datagram ks fr rnd dev udpWindow body]) }"

definition round_up16 :: "int \<Rightarrow> int" where
  "round_up16 n = (n + PaddingMultiple - 1) AND NOT (PaddingMultiple - 1)"

definition calculatePaddingSize :: "int \<Rightarrow> int \<Rightarrow> int" where
  "calculatePaddingSize packetSize mtu =
     (if mtu = 0 then round_up16 packetSize - packetSize
      else
        let lastUnit = (if packetSize > mtu then packetSize mod mtu else packetSize);
            paddedSize = round_up16 lastUnit;
            paddedSize = (if paddedSize > mtu then mtu else paddedSize)
        in paddedSize - lastUnit)"

definition randomPaddingAddition :: "(u32 \<Rightarrow> u32) \<Rightarrow> obf_device \<Rightarrow> int \<Rightarrow> int \<Rightarrow> int" where
  "randomPaddingAddition fr dev packetSize mtu =
     (if Range_IsZero (dv_contentPaddingAddition dev) then - 1
      else
        let add = int (unat (PickOne fr (dv_contentPaddingAddition dev))) in
        if mtu \<noteq> 0 then
          let packetSize = (if packetSize > mtu then packetSize mod mtu else packetSize);
              space = mtu - packetSize
          in if add > space then space else add
        else add)"

text \<open>
  One element of \<^verbatim>\<open>RoutineEncryption\<close>. \<^verbatim>\<open>Seal\<close> appends to the first bytes of the element's buffer; when the result does
  not fit there it is in new memory, and enciphering the header in the buffer no longer reaches it.
\<close>

definition content_padding :: "(u32 \<Rightarrow> u32) \<Rightarrow> obf_device \<Rightarrow> u32 \<Rightarrow> int \<Rightarrow> nat \<Rightarrow> nat \<Rightarrow> nat" where
  "content_padding fr dev udpWindow mtu padding packetSize =
     (let p1 = randomPaddingAddition fr dev (int packetSize) mtu;
          p2 = (if p1 < 0 then peer_randomTrailer fr dev udpWindow (int (packetSize + MinMessageSize + padding)) else p1);
          p3 = (if p2 < 0 then calculatePaddingSize (int packetSize) mtu else p2)
      in nat p3)"

definition encrypt_element ::
  "(bytes \<Rightarrow> nat \<Rightarrow> u8) \<Rightarrow> (u32 \<Rightarrow> u32) \<Rightarrow> (nat \<Rightarrow> nat \<Rightarrow> u8) \<Rightarrow> (u64 \<Rightarrow> bytes \<Rightarrow> bytes) \<Rightarrow> obf_device \<Rightarrow> u32 \<Rightarrow> int \<Rightarrow> u32 \<Rightarrow> u64 \<Rightarrow> bytes \<Rightarrow> bytes" where
  "encrypt_element ks fr rnd seal dev udpWindow mtu remoteIndex nonce packet =
     (let padding = unat (m_transport (dv_paddings dev));
          window = (if unat udpWindow < padding + MinMessageSize + length packet
                    then of_nat (padding + MinMessageSize + length packet) else udpWindow);
          crypt = rand_bytes rnd 0 padding;
          header = le32 (PickOne fr (m_transport (dv_headers dev))) @ le32 remoteIndex @ le64 nonce;
          content = packet @ replicate (content_padding fr dev window mtu padding (length packet)) 0;
          sealed = seal nonce content;
          cip = HeaderProtectionCipher ks dev (take HeaderCipherNonceSize (crypt @ header))
      in crypt @ (if padding + MessageTransportHeaderSize + length sealed \<le> MaxSegmentSize then xor_all cip header else header) @ sealed)"

section \<open>Receiving\<close>

definition applyHash :: "bytes \<Rightarrow> bytes \<Rightarrow> bytes" where
  "applyHash src hash = map2 (XOR) src hash"

definition header_matches :: "UintRange \<Rightarrow> u32 \<Rightarrow> bytes \<Rightarrow> bytes \<Rightarrow> bool" where
  "header_matches header padding packet typeHash =
     (case le_uint32 (applyHash (take 4 (drop (unat padding) packet)) typeHash) of
        None \<Rightarrow> False | Some num \<Rightarrow> Contains header num)"

definition DeterminePacketTypeAndPadding :: "obf_device \<Rightarrow> bytes \<Rightarrow> bytes \<Rightarrow> nat \<times> u32 \<times> u32" where
  "DeterminePacketTypeAndPadding dev packet typeHash =
     (let sz = length packet;
          tr = dv_randomTrailers dev;
          h = dv_headers dev;
          p = dv_paddings dev;
          e1 = unat (m_init p) + MessageInitiationSize;
          e2 = unat (m_response p) + MessageResponseSize;
          e3 = unat (m_cookie p) + MessageCookieReplySize;
          e4 = unat (m_transport p) + MessageTransportSize
      in if (sz = e1 \<or> tr \<and> sz > e1) \<and> header_matches (m_init h) (m_init p) packet typeHash
         then (MessageInitiationSize, MessageInitiationType, m_init p)
         else if (sz = e2 \<or> tr \<and> sz > e2) \<and> header_matches (m_response h) (m_response p) packet typeHash
         then (MessageResponseSize, MessageResponseType, m_response p)
         else if (sz = e3 \<or> tr \<and> sz > e3) \<and> header_matches (m_cookie h) (m_cookie p) packet typeHash
         then (MessageCookieReplySize, MessageCookieReplyType, m_cookie p)
         else if sz \<ge> e4 \<and> header_matches (m_transport h) (m_transport p) packet typeHash
         then (MessageTransportSize, MessageTransportType, m_transport p)
         else (0, MessageUnknownType, 0))"

text \<open>
  The four bytes of key stream that clear the type, and the two steps that clear a message in place: its first
  four bytes, then the rest of its first \<open>n\<close> bytes with the stream from position four on.
\<close>

definition type_hash :: "(nat \<Rightarrow> u8) option \<Rightarrow> bytes" where
  "type_hash cip = (case cip of None \<Rightarrow> replicate 4 0 | Some s \<Rightarrow> XORKeyStream s 0 (replicate 4 0))"

definition clear_type :: "(nat \<Rightarrow> u8) option \<Rightarrow> bytes \<Rightarrow> bytes" where
  "clear_type cip packet = (if cip \<noteq> None then applyHash (take 4 packet) (type_hash cip) @ drop 4 packet else packet)"

definition clear_rest :: "(nat \<Rightarrow> u8) option \<Rightarrow> nat \<Rightarrow> bytes \<Rightarrow> bytes" where
  "clear_rest cip n packet =
     (case cip of None \<Rightarrow> packet
      | Some s \<Rightarrow> take 4 packet @ XORKeyStream s 4 (take (n - 4) (drop 4 packet)) @ drop n packet)"

text \<open>
  One datagram of \<^verbatim>\<open>RoutineReceiveIncoming\<close>, up to the lookup of the key pair or the handshake queue: the type, the
  message in the clear and the padding, or \<open>None\<close> when it is dropped.
\<close>

definition receive_datagram :: "(bytes \<Rightarrow> nat \<Rightarrow> u8) \<Rightarrow> obf_device \<Rightarrow> bytes \<Rightarrow> (u32 \<times> bytes \<times> u32) option" where
  "receive_datagram ks dev datagram =
     (if length datagram < MinMessageSize then None
      else
        let cip = HeaderProtectionCipher ks dev (take HeaderCipherNonceSize datagram);
            (msgSize, msgType, padding) = DeterminePacketTypeAndPadding dev datagram (type_hash cip);
            packet = drop (unat padding) datagram;
            packet = (if msgType \<noteq> MessageTransportType then take msgSize packet else packet);
            packet = clear_type cip packet
        in if msgType = MessageTransportType then
             (if length packet < MessageTransportSize then None else Some (msgType, clear_rest cip MessageTransportHeaderSize packet, padding))
           else if msgType = MessageInitiationType then
             (if length packet \<noteq> MessageInitiationSize then None else Some (msgType, clear_rest cip MessageInitiationSize packet, padding))
           else if msgType = MessageResponseType then
             (if length packet \<noteq> MessageResponseSize then None else Some (msgType, clear_rest cip MessageResponseSize packet, padding))
           else if msgType = MessageCookieReplyType then
             (if length packet \<noteq> MessageCookieReplySize then None else Some (msgType, clear_rest cip MessageCookieReplySize packet, padding))
           else None)"

section \<open>The key stream\<close>

lemma length_XORKeyStream [simp]: "length (XORKeyStream s pos b) = length b"
  by (induction s pos b rule: XORKeyStream.induct) auto

lemma length_xor_all [simp]: "length (xor_all cip b) = length b"
  by (simp add: xor_all_def split: option.split)

lemma XORKeyStream_append: "XORKeyStream s pos (a @ b) = XORKeyStream s pos a @ XORKeyStream s (pos + length a) b"
  by (induction s pos a rule: XORKeyStream.induct) auto

lemma XORKeyStream_twice [simp]: "XORKeyStream s pos (XORKeyStream s pos b) = b"
  by (induction s pos b rule: XORKeyStream.induct) (auto simp: xor.assoc)

lemma XORKeyStream_hash: "length b = n \<Longrightarrow> applyHash (XORKeyStream s pos b) (XORKeyStream s pos (replicate n 0)) = b"
  by (induction s pos b arbitrary: n rule: XORKeyStream.induct) (auto simp: applyHash_def xor.assoc)

lemma applyHash_zero: "length b = n \<Longrightarrow> applyHash b (replicate n 0) = b"
  by (induction b arbitrary: n) (auto simp: applyHash_def)

lemma type_hash_clears:
  assumes "length t = 4"
  shows "applyHash (xor_all cip t) (type_hash cip) = t"
  using assms by (cases cip) (simp_all only: xor_all_def type_hash_def option.case XORKeyStream_hash applyHash_zero)

lemma xor_all_split: "length t = 4 \<Longrightarrow> xor_all cip (t @ r) = xor_all cip t @ (case cip of None \<Rightarrow> r | Some s \<Rightarrow> XORKeyStream s 4 r)"
  by (simp add: xor_all_def XORKeyStream_append split: option.split)

lemma header_matches_iff:
  assumes "drop (unat padding) datagram = xor_all cip (le32 t @ body) @ rest"
  shows "header_matches h padding datagram (type_hash cip) \<longleftrightarrow> Contains h t"
proof -
  have "take 4 (drop (unat padding) datagram) = xor_all cip (le32 t)" by (simp add: assms xor_all_split)
  then show ?thesis by (simp add: header_matches_def type_hash_clears)
qed

section \<open>Classification\<close>

definition conf_ok :: "obf_device \<Rightarrow> bool" where
  "conf_ok dev \<longleftrightarrow> \<not> overlapping (listed (dv_headers dev)) \<and> (\<forall>r\<in>set (listed (dv_headers dev)). Lo r \<le> Hi r) \<and>
     (\<not> Key_IsZero (dv_headerKey dev) \<longrightarrow> (\<forall>p\<in>set (listed (dv_paddings dev)). HeaderCipherNonceSize \<le> unat p))"

text \<open>Whether a length fits a fixed-size message with its padding.\<close>

definition fits :: "obf_device \<Rightarrow> u32 \<Rightarrow> nat \<Rightarrow> nat \<Rightarrow> bool" where
  "fits dev padding msgSize n \<longleftrightarrow> n = unat padding + msgSize \<or> dv_randomTrailers dev \<and> n > unat padding + msgSize"

text \<open>
  A datagram with padding \<open>p\<close> is not taken for the message of another kind when that kind has the same padding,
  because the types differ, or when its size is out of the question.
\<close>

definition apart :: "obf_device \<Rightarrow> u32 \<Rightarrow> nat \<Rightarrow> u32 \<Rightarrow> nat \<Rightarrow> bool" where
  "apart dev q msgSize p n \<longleftrightarrow> q = p \<or> \<not> fits dev q msgSize n"

lemma not_other:
  assumes "apart dev q msgSize p (length datagram)" "drop (unat p) datagram = xor_all cip (le32 t @ body) @ rest"
    and "Contains h t" "\<not> Overlap h' h"
  shows "\<not> (fits dev q msgSize (length datagram) \<and> header_matches h' q datagram (type_hash cip))"
proof
  assume f: "fits dev q msgSize (length datagram) \<and> header_matches h' q datagram (type_hash cip)"
  then have "q = p" using assms(1) by (simp add: apart_def)
  then have "Contains h' t" using f header_matches_iff [OF assms(2)] by simp
  then show False using Overlap_Contains [OF _ assms(3)] assms(4) by blast
qed

lemma Determine_eq:
  "DeterminePacketTypeAndPadding dev datagram th =
     (if fits dev (m_init (dv_paddings dev)) MessageInitiationSize (length datagram) \<and>
         header_matches (m_init (dv_headers dev)) (m_init (dv_paddings dev)) datagram th
      then (MessageInitiationSize, MessageInitiationType, m_init (dv_paddings dev))
      else if fits dev (m_response (dv_paddings dev)) MessageResponseSize (length datagram) \<and>
         header_matches (m_response (dv_headers dev)) (m_response (dv_paddings dev)) datagram th
      then (MessageResponseSize, MessageResponseType, m_response (dv_paddings dev))
      else if fits dev (m_cookie (dv_paddings dev)) MessageCookieReplySize (length datagram) \<and>
         header_matches (m_cookie (dv_headers dev)) (m_cookie (dv_paddings dev)) datagram th
      then (MessageCookieReplySize, MessageCookieReplyType, m_cookie (dv_paddings dev))
      else if length datagram \<ge> unat (m_transport (dv_paddings dev)) + MessageTransportSize \<and>
         header_matches (m_transport (dv_headers dev)) (m_transport (dv_paddings dev)) datagram th
      then (MessageTransportSize, MessageTransportType, m_transport (dv_paddings dev))
      else (0, MessageUnknownType, 0))"
  by (simp add: DeterminePacketTypeAndPadding_def fits_def Let_def)

section \<open>Clearing\<close>

lemma clear_packet:
  assumes "length t = 4" "n = 4 + length b"
  shows "clear_rest cip n (clear_type cip (xor_all cip (t @ b) @ rest)) = t @ b @ rest"
    and "length (clear_type cip (xor_all cip (t @ b) @ rest)) = 4 + length b + length rest"
proof -
  have c: "clear_type cip (xor_all cip (t @ b) @ rest) = t @ (case cip of None \<Rightarrow> b | Some s \<Rightarrow> XORKeyStream s 4 b) @ rest"
  proof (cases cip)
    case (Some s)
    have "xor_all cip (t @ b) @ rest = xor_all cip t @ XORKeyStream s 4 b @ rest" using xor_all_split [OF assms(1)] Some by simp
    then show ?thesis using assms(1) Some type_hash_clears [OF assms(1), of cip] by (simp add: clear_type_def)
  qed (simp add: clear_type_def xor_all_def)
  show "clear_rest cip n (clear_type cip (xor_all cip (t @ b) @ rest)) = t @ b @ rest"
    unfolding c using assms by (simp add: clear_rest_def split: option.split)
  show "length (clear_type cip (xor_all cip (t @ b) @ rest)) = 4 + length b + length rest"
    unfolding c using assms by (simp split: option.split)
qed

lemma message_types_differ:
  "MessageInitiationType \<noteq> MessageTransportType" "MessageResponseType \<noteq> MessageTransportType" "MessageCookieReplyType \<noteq> MessageTransportType"
  "MessageResponseType \<noteq> MessageInitiationType" "MessageCookieReplyType \<noteq> MessageInitiationType" "MessageCookieReplyType \<noteq> MessageResponseType"
  by (simp_all add: message_consts)

lemma receive_fixed:
  assumes d: "datagram = crypt @ xor_all cip (le32 t @ body) @ rest" "length crypt = unat padding"
    and c: "cip = HeaderProtectionCipher ks dev (take HeaderCipherNonceSize datagram)"
    and det: "DeterminePacketTypeAndPadding dev datagram (type_hash cip) = (msgSize, ty, padding)"
    and k: "(ty, msgSize) \<in> {(MessageInitiationType, MessageInitiationSize), (MessageResponseType, MessageResponseSize), (MessageCookieReplyType, MessageCookieReplySize)}"
    and len: "4 + length body = msgSize"
  shows "receive_datagram ks dev datagram = Some (ty, le32 t @ body, padding)"
proof -
  let ?p = "xor_all cip (le32 t @ body)"
  have p: "take msgSize (drop (unat padding) datagram) = ?p" using d len by simp
  have "\<not> length datagram < MinMessageSize" using d len k by (auto simp: message_consts)
  moreover have "length (clear_type cip ?p) = msgSize" "clear_rest cip msgSize (clear_type cip ?p) = le32 t @ body"
    using clear_packet [of "le32 t" msgSize body cip "[]"] len by simp_all
  moreover have ty: "ty \<noteq> MessageTransportType" using k by (auto simp: message_consts)
  ultimately show ?thesis using k p unfolding receive_datagram_def c [symmetric] Let_def det by (auto simp: message_types_differ message_types_differ [symmetric])
qed

lemma receive_transport:
  assumes d: "datagram = crypt @ xor_all cip (le32 t @ hdr) @ sealed" "length crypt = unat padding"
    and c: "cip = HeaderProtectionCipher ks dev (take HeaderCipherNonceSize datagram)"
    and det: "DeterminePacketTypeAndPadding dev datagram (type_hash cip) = (msgSize, MessageTransportType, padding)"
    and len: "4 + length hdr = MessageTransportHeaderSize" "16 \<le> length sealed"
  shows "receive_datagram ks dev datagram = Some (MessageTransportType, le32 t @ hdr @ sealed, padding)"
proof -
  let ?p = "xor_all cip (le32 t @ hdr) @ sealed"
  have p: "drop (unat padding) datagram = ?p" using d by simp
  have "\<not> length datagram < MinMessageSize" using d len by (simp add: message_consts)
  moreover have "\<not> length (clear_type cip ?p) < MessageTransportSize" "clear_rest cip MessageTransportHeaderSize (clear_type cip ?p) = le32 t @ hdr @ sealed"
    using clear_packet [of "le32 t" MessageTransportHeaderSize hdr cip sealed] len by (simp_all add: message_consts)
  ultimately show ?thesis unfolding receive_datagram_def c [symmetric] Let_def det by (simp add: p)
qed

text \<open>The nonce the sender takes is the front of the datagram, since with a key the padding covers it.\<close>

lemma nonce_front:
  assumes "Key_IsZero (dv_headerKey dev) \<or> HeaderCipherNonceSize \<le> length crypt"
  shows "HeaderProtectionCipher ks dev (take HeaderCipherNonceSize (crypt @ x)) = HeaderProtectionCipher ks dev (take HeaderCipherNonceSize (crypt @ y))"
  using assms by (auto simp: HeaderProtectionCipher_def)

lemma length_rand_bytes [simp]: "length (rand_bytes rnd k n) = n"
  by (simp add: rand_bytes_def)

lemma conf_okD:
  assumes "conf_ok dev"
  shows "Key_IsZero (dv_headerKey dev) \<or> (\<forall>p\<in>set (listed (dv_paddings dev)). HeaderCipherNonceSize \<le> unat p)"
    and "r \<in> set (listed (dv_headers dev)) \<Longrightarrow> Lo r \<le> Hi r"
    and "\<not> Overlap (m_init (dv_headers dev)) (m_response (dv_headers dev))" "\<not> Overlap (m_init (dv_headers dev)) (m_cookie (dv_headers dev))"
      "\<not> Overlap (m_init (dv_headers dev)) (m_transport (dv_headers dev))" "\<not> Overlap (m_response (dv_headers dev)) (m_cookie (dv_headers dev))"
      "\<not> Overlap (m_response (dv_headers dev)) (m_transport (dv_headers dev))" "\<not> Overlap (m_cookie (dv_headers dev)) (m_transport (dv_headers dev))"
  using assms by (auto simp: conf_ok_def listed_def)

lemma handshake_packet_shape:
  assumes "conf_ok dev" "padding \<in> set (listed (dv_paddings dev))"
  shows "\<exists>crypt cip rest. handshake_packet ks rnd dev (unat padding) msg n = crypt @ xor_all cip msg @ rest \<and> length crypt = unat padding \<and>
    length rest = n \<and> cip = HeaderProtectionCipher ks dev (take HeaderCipherNonceSize (crypt @ xor_all cip msg @ rest))"
proof -
  let ?c = "rand_bytes rnd 0 (unat padding)"
  have "Key_IsZero (dv_headerKey dev) \<or> HeaderCipherNonceSize \<le> length ?c" using conf_okD(1) [OF assms(1)] assms(2) by auto
  note nf = nonce_front [OF this, of ks]
  let ?cip = "HeaderProtectionCipher ks dev (take HeaderCipherNonceSize (?c @ msg @ replicate n 0))"
  have "handshake_packet ks rnd dev (unat padding) msg n = ?c @ xor_all ?cip msg @ rand_bytes rnd 1 n"
    by (simp add: handshake_packet_def Let_def)
  moreover have "?cip = HeaderProtectionCipher ks dev (take HeaderCipherNonceSize (?c @ xor_all ?cip msg @ rand_bytes rnd 1 n))" by (rule nf)
  ultimately show ?thesis by (metis length_rand_bytes)
qed

lemma sent_fixed:
  assumes "conf_ok dev" "padding \<in> set (listed (dv_paddings dev))" "d = handshake_packet ks rnd dev (unat padding) (le32 t @ body) n"
    and "n = 0 \<or> dv_randomTrailers dev" "4 + length body = msgSize"
  obtains crypt cip rest where "d = crypt @ xor_all cip (le32 t @ body) @ rest" "length crypt = unat padding"
    "cip = HeaderProtectionCipher ks dev (take HeaderCipherNonceSize d)" "fits dev padding msgSize (length d)"
    "drop (unat padding) d = xor_all cip (le32 t @ body) @ rest"
proof -
  obtain crypt cip rest where s: "d = crypt @ xor_all cip (le32 t @ body) @ rest" "length crypt = unat padding" "length rest = n"
    "cip = HeaderProtectionCipher ks dev (take HeaderCipherNonceSize d)"
    using handshake_packet_shape [OF assms(1,2), of ks rnd "le32 t @ body" n] assms(3) by metis
  moreover have "fits dev padding msgSize (length d)" using s(1-3) assms(4,5) by (auto simp: fits_def)
  moreover have "drop (unat padding) d = xor_all cip (le32 t @ body) @ rest" by (subst s(1)) (simp add: s(2))
  ultimately show ?thesis using that by blast
qed

lemma trailer_len:
  "nat (max (peer_randomTrailer fr dev w k) 0) = 0 \<or> dv_randomTrailers dev"
  "nat (max (device_randomTrailer fr dev k) 0) = 0 \<or> dv_randomTrailers dev"
  by (simp_all add: peer_randomTrailer_def device_randomTrailer_def)

lemma listed_members: "m_init m \<in> set (listed m)" "m_response m \<in> set (listed m)" "m_cookie m \<in> set (listed m)" "m_transport m \<in> set (listed m)"
  by (simp_all add: listed_def)

lemma receive_initiation:
  assumes "conf_ok dev" "fastrandn_ok fr" "4 + length body = MessageInitiationSize"
  shows "receive_datagram ks dev (initiation_datagram ks fr rnd dev w body) =
    Some (MessageInitiationType, le32 (PickOne fr (m_init (dv_headers dev))) @ body, m_init (dv_paddings dev))"
proof -
  let ?t = "PickOne fr (m_init (dv_headers dev))" and ?p = "m_init (dv_paddings dev)"
  define d where "d = initiation_datagram ks fr rnd dev w body"
  have t: "Contains (m_init (dv_headers dev)) ?t" using PickOne_Contains [OF assms(2) conf_okD(2) [OF assms(1)]] listed_members by blast
  obtain crypt cip rest where s: "d = crypt @ xor_all cip (le32 ?t @ body) @ rest" "length crypt = unat ?p"
    "cip = HeaderProtectionCipher ks dev (take HeaderCipherNonceSize d)" "fits dev ?p MessageInitiationSize (length d)"
    "drop (unat ?p) d = xor_all cip (le32 ?t @ body) @ rest"
    by (rule sent_fixed [OF assms(1) listed_members(1), of d ks rnd ?t body, OF _ trailer_len(1) assms(3)])
      (simp add: d_def initiation_datagram_def Let_def)
  have "DeterminePacketTypeAndPadding dev d (type_hash cip) = (MessageInitiationSize, MessageInitiationType, ?p)"
    using s(4) header_matches_iff [OF s(5)] t by (simp add: Determine_eq)
  from receive_fixed [OF s(1-3) this _ assms(3)] show ?thesis by (simp add: d_def)
qed

lemma receive_response:
  assumes "conf_ok dev" "fastrandn_ok fr" "4 + length body = MessageResponseSize"
    and d: "d = response_datagram ks fr rnd dev w body"
    and a: "apart dev (m_init (dv_paddings dev)) MessageInitiationSize (m_response (dv_paddings dev)) (length d)"
  shows "receive_datagram ks dev d =
    Some (MessageResponseType, le32 (PickOne fr (m_response (dv_headers dev))) @ body, m_response (dv_paddings dev))"
proof -
  let ?t = "PickOne fr (m_response (dv_headers dev))" and ?p = "m_response (dv_paddings dev)"
  have t: "Contains (m_response (dv_headers dev)) ?t" using PickOne_Contains [OF assms(2) conf_okD(2) [OF assms(1)]] listed_members by blast
  obtain crypt cip rest where s: "d = crypt @ xor_all cip (le32 ?t @ body) @ rest" "length crypt = unat ?p"
    "cip = HeaderProtectionCipher ks dev (take HeaderCipherNonceSize d)" "fits dev ?p MessageResponseSize (length d)"
    "drop (unat ?p) d = xor_all cip (le32 ?t @ body) @ rest"
    by (rule sent_fixed [OF assms(1) listed_members(2), of d ks rnd ?t body, OF _ trailer_len(1) assms(3)])
      (simp add: d response_datagram_def Let_def)
  have "DeterminePacketTypeAndPadding dev d (type_hash cip) = (MessageResponseSize, MessageResponseType, ?p)"
    using s(4) header_matches_iff [OF s(5)] t not_other [OF a s(5) t conf_okD(3) [OF assms(1)]] by (auto simp: Determine_eq)
  from receive_fixed [OF s(1-3) this _ assms(3)] show ?thesis by simp
qed

lemma receive_cookie:
  assumes "conf_ok dev" "fastrandn_ok fr" "4 + length body = MessageCookieReplySize"
    and d: "d = cookie_datagram ks fr rnd dev body"
    and a: "apart dev (m_init (dv_paddings dev)) MessageInitiationSize (m_cookie (dv_paddings dev)) (length d)"
      "apart dev (m_response (dv_paddings dev)) MessageResponseSize (m_cookie (dv_paddings dev)) (length d)"
  shows "receive_datagram ks dev d =
    Some (MessageCookieReplyType, le32 (PickOne fr (m_cookie (dv_headers dev))) @ body, m_cookie (dv_paddings dev))"
proof -
  let ?t = "PickOne fr (m_cookie (dv_headers dev))" and ?p = "m_cookie (dv_paddings dev)"
  have t: "Contains (m_cookie (dv_headers dev)) ?t" using PickOne_Contains [OF assms(2) conf_okD(2) [OF assms(1)]] listed_members by blast
  obtain crypt cip rest where s: "d = crypt @ xor_all cip (le32 ?t @ body) @ rest" "length crypt = unat ?p"
    "cip = HeaderProtectionCipher ks dev (take HeaderCipherNonceSize d)" "fits dev ?p MessageCookieReplySize (length d)"
    "drop (unat ?p) d = xor_all cip (le32 ?t @ body) @ rest"
    by (rule sent_fixed [OF assms(1) listed_members(3), of d ks rnd ?t body, OF _ trailer_len(2) assms(3)])
      (simp add: d cookie_datagram_def Let_def)
  have "DeterminePacketTypeAndPadding dev d (type_hash cip) = (MessageCookieReplySize, MessageCookieReplyType, ?p)"
    using s(4) header_matches_iff [OF s(5)] t not_other [OF a(1) s(5) t conf_okD(4) [OF assms(1)]] not_other [OF a(2) s(5) t conf_okD(6) [OF assms(1)]]
    by (auto simp: Determine_eq)
  from receive_fixed [OF s(1-3) this _ assms(3)] show ?thesis by simp
qed

lemma receive_transport_data:
  assumes "conf_ok dev" "fastrandn_ok fr" "\<And>n c. length (seal n c) = length c + 16"
    and d: "d = encrypt_element ks fr rnd seal dev w mtu idx nonce packet" "length d \<le> MaxSegmentSize"
    and a: "apart dev (m_init (dv_paddings dev)) MessageInitiationSize (m_transport (dv_paddings dev)) (length d)"
      "apart dev (m_response (dv_paddings dev)) MessageResponseSize (m_transport (dv_paddings dev)) (length d)"
      "apart dev (m_cookie (dv_paddings dev)) MessageCookieReplySize (m_transport (dv_paddings dev)) (length d)"
  shows "\<exists>k. receive_datagram ks dev d = Some (MessageTransportType,
    le32 (PickOne fr (m_transport (dv_headers dev))) @ le32 idx @ le64 nonce @ seal nonce (packet @ replicate k 0), m_transport (dv_paddings dev))"
proof -
  let ?t = "PickOne fr (m_transport (dv_headers dev))" and ?p = "m_transport (dv_paddings dev)"
  let ?hdr = "le32 idx @ le64 nonce" and ?c = "rand_bytes rnd 0 (unat (m_transport (dv_paddings dev)))"
  have t: "Contains (m_transport (dv_headers dev)) ?t" using PickOne_Contains [OF assms(2) conf_okD(2) [OF assms(1)]] listed_members by blast
  obtain k where e: "d = (let sealed = seal nonce (packet @ replicate k 0);
      cip = HeaderProtectionCipher ks dev (take HeaderCipherNonceSize (?c @ le32 ?t @ ?hdr))
      in ?c @ (if unat ?p + MessageTransportHeaderSize + length sealed \<le> MaxSegmentSize then xor_all cip (le32 ?t @ ?hdr) else le32 ?t @ ?hdr) @ sealed)"
    using d(1) unfolding encrypt_element_def Let_def by blast
  let ?s = "seal nonce (packet @ replicate k 0)"
  let ?cip = "HeaderProtectionCipher ks dev (take HeaderCipherNonceSize (?c @ le32 ?t @ ?hdr))"
  have len: "length d = unat ?p + 16 + length ?s" unfolding e Let_def by simp
  then have de: "d = ?c @ xor_all ?cip (le32 ?t @ ?hdr) @ ?s" using e d(2) by (simp add: Let_def message_consts)
  have "Key_IsZero (dv_headerKey dev) \<or> HeaderCipherNonceSize \<le> length ?c"
    using conf_okD(1) [OF assms(1)] listed_members(4) [of "dv_paddings dev"] by (metis length_rand_bytes)
  then have c: "?cip = HeaderProtectionCipher ks dev (take HeaderCipherNonceSize d)" unfolding de by (rule nonce_front)
  have dr: "drop (unat ?p) d = xor_all ?cip (le32 ?t @ ?hdr) @ ?s" unfolding de by simp
  have "DeterminePacketTypeAndPadding dev d (type_hash ?cip) = (MessageTransportSize, MessageTransportType, ?p)"
    using header_matches_iff [OF dr] t len assms(3) [of nonce] not_other [OF a(1) dr t conf_okD(5) [OF assms(1)]]
      not_other [OF a(2) dr t conf_okD(7) [OF assms(1)]] not_other [OF a(3) dr t conf_okD(8) [OF assms(1)]]
    by (auto simp: Determine_eq message_consts)
  from receive_transport [OF de _ c this] show ?thesis using assms(3) by (auto simp: message_consts)
qed

section \<open>The configuration\<close>

lemma not_overlapping_ipc:
  assumes "mergeWithDevice d dev = (e, dev')" "\<forall>r\<in>set (listed (ipc_headers d)). Lo r \<le> Hi r" "conf_ok dev"
  shows "conf_ok dev'"
proof -
  have small: "small_padding i ps = None \<Longrightarrow> p \<in> set ps \<Longrightarrow> HeaderCipherNonceSize \<le> unat p" for i ps p
    by (induction i ps rule: small_padding.induct) (auto split: if_splits)
  show ?thesis
  proof (cases "overlapping (listed (ipc_headers d))")
    case True
    then show ?thesis using assms(1,3) by (simp add: mergeWithDevice_def)
  next
    case False
    then show ?thesis using assms small
      by (auto simp: mergeWithDevice_def conf_ok_def Let_def split: option.splits if_splits)
  qed
qed

section \<open>Properties\<close>


lemma default_conf_ok: "conf_ok default_device"
  by (simp add: conf_ok_def default_device_def default_headers_def listed_def Overlap_def Key_IsZero_def message_consts word_le_nat_alt)

lemma zero_fastrandn_ok: "fastrandn_ok (\<lambda>_. 0)"
  by (simp add: fastrandn_ok_def word_gt_0)


end
