(* ===== verification/Awg_IpBits.thy ===== *)
theory Awg_IpBits
  imports Prelude
begin

text \<open>
  The address arithmetic of \<^verbatim>\<open>awg-ios/device/allowedips.go\<close>: \<^verbatim>\<open>commonBits\<close> and \<^verbatim>\<open>maskSelf\<close> as
  the code computes them on bytes and machine words, and the lemmas that read them as the longest
  common prefix and the truncation of bit strings.
\<close>

section \<open>Addresses as bit strings\<close>

definition byte_bits :: "u8 \<Rightarrow> bool list" where
  "byte_bits b = map (\<lambda>i. bit b (7 - i)) [0..<8]"

definition ip_bits :: "bytes \<Rightarrow> bool list" where
  "ip_bits ip = concat (map byte_bits ip)"

text \<open>\<^verbatim>\<open>bits.LeadingZeros32/64\<close>.\<close>

definition LeadingZeros :: "'a::len word \<Rightarrow> nat" where
  "LeadingZeros x = length (takeWhile (\<lambda>i. \<not> bit x i) (rev [0..<LENGTH('a)]))"

definition commonBits :: "bytes \<Rightarrow> bytes \<Rightarrow> nat option" where
  "commonBits ip1 ip2 =
     (let size = length ip1 in
      if size = 4 then do {
        a \<leftarrow> be_uint32 ip1;
        b \<leftarrow> be_uint32 ip2;
        Some (LeadingZeros (a XOR b) mod 256) }
      else if size = 16 then do {
        a \<leftarrow> be_uint64 ip1;
        b \<leftarrow> be_uint64 ip2;
        (if a XOR b \<noteq> 0 then Some (LeadingZeros (a XOR b) mod 256)
         else do {
           a' \<leftarrow> be_uint64 (drop 8 ip1);
           b' \<leftarrow> be_uint64 (drop 8 ip2);
           Some ((64 + LeadingZeros (a' XOR b') mod 256) mod 256) }) }
      else None)"

lemma length_byte_bits [simp]: "length (byte_bits b) = 8"
  by (simp add: byte_bits_def)

lemma length_ip_bits [simp]: "length (ip_bits ip) = 8 * length ip"
  by (induction ip) (auto simp: ip_bits_def)

lemma ip_bits_append: "ip_bits (xs @ ys) = ip_bits xs @ ip_bits ys"
  by (simp add: ip_bits_def)

lemma ip_bits_Cons: "ip_bits (x # xs) = byte_bits x @ ip_bits xs"
  by (simp add: ip_bits_def)

lemma ip_bits_nth:
  "i < 8 * length ip \<Longrightarrow> ip_bits ip ! i = bit (ip ! (i div 8)) (7 - i mod 8)"
proof (induction ip arbitrary: i)
  case (Cons b ip)
  show ?case
  proof (cases "i < 8")
    case True
    then show ?thesis by (simp add: ip_bits_Cons nth_append byte_bits_def)
  next
    case False
    then have "i div 8 = Suc ((i - 8) div 8)" "(i - 8) mod 8 = i mod 8"
      by (simp_all add: le_div_geq le_mod_geq)
    with False Cons show ?thesis by (simp add: ip_bits_Cons nth_append)
  qed
qed simp

lemma byte_bits_inj: "byte_bits a = byte_bits b \<Longrightarrow> a = b"
proof (rule bit_word_eqI)
  fix n assume eq: "byte_bits a = byte_bits b" and n: "n < LENGTH(8)"
  from eq have "byte_bits a ! (7 - n) = byte_bits b ! (7 - n)" by simp
  moreover have "[0..<8] ! (7 - n) = 7 - n" by (subst nth_upt) auto
  ultimately show "bit a n = bit b n" using n by (simp add: byte_bits_def)
qed

lemma ip_bits_inj: "ip_bits xs = ip_bits ys \<Longrightarrow> xs = ys"
proof (induction xs arbitrary: ys)
  case Nil
  then have "length (ip_bits ys) = 0" by (metis length_0_conv ip_bits_def list.map(1) concat.simps(1))
  then show ?case by simp
next
  case (Cons x xs)
  then obtain y ys' where "ys = y # ys'"
    by (metis length_0_conv length_ip_bits mult_is_0 neq_Nil_conv zero_neq_numeral list.distinct(1))
  with Cons show ?case by (auto simp: ip_bits_Cons dest: byte_bits_inj)
qed

section \<open>The length of the common prefix\<close>

definition lcp_len :: "'a list \<Rightarrow> 'a list \<Rightarrow> nat" where
  "lcp_len xs ys = length (takeWhile (\<lambda>(x, y). x = y) (zip xs ys))"

lemma lcp_len_le: "lcp_len xs ys \<le> length xs" "lcp_len xs ys \<le> length ys"
  using length_takeWhile_le [of "\<lambda>(x, y). x = y" "zip xs ys"] by (simp_all add: lcp_len_def)

lemma lcp_len_Cons [simp]: "lcp_len (x # xs) (y # ys) = (if x = y then Suc (lcp_len xs ys) else 0)"
  by (simp add: lcp_len_def)

lemma lcp_len_Nil [simp]: "lcp_len [] ys = 0" "lcp_len xs [] = 0"
  by (simp_all add: lcp_len_def)

lemma le_lcp_len: "k \<le> length xs \<Longrightarrow> length xs = length ys \<Longrightarrow> k \<le> lcp_len xs ys \<longleftrightarrow> take k xs = take k ys"
proof (induction xs arbitrary: ys k)
  case (Cons x xs)
  then obtain y ys' where "ys = y # ys'" by (cases ys) auto
  with Cons show ?case by (cases k) auto
qed simp

lemma lcp_len_differ:
  "length xs = length ys \<Longrightarrow> lcp_len xs ys < length xs \<Longrightarrow> xs ! lcp_len xs ys \<noteq> ys ! lcp_len xs ys"
proof (induction xs arbitrary: ys)
  case (Cons x xs)
  then obtain y ys' where "ys = y # ys'" by (cases ys) auto
  with Cons show ?case by auto
qed simp

lemma lcp_len_append:
  "length xs = length ys \<Longrightarrow>
   lcp_len (xs @ us) (ys @ vs) = (if xs = ys then length xs + lcp_len us vs else lcp_len xs ys)"
proof (induction xs arbitrary: ys)
  case (Cons x xs)
  then obtain y ys' where "ys = y # ys'" by (cases ys) auto
  with Cons show ?case by auto
qed simp

text \<open>The leading zeros of an exclusive or count the leading bits two words share.\<close>

definition word_bits :: "'a::len word \<Rightarrow> bool list" where
  "word_bits x = map (bit x) (rev [0..<LENGTH('a)])"

lemma LeadingZeros_xor: "LeadingZeros (x XOR y) = lcp_len (word_bits x) (word_bits y)"
proof -
  have "lcp_len (map f zs) (map g zs) = length (takeWhile (\<lambda>i. f i = g i) zs)" for f g :: "nat \<Rightarrow> bool" and zs
    by (induction zs) auto
  moreover have "(\<lambda>i. \<not> bit (x XOR y) i) = (\<lambda>i. bit x i = bit y i)"
    by (auto simp: bit_xor_iff)
  ultimately show ?thesis by (simp add: LeadingZeros_def word_bits_def)
qed

lemma word_bits_inj: "word_bits x = word_bits y \<longleftrightarrow> x = y"
  by (auto simp: word_bits_def intro!: bit_word_eqI)

lemma word_xor_eq_0: "x XOR y = 0 \<longleftrightarrow> x = (y :: 'a::len word)"
  by (auto simp: bit_eq_iff bit_xor_iff)

lemma word_bits_nth: "i < LENGTH('a) \<Longrightarrow> word_bits (w :: 'a::len word) ! i = bit w (LENGTH('a) - 1 - i)"
  by (simp add: word_bits_def rev_nth)

lemma length_word_bits [simp]: "length (word_bits (w :: 'a::len word)) = LENGTH('a)"
  by (simp add: word_bits_def)

lemma word_bits_be32: "be_uint32 xs = Some w \<Longrightarrow> word_bits w = ip_bits (take 4 xs)"
proof (cases xs rule: be_uint32.cases)
  case (1 a b c d r)
  assume "be_uint32 xs = Some w"
  with 1 have w: "w = push_bit 24 (ucast a) OR push_bit 16 (ucast b) OR push_bit 8 (ucast c) OR ucast d"
    by simp
  show ?thesis
  proof (rule nth_equalityI)
    fix i assume "i < length (word_bits w)"
    then have i: "i < 32" by simp
    define m j where "m = i div 8" and "j = i mod 8"
    have ij: "i = 8 * m + j" "j < 8" by (simp_all add: m_def j_def)
    with i have "m < 4" by linarith
    then consider "m = 0" | "m = 1" | "m = 2" | "m = 3" by linarith
    moreover have "ip_bits (take 4 xs) ! i = bit (take 4 xs ! m) (7 - j)"
      using i 1 by (simp add: ip_bits_nth m_def j_def)
    moreover have "word_bits w ! i = bit w (31 - i)"
      using i by (simp add: word_bits_nth)
    ultimately show "word_bits w ! i = ip_bits (take 4 xs) ! i"
      using ij 1 unfolding w be32_bit by cases auto
  qed (simp add: 1)
qed auto

lemma word_bits_be64: "be_uint64 xs = Some w \<Longrightarrow> word_bits w = ip_bits (take 8 xs)"
proof (cases xs rule: be_uint64.cases)
  case (1 a b c d e f g h r)
  assume "be_uint64 xs = Some w"
  with 1 have w: "w = push_bit 56 (ucast a) OR push_bit 48 (ucast b) OR push_bit 40 (ucast c)
       OR push_bit 32 (ucast d) OR push_bit 24 (ucast e) OR push_bit 16 (ucast f)
       OR push_bit 8 (ucast g) OR ucast h"
    by simp
  show ?thesis
  proof (rule nth_equalityI)
    fix i assume "i < length (word_bits w)"
    then have i: "i < 64" by simp
    define m j where "m = i div 8" and "j = i mod 8"
    have ij: "i = 8 * m + j" "j < 8" by (simp_all add: m_def j_def)
    with i have "m < 8" by linarith
    then consider "m = 0" | "m = 1" | "m = 2" | "m = 3" | "m = 4" | "m = 5" | "m = 6" | "m = 7" by linarith
    moreover have "ip_bits (take 8 xs) ! i = bit (take 8 xs ! m) (7 - j)"
      using i 1 by (simp add: ip_bits_nth m_def j_def)
    moreover have "word_bits w ! i = bit w (63 - i)"
      using i by (simp add: word_bits_nth)
    ultimately show "word_bits w ! i = ip_bits (take 8 xs) ! i"
      using ij 1 unfolding w be64_bit by cases auto
  qed (simp add: 1)
qed auto

text \<open>\<^verbatim>\<open>commonBits\<close> is the length of the longest common prefix, for both address families.\<close>

lemma commonBits_eq:
  assumes "length a = n" "length b = n" "n = 4 \<or> n = 16"
  shows "commonBits a b = Some (lcp_len (ip_bits a) (ip_bits b))"
  using assms(3)
proof
  assume n: "n = 4"
  obtain x y where xy: "be_uint32 a = Some x" "be_uint32 b = Some y"
    using assms n be_uint32_Some_ex [of a] be_uint32_Some_ex [of b] by auto
  then show ?thesis
    using assms n word_bits_be32 [OF xy(1)] word_bits_be32 [OF xy(2)] lcp_len_le(1) [of "ip_bits a" "ip_bits b"]
    by (simp add: commonBits_def LeadingZeros_xor)
next
  assume n: "n = 16"
  obtain x y where xy: "be_uint64 a = Some x" "be_uint64 b = Some y"
    using assms n be_uint64_Some_ex [of a] be_uint64_Some_ex [of b] by auto
  obtain x' y' where xy': "be_uint64 (drop 8 a) = Some x'" "be_uint64 (drop 8 b) = Some y'"
    using assms n be_uint64_Some_ex [of "drop 8 a"] be_uint64_Some_ex [of "drop 8 b"] by auto
  have split: "ip_bits c = ip_bits (take 8 c) @ ip_bits (drop 8 c)" for c
    by (simp flip: ip_bits_append)
  have "x XOR y = 0 \<longleftrightarrow> ip_bits (take 8 a) = ip_bits (take 8 b)"
    using word_bits_be64 [OF xy(1)] word_bits_be64 [OF xy(2)] word_bits_inj [of x y]
    by (simp add: word_xor_eq_0)
  moreover have "lcp_len (ip_bits (take 8 a)) (ip_bits (take 8 b)) \<le> 64"
    "lcp_len (ip_bits (drop 8 a)) (ip_bits (drop 8 b)) \<le> 64"
    using assms n lcp_len_le(1) [of "ip_bits (take 8 a)"] lcp_len_le(1) [of "ip_bits (drop 8 a)"]
    by simp_all
  ultimately show ?thesis
    using assms n word_bits_be64 [OF xy(1)] word_bits_be64 [OF xy(2)]
      word_bits_be64 [OF xy'(1)] word_bits_be64 [OF xy'(2)] xy xy'
      lcp_len_append [of "ip_bits (take 8 a)" "ip_bits (take 8 b)" "ip_bits (drop 8 a)" "ip_bits (drop 8 b)"]
    unfolding split [of a] split [of b]
    by (simp add: commonBits_def Let_def LeadingZeros_xor)
qed

section \<open>Masking\<close>

text \<open>
  \<^verbatim>\<open>net.CIDRMask(ones, bits)\<close>: nil (here \<open>[]\<close>) unless the mask is one of an address family and
  \<open>ones\<close> fits; otherwise the bytes of \<open>ones\<close> leading one bits.
\<close>

definition CIDRMask :: "nat \<Rightarrow> nat \<Rightarrow> bytes" where
  "CIDRMask ones nbits =
     (if (nbits = 32 \<or> nbits = 128) \<and> ones \<le> nbits
      then map (\<lambda>i. if 8 * (i + 1) \<le> ones then 255
                    else if ones \<le> 8 * i then 0 else NOT (drop_bit (ones - 8 * i) 255)) [0..<nbits div 8]
      else [])"

definition maskSelf :: "nat \<Rightarrow> bytes \<Rightarrow> bytes" where
  "maskSelf cidr bs =
     (let mask = CIDRMask cidr (8 * length bs)
      in map (\<lambda>i. if i < length mask then bs ! i AND mask ! i else bs ! i) [0..<length bs])"

lemma length_maskSelf [simp]: "length (maskSelf k bs) = length bs"
  by (simp add: maskSelf_def Let_def)

lemma u8_255: "(255 :: u8) = - 1"
  by simp

lemma maskSelf_bits:
  assumes "length bs = 4 \<or> length bs = 16" "k \<le> 8 * length bs" "i < 8 * length bs"
  shows "ip_bits (maskSelf k bs) ! i \<longleftrightarrow> i < k \<and> ip_bits bs ! i"
proof -
  define m j where "m = i div 8" and "j = i mod 8"
  have ij: "i = 8 * m + j" "j < 8" by (simp_all add: m_def j_def)
  with assms have m: "m < length bs" by linarith
  have "maskSelf k bs ! m = bs ! m AND
      (if 8 * (m + 1) \<le> k then 255 else if k \<le> 8 * m then 0 else NOT (drop_bit (k - 8 * m) 255))"
    using assms(1,2) m by (auto simp: maskSelf_def CIDRMask_def Let_def)
  then have "bit (maskSelf k bs ! m) (7 - j) \<longleftrightarrow> bit (bs ! m) (7 - j) \<and> 8 * m + j < k"
    using ij(2) unfolding u8_255 by (auto simp: bit_simps)
  moreover have "ip_bits (maskSelf k bs) ! i = bit (maskSelf k bs ! m) (7 - j)"
      "ip_bits bs ! i = bit (bs ! m) (7 - j)"
    using assms by (simp_all add: ip_bits_nth m_def j_def)
  ultimately show ?thesis using ij(1) by blast
qed

lemma ip_bits_maskSelf:
  assumes "length bs = 4 \<or> length bs = 16" "k \<le> 8 * length bs"
  shows "ip_bits (maskSelf k bs) = take k (ip_bits bs) @ replicate (8 * length bs - k) False"
  using assms maskSelf_bits [OF assms]
  by (intro nth_equalityI) (auto simp: nth_append)

end
