(* ===== verification/Awg_Trie.thy ===== *)
theory Awg_Trie
  imports Awg_IpBits
begin

text \<open>
  The compressed binary trie of \<^verbatim>\<open>awg-ios/device/allowedips.go\<close>. A \<^verbatim>\<open>trieEntry\<close> is the
  constructor \<open>Entry\<close>, a nil pointer is \<open>NilEntry\<close>, a pointer into the trie is a path from the
  root (so parent pointers are implicit). \<open>route\<close> is the finite map from bit prefixes to peers a
  trie stands for and \<open>wf_trie\<close> the shape invariant. Insertion, removal and lookup refine map
  update, map deletion and longest-prefix match; none of them panics on a well-formed trie.
\<close>

section \<open>The trie\<close>

text \<open>
  \<^verbatim>\<open>bitAtByte\<close> and \<^verbatim>\<open>bitAtShift\<close> are computed from \<^verbatim>\<open>cidr\<close> when an entry is built and never
  change, so \<open>choose_bit\<close> computes them. It panics beyond the last byte.
\<close>

datatype 'p trieEntry =
    NilEntry
  | Entry (peer_of: "'p option") (cidr_of: nat) (bits_of: bytes) "'p trieEntry" "'p trieEntry"

definition choose_bit :: "nat \<Rightarrow> bytes \<Rightarrow> bool option" where
  "choose_bit cidr ip = map_option (\<lambda>b. bit b (7 - cidr mod 8)) (go_index ip (int (cidr div 8)))"

fun child :: "bool \<Rightarrow> 'p trieEntry \<Rightarrow> 'p trieEntry" where
  "child b (Entry p k bs l r) = (if b then r else l)"
| "child b NilEntry = NilEntry"

fun set_child :: "bool \<Rightarrow> 'p trieEntry \<Rightarrow> 'p trieEntry \<Rightarrow> 'p trieEntry" where
  "set_child b c (Entry p k bs l r) = (if b then Entry p k bs l c else Entry p k bs c r)"
| "set_child b c NilEntry = NilEntry"

fun set_peer :: "'p option \<Rightarrow> 'p trieEntry \<Rightarrow> 'p trieEntry" where
  "set_peer q (Entry p k bs l r) = Entry q k bs l r"
| "set_peer q NilEntry = NilEntry"

lemma set_peer_Nil [simp]: "set_peer q t = NilEntry \<longleftrightarrow> t = NilEntry"
  by (cases t) auto

lemma set_child_Nil [simp]: "set_child b c t = NilEntry \<longleftrightarrow> t = NilEntry"
  by (cases t) auto

text \<open>
  A pointer to an entry is its path from the root. \<open>nodePlacement\<close> returns the path of the
  deepest entry on the way to the prefix (\<open>None\<close> for a nil parent) and whether it is exact.
\<close>

fun nodePlacement :: "'p trieEntry \<Rightarrow> bytes \<Rightarrow> nat \<Rightarrow> (bool list option \<times> bool) option" where
  "nodePlacement NilEntry ip cidr = Some (None, False)"
| "nodePlacement (Entry p k bs l r) ip cidr =
     (if k \<le> cidr then do {
        c \<leftarrow> commonBits bs ip;
        if k \<le> c then
          (if k = cidr then Some (Some [], True)
           else do {
             b \<leftarrow> choose_bit k ip;
             (q, exact) \<leftarrow> (if b then nodePlacement r ip cidr else nodePlacement l ip cidr);
             Some (Some (case q of None \<Rightarrow> [] | Some path \<Rightarrow> b # path), exact) })
        else Some (None, False) }
      else Some (None, False))"

fun modify_at :: "bool list \<Rightarrow> ('p trieEntry \<Rightarrow> 'p trieEntry option) \<Rightarrow> 'p trieEntry \<Rightarrow> 'p trieEntry option" where
  "modify_at [] f t = f t"
| "modify_at (b # path) f (Entry p k bs l r) = do {
     c \<leftarrow> modify_at path f (if b then r else l);
     Some (set_child b c (Entry p k bs l r)) }"
| "modify_at (b # path) f NilEntry = None"

fun entry_at :: "bool list \<Rightarrow> 'p trieEntry \<Rightarrow> 'p trieEntry" where
  "entry_at [] t = t"
| "entry_at (b # path) t = entry_at path (child b t)"

definition newEntry :: "'p option \<Rightarrow> bytes \<Rightarrow> nat \<Rightarrow> 'p trieEntry" where
  "newEntry peer ip cidr = Entry peer cidr (maskSelf cidr ip) NilEntry NilEntry"

text \<open>
  The part of \<^verbatim>\<open>insert\<close> that joins the new entry with the subtree \<open>down\<close> it meets: the new
  entry above \<open>down\<close>, or a peerless entry above both.
\<close>

definition join_down :: "'p trieEntry \<Rightarrow> 'p trieEntry \<Rightarrow> bytes \<Rightarrow> nat \<Rightarrow> 'p trieEntry option" where
  "join_down down newNode ip cidr = do {
     common \<leftarrow> commonBits (bits_of down) ip;
     let cidr = (if common < cidr then common else cidr);
     if cidr_of newNode = cidr then do {
       bit \<leftarrow> choose_bit (cidr_of newNode) (bits_of down);
       Some (set_child bit down newNode) }
     else do {
       let node = newEntry None (bits_of newNode) cidr;
       bit \<leftarrow> choose_bit cidr (bits_of down);
       bit' \<leftarrow> choose_bit cidr (bits_of newNode);
       Some (set_child bit' newNode (set_child bit down node)) } }"

text \<open>The part of \<^verbatim>\<open>insert\<close> below an existing inexact parent entry.\<close>

definition attach :: "'p trieEntry \<Rightarrow> bytes \<Rightarrow> nat \<Rightarrow> 'p trieEntry \<Rightarrow> 'p trieEntry option" where
  "attach newNode ip cidr node = do {
     bit \<leftarrow> choose_bit (cidr_of node) ip;
     let down = child bit node;
     if down = NilEntry then Some (set_child bit newNode node)
     else do {
       sub \<leftarrow> join_down down newNode ip cidr;
       bit' \<leftarrow> choose_bit (cidr_of node) (bits_of sub);
       Some (set_child bit' sub node) } }"

text \<open>
  \<^verbatim>\<open>parentIndirection.insert\<close>. The new entry's \<^verbatim>\<open>bits\<close> alias \<open>ip\<close>, so after \<^verbatim>\<open>maskSelf\<close> the
  rest of the method reads the masked address.
\<close>

definition insert_trie :: "'p trieEntry \<Rightarrow> bytes \<Rightarrow> nat \<Rightarrow> 'p \<Rightarrow> 'p trieEntry option" where
  "insert_trie t ip cidr peer =
     (if t = NilEntry then Some (newEntry (Some peer) ip cidr)
      else do {
        (node, exact) \<leftarrow> nodePlacement t ip cidr;
        let newNode = newEntry (Some peer) ip cidr;
        let ip' = maskSelf cidr ip;
        case node of
          None \<Rightarrow> join_down t newNode ip' cidr
        | Some path \<Rightarrow>
            if exact then modify_at path (\<lambda>e. Some (set_peer (Some peer) e)) t
            else modify_at path (attach newNode ip' cidr) t })"

fun lookup_trie :: "'p trieEntry \<Rightarrow> bytes \<Rightarrow> 'p option \<Rightarrow> 'p option option" where
  "lookup_trie NilEntry ip found = Some found"
| "lookup_trie (Entry p k bs l r) ip found = do {
     c \<leftarrow> commonBits bs ip;
     if k \<le> c then
       (let found' = (if p \<noteq> None then p else found) in
        if k div 8 = length ip mod 256 then Some found'
        else do {
          b \<leftarrow> choose_bit k ip;
          if b then lookup_trie r ip found' else lookup_trie l ip found' })
     else Some found }"

text \<open>
  \<^verbatim>\<open>trieEntry.remove\<close> at a path: an entry with two children loses its peer and stays; otherwise
  its only child (or nil) replaces it, and when that leaves a peerless parent with one child,
  the child replaces the parent.
\<close>

definition splice_out :: "'p trieEntry \<Rightarrow> 'p trieEntry" where
  "splice_out e = (if child False e \<noteq> NilEntry then child False e else child True e)"

definition both_children :: "'p trieEntry \<Rightarrow> bool" where
  "both_children e \<longleftrightarrow> child False e \<noteq> NilEntry \<and> child True e \<noteq> NilEntry"

definition remove_trie :: "bool list \<Rightarrow> 'p trieEntry \<Rightarrow> 'p trieEntry option" where
  "remove_trie path t =
     (let node = entry_at path t in
      if both_children node then modify_at path (\<lambda>e. Some (set_peer None e)) t
      else do {
        t' \<leftarrow> modify_at path (\<lambda>e. Some (splice_out e)) t;
        if child False node \<noteq> NilEntry \<or> child True node \<noteq> NilEntry \<or> path = [] then Some t'
        else let parent = entry_at (butlast path) t' in
          if peer_of parent \<noteq> None then Some t'
          else modify_at (butlast path) (\<lambda>e. Some (child (\<not> last path) e)) t' })"

section \<open>The map a trie stands for\<close>

abbreviation pfx :: "'p trieEntry \<Rightarrow> bool list" where
  "pfx t \<equiv> take (cidr_of t) (ip_bits (bits_of t))"

definition under :: "bool list \<Rightarrow> 'p trieEntry \<Rightarrow> bool" where
  "under q t \<longleftrightarrow> t = NilEntry \<or> prefix q (pfx t)"

lemma under_Nil [simp]: "under q NilEntry"
  by (simp add: under_def)

fun wf_trie :: "nat \<Rightarrow> 'p trieEntry \<Rightarrow> bool" where
  "wf_trie n NilEntry \<longleftrightarrow> True"
| "wf_trie n (Entry p k bs l r) \<longleftrightarrow>
     length bs = n \<and> k \<le> 8 * n \<and> drop k (ip_bits bs) = replicate (8 * n - k) False \<and>
     under (take k (ip_bits bs) @ [False]) l \<and> under (take k (ip_bits bs) @ [True]) r \<and>
     (p = None \<longrightarrow> l \<noteq> NilEntry \<and> r \<noteq> NilEntry) \<and> wf_trie n l \<and> wf_trie n r"

fun route :: "'p trieEntry \<Rightarrow> bool list \<Rightarrow> 'p option" where
  "route NilEntry q = None"
| "route (Entry p k bs l r) q =
     (if q = take k (ip_bits bs) then p
      else if prefix (take k (ip_bits bs)) q then (if q ! k then route r q else route l q)
      else None)"

lemma choose_bit_eq: "k < 8 * length ip \<Longrightarrow> choose_bit k ip = Some (ip_bits ip ! k)"
  by (auto simp: choose_bit_def go_index_def ip_bits_nth nat_div_distrib)

lemma commonBits_match:
  assumes "length a = n" "length b = n" "n = 4 \<or> n = 16"
  obtains c where "commonBits a b = Some c" "\<And>k. k \<le> 8 * n \<Longrightarrow> k \<le> c \<longleftrightarrow> take k (ip_bits a) = take k (ip_bits b)"
  using commonBits_eq [OF assms] le_lcp_len [of _ "ip_bits a" "ip_bits b"] assms by auto

lemma route_pfx: "route t q \<noteq> None \<Longrightarrow> prefix (pfx t) q"
  by (cases t) (auto split: if_splits)

lemma route_under: "under X t \<Longrightarrow> route t q \<noteq> None \<Longrightarrow> prefix X q"
  using route_pfx [of t q] by (cases t) (auto simp: under_def intro: prefix_order.trans)

lemma route_outside: "under X t \<Longrightarrow> \<not> prefix X q \<Longrightarrow> route t q = None"
  using route_under by blast

lemma prefix_snoc_nth:
  "prefix P q \<Longrightarrow> q \<noteq> P \<Longrightarrow> length P = k \<Longrightarrow> prefix (P @ [b]) q \<longleftrightarrow> q ! k = b"
  by (auto simp: prefix_def nth_append neq_Nil_conv)

lemma prefix_nth: "prefix xs ys \<Longrightarrow> i < length xs \<Longrightarrow> ys ! i = xs ! i"
  by (auto simp: prefix_def nth_append)

lemma prefix_take_le: "prefix (take k xs) ys \<Longrightarrow> k \<le> length xs \<Longrightarrow> take k ys = take k xs"
  by (auto simp: prefix_def)

lemma prefix_below:
  assumes "prefix (take k xs) (take m ys)" "k \<le> length xs" "m \<le> length ys" "k < m"
  shows "prefix (take k xs @ [ys ! k]) (take m ys)"
proof -
  have "length (take m ys) \<noteq> length (take k xs)" using assms by simp
  then have "take m ys \<noteq> take k xs" by metis
  then show ?thesis using prefix_snoc_nth [OF assms(1), of k "ys ! k"] assms by simp
qed

text \<open>Below a child, the entry routes as the child does.\<close>

lemma route_child:
  assumes "k \<le> length (ip_bits bs)" "prefix (take k (ip_bits bs) @ [b]) q"
  shows "route (Entry p k bs l r) q = route (if b then r else l) q"
proof -
  let ?P = "take k (ip_bits bs)"
  have "length ?P = k" using assms(1) by simp
  moreover have "prefix ?P q" "q \<noteq> ?P" using assms(2) by (auto simp: prefix_def)
  ultimately have "q ! k = b" using prefix_snoc_nth assms(2) by metis
  then show ?thesis using \<open>prefix ?P q\<close> \<open>q \<noteq> ?P\<close> by simp
qed

lemma route_Entry_iff:
  assumes wf: "wf_trie n (Entry p k bs l r)"
  shows "route (Entry p k bs l r) q =
    (if q = take k (ip_bits bs) then p
     else if route r q \<noteq> None then route r q else route l q)"
proof -
  let ?P = "take k (ip_bits bs)"
  have k: "length ?P = k" "k \<le> length (ip_bits bs)" using wf by auto
  have l: "route l q \<noteq> None \<Longrightarrow> prefix (?P @ [False]) q"
    and r: "route r q \<noteq> None \<Longrightarrow> prefix (?P @ [True]) q"
    using wf route_under by auto
  have ex: "\<not> (prefix (?P @ [False]) q \<and> prefix (?P @ [True]) q)"
    using prefix_snoc_nth [of ?P q k] by (auto simp: prefix_def)
  show ?thesis
  proof (cases "q = ?P \<or> \<not> prefix ?P q")
    case True
    then have "q \<noteq> ?P \<Longrightarrow> route l q = None \<and> route r q = None"
      using l r append_prefixD by blast
    with True show ?thesis by auto
  next
    case False
    then have "prefix (?P @ [q ! k]) q" using prefix_snoc_nth [OF _ _ k(1)] by blast
    then show ?thesis
      using False l r ex by (cases "q ! k"; cases "route l q"; cases "route r q") auto
  qed
qed

section \<open>Lookup is longest-prefix match\<close>

definition is_lpm :: "(bool list \<Rightarrow> 'p option) \<Rightarrow> bool list \<Rightarrow> 'p option \<Rightarrow> bool" where
  "is_lpm R x res \<longleftrightarrow>
     (case res of
        None \<Rightarrow> \<forall>q. prefix q x \<longrightarrow> R q = None
      | Some p \<Rightarrow> \<exists>q. prefix q x \<and> R q = Some p \<and> (\<forall>q'. prefix q' x \<and> R q' \<noteq> None \<longrightarrow> length q' \<le> length q))"

lemma is_lpm_empty: "(\<And>q. prefix q x \<Longrightarrow> R q = None) \<Longrightarrow> is_lpm R x None"
  by (simp add: is_lpm_def)

lemma is_lpmI:
  "prefix q x \<Longrightarrow> R q = Some a \<Longrightarrow>
   (\<And>q'. prefix q' x \<Longrightarrow> R q' \<noteq> None \<Longrightarrow> length q' \<le> length q) \<Longrightarrow> is_lpm R x (Some a)"
  unfolding is_lpm_def option.case by blast

lemma is_lpm_single:
  assumes "prefix P x" "R P = p" and only: "\<And>q. prefix q x \<Longrightarrow> R q \<noteq> None \<Longrightarrow> q = P"
  shows "is_lpm R x p"
proof (cases p)
  case None
  then have "R q = None" if "prefix q x" for q
    using only [OF that] assms(2) by metis
  with None show ?thesis by (simp add: is_lpm_def)
next
  case (Some a)
  then have "prefix P x \<and> R P = Some a \<and> (\<forall>q'. prefix q' x \<and> R q' \<noteq> None \<longrightarrow> length q' \<le> length P)"
    using assms(1,2) only by blast
  with Some show ?thesis unfolding is_lpm_def by auto
qed

lemma is_lpm_entry:
  assumes wf: "wf_trie n (Entry p k bs l r)" and P: "prefix (take k (ip_bits bs)) x" and k: "k < length x"
    and c: "is_lpm (route (if x ! k then r else l)) x res"
  shows "is_lpm (route (Entry p k bs l r)) x (if res = None then p else res)"
proof -
  let ?P = "take k (ip_bits bs)" and ?c = "if x ! k then r else l" and ?t = "Entry p k bs l r"
  have lenP: "length ?P = k" using wf by auto
  have Px: "prefix (?P @ [x ! k]) x" using prefix_snoc_nth [OF P _ lenP] k lenP by fastforce
  have dom: "q = ?P \<or> route ?c q = route ?t q" if "prefix q x" "route ?t q \<noteq> None" for q
  proof (cases "q = ?P")
    case False
    moreover have "prefix ?P q" using route_pfx [OF that(2)] by simp
    ultimately have "prefix (?P @ [q ! k]) q" using prefix_snoc_nth [OF _ _ lenP] by blast
    moreover have "k < length q" using prefix_length_le [OF calculation] lenP by simp
    then have "q ! k = x ! k" using that(1) by (auto simp: prefix_def nth_append)
    ultimately show ?thesis using route_child [of k bs "x ! k" q p l r] wf by auto
  qed simp
  have sub: "route ?t q = route ?c q" and len: "length ?P \<le> length q" if "route ?c q \<noteq> None" for q
  proof -
    have "prefix (?P @ [x ! k]) q" using route_under [OF _ that] wf by (auto split: if_splits)
    then show "route ?t q = route ?c q" "length ?P \<le> length q"
      using route_child [of k bs "x ! k" q p l r] wf by (auto dest: prefix_length_le)
  qed
  have tP: "route ?t ?P = p" by simp
  show ?thesis
  proof (cases res)
    case None
    then have none: "prefix q x \<Longrightarrow> route ?c q = None" for q using c by (simp add: is_lpm_def)
    have only: "q = ?P" if "prefix q x" "route ?t q \<noteq> None" for q
      using dom [OF that] none [OF that(1)] that(2) by auto
    then have "is_lpm (route ?t) x p" using is_lpm_single [of ?P x "route ?t" p] P tP by blast
    then show ?thesis using None by simp
  next
    case (Some a)
    then obtain q where q: "prefix q x" "route ?c q = Some a"
      "\<And>q'. prefix q' x \<Longrightarrow> route ?c q' \<noteq> None \<Longrightarrow> length q' \<le> length q"
      using c by (auto simp: is_lpm_def)
    have "route ?t q = Some a" using sub [of q] q(2) by simp
    then have "is_lpm (route ?t) x (Some a)"
    proof (rule is_lpmI [OF q(1)])
      fix q' assume q': "prefix q' x" "route ?t q' \<noteq> None"
      from dom [OF q'] show "length q' \<le> length q"
        using q(3) [OF q'(1)] q'(2) len [of q] q(2) by auto
    qed
    then show ?thesis using Some by simp
  qed
qed

lemma lookup_trie_lpm:
  assumes "n = 4 \<or> n = 16" "length ip = n" "wf_trie n t"
  shows "\<exists>res. lookup_trie t ip found = Some (if res = None then found else res) \<and>
    is_lpm (route t) (ip_bits ip) res"
  using assms(3)
proof (induction t arbitrary: found)
  case NilEntry
  show ?case by (auto simp: is_lpm_def)
next
  case (Entry p k bs l r)
  let ?P = "take k (ip_bits bs)" and ?t = "Entry p k bs l r" and ?x = "ip_bits ip"
  have bs: "length bs = n" "k \<le> 8 * n" using Entry.prems by auto
  obtain c where c: "commonBits bs ip = Some c" "k \<le> c \<longleftrightarrow> take k (ip_bits bs) = take k ?x"
    using commonBits_match [OF bs(1) assms(2,1)] bs(2) by metis
  have m: "k \<le> c \<longleftrightarrow> prefix ?P ?x"
    using c(2) prefix_take_le [of k "ip_bits bs" ?x] bs assms(2) by (metis length_ip_bits take_is_prefix)
  consider "\<not> k \<le> c" | "k \<le> c" "k = 8 * n" | "k \<le> c" "k < 8 * n" using bs by linarith
  then show ?case
  proof cases
    case 1
    have "route ?t q = None" if "prefix q ?x" for q
      using route_pfx [of ?t q] 1 m that by (auto intro: prefix_order.trans)
    then show ?thesis using c 1 by (auto intro!: exI [of _ None] is_lpm_empty)
  next
    case 2
    then have P: "?P = ?x" using c assms(2) bs by simp
    have "q = ?x" if "prefix q ?x" "route ?t q \<noteq> None" for q
      using route_pfx [OF that(2)] that(1) P by (simp add: prefix_order.antisym)
    moreover have "route ?t ?x = p" using P by simp
    ultimately have "is_lpm (route ?t) ?x p"
      using is_lpm_single [of ?x ?x "route ?t" p] by blast
    moreover have "lookup_trie ?t ip found = Some (if p = None then found else p)"
      using c 2 assms(1,2) by auto
    ultimately show ?thesis by blast
  next
    case 3
    let ?b = "?x ! k" and ?f = "if p \<noteq> None then p else found"
    have "k div 8 \<noteq> length ip mod 256" using 3 assms(1,2) by auto
    then have eq: "lookup_trie ?t ip found = lookup_trie (if ?b then r else l) ip ?f"
      using c 3 assms(2) by (simp add: choose_bit_eq)
    obtain res where res: "lookup_trie (if ?b then r else l) ip ?f = Some (if res = None then ?f else res)"
      "is_lpm (route (if ?b then r else l)) ?x res"
      using Entry.IH(1) [of ?f] Entry.IH(2) [of ?f] Entry.prems by (cases ?b) auto
    have "is_lpm (route ?t) ?x (if res = None then p else res)"
      using is_lpm_entry [OF Entry.prems _ _ res(2)] m 3 assms(2) by simp
    moreover have "lookup_trie ?t ip found =
        Some (if (if res = None then p else res) = None then found else if res = None then p else res)"
      unfolding eq res(1) by (cases res; cases p) simp_all
    ultimately show ?thesis by blast
  qed
qed

section \<open>Insertion is map update\<close>

lemma wf_newEntry:
  assumes "n = 4 \<or> n = 16" "length ip = n" "cidr \<le> 8 * n"
  shows "wf_trie n (newEntry (Some peer) ip cidr)"
    and "pfx (newEntry peer' ip cidr) = take cidr (ip_bits ip)"
    and "take cidr (ip_bits (maskSelf cidr ip)) = take cidr (ip_bits ip)"
    and "drop cidr (ip_bits (maskSelf cidr ip)) = replicate (8 * n - cidr) False"
  using ip_bits_maskSelf [of ip cidr] assms by (auto simp: newEntry_def under_def)

lemma route_newEntry:
  assumes "n = 4 \<or> n = 16" "length ip = n" "cidr \<le> 8 * n"
  shows "route (newEntry p ip cidr) q = (if q = take cidr (ip_bits ip) then p else None)"
  using wf_newEntry(3) [OF assms] by (auto simp: newEntry_def)

lemma take_eq_mono: "take m xs = take m ys \<Longrightarrow> j \<le> m \<Longrightarrow> take j xs = take j ys"
proof -
  assume eq: "take m xs = take m ys" and j: "j \<le> m"
  have "take j xs = take j (take m xs)" using j by (simp add: min_absorb1)
  also have "\<dots> = take j (take m ys)" by (simp only: eq)
  also have "\<dots> = take j ys" using j by (simp add: min_absorb1)
  finally show ?thesis .
qed

text \<open>Where a new prefix \<open>Q\<close> leaves the path to \<open>t\<close>: the length of their common prefix.\<close>

lemma branch_point:
  assumes n: "n = 4 \<or> n = 16" and ip: "length ip = n" "cidr \<le> 8 * n"
    and wf: "wf_trie n (Entry p k bs l r)" and np: "\<not> prefix (take k (ip_bits bs)) (take cidr (ip_bits ip))"
  obtains common c where "commonBits bs (maskSelf cidr ip) = Some common" "c = min common cidr"
    "c < k" "take c (ip_bits bs) = take c (ip_bits ip)"
    "c < cidr \<Longrightarrow> ip_bits bs ! c \<noteq> ip_bits ip ! c"
proof -
  let ?y = "ip_bits bs" and ?m = "ip_bits (maskSelf cidr ip)"
  have bs: "length bs = n" "k \<le> 8 * n" using wf by auto
  have len: "length ?y = length ?m" using bs ip by simp
  define common where "common = lcp_len ?y ?m"
  have cb: "commonBits bs (maskSelf cidr ip) = Some common"
    unfolding common_def using commonBits_eq [OF bs(1) _ n] ip by simp
  let ?c = "min common cidr"
  have tk: "take j ?m = take j (ip_bits ip)" if "j \<le> cidr" for j
    using take_eq_mono [OF wf_newEntry(3) [OF n ip] that] .
  have "take ?c ?y = take ?c ?m"
    using le_lcp_len [OF _ len, of ?c] lcp_len_le(1) [of ?y ?m] by (auto simp: common_def)
  then have eq: "take ?c ?y = take ?c (ip_bits ip)" by (simp add: tk)
  have "?c < k"
  proof (rule ccontr)
    assume "\<not> ?c < k"
    then have "take k ?y = take k (ip_bits ip)" "k \<le> cidr"
      using take_eq_mono [OF eq, of k] by (simp_all add: not_less)
    moreover have "prefix (take k (take cidr (ip_bits ip))) (take cidr (ip_bits ip))"
      by (rule take_is_prefix)
    ultimately show False using np by (simp add: min_absorb1)
  qed
  moreover have "?y ! ?c \<noteq> ip_bits ip ! ?c" if "?c < cidr"
  proof -
    have "common < length ?y" using \<open>?c < k\<close> that bs by auto
    then have "?y ! common \<noteq> ?m ! common" using lcp_len_differ [OF len] by (simp add: common_def)
    moreover have "?m ! common = ip_bits ip ! common"
      using that tk [of "Suc common"] by (metis Suc_leI lessI min_less_iff_disj nth_take less_irrefl)
    ultimately show ?thesis using that by (simp add: min_def split: if_splits)
  qed
  ultimately show thesis using that [OF cb refl _ eq] by blast
qed

lemma set_child_wf:
  assumes "wf_trie n (Entry p k bs l r)" "wf_trie n c" "under (take k (ip_bits bs) @ [b]) c"
    "c \<noteq> NilEntry \<or> p \<noteq> None"
  shows "wf_trie n (set_child b c (Entry p k bs l r))"
  using assms by (cases b) auto

text \<open>What joining a new entry with the subtree it meets achieves.\<close>

lemma join_down_spec:
  assumes n: "n = 4 \<or> n = 16" and ip: "length ip = n" "cidr \<le> 8 * n"
    and wf: "wf_trie n (Entry p k bs l r)" and np: "\<not> prefix (take k (ip_bits bs)) (take cidr (ip_bits ip))"
  shows "\<exists>s. join_down (Entry p k bs l r) (newEntry (Some peer) ip cidr) (maskSelf cidr ip) cidr = Some s \<and>
    wf_trie n s \<and> s \<noteq> NilEntry \<and>
    (\<forall>q. route s q = (if q = take cidr (ip_bits ip) then Some peer else route (Entry p k bs l r) q)) \<and>
    (\<forall>X. prefix X (take cidr (ip_bits ip)) \<and> under X (Entry p k bs l r) \<longrightarrow> under X s)"
proof -
  let ?t = "Entry p k bs l r" and ?N = "newEntry (Some peer) ip cidr" and ?y = "ip_bits bs"
    and ?Q = "take cidr (ip_bits ip)"
  obtain common c where c: "commonBits bs (maskSelf cidr ip) = Some common" "c = min common cidr"
    "c < k" "take c ?y = take c (ip_bits ip)" "c < cidr \<Longrightarrow> ?y ! c \<noteq> ip_bits ip ! c"
    using branch_point [OF assms] by blast
  have bs: "length bs = n" "k \<le> 8 * n" using wf by auto
  have N: "cidr_of ?N = cidr" "bits_of ?N = maskSelf cidr ip" by (simp_all add: newEntry_def)
  note wfN = wf_newEntry [OF n ip]
  have rt: "route ?t q = None" if "\<not> prefix (take (Suc c) ?y) q" for q
    using route_pfx [of ?t q] that c(3)
    by (metis Suc_leI cidr_of_def bits_of_def trieEntry.sel(2,3) min.absorb1 prefix_order.trans take_is_prefix take_take)
  have snoc: "take (Suc c) ?y = take c (ip_bits ip) @ [?y ! c]"
    using c(3,4) bs by (simp add: take_Suc_conv_app_nth)
  show ?thesis
  proof (cases "c = cidr")
    case True
    let ?s = "set_child (?y ! c) ?t ?N"
    have j: "join_down ?t ?N (maskSelf cidr ip) cidr = Some ?s"
      using c True bs by (auto simp: join_down_def N choose_bit_eq Let_def min_def split: if_splits)
    have u: "under (?Q @ [?y ! c]) ?t"
      using c(3) snoc True by (auto simp: under_def) (metis Suc_leI min.absorb1 take_is_prefix take_take)
    have wfs: "wf_trie n ?s"
      using set_child_wf [of n "Some peer" cidr "maskSelf cidr ip" NilEntry NilEntry ?t "?y ! c"] wfN wf u
      by (cases "?y ! c") (simp_all add: newEntry_def)
    have rs: "route ?s q = (if q = ?Q then Some peer else route ?t q)" for q
    proof (cases "q = ?Q \<or> \<not> prefix (?Q @ [?y ! c]) q")
      case True
      then show ?thesis
        using wfN(3) rt [of q] snoc \<open>c = cidr\<close> ip
          prefix_snoc_nth [of ?Q q cidr "?y ! c"]
        by (cases "?y ! c") (auto simp: newEntry_def)
    next
      case False
      then show ?thesis
        using wfN(3) ip route_child [of cidr "maskSelf cidr ip" "?y ! c" q "Some peer"]
        by (cases "?y ! c") (auto simp: newEntry_def)
    qed
    moreover have "under X ?s" if "prefix X ?Q" for X
      using that wfN(2) by (cases "?y ! c") (auto simp: under_def newEntry_def)
    moreover have "?s \<noteq> NilEntry" by (simp add: newEntry_def)
    ultimately show ?thesis using j wfs rs by blast
  next
    case False
    then have lt: "c < cidr" using c(2) by auto
    then have diff: "?y ! c \<noteq> ip_bits ip ! c" and cc: "c = common" using c by auto
    let ?G = "newEntry None (maskSelf cidr ip) c" and ?b = "?y ! c"
    have mc: "ip_bits (maskSelf cidr ip) ! c = (\<not> ?b)"
      using wfN(3) lt diff by (metis nth_take)
    let ?s = "set_child (\<not> ?b) ?N (set_child ?b ?t ?G)"
    have cn: "c \<le> 8 * n" "c < 8 * length (maskSelf cidr ip)" "c < 8 * length bs" using lt ip c(3) bs by auto
    have j: "join_down ?t ?N (maskSelf cidr ip) cidr = Some ?s"
      using c cc lt cn mc by (simp add: join_down_def N choose_bit_eq Let_def)
    have G: "take c (ip_bits (maskSelf c (maskSelf cidr ip))) = take c (ip_bits ip)"
      "drop c (ip_bits (maskSelf c (maskSelf cidr ip))) = replicate (8 * n - c) False"
      using wf_newEntry(3,4) [OF n, of "maskSelf cidr ip" c] ip cn take_eq_mono [OF wfN(3), of c] lt
      by simp_all
    have "?Q = take c ?Q @ ?Q ! c # drop (Suc c) ?Q" using lt ip by (intro id_take_nth_drop) simp
    moreover have "take c ?Q = take c (ip_bits ip)" "?Q ! c = (\<not> ?b)" using lt diff by auto
    ultimately have Qs: "?Q = take c (ip_bits ip) @ (\<not> ?b) # drop (Suc c) ?Q" by simp
    have "prefix (take c (ip_bits ip) @ [\<not> ?b]) ?Q" by (subst Qs) simp
    then have uN: "under (take c (ip_bits ip) @ [\<not> ?b]) ?N"
      by (simp add: under_def wfN(2))
    have ut: "under (take c (ip_bits ip) @ [?b]) ?t"
      using c(3) snoc by (auto simp: under_def) (metis Suc_leI min.absorb1 take_is_prefix take_take)
    have wfs: "wf_trie n ?s"
      using wfN wf uN ut G cn ip by (cases ?b) (auto simp: newEntry_def)
    have rN: "route ?N q = (if q = ?Q then Some peer else None)" for q
      by (rule route_newEntry [OF n ip])
    have tQ: "route ?t ?Q = None" using route_pfx [of ?t ?Q] np by auto
    have "route ?s q = (if route ?N q \<noteq> None then route ?N q else route ?t q)" for q
    proof -
      have "route ?N q \<noteq> None \<Longrightarrow> route ?t q = None"
        using rN [of q] tQ by (auto split: if_splits)
      moreover have "\<not> prefix (take (Suc c) ?y) (take c (ip_bits ip))" "take c (ip_bits ip) \<noteq> ?Q"
        using snoc by (simp, metis Qs append_self_conv list.distinct(1))
      then have "q = take c (ip_bits ip) \<Longrightarrow> route ?N q = None \<and> route ?t q = None"
        using rN rt by simp
      ultimately show ?thesis
        using wfs G by (cases ?b) (auto simp: newEntry_def route_Entry_iff simp del: route.simps(2))
    qed
    then have rs: "route ?s q = (if q = ?Q then Some peer else route ?t q)" for q
      using rN [of q] rN [of ?Q] by simp
    moreover have "under X ?s" if X: "prefix X ?Q" "under X ?t" for X
    proof -
      have "prefix X (take c (ip_bits ip))"
      proof (cases "length X \<le> c")
        case True
        moreover have "prefix (take c (ip_bits ip)) ?Q" using Qs by (auto simp: prefix_def)
        ultimately show ?thesis using X(1) cn(1) ip(1) by (auto intro: prefix_length_prefix)
      next
        case False
        then have "?Q ! c = X ! c" "take k ?y ! c = X ! c"
          using X by (auto simp: under_def prefix_nth)
        then show ?thesis using lt c(3) diff by simp
      qed
      then show ?thesis using G by (cases ?b) (auto simp: under_def newEntry_def)
    qed
    moreover have "?s \<noteq> NilEntry" by (simp add: newEntry_def)
    ultimately show ?thesis using j wfs rs by blast
  qed
qed

text \<open>Below an entry on the way to the prefix, insertion happens in the child.\<close>

lemma nodePlacement_parent: "nodePlacement t ip cidr = Some (None, e) \<Longrightarrow> \<not> e"
  by (cases t) (auto split: if_splits Option.bind_splits)

lemma nodePlacement_step:
  assumes n: "n = 4 \<or> n = 16" and ip: "length ip = n" "cidr \<le> 8 * n"
    and wf: "wf_trie n (Entry p k bs l r)" and P: "prefix (take k (ip_bits bs)) (take cidr (ip_bits ip))"
  shows "k = cidr \<Longrightarrow> nodePlacement (Entry p k bs l r) ip cidr = Some (Some [], True)"
    and "k \<noteq> cidr \<Longrightarrow> k < cidr"
    and "k \<noteq> cidr \<Longrightarrow> nodePlacement (Entry p k bs l r) ip cidr = do {
       (q, exact) \<leftarrow> nodePlacement (if ip_bits ip ! k then r else l) ip cidr;
       Some (Some (case q of None \<Rightarrow> [] | Some path \<Rightarrow> (ip_bits ip ! k) # path), exact) }"
proof -
  have bs: "length bs = n" "k \<le> 8 * n" using wf by auto
  have kc: "k \<le> cidr" using prefix_length_le [OF P] bs ip by simp
  obtain c where c: "commonBits bs ip = Some c" "k \<le> c \<longleftrightarrow> take k (ip_bits bs) = take k (ip_bits ip)"
    using commonBits_match [OF bs(1) ip(1) n] bs(2) by metis
  have "take k (take cidr (ip_bits ip)) = take k (ip_bits bs)"
    using prefix_take_le [OF P] bs by simp
  then have "k \<le> c" using c(2) kc by (simp add: min_absorb1)
  then show "k = cidr \<Longrightarrow> nodePlacement (Entry p k bs l r) ip cidr = Some (Some [], True)"
    and "k \<noteq> cidr \<Longrightarrow> nodePlacement (Entry p k bs l r) ip cidr = do {
       (q, exact) \<leftarrow> nodePlacement (if ip_bits ip ! k then r else l) ip cidr;
       Some (Some (case q of None \<Rightarrow> [] | Some path \<Rightarrow> (ip_bits ip ! k) # path), exact) }"
    using c(1) kc ip choose_bit_eq [of k ip] by (auto simp: if_distrib)
  show "k \<noteq> cidr \<Longrightarrow> k < cidr" using kc by simp
qed

lemma nodePlacement_stop:
  assumes n: "n = 4 \<or> n = 16" and ip: "length ip = n" "cidr \<le> 8 * n"
    and wf: "wf_trie n (Entry p k bs l r)" and P: "\<not> prefix (take k (ip_bits bs)) (take cidr (ip_bits ip))"
  shows "nodePlacement (Entry p k bs l r) ip cidr = Some (None, False)"
proof -
  have bs: "length bs = n" "k \<le> 8 * n" using wf by auto
  obtain c where c: "commonBits bs ip = Some c" "k \<le> c \<longleftrightarrow> take k (ip_bits bs) = take k (ip_bits ip)"
    using commonBits_match [OF bs(1) ip(1) n] bs(2) by metis
  have "\<not> k \<le> c" if "k \<le> cidr"
    using P c(2) that take_is_prefix [of k "take cidr (ip_bits ip)"] by (auto simp: min_absorb1)
  then show ?thesis using c(1) by auto
qed

lemma nodePlacement_total:
  assumes n: "n = 4 \<or> n = 16" and ip: "length ip = n" "cidr \<le> 8 * n" and wf: "wf_trie n t"
  shows "nodePlacement t ip cidr \<noteq> None"
  using wf
proof (induction t)
  case (Entry p k bs l r)
  show ?case
  proof (cases "prefix (take k (ip_bits bs)) (take cidr (ip_bits ip))")
    case True
    then show ?thesis
      using nodePlacement_step [OF n ip Entry.prems True] Entry
      by (cases "k = cidr"; cases "ip_bits ip ! k") auto
  qed (use nodePlacement_stop [OF n ip Entry.prems] in auto)
qed simp

lemma insert_trie_step:
  assumes n: "n = 4 \<or> n = 16" and ip: "length ip = n" "cidr \<le> 8 * n"
    and wf: "wf_trie n (Entry p k bs l r)" and P: "prefix (take k (ip_bits bs)) (take cidr (ip_bits ip))"
    and k: "k \<noteq> cidr"
    and c: "insert_trie (if ip_bits ip ! k then r else l) ip cidr peer = Some c"
      "wf_trie n c" "under (take k (ip_bits bs) @ [ip_bits ip ! k]) c" "c \<noteq> NilEntry"
  shows "insert_trie (Entry p k bs l r) ip cidr peer = Some (set_child (ip_bits ip ! k) c (Entry p k bs l r))"
proof -
  let ?b = "ip_bits ip ! k" and ?t = "Entry p k bs l r"
  let ?ch = "if ?b then r else l" and ?N = "newEntry (Some peer) ip cidr" and ?m = "maskSelf cidr ip"
  note step = nodePlacement_step [OF n ip wf P]
  have ch: "child ?b ?t = ?ch" by simp
  have wfch: "wf_trie n ?ch" using wf by auto
  obtain q e where qe: "nodePlacement ?ch ip cidr = Some (q, e)"
    using nodePlacement_total [OF n ip wfch] by auto
  have bit: "choose_bit k ?m = Some ?b"
    using step(2) [OF k] ip choose_bit_eq [of k ?m] wf_newEntry(3) [OF n ip]
    by (metis length_maskSelf nth_take order_less_le_trans)
  have "length (bits_of c) = n" using c(2,4) by (cases c) auto
  moreover have "prefix (take k (ip_bits bs) @ [?b]) (pfx c)" using c(3,4) by (simp add: under_def)
  then have "pfx c ! k = ?b" "k < cidr_of c"
    using prefix_nth [of "take k (ip_bits bs) @ [?b]" "pfx c" k] prefix_length_le wf
    by (fastforce simp: nth_append)+
  then have "ip_bits (bits_of c) ! k = ?b" by simp
  ultimately have bitc: "choose_bit k (bits_of c) = Some ?b"
    using step(2) [OF k] ip choose_bit_eq [of k "bits_of c"] by simp
  consider "?ch = NilEntry" | "?ch \<noteq> NilEntry" "q = None" | path where "?ch \<noteq> NilEntry" "q = Some path"
    by blast
  then show ?thesis
  proof cases
    case 1
    then have "nodePlacement ?t ip cidr = Some (Some [], False)" using step(3) [OF k] by simp
    then show ?thesis
      using 1 c(1) bit ch by (simp add: insert_trie_def attach_def Let_def)
  next
    case 2
    then have "nodePlacement ?t ip cidr = Some (Some [], False)"
      using step(3) [OF k] qe nodePlacement_parent by fastforce
    moreover have "join_down ?ch ?N ?m cidr = Some c"
      using c(1) 2 qe by (simp add: insert_trie_def)
    ultimately show ?thesis
      using 2 bit bitc ch by (simp add: insert_trie_def attach_def Let_def)
  next
    case (3 path)
    then have "nodePlacement ?t ip cidr = Some (Some (?b # path), e)"
      using step(3) [OF k] qe by simp
    then show ?thesis
      using 3 c(1) qe by (auto simp: insert_trie_def Let_def split: if_splits)
  qed
qed

lemma insert_trie_spec:
  assumes n: "n = 4 \<or> n = 16" and ip: "length ip = n" "cidr \<le> 8 * n" and wf: "wf_trie n t"
  shows "\<exists>t'. insert_trie t ip cidr peer = Some t' \<and> wf_trie n t' \<and> t' \<noteq> NilEntry \<and>
    (\<forall>q. route t' q = (if q = take cidr (ip_bits ip) then Some peer else route t q)) \<and>
    (\<forall>X. prefix X (take cidr (ip_bits ip)) \<and> under X t \<longrightarrow> under X t')"
  using wf
proof (induction t)
  case NilEntry
  show ?case
    using wf_newEntry [OF n ip] route_newEntry [OF n ip, of "Some peer"]
    by (auto simp: insert_trie_def fun_eq_iff under_def newEntry_def)
next
  case (Entry p k bs l r)
  let ?Q = "take cidr (ip_bits ip)" and ?t = "Entry p k bs l r" and ?b = "ip_bits ip ! k"
  show ?case
  proof (cases "prefix (take k (ip_bits bs)) ?Q")
    case False
    have "insert_trie ?t ip cidr peer = join_down ?t (newEntry (Some peer) ip cidr) (maskSelf cidr ip) cidr"
      using nodePlacement_stop [OF n ip Entry.prems False]
      by (simp add: insert_trie_def del: nodePlacement.simps)
    then show ?thesis
      using join_down_spec [OF n ip Entry.prems False, of peer] by (simp only:)
  next
    case P: True
    note step = nodePlacement_step [OF n ip Entry.prems P]
    show ?thesis
    proof (cases "k = cidr")
      case True
      then have "take k (ip_bits bs) = ?Q"
        using prefix_take_le [OF P] Entry.prems ip by simp
      then show ?thesis
        using step(1) [OF True] Entry.prems True
        by (auto simp: insert_trie_def fun_eq_iff under_def)
    next
      case False
      have kP: "length (take k (ip_bits bs)) = k" using Entry.prems by auto
      have Pb: "prefix (take k (ip_bits bs) @ [?b]) ?Q"
        using prefix_below [OF P] step(2) [OF False] Entry.prems ip by simp
      obtain c where c: "insert_trie (if ?b then r else l) ip cidr peer = Some c" "wf_trie n c" "c \<noteq> NilEntry"
        "\<And>q. route c q = (if q = ?Q then Some peer else route (if ?b then r else l) q)"
        "\<And>X. prefix X ?Q \<Longrightarrow> under X (if ?b then r else l) \<Longrightarrow> under X c"
        using Entry.IH Entry.prems by (cases ?b) auto
      have u: "under (take k (ip_bits bs) @ [?b]) c"
        using c(5) [OF Pb] Entry.prems by (cases ?b) auto
      let ?t' = "set_child ?b c ?t"
      have wf': "wf_trie n ?t'" using set_child_wf [OF Entry.prems c(2) u] c(3) by blast
      have rt: "route ?t' q = (if q = ?Q then Some peer else route ?t q)" for q
      proof (cases "prefix (take k (ip_bits bs) @ [?b]) q")
        case True
        then show ?thesis
          using route_child [of k bs ?b q p] kP c(4) by (cases ?b) auto
      next
        case False
        then have "q \<noteq> ?Q" using Pb by blast
        moreover have "route ?t' q = route ?t q"
          using False prefix_snoc_nth [OF _ _ kP, of q ?b] by (cases ?b) auto
        ultimately show ?thesis by simp
      qed
      moreover have "?t' \<noteq> NilEntry" "under X ?t \<Longrightarrow> under X ?t'" for X
        by (cases ?b, auto simp: under_def)+
      ultimately show ?thesis
        using insert_trie_step [OF n ip Entry.prems P False c(1,2) u c(3)] wf' rt by blast
    qed
  qed
qed

section \<open>Removal is map deletion\<close>

lemma under_mono: "under Y t \<Longrightarrow> prefix X Y \<Longrightarrow> under X t"
  unfolding under_def using prefix_order.trans by blast

lemma under_child:
  assumes "wf_trie n (Entry p k bs l r)" "under X (Entry p k bs l r)"
  shows "under X l" "under X r"
proof -
  have X: "prefix X (take k (ip_bits bs) @ [b])" for b
    using assms(2) by (auto simp: under_def)
  show "under X l" by (rule under_mono [OF _ X [of False]]) (use assms(1) in simp)
  show "under X r" by (rule under_mono [OF _ X [of True]]) (use assms(1) in simp)
qed

lemma route_split:
  assumes wf: "wf_trie n (Entry p k bs l r)"
  shows "route (Entry p k bs l r) q =
    (if prefix (take k (ip_bits bs) @ [b]) q then route (if b then r else l) q
     else if q = take k (ip_bits bs) then p else route (child (\<not> b) (Entry p k bs l r)) q)"
proof -
  have kP: "length (take k (ip_bits bs)) = k" using wf by auto
  have u: "under (take k (ip_bits bs) @ [\<not> b]) (child (\<not> b) (Entry p k bs l r))"
    using wf by (cases b) auto
  have "prefix (take k (ip_bits bs) @ [\<not> b]) q \<or> route (child (\<not> b) (Entry p k bs l r)) q = None"
    by (metis route_outside u)
  then show ?thesis
    using route_child [of k bs b q p l r] kP prefix_snoc_nth [OF _ _ kP, of q b]
    by (cases b) (auto dest: append_prefixD)
qed

lemma remove_trie_Cons:
  assumes "entry_at path (if b then r else l) \<noteq> NilEntry"
  shows "remove_trie (b # path) (Entry p k bs l r) = do {
    c \<leftarrow> remove_trie path (if b then r else l);
    Some (if c = NilEntry \<and> path = [] \<and> p = None then child (\<not> b) (Entry p k bs l r)
          else set_child b c (Entry p k bs l r)) }"
proof (cases path)
  case Nil
  then show ?thesis
    by (cases b) (auto simp: remove_trie_def Let_def both_children_def splice_out_def)
next
  case (Cons a path')
  have sc: "set_child b c (Entry p k bs l r) = Entry p k bs (if b then l else c) (if b then c else r)" for c
    by simp
  show ?thesis
    unfolding Cons remove_trie_def
    by (cases "modify_at (a # path') (\<lambda>e. Some (splice_out e)) (if b then r else l)"; cases b)
      (auto simp: Let_def split: Option.bind_splits)
qed

lemma remove_trie_spec:
  assumes n: "n = 4 \<or> n = 16" and ip: "length ip = n" "cidr \<le> 8 * n" and wf: "wf_trie n t"
    and pl: "nodePlacement t ip cidr = Some (Some path, True)"
  shows "entry_at path t \<noteq> NilEntry \<and> cidr_of (entry_at path t) = cidr \<and>
    bits_of (entry_at path t) = maskSelf cidr ip \<and>
    peer_of (entry_at path t) = route t (take cidr (ip_bits ip)) \<and>
    (\<exists>t'. remove_trie path t = Some t' \<and> wf_trie n t' \<and> (t' = NilEntry \<longrightarrow> path = []) \<and>
      (\<forall>q. route t' q = (if q = take cidr (ip_bits ip) then None else route t q)) \<and> (\<forall>X. under X t \<longrightarrow> under X t'))"
  using wf pl
proof (induction t arbitrary: path)
  case (Entry p k bs l r)
  let ?Q = "take cidr (ip_bits ip)" and ?t = "Entry p k bs l r" and ?b = "ip_bits ip ! k"
  have P: "prefix (take k (ip_bits bs)) ?Q"
    using nodePlacement_stop [OF n ip Entry.prems(1)] Entry.prems(2) by force
  have bs: "length bs = n" "k \<le> 8 * n" and kP: "length (take k (ip_bits bs)) = k"
    using Entry.prems by auto
  note step = nodePlacement_step [OF n ip Entry.prems(1) P]
  show ?case
  proof (cases "k = cidr")
    case True
    then have path: "path = []" using step(1) Entry.prems(2) by simp
    have PQ: "take k (ip_bits bs) = ?Q" using prefix_take_le [OF P] True bs by simp
    have "ip_bits bs = ip_bits (maskSelf cidr ip)"
      using PQ True Entry.prems(1) ip_bits_maskSelf [of ip cidr] n ip append_take_drop_id [of k "ip_bits bs"]
      by auto
    then have bits: "bs = maskSelf cidr ip" by (rule ip_bits_inj)
    have rQ: "route l ?Q = None" "route r ?Q = None"
      using route_outside [of "?Q @ [False]" l ?Q] route_outside [of "?Q @ [True]" r ?Q] Entry.prems(1) PQ
      by auto
    have "\<exists>t'. remove_trie [] ?t = Some t' \<and> wf_trie n t' \<and>
        (\<forall>q. route t' q = (if route r q \<noteq> None then route r q else route l q)) \<and>
        (\<forall>X. under X ?t \<longrightarrow> under X t')"
    proof (cases "l = NilEntry \<or> r = NilEntry")
      case True
      then have "remove_trie [] ?t = Some (if l \<noteq> NilEntry then l else r)"
        by (auto simp: remove_trie_def both_children_def splice_out_def Let_def)
      then show ?thesis
        using True Entry.prems(1) under_child [OF Entry.prems(1)] by auto
    next
      case False
      then have "wf_trie n (Entry None k bs l r)" using Entry.prems(1) by simp
      then show ?thesis
        using False route_Entry_iff [of n None k bs l r] rQ PQ
        by (auto simp: remove_trie_def both_children_def under_def simp del: route.simps)
    qed
    moreover have "route ?t q = (if q = ?Q then p else if route r q \<noteq> None then route r q else route l q)" for q
      using route_Entry_iff [OF Entry.prems(1)] PQ by simp
    ultimately show ?thesis
      using path True bits PQ rQ by (auto simp: fun_eq_iff simp del: route.simps)
  next
    case False
    let ?ch = "if ?b then r else l"
    have Pb: "prefix (take k (ip_bits bs) @ [?b]) ?Q"
      using prefix_below [OF P] step(2) [OF False] bs ip by simp
    obtain path' where pl': "nodePlacement ?ch ip cidr = Some (Some path', True)" and path: "path = ?b # path'"
      using step(3) [OF False] Entry.prems(2) nodePlacement_parent [of ?ch ip cidr True]
      by (auto simp del: nodePlacement.simps split: Option.bind_splits option.splits)
    have wfch: "wf_trie n ?ch" using Entry.prems(1) by auto
    obtain c where e: "entry_at path' ?ch \<noteq> NilEntry" "cidr_of (entry_at path' ?ch) = cidr"
        "bits_of (entry_at path' ?ch) = maskSelf cidr ip" "peer_of (entry_at path' ?ch) = route ?ch ?Q"
      and c: "remove_trie path' ?ch = Some c" "wf_trie n c" "c = NilEntry \<Longrightarrow> path' = []"
        "\<And>q. route c q = (if q = ?Q then None else route ?ch q)" "\<And>X. under X ?ch \<Longrightarrow> under X c"
      using Entry.IH(1) [of path'] Entry.IH(2) [of path'] wfch pl' by (cases ?b) auto
    have u: "under (take k (ip_bits bs) @ [?b]) c"
      using c(5) Entry.prems(1) by (cases ?b) auto
    have rt: "route ?t q = (if prefix (take k (ip_bits bs) @ [?b]) q then route ?ch q
        else if q = take k (ip_bits bs) then p else route (child (\<not> ?b) ?t) q)" for q
      using route_split [OF Entry.prems(1), of q ?b] .
    have other: "route (child (\<not> ?b) ?t) q = None"
      if "prefix (take k (ip_bits bs) @ [?b]) q \<or> q = take k (ip_bits bs)" for q
      using that route_outside [of "take k (ip_bits bs) @ [\<not> ?b]" "child (\<not> ?b) ?t" q] Entry.prems(1)
      by (cases ?b) (auto simp: prefix_def)
    have sc: "set_child ?b c ?t = Entry p k bs (if ?b then l else c) (if ?b then c else r)" by simp
    have top: "entry_at path ?t \<noteq> NilEntry \<and> cidr_of (entry_at path ?t) = cidr \<and>
        bits_of (entry_at path ?t) = maskSelf cidr ip \<and> peer_of (entry_at path ?t) = route ?t ?Q"
      using e path rt [of ?Q] Pb by simp
    show ?thesis
    proof (cases "c = NilEntry \<and> p = None")
      case True
      then have "remove_trie path ?t = Some (child (\<not> ?b) ?t)"
        using remove_trie_Cons [OF e(1)] c(1,3) path by simp
      moreover have "wf_trie n (child (\<not> ?b) ?t)" "child (\<not> ?b) ?t \<noteq> NilEntry"
          "under X ?t \<Longrightarrow> under X (child (\<not> ?b) ?t)" for X
        using Entry.prems(1) True by (cases ?b, auto simp: under_def dest: append_prefixD intro: prefix_order.trans)+
      moreover have "route ?ch q = None" if "q \<noteq> ?Q" for q
        using c(4) [of q] True that by simp
      then have "route (child (\<not> ?b) ?t) q = (if q = ?Q then None else route ?t q)" for q
        using rt [of q] other [of q] Pb True by (auto simp del: route.simps child.simps)
      ultimately show ?thesis using top by blast
    next
      case False
      let ?t' = "set_child ?b c ?t"
      have "remove_trie path ?t = Some ?t'"
        using remove_trie_Cons [OF e(1)] c(1,3) path False by auto
      moreover have "wf_trie n ?t'" using set_child_wf [OF Entry.prems(1) c(2) u] False by blast
      moreover have "under X ?t \<Longrightarrow> under X ?t'" for X by (cases ?b) (auto simp: under_def)
      moreover have "?t' \<noteq> NilEntry" by simp
      moreover have "route ?t' q = (if prefix (take k (ip_bits bs) @ [?b]) q then route c q
          else if q = take k (ip_bits bs) then p else route (child (\<not> ?b) ?t) q)" for q
        using route_split [OF \<open>wf_trie n ?t'\<close> [unfolded sc], of q ?b] by (cases ?b) auto
      then have "route ?t' q = (if q = ?Q then None else route ?t q)" for q
        using rt [of q] Pb c(4) [of q] by (auto simp del: route.simps child.simps)
      ultimately show ?thesis using top by blast
    qed
  qed
qed simp

end
