(* ===== verification/Awg_AllowedIPs.thy ===== *)
theory Awg_AllowedIPs
  imports Awg_Trie
begin

text \<open>
  The cryptokey-routing table of the WireGuard device (\<^verbatim>\<open>AllowedIPs\<close> of
  \<^verbatim>\<open>awg-ios/device/allowedips.go\<close>): one trie per address family and, for each peer, the list
  \<^verbatim>\<open>trieEntries\<close> of its entries in insertion order. An entry pointer in that list is the entry's
  address and length, which identify it in its trie. The mutex makes each method one step.
\<close>

section \<open>What the data path relies on\<close>

text \<open>
  A cryptokey-routing table, seen by the data path: \<open>rts\<close> is the abstract map from prefixes to
  peers, \<open>covers k a\<close> says that prefix \<open>k\<close> contains the address \<open>a\<close> and \<open>rank\<close> is the prefix length. A
  lookup is a longest-prefix match in the map; the updates change the map as a map changes.
\<close>

locale cryptokey_table =
  fixes inv :: "'t \<Rightarrow> bool"
    and rts :: "'t \<Rightarrow> 'k \<Rightarrow> 'p option"
    and covers :: "'k \<Rightarrow> 'a \<Rightarrow> bool"
    and rank :: "'k \<Rightarrow> nat"
    and addr_ok :: "'a \<Rightarrow> bool"
    and pfx_ok :: "'x \<Rightarrow> bool"
    and key :: "'x \<Rightarrow> 'k"
    and lookup :: "'t \<Rightarrow> 'a \<Rightarrow> 'p option option"
    and ins :: "'t \<Rightarrow> 'x \<Rightarrow> 'p \<Rightarrow> 't option"
    and revoke :: "'t \<Rightarrow> 'p \<Rightarrow> 't option"
  assumes covers_rank: "covers k a \<Longrightarrow> covers k' a \<Longrightarrow> rank k = rank k' \<Longrightarrow> k = k'"
    and lookup_none: "inv t \<Longrightarrow> addr_ok a \<Longrightarrow> lookup t a = Some None \<longleftrightarrow> (\<forall>k. covers k a \<longrightarrow> rts t k = None)"
    and lookup_some: "inv t \<Longrightarrow> addr_ok a \<Longrightarrow> lookup t a = Some (Some p) \<longleftrightarrow>
      (\<exists>k. covers k a \<and> rts t k = Some p \<and> (\<forall>k'. covers k' a \<longrightarrow> rts t k' \<noteq> None \<longrightarrow> rank k' \<le> rank k))"
    and ins_map: "inv t \<Longrightarrow> pfx_ok x \<Longrightarrow> \<exists>t'. ins t x p = Some t' \<and> inv t' \<and>
      (\<forall>a k. addr_ok a \<longrightarrow> covers k a \<longrightarrow> rts t' k = (if k = key x then Some p else rts t k))"
    and revoke_map: "inv t \<Longrightarrow> \<exists>t'. revoke t p = Some t' \<and> inv t' \<and>
      (\<forall>a k. addr_ok a \<longrightarrow> covers k a \<longrightarrow> rts t' k = (if rts t k = Some p then None else rts t k))"
begin

lemma lookup_after_ins:
  assumes t: "inv t" and x: "pfx_ok x" and a: "addr_ok a" "covers (key x) a"
    and longest: "\<And>k. covers k a \<Longrightarrow> rts t k \<noteq> None \<Longrightarrow> rank k \<le> rank (key x)"
  shows "\<exists>t'. ins t x p = Some t' \<and> inv t' \<and> lookup t' a = Some (Some p)"
proof -
  obtain t' where t': "ins t x p = Some t'" "inv t'"
    "\<And>k. covers k a \<Longrightarrow> rts t' k = (if k = key x then Some p else rts t k)"
    using ins_map [OF t x] a(1) by blast
  have "rank k \<le> rank (key x)" if "covers k a" "rts t' k \<noteq> None" for k
    using longest that t'(3) by (cases "k = key x") auto
  then have "lookup t' a = Some (Some p)"
    using lookup_some [OF t'(2) a(1)] t'(3) [OF a(2)] a(2) by auto
  then show ?thesis using t' by blast
qed

lemma lookup_after_revoke:
  assumes t: "inv t"
  shows "\<exists>t'. revoke t p = Some t' \<and> inv t' \<and> (\<forall>a. addr_ok a \<longrightarrow>
    lookup t' a \<noteq> Some (Some p) \<and> (\<forall>q. q \<noteq> p \<longrightarrow> lookup t a = Some (Some q) \<longrightarrow> lookup t' a = Some (Some q)))"
proof -
  obtain t' where t': "revoke t p = Some t'" "inv t'"
    "\<And>a k. addr_ok a \<Longrightarrow> covers k a \<Longrightarrow> rts t' k = (if rts t k = Some p then None else rts t k)"
    using revoke_map [OF t] by blast
  have "lookup t' a \<noteq> Some (Some p)" if a: "addr_ok a" for a
    using lookup_some [OF t'(2) a] t'(3) [OF a] by (auto split: if_splits)
  moreover have "lookup t' a = Some (Some q)" if a: "addr_ok a" and q: "q \<noteq> p" "lookup t a = Some (Some q)" for a q
  proof -
    obtain k where k: "covers k a" "rts t k = Some q" "\<And>k'. covers k' a \<Longrightarrow> rts t k' \<noteq> None \<Longrightarrow> rank k' \<le> rank k"
      using lookup_some [OF t a] q by blast
    have "rts t' k = Some q" using t'(3) [OF a k(1)] k(2) q by simp
    moreover have "rank k' \<le> rank k" if "covers k' a" "rts t' k' \<noteq> None" for k'
      using k(3) [OF that(1)] t'(3) [OF a that(1)] that(2) by (auto split: if_splits)
    ultimately show ?thesis using lookup_some [OF t'(2) a] k(1) by blast
  qed
  ultimately show ?thesis using t' by blast
qed

end

section \<open>The table\<close>

type_synonym entry_key = "bytes \<times> nat"

record 'p AllowedIPs =
  IPv4 :: "'p trieEntry"
  IPv6 :: "'p trieEntry"
  trieEntries :: "'p \<Rightarrow> entry_key list"

text \<open>\<^verbatim>\<open>netip.Prefix\<close>: the address bytes (4, 16, or none for the zero value) and \<^verbatim>\<open>Bits()\<close>, which
  is -1 for an invalid prefix.\<close>

record prefix_t =
  Addr :: bytes
  Bits :: int

definition prefix_cidr :: "prefix_t \<Rightarrow> nat" where
  "prefix_cidr x = nat (Bits x mod 256)"

definition addToPeerEntries :: "entry_key \<Rightarrow> 'p \<Rightarrow> ('p \<Rightarrow> entry_key list) \<Rightarrow> ('p \<Rightarrow> entry_key list)" where
  "addToPeerEntries key peer m = m(peer := m peer @ [key])"

definition removeFromPeerEntries ::
  "entry_key \<Rightarrow> 'p option \<Rightarrow> ('p \<Rightarrow> entry_key list) \<Rightarrow> ('p \<Rightarrow> entry_key list)" where
  "removeFromPeerEntries key peer m =
     (case peer of None \<Rightarrow> m | Some p \<Rightarrow> m(p := remove1 key (m p)))"

text \<open>The trie of a family, by address length.\<close>

definition family :: "nat \<Rightarrow> 'p AllowedIPs \<Rightarrow> 'p trieEntry" where
  "family n tab = (if n = 16 then IPv6 tab else IPv4 tab)"

definition set_family :: "nat \<Rightarrow> 'p trieEntry \<Rightarrow> 'p AllowedIPs \<Rightarrow> 'p AllowedIPs" where
  "set_family n t tab = (if n = 16 then tab\<lparr>IPv6 := t\<rparr> else tab\<lparr>IPv4 := t\<rparr>)"

text \<open>\<^verbatim>\<open>parentIndirection.insert\<close> with its effect on the peers' entry lists.\<close>

definition insert_entry :: "'p AllowedIPs \<Rightarrow> bytes \<Rightarrow> nat \<Rightarrow> 'p \<Rightarrow> 'p AllowedIPs option" where
  "insert_entry tab ip cidr peer = do {
     let t = family (length ip) tab;
     (node, exact) \<leftarrow> nodePlacement t ip cidr;
     t' \<leftarrow> insert_trie t ip cidr peer;
     let e = entry_at (case node of None \<Rightarrow> [] | Some path \<Rightarrow> path) t;
     let m = (if exact
              then addToPeerEntries (bits_of e, cidr_of e) peer
                     (removeFromPeerEntries (bits_of e, cidr_of e) (peer_of e) (trieEntries tab))
              else addToPeerEntries (maskSelf cidr ip, cidr) peer (trieEntries tab));
     Some ((set_family (length ip) t' tab)\<lparr>trieEntries := m\<rparr>) }"

definition Insert :: "'p AllowedIPs \<Rightarrow> prefix_t \<Rightarrow> 'p \<Rightarrow> 'p AllowedIPs option" where
  "Insert tab x peer =
     (if length (Addr x) = 16 \<or> length (Addr x) = 4 then insert_entry tab (Addr x) (prefix_cidr x) peer
      else None)"

definition Lookup :: "'p AllowedIPs \<Rightarrow> bytes \<Rightarrow> 'p option option" where
  "Lookup tab ip =
     (if length ip = 16 then lookup_trie (IPv6 tab) ip None
      else if length ip = 4 then lookup_trie (IPv4 tab) ip None
      else None)"

text \<open>\<^verbatim>\<open>trieEntry.remove\<close> on the entry at a path of the family of \<open>n\<close>-byte addresses.\<close>

definition remove_entry :: "'p AllowedIPs \<Rightarrow> nat \<Rightarrow> bool list \<Rightarrow> 'p AllowedIPs option" where
  "remove_entry tab n path = do {
     let e = entry_at path (family n tab);
     t' \<leftarrow> remove_trie path (family n tab);
     Some ((set_family n t' tab)
       \<lparr>trieEntries := removeFromPeerEntries (bits_of e, cidr_of e) (peer_of e) (trieEntries tab)\<rparr>) }"

definition Remove :: "'p AllowedIPs \<Rightarrow> prefix_t \<Rightarrow> 'p \<Rightarrow> 'p AllowedIPs option" where
  "Remove tab x peer =
     (if length (Addr x) = 16 \<or> length (Addr x) = 4 then do {
        (node, exact) \<leftarrow> nodePlacement (family (length (Addr x)) tab) (Addr x) (prefix_cidr x);
        case node of
          None \<Rightarrow> Some tab
        | Some path \<Rightarrow>
            if \<not> exact \<or> peer_of (entry_at path (family (length (Addr x)) tab)) \<noteq> Some peer then Some tab
            else remove_entry tab (length (Addr x)) path }
      else None)"

text \<open>The loop of \<^verbatim>\<open>RemoveByPeer\<close>: it reads the next element before it removes the current one, so
  it visits the list as it was at the start.\<close>

fun remove_entries :: "'p AllowedIPs \<Rightarrow> entry_key list \<Rightarrow> 'p AllowedIPs option" where
  "remove_entries tab [] = Some tab"
| "remove_entries tab ((bs, k) # keys) = do {
     (node, exact) \<leftarrow> nodePlacement (family (length bs) tab) bs k;
     case node of
       None \<Rightarrow> None
     | Some path \<Rightarrow> if \<not> exact then None
         else do { tab' \<leftarrow> remove_entry tab (length bs) path; remove_entries tab' keys } }"

definition RemoveByPeer :: "'p AllowedIPs \<Rightarrow> 'p \<Rightarrow> 'p AllowedIPs option" where
  "RemoveByPeer tab peer = remove_entries tab (trieEntries tab peer)"

text \<open>The prefixes \<^verbatim>\<open>EntriesForPeer\<close> passes to its callback, which stops it by returning false.\<close>

fun visit_entries :: "(prefix_t \<Rightarrow> bool) \<Rightarrow> entry_key list \<Rightarrow> prefix_t list" where
  "visit_entries cb [] = []"
| "visit_entries cb ((bs, k) # keys) =
     (let x = \<lparr>Addr = bs, Bits = int k\<rparr> in
      if \<not> cb x then [x] else x # visit_entries cb keys)"

definition EntriesForPeer :: "'p AllowedIPs \<Rightarrow> 'p \<Rightarrow> (prefix_t \<Rightarrow> bool) \<Rightarrow> prefix_t list" where
  "EntriesForPeer tab peer cb = visit_entries cb (trieEntries tab peer)"

section \<open>The invariant\<close>

definition routes :: "'p AllowedIPs \<Rightarrow> nat \<times> bool list \<Rightarrow> 'p option" where
  "routes tab = (\<lambda>(n, q). route (family n tab) q)"

definition valid_prefix :: "prefix_t \<Rightarrow> bool" where
  "valid_prefix x \<longleftrightarrow> (length (Addr x) = 4 \<or> length (Addr x) = 16) \<and>
     0 \<le> Bits x \<and> Bits x \<le> 8 * int (length (Addr x))"

definition prefix_key :: "prefix_t \<Rightarrow> nat \<times> bool list" where
  "prefix_key x = (length (Addr x), take (nat (Bits x)) (ip_bits (Addr x)))"

definition ekey :: "entry_key \<Rightarrow> nat \<times> bool list" where
  "ekey = (\<lambda>(bs, k). (length bs, take k (ip_bits bs)))"

text \<open>An entry key is canonical when it is the key of an entry: bits beyond its length are zero.\<close>

definition canonical :: "entry_key \<Rightarrow> bool" where
  "canonical = (\<lambda>(bs, k). (length bs = 4 \<or> length bs = 16) \<and> k \<le> 8 * length bs \<and>
     drop k (ip_bits bs) = replicate (8 * length bs - k) False)"

definition table_inv :: "'p AllowedIPs \<Rightarrow> bool" where
  "table_inv tab \<longleftrightarrow> wf_trie 4 (IPv4 tab) \<and> wf_trie 16 (IPv6 tab) \<and>
     (\<forall>p. distinct (trieEntries tab p) \<and>
       (\<forall>key. key \<in> set (trieEntries tab p) \<longleftrightarrow> canonical key \<and> routes tab (ekey key) = Some p))"

definition empty_table :: "'p AllowedIPs" where
  "empty_table = \<lparr>IPv4 = NilEntry, IPv6 = NilEntry, trieEntries = (\<lambda>_. [])\<rparr>"

lemma table_inv_empty: "table_inv empty_table"
  by (auto simp: table_inv_def empty_table_def routes_def ekey_def family_def split: prod.splits)

lemma table_inv_wf: "table_inv tab \<Longrightarrow> n = 4 \<or> n = 16 \<Longrightarrow> wf_trie n (family n tab)"
  by (auto simp: table_inv_def family_def)

lemma ekey_inj:
  assumes "canonical a" "canonical b" "ekey a = ekey b"
  shows "a = b"
proof -
  obtain x k y l where ab: "a = (x, k)" "b = (y, l)" by (cases a, cases b)
  have len: "length x = length y" and eq: "take k (ip_bits x) = take l (ip_bits y)"
    using assms(3) by (auto simp: ekey_def ab)
  have "length (take k (ip_bits x)) = k" "length (take l (ip_bits y)) = l"
    using assms(1,2) by (auto simp: canonical_def ab)
  then have kl: "k = l" using eq by metis
  have "drop k (ip_bits x) = drop k (ip_bits y)"
    using assms(1,2) len kl by (simp add: canonical_def ab)
  then have "take k (ip_bits x) @ drop k (ip_bits x) = take k (ip_bits y) @ drop k (ip_bits y)"
    using eq kl by simp
  then have "ip_bits x = ip_bits y" unfolding append_take_drop_id .
  then show ?thesis using ip_bits_inj kl ab by blast
qed

lemma canonical_mask:
  assumes "length ip = 4 \<or> length ip = 16" "cidr \<le> 8 * length ip"
  shows "canonical (maskSelf cidr ip, cidr)" "ekey (maskSelf cidr ip, cidr) = (length ip, take cidr (ip_bits ip))"
  using wf_newEntry(3,4) [OF assms(1) refl assms(2)] assms by (auto simp: canonical_def ekey_def)

lemma routes_set_family:
  assumes "n = 4 \<or> n = 16" "\<And>q. route t' q = (if q = Q then v else route (family n tab) q)" "m = 4 \<or> m = 16"
  shows "routes ((set_family n t' tab)\<lparr>trieEntries := es\<rparr>) (m, q) = (if (m, q) = (n, Q) then v else routes tab (m, q))"
  using assms by (auto simp: routes_def set_family_def family_def)

text \<open>The entry lists follow the map: re-pointing one key keeps the invariant.\<close>

lemma entries_update:
  assumes inv: "table_inv tab" and n: "n = 4 \<or> n = 16" and wf: "wf_trie n t'" and key: "canonical key" "ekey key = (n, Q)"
    and t': "\<And>q. route t' q = (if q = Q then v else route (family n tab) q)"
    and es: "\<And>p. es p = (if v = Some p then remove1 key (trieEntries tab p) @ [key]
        else remove1 key (trieEntries tab p))"
  shows "table_inv ((set_family n t' tab)\<lparr>trieEntries := es\<rparr>)"
proof -
  let ?tab = "(set_family n t' tab)\<lparr>trieEntries := es\<rparr>"
  have "distinct (es p) \<and> (\<forall>k. k \<in> set (es p) \<longleftrightarrow> canonical k \<and> routes ?tab (ekey k) = Some p)" for p
  proof -
    have d: "distinct (trieEntries tab p)"
      and s: "\<And>k. k \<in> set (trieEntries tab p) \<longleftrightarrow> canonical k \<and> routes tab (ekey k) = Some p"
      using inv by (auto simp: table_inv_def)
    have "k \<in> set (es p) \<longleftrightarrow> canonical k \<and> routes ?tab (ekey k) = Some p" for k
    proof (cases "k = key")
      case True
      then show ?thesis
        using es [of p] d key routes_set_family [OF n t' n, of es Q] by (auto simp: set_remove1_eq)
    next
      case False
      then have "canonical k \<Longrightarrow> ekey k \<noteq> (n, Q)" using ekey_inj key by metis
      moreover have "canonical k \<Longrightarrow> routes ?tab (ekey k) = routes tab (ekey k)" if "ekey k \<noteq> (n, Q)"
        using that routes_set_family [OF n t', of "fst (ekey k)" es "snd (ekey k)"]
        by (auto simp: canonical_def ekey_def split: prod.splits)
      ultimately show ?thesis
        using es [of p] d s [of k] False by (auto simp: set_remove1_eq)
    qed
    moreover have "distinct (es p)" using es [of p] d by (auto simp: set_remove1_eq)
    ultimately show ?thesis by blast
  qed
  moreover have "wf_trie 4 (IPv4 ?tab)" "wf_trie 16 (IPv6 ?tab)"
    using inv wf n by (auto simp: table_inv_def set_family_def)
  ultimately show ?thesis by (simp add: table_inv_def)
qed

section \<open>The methods refine a map from prefixes to peers\<close>

lemma absent_entry:
  assumes "table_inv tab" "canonical key" "routes tab (ekey key) \<noteq> Some p"
  shows "remove1 key (trieEntries tab p) = trieEntries tab p"
  using assms unfolding table_inv_def by (intro remove1_idem) blast

lemma nodePlacement_exact:
  assumes n: "n = 4 \<or> n = 16" and ip: "length ip = n" "cidr \<le> 8 * n" and wf: "wf_trie n t"
    and pl: "nodePlacement t ip cidr = Some (node, False)"
  shows "route t (take cidr (ip_bits ip)) = None"
  using wf pl
proof (induction t arbitrary: node)
  case (Entry p k bs l r)
  let ?Q = "take cidr (ip_bits ip)"
  show ?case
  proof (cases "prefix (take k (ip_bits bs)) ?Q")
    case False
    then show ?thesis by auto
  next
    case P: True
    note step = nodePlacement_step [OF n ip Entry.prems(1) P]
    have k: "k \<noteq> cidr" using step(1) Entry.prems(2) by auto
    have below: "prefix (take k (ip_bits bs) @ [ip_bits ip ! k]) ?Q"
      using prefix_below [OF P] step(2) [OF k] Entry.prems ip by simp
    obtain q where "nodePlacement (if ip_bits ip ! k then r else l) ip cidr = Some (q, False)"
      using step(3) [OF k] Entry.prems(2)
      by (auto simp del: nodePlacement.simps split: Option.bind_splits)
    then have "route (if ip_bits ip ! k then r else l) ?Q = None"
      using Entry.IH Entry.prems(1) by (auto split: if_splits)
    moreover have "k \<le> length (ip_bits bs)" using Entry.prems(1) by auto
    ultimately show ?thesis using route_child [OF _ below, of p l r] by (simp del: route.simps)
  qed
qed simp

lemma insert_entry_spec:
  assumes inv: "table_inv tab" and ip: "length ip = 4 \<or> length ip = 16" "cidr \<le> 8 * length ip"
  shows "\<exists>tab'. insert_entry tab ip cidr peer = Some tab' \<and> table_inv tab' \<and>
    (\<forall>m q. m = 4 \<or> m = 16 \<longrightarrow> routes tab' (m, q) =
      (if (m, q) = (length ip, take cidr (ip_bits ip)) then Some peer else routes tab (m, q)))"
proof -
  let ?n = "length ip" and ?t = "family (length ip) tab" and ?Q = "take cidr (ip_bits ip)"
  let ?key = "(maskSelf cidr ip, cidr)"
  have wf: "wf_trie ?n ?t" using table_inv_wf [OF inv ip(1)] .
  obtain t' where t': "insert_trie ?t ip cidr peer = Some t'" "wf_trie ?n t'"
    "\<And>q. route t' q = (if q = ?Q then Some peer else route ?t q)"
    using insert_trie_spec [OF ip(1) refl ip(2) wf, of peer] by blast
  obtain node exact where pl: "nodePlacement ?t ip cidr = Some (node, exact)"
    using nodePlacement_total [OF ip(1) refl ip(2) wf] by auto
  note key = canonical_mask [OF ip]
  define es where "es = (\<lambda>p. if p = peer then remove1 ?key (trieEntries tab p) @ [?key]
    else remove1 ?key (trieEntries tab p))"
  have rk: "routes tab (ekey ?key) = route ?t ?Q" using key(2) by (simp add: routes_def)
  have "insert_entry tab ip cidr peer = Some ((set_family ?n t' tab)\<lparr>trieEntries := es\<rparr>)"
  proof (cases exact)
    case True
    then obtain path where path: "node = Some path" using nodePlacement_parent pl by (cases node) auto
    have e: "cidr_of (entry_at path ?t) = cidr" "bits_of (entry_at path ?t) = maskSelf cidr ip"
      "peer_of (entry_at path ?t) = route ?t ?Q"
      using remove_trie_spec [OF ip(1) refl ip(2) wf] pl True path by auto
    have "addToPeerEntries ?key peer (removeFromPeerEntries ?key (route ?t ?Q) (trieEntries tab)) = es"
      using absent_entry [OF inv key(1)] unfolding rk
      by (auto simp: fun_eq_iff es_def addToPeerEntries_def removeFromPeerEntries_def split: option.splits)
    then show ?thesis using pl t'(1) True path e by (simp add: insert_entry_def Let_def)
  next
    case False
    then have "route ?t ?Q = None"
      using nodePlacement_exact [OF ip(1) refl ip(2) wf, of node] pl by simp
    then have "addToPeerEntries ?key peer (trieEntries tab) = es"
      using absent_entry [OF inv key(1)] unfolding rk
      by (auto simp: fun_eq_iff es_def addToPeerEntries_def)
    then show ?thesis using pl t'(1) False by (simp add: insert_entry_def Let_def)
  qed
  moreover have "table_inv ((set_family ?n t' tab)\<lparr>trieEntries := es\<rparr>)"
    using entries_update [OF inv ip(1) t'(2) key t'(3)] by (auto simp: es_def)
  ultimately show ?thesis
    using routes_set_family [OF ip(1) t'(3)] by blast
qed

lemma remove_entry_spec:
  assumes inv: "table_inv tab" and ip: "length ip = 4 \<or> length ip = 16" "cidr \<le> 8 * length ip"
    and pl: "nodePlacement (family (length ip) tab) ip cidr = Some (Some path, True)"
  shows "peer_of (entry_at path (family (length ip) tab)) = routes tab (length ip, take cidr (ip_bits ip)) \<and>
    (\<exists>tab'. remove_entry tab (length ip) path = Some tab' \<and> table_inv tab' \<and>
      (\<forall>m q. m = 4 \<or> m = 16 \<longrightarrow> routes tab' (m, q) =
        (if (m, q) = (length ip, take cidr (ip_bits ip)) then None else routes tab (m, q))) \<and>
      (\<forall>p. trieEntries tab' p = remove1 (maskSelf cidr ip, cidr) (trieEntries tab p)))"
proof -
  let ?n = "length ip" and ?t = "family (length ip) tab" and ?Q = "take cidr (ip_bits ip)"
  let ?key = "(maskSelf cidr ip, cidr)"
  have wf: "wf_trie ?n ?t" using table_inv_wf [OF inv ip(1)] .
  note key = canonical_mask [OF ip]
  obtain t' where e: "cidr_of (entry_at path ?t) = cidr" "bits_of (entry_at path ?t) = maskSelf cidr ip"
      "peer_of (entry_at path ?t) = route ?t ?Q"
    and t': "remove_trie path ?t = Some t'" "wf_trie ?n t'"
      "\<And>q. route t' q = (if q = ?Q then None else route ?t q)"
    using remove_trie_spec [OF ip(1) refl ip(2) wf pl] by blast
  have rk: "routes tab (ekey ?key) = route ?t ?Q" "routes tab (?n, ?Q) = route ?t ?Q"
    using key(2) by (simp_all add: routes_def)
  define es where "es = (\<lambda>p. remove1 ?key (trieEntries tab p))"
  have "removeFromPeerEntries ?key (route ?t ?Q) (trieEntries tab) = es"
    using absent_entry [OF inv key(1)] unfolding rk
    by (auto simp: fun_eq_iff es_def removeFromPeerEntries_def split: option.splits)
  then have "remove_entry tab ?n path = Some ((set_family ?n t' tab)\<lparr>trieEntries := es\<rparr>)"
    using t'(1) e by (simp add: remove_entry_def Let_def)
  moreover have "table_inv ((set_family ?n t' tab)\<lparr>trieEntries := es\<rparr>)"
    using entries_update [OF inv ip(1) t'(2) key t'(3)] by (simp add: es_def)
  ultimately show ?thesis
    using routes_set_family [OF ip(1) t'(3)] e(3) rk by (auto simp: es_def)
qed

lemma nodePlacement_present:
  assumes "table_inv tab" "length ip = 4 \<or> length ip = 16" "cidr \<le> 8 * length ip"
    and "routes tab (length ip, take cidr (ip_bits ip)) \<noteq> None"
  shows "\<exists>path. nodePlacement (family (length ip) tab) ip cidr = Some (Some path, True)"
proof -
  have wf: "wf_trie (length ip) (family (length ip) tab)" using table_inv_wf [OF assms(1,2)] .
  obtain node exact where pl: "nodePlacement (family (length ip) tab) ip cidr = Some (node, exact)"
    using nodePlacement_total [OF assms(2) refl assms(3) wf] by auto
  have exact
    using nodePlacement_exact [OF assms(2) refl assms(3) wf, of node] pl assms(4)
    by (cases exact) (auto simp: routes_def)
  then show ?thesis using pl nodePlacement_parent by (cases node) auto
qed

lemma canonical_self: "canonical (bs, k) \<Longrightarrow> maskSelf k bs = bs"
  using ekey_inj [of "(maskSelf k bs, k)" "(bs, k)"] canonical_mask [of bs k]
  by (auto simp: canonical_def ekey_def)

lemma remove_entries_spec:
  assumes "table_inv tab" "distinct keys" "set keys \<subseteq> set (trieEntries tab p)"
  shows "\<exists>tab'. remove_entries tab keys = Some tab' \<and> table_inv tab' \<and>
    (\<forall>m q. m = 4 \<or> m = 16 \<longrightarrow> routes tab' (m, q) = (if (m, q) \<in> ekey ` set keys then None else routes tab (m, q)))"
  using assms
proof (induction keys arbitrary: tab)
  case (Cons key keys)
  obtain bs k where key: "key = (bs, k)" by (cases key)
  have can: "canonical (bs, k)" and r: "routes tab (ekey (bs, k)) = Some p"
    using Cons.prems key by (auto simp: table_inv_def)
  then have ip: "length bs = 4 \<or> length bs = 16" "k \<le> 8 * length bs" by (auto simp: canonical_def)
  have ek: "ekey (bs, k) = (length bs, take k (ip_bits bs))" by (simp add: ekey_def)
  obtain path where pl: "nodePlacement (family (length bs) tab) bs k = Some (Some path, True)"
    using nodePlacement_present [OF Cons.prems(1) ip] r ek by auto
  obtain tab1 where tab1: "remove_entry tab (length bs) path = Some tab1" "table_inv tab1"
    "\<forall>m q. m = 4 \<or> m = 16 \<longrightarrow> routes tab1 (m, q) =
        (if (m, q) = (length bs, take k (ip_bits bs)) then None else routes tab (m, q))"
    "\<forall>p. trieEntries tab1 p = remove1 (bs, k) (trieEntries tab p)"
    using remove_entry_spec [OF Cons.prems(1) ip pl] canonical_self [OF can] by auto
  have "set keys \<subseteq> set (trieEntries tab1 p)"
    using Cons.prems tab1(4) key by (auto simp: table_inv_def set_remove1_eq)
  then obtain tab' where "remove_entries tab1 keys = Some tab'" "table_inv tab'"
    "\<forall>m q. m = 4 \<or> m = 16 \<longrightarrow> routes tab' (m, q) = (if (m, q) \<in> ekey ` set keys then None else routes tab1 (m, q))"
    using Cons.IH [OF tab1(2)] Cons.prems by auto
  then show ?case using pl tab1 key ek by (auto simp del: remove_entries.simps simp: remove_entries.simps(2))
qed simp

lemma valid_cidr: "valid_prefix x \<Longrightarrow> prefix_cidr x = nat (Bits x) \<and> prefix_cidr x \<le> 8 * length (Addr x) \<and>
    (length (Addr x) = 4 \<or> length (Addr x) = 16)"
  by (auto simp: valid_prefix_def prefix_cidr_def)

lemma Insert_map:
  assumes "table_inv tab" "valid_prefix x"
  shows "\<exists>tab'. Insert tab x peer = Some tab' \<and> table_inv tab' \<and>
    (\<forall>m q. m = 4 \<or> m = 16 \<longrightarrow> routes tab' (m, q) = (if (m, q) = prefix_key x then Some peer else routes tab (m, q)))"
  using insert_entry_spec [OF assms(1), of "Addr x" "prefix_cidr x" peer] valid_cidr [OF assms(2)]
  by (auto simp: Insert_def prefix_key_def)

lemma Remove_map:
  assumes inv: "table_inv tab" and x: "valid_prefix x"
  shows "\<exists>tab'. Remove tab x peer = Some tab' \<and> table_inv tab' \<and>
    (\<forall>m q. m = 4 \<or> m = 16 \<longrightarrow> routes tab' (m, q) =
      (if (m, q) = prefix_key x \<and> routes tab (m, q) = Some peer then None else routes tab (m, q)))"
proof -
  let ?n = "length (Addr x)" and ?Q = "take (prefix_cidr x) (ip_bits (Addr x))"
  have ip: "?n = 4 \<or> ?n = 16" "prefix_cidr x \<le> 8 * ?n" and pk: "prefix_key x = (?n, ?Q)"
    using valid_cidr [OF x] by (auto simp: prefix_key_def)
  obtain node exact where pl: "nodePlacement (family ?n tab) (Addr x) (prefix_cidr x) = Some (node, exact)"
    using nodePlacement_total [OF ip(1) refl ip(2) table_inv_wf [OF inv ip(1)]] by auto
  show ?thesis
  proof (cases exact)
    case True
    then obtain path where path: "node = Some path" using nodePlacement_parent pl by (cases node) auto
    note spec = remove_entry_spec [OF inv ip, of path]
    show ?thesis
    proof (cases "routes tab (prefix_key x) = Some peer")
      case eq: True
      then show ?thesis using spec pl path True ip by (auto simp: Remove_def pk)
    next
      case False
      then have "Remove tab x peer = Some tab" using spec pl path True ip by (auto simp: Remove_def pk)
      then show ?thesis using inv False by auto
    qed
  next
    case False
    then have "routes tab (prefix_key x) = None"
      using nodePlacement_exact [OF ip(1) refl ip(2) table_inv_wf [OF inv ip(1)], of node] pl
      by (simp add: routes_def pk)
    moreover have "Remove tab x peer = Some tab"
      using False pl ip by (auto simp: Remove_def split: option.splits)
    ultimately show ?thesis using inv by auto
  qed
qed

lemma RemoveByPeer_map:
  assumes inv: "table_inv tab"
  shows "\<exists>tab'. RemoveByPeer tab peer = Some tab' \<and> table_inv tab' \<and>
    (\<forall>m q. m = 4 \<or> m = 16 \<longrightarrow> routes tab' (m, q) =
      (if (m, q) \<in> ekey ` set (trieEntries tab peer) then None else routes tab (m, q)))"
  using remove_entries_spec [OF inv, of "trieEntries tab peer" peer] inv
  by (simp add: RemoveByPeer_def table_inv_def)

lemma route_has_key:
  assumes "n = 4 \<or> n = 16" "wf_trie n t" "route t q = Some p"
  shows "\<exists>key. canonical key \<and> ekey key = (n, q)"
  using assms(2,3)
proof (induction t)
  case (Entry p' k bs l r)
  show ?case
  proof (cases "q = take k (ip_bits bs)")
    case True
    then show ?thesis
      using Entry.prems assms(1) by (intro exI [of _ "(bs, k)"]) (auto simp: canonical_def ekey_def)
  next
    case False
    then have "route l q = Some p \<or> route r q = Some p"
      using Entry.prems(2) by (auto split: if_splits option.splits)
    then show ?thesis using Entry.IH Entry.prems(1) by auto
  qed
qed simp

lemma entries_image:
  assumes inv: "table_inv tab" and m: "m = 4 \<or> m = 16"
  shows "(m, q) \<in> ekey ` set (trieEntries tab p) \<longleftrightarrow> routes tab (m, q) = Some p"
proof
  assume r: "routes tab (m, q) = Some p"
  then obtain key where "canonical key" "ekey key = (m, q)"
    using route_has_key [OF m table_inv_wf [OF inv m], of q p] unfolding routes_def prod.case by blast
  then show "(m, q) \<in> ekey ` set (trieEntries tab p)"
    using inv r unfolding table_inv_def by (metis image_eqI)
qed (use inv in \<open>auto simp: table_inv_def\<close>)

definition covers_addr :: "nat \<times> bool list \<Rightarrow> bytes \<Rightarrow> bool" where
  "covers_addr k a \<longleftrightarrow> fst k = length a \<and> prefix (snd k) (ip_bits a)"

lemma Lookup_lpm:
  assumes inv: "table_inv tab" and a: "length a = 4 \<or> length a = 16"
  shows "\<exists>r. Lookup tab a = Some r \<and> is_lpm (\<lambda>q. routes tab (length a, q)) (ip_bits a) r"
  using lookup_trie_lpm [OF a refl table_inv_wf [OF inv a], of None] a
  by (auto simp: Lookup_def family_def routes_def split: if_splits)

lemma Lookup_none:
  assumes "table_inv tab" "length a = 4 \<or> length a = 16"
  shows "Lookup tab a = Some None \<longleftrightarrow> (\<forall>k. covers_addr k a \<longrightarrow> routes tab k = None)"
proof -
  obtain r where r: "Lookup tab a = Some r" "is_lpm (\<lambda>q. routes tab (length a, q)) (ip_bits a) r"
    using Lookup_lpm [OF assms] by blast
  then show ?thesis by (cases r) (auto simp: is_lpm_def covers_addr_def)
qed

lemma covers_rank: "covers_addr k a \<Longrightarrow> covers_addr k' a \<Longrightarrow> length (snd k) = length (snd k') \<Longrightarrow> k = k'"
  by (cases k, cases k') (auto simp: covers_addr_def prefix_def append_eq_append_conv)

lemma Lookup_some:
  assumes "table_inv tab" "length a = 4 \<or> length a = 16"
  shows "Lookup tab a = Some (Some p) \<longleftrightarrow> (\<exists>k. covers_addr k a \<and> routes tab k = Some p \<and>
    (\<forall>k'. covers_addr k' a \<longrightarrow> routes tab k' \<noteq> None \<longrightarrow> length (snd k') \<le> length (snd k)))"
    (is "_ \<longleftrightarrow> (\<exists>k. ?best p k)")
proof -
  obtain r where r: "Lookup tab a = Some r" "is_lpm (\<lambda>q. routes tab (length a, q)) (ip_bits a) r"
    using Lookup_lpm [OF assms] by blast
  have unique: "p' = p''" if "?best p' k" "?best p'' k'" for p' p'' k k'
  proof -
    have "length (snd k) = length (snd k')" using that by (metis le_antisym option.distinct(1))
    then show ?thesis using covers_rank that by (metis option.inject)
  qed
  show ?thesis
  proof (cases r)
    case None
    then show ?thesis using r by (auto simp: is_lpm_def covers_addr_def)
  next
    case (Some s)
    then obtain k where k: "?best s k" using r(2) by (fastforce simp: is_lpm_def covers_addr_def)
    have "Lookup tab a = Some (Some p) \<longleftrightarrow> s = p" using r(1) Some by simp
    also have "\<dots> \<longleftrightarrow> (\<exists>k. ?best p k)"
    proof
      assume "\<exists>k. ?best p k"
      then obtain k' where "?best p k'" ..
      with k show "s = p" by (rule unique)
    qed (use k in blast)
    finally show ?thesis .
  qed
qed

interpretation awg_table: cryptokey_table table_inv routes covers_addr "\<lambda>k. length (snd k)"
  "\<lambda>a. length a = 4 \<or> length a = 16" valid_prefix prefix_key Lookup Insert RemoveByPeer
proof
  fix t :: "'p AllowedIPs" and x p
  assume inv: "table_inv t"
  show "\<exists>t'. RemoveByPeer t p = Some t' \<and> table_inv t' \<and> (\<forall>a k. length a = 4 \<or> length a = 16 \<longrightarrow>
      covers_addr k a \<longrightarrow> routes t' k = (if routes t k = Some p then None else routes t k))"
    using RemoveByPeer_map [OF inv, of p] entries_image [OF inv, where p = p]
    by (force simp: covers_addr_def)
  assume x: "valid_prefix x"
  show "\<exists>t'. Insert t x p = Some t' \<and> table_inv t' \<and> (\<forall>a k. length a = 4 \<or> length a = 16 \<longrightarrow>
      covers_addr k a \<longrightarrow> routes t' k = (if k = prefix_key x then Some p else routes t k))"
    using Insert_map [OF inv x, of p] by (force simp: covers_addr_def)
qed (fact covers_rank Lookup_none Lookup_some)+

section \<open>Properties\<close>

text \<open>A table used by the witnesses: \<^verbatim>\<open>10.0.0.0/8\<close> belongs to peer 1.\<close>

definition net10 :: prefix_t where "net10 = \<lparr>Addr = [10, 0, 0, 0], Bits = 8\<rparr>"

definition table10 :: "nat AllowedIPs" where
  "table10 = \<lparr>IPv4 = Entry (Some 1) 8 [10, 0, 0, 0] NilEntry NilEntry, IPv6 = NilEntry,
     trieEntries = (\<lambda>_. [])(1 := [([10, 0, 0, 0], 8)])\<rparr>"

lemma Insert_table10: "Insert empty_table net10 (1 :: nat) = Some table10"
  by (simp add: Insert_def insert_entry_def empty_table_def net10_def table10_def family_def set_family_def
      prefix_cidr_def insert_trie_def newEntry_def maskSelf_def CIDRMask_def addToPeerEntries_def)

lemma table10_inv: "table_inv table10"
  using Insert_map [OF table_inv_empty, of net10 "1 :: nat"] Insert_table10
  by (auto simp: valid_prefix_def net10_def)

text \<open>
  C3. \<^verbatim>\<open>AllowedIPs.Lookup\<close> is longest-prefix match: on every reachable table and every IPv4 or IPv6
  address it does not panic, it answers \<open>None\<close> exactly when no inserted prefix contains the address,
  and it answers a peer exactly when that peer owns the longest inserted prefix that does.
\<close>

theorem Lookup_spec:
  assumes "table_inv tab" "length a = 4 \<or> length a = 16"
  shows "(Lookup tab a = Some None \<longleftrightarrow> (\<forall>k. covers_addr k a \<longrightarrow> routes tab k = None)) \<and>
    (\<forall>p. Lookup tab a = Some (Some p) \<longleftrightarrow> (\<exists>k. covers_addr k a \<and> routes tab k = Some p \<and>
      (\<forall>k'. covers_addr k' a \<longrightarrow> routes tab k' \<noteq> None \<longrightarrow> length (snd k') \<le> length (snd k)))) \<and>
    Lookup tab a \<noteq> None"
  using Lookup_none [OF assms] Lookup_some [OF assms] Lookup_lpm [OF assms] by simp blast

theorem Lookup_spec_witness:
  "table_inv table10 \<and> (\<exists>p. Lookup table10 [10, 1, 2, 3] = Some (Some p)) \<and> Lookup table10 [11, 1, 2, 3] \<noteq> None"
proof -
  have l: "length [10, 1, 2, 3 :: u8] = 4 \<or> length [10, 1, 2, 3 :: u8] = 16"
    "length [11, 1, 2, 3 :: u8] = 4 \<or> length [11, 1, 2, 3 :: u8] = 16" by simp_all
  have r: "routes table10 (4, take 8 (ip_bits [10, 0, 0, 0])) = Some 1"
    by (simp add: routes_def family_def table10_def)
  have "covers_addr (4, take 8 (ip_bits [10, 0, 0, 0])) [10, 1, 2, 3]"
    by (simp add: covers_addr_def ip_bits_Cons)
  then have "Lookup table10 [10, 1, 2, 3] \<noteq> Some None"
    using Lookup_spec [OF table10_inv l(1)] r by auto
  then show ?thesis
    using Lookup_spec [OF table10_inv l(1)] Lookup_spec [OF table10_inv l(2)] table10_inv by auto
qed

text \<open>
  C4. \<^verbatim>\<open>AllowedIPs.Insert\<close> of a valid prefix does not panic, keeps every invariant of the table
  (path-compressed tries with canonical entries, the per-peer entry lists in step with them) and
  changes the map from prefixes to peers at that prefix only, to the given peer.
\<close>

theorem Insert_spec:
  assumes "table_inv tab" "valid_prefix x"
  shows "\<exists>tab'. Insert tab x peer = Some tab' \<and> table_inv tab' \<and>
    (\<forall>m q. m = 4 \<or> m = 16 \<longrightarrow> routes tab' (m, q) = (if (m, q) = prefix_key x then Some peer else routes tab (m, q)))"
  using Insert_map [OF assms] .

theorem Insert_spec_witness: "valid_prefix net10 \<and> (\<exists>tab'. Insert table10 net10 7 = Some tab' \<and> table_inv tab')"
  using Insert_spec [OF table10_inv, of net10 7] by (auto simp: valid_prefix_def net10_def)

text \<open>
  C5. \<^verbatim>\<open>AllowedIPs.Remove\<close> of a valid prefix does not panic, keeps the invariant, and deletes that
  prefix from the map exactly when it belongs to the given peer; every other prefix keeps its owner.
\<close>

theorem Remove_spec:
  assumes "table_inv tab" "valid_prefix x"
  shows "\<exists>tab'. Remove tab x peer = Some tab' \<and> table_inv tab' \<and>
    (\<forall>m q. m = 4 \<or> m = 16 \<longrightarrow> routes tab' (m, q) =
      (if (m, q) = prefix_key x \<and> routes tab (m, q) = Some peer then None else routes tab (m, q)))"
  using Remove_map [OF assms] .

theorem Remove_spec_witness: "valid_prefix net10 \<and> (\<exists>tab'. Remove table10 net10 1 = Some tab' \<and> table_inv tab')"
  using Remove_spec [OF table10_inv, of net10 1] by (auto simp: valid_prefix_def net10_def)

text \<open>
  C6. \<^verbatim>\<open>AllowedIPs.RemoveByPeer\<close> revokes a peer: it does not panic, afterwards no address is routed to
  that peer, and every address that was routed to another peer still is.
\<close>

theorem RemoveByPeer_spec:
  assumes "table_inv tab"
  shows "\<exists>tab'. RemoveByPeer tab peer = Some tab' \<and> table_inv tab' \<and> (\<forall>a. length a = 4 \<or> length a = 16 \<longrightarrow>
    Lookup tab' a \<noteq> Some (Some peer) \<and>
    (\<forall>q. q \<noteq> peer \<longrightarrow> Lookup tab a = Some (Some q) \<longrightarrow> Lookup tab' a = Some (Some q)))"
  using awg_table.lookup_after_revoke [OF assms] .

theorem RemoveByPeer_spec_witness:
  "table_inv table10 \<and> (\<exists>tab'. RemoveByPeer table10 1 = Some tab' \<and> Lookup tab' [10, 0, 0, 1] \<noteq> Some (Some 1))"
  using RemoveByPeer_spec [OF table10_inv, of 1] table10_inv by fastforce

lemma visit_entries_all: "visit_entries (\<lambda>_. True) keys = map (\<lambda>(bs, k). \<lparr>Addr = bs, Bits = int k\<rparr>) keys"
  by (induction "\<lambda>_ :: prefix_t. True" keys rule: visit_entries.induct) (simp_all add: Let_def)

lemma prefix_key_entry: "prefix_key ((\<lambda>(bs, k). \<lparr>Addr = bs, Bits = int k\<rparr>) key) = ekey key"
  by (cases key) (simp add: prefix_key_def ekey_def)

text \<open>
  \<^verbatim>\<open>EntriesForPeer\<close> with a callback that never stops it passes each prefix of the peer exactly
  once: the list has no duplicates and its keys are exactly the prefixes the map gives to the peer.
\<close>

lemma EntriesForPeer_spec:
  assumes "table_inv tab"
  shows "distinct (map prefix_key (EntriesForPeer tab peer (\<lambda>_. True))) \<and>
    (\<forall>m q. m = 4 \<or> m = 16 \<longrightarrow>
      ((m, q) \<in> prefix_key ` set (EntriesForPeer tab peer (\<lambda>_. True)) \<longleftrightarrow> routes tab (m, q) = Some peer))"
proof -
  have "inj_on ekey (set (trieEntries tab peer))" "distinct (trieEntries tab peer)"
    using assms ekey_inj by (auto simp: table_inv_def inj_on_def)
  then show ?thesis
    using entries_image [OF assms, where p = peer]
    by (simp add: EntriesForPeer_def visit_entries_all image_image prefix_key_entry comp_def distinct_map)
qed

end
