(* ===== verification/Xray_Net.thy ===== *)
theory Xray_Net
  imports Prelude
begin

text \<open>
  Addresses, ports and destinations (\<^verbatim>\<open>xray-core/common/net\<close>), and the textual IP parser the
  standard library gives \<^verbatim>\<open>ParseAddress\<close>. Go strings are byte strings. The nil interface value of
  \<^verbatim>\<open>Address\<close> is \<open>None\<close>.
\<close>

section \<open>Data\<close>

datatype Address = ipv4Address bytes | ipv6Address bytes | domainAddress bytes

type_synonym AddressFamily = u8

definition AddressFamilyIPv4 :: AddressFamily where "AddressFamilyIPv4 = 0"
definition AddressFamilyIPv6 :: AddressFamily where "AddressFamilyIPv6 = 1"
definition AddressFamilyDomain :: AddressFamily where "AddressFamilyDomain = 2"

lemmas family_consts = AddressFamilyIPv4_def AddressFamilyIPv6_def AddressFamilyDomain_def

fun Family :: "Address \<Rightarrow> AddressFamily" where
  "Family (ipv4Address _) = AddressFamilyIPv4"
| "Family (ipv6Address _) = AddressFamilyIPv6"
| "Family (domainAddress _) = AddressFamilyDomain"

definition IsIP :: "AddressFamily \<Rightarrow> bool" where
  "IsIP af \<longleftrightarrow> af = AddressFamilyIPv4 \<or> af = AddressFamilyIPv6"

fun IP :: "Address \<Rightarrow> bytes option" where
  "IP (ipv4Address a) = Some a"
| "IP (ipv6Address a) = Some a"
| "IP (domainAddress _) = None"

fun Domain :: "Address \<Rightarrow> bytes option" where
  "Domain (domainAddress d) = Some d"
| "Domain _ = None"

datatype Network = Network_Unknown | Network_TCP | Network_UDP | Network_UNIX

record Destination =
  Dest_Address :: "Address option"
  Dest_Port :: u16
  Dest_Network :: Network

definition zero_Destination :: Destination where
  "zero_Destination = \<lparr>Dest_Address = None, Dest_Port = 0, Dest_Network = Network_Unknown\<rparr>"

definition TCPDestination :: "Address option \<Rightarrow> u16 \<Rightarrow> Destination" where
  "TCPDestination a p = \<lparr>Dest_Address = a, Dest_Port = p, Dest_Network = Network_TCP\<rparr>"

definition UDPDestination :: "Address option \<Rightarrow> u16 \<Rightarrow> Destination" where
  "UDPDestination a p = \<lparr>Dest_Address = a, Dest_Port = p, Dest_Network = Network_UDP\<rparr>"

definition UnixDestination :: "Address option \<Rightarrow> Destination" where
  "UnixDestination a = \<lparr>Dest_Address = a, Dest_Port = 0, Dest_Network = Network_UNIX\<rparr>"

definition Destination_IsValid :: "Destination \<Rightarrow> bool" where
  "Destination_IsValid d \<longleftrightarrow> Dest_Network d \<noteq> Network_Unknown"

text \<open>\<^verbatim>\<open>IPAddress\<close>: an IPv4-mapped IPv6 address becomes an IPv4 address; any other length is nil.\<close>

definition mapped_v4 :: "bytes \<Rightarrow> bool" where
  "mapped_v4 ip \<longleftrightarrow> take 10 ip = replicate 10 0 \<and> ip ! 10 = 255 \<and> ip ! 11 = 255"

definition IPAddress :: "bytes \<Rightarrow> Address option" where
  "IPAddress ip =
     (if length ip = 4 then Some (ipv4Address ip)
      else if length ip = 16 then
        (if mapped_v4 ip then Some (ipv4Address (take 4 (drop 12 ip))) else Some (ipv6Address ip))
      else None)"

definition PortFromBytes :: "bytes \<Rightarrow> u16 option" where
  "PortFromBytes p = be_uint16 p"

definition PortFromInt :: "u32 \<Rightarrow> u16 option" where
  "PortFromInt val = (if val > 65535 then None else Some (ucast val))"

record MemoryPortRange =
  From :: u16
  To :: u16

definition PortRange_Contains :: "MemoryPortRange \<Rightarrow> u16 \<Rightarrow> bool" where
  "PortRange_Contains r port \<longleftrightarrow> From r \<le> port \<and> port \<le> To r"

fun PortList_Contains :: "MemoryPortRange list \<Rightarrow> u16 \<Rightarrow> bool" where
  "PortList_Contains [] port = False"
| "PortList_Contains (pr # mpl) port = (if PortRange_Contains pr port then True else PortList_Contains mpl port)"

section \<open>The standard library's textual IP parser\<close>

definition is_digit :: "u8 \<Rightarrow> bool" where "is_digit c \<longleftrightarrow> 48 \<le> c \<and> c \<le> 57"
definition is_lower :: "u8 \<Rightarrow> bool" where "is_lower c \<longleftrightarrow> 97 \<le> c \<and> c \<le> 122"
definition is_upper :: "u8 \<Rightarrow> bool" where "is_upper c \<longleftrightarrow> 65 \<le> c \<and> c \<le> 90"

definition isAlphaNum :: "u8 \<Rightarrow> bool" where
  "isAlphaNum c \<longleftrightarrow> is_digit c \<or> is_lower c \<or> is_upper c"

text \<open>
  \<^verbatim>\<open>netip.parseIPv4Fields\<close>: four decimal fields of at most 255 without leading zeros. The state is
  the number of finished fields, the value and the number of digits of the current one.
\<close>

fun parse_v4_fields :: "bytes \<Rightarrow> bytes \<Rightarrow> nat \<Rightarrow> nat \<Rightarrow> bool \<Rightarrow> bytes option" where
  "parse_v4_fields [] fds val digLen first =
     (if length fds < 3 then None
      else if digLen = 0 then None else Some (fds @ [of_nat val]))"
| "parse_v4_fields (c # s) fds val digLen first =
     (if is_digit c then
        (if digLen = 1 \<and> val = 0 then None
         else let val' = val * 10 + (unat c - 48) in
           if val' > 255 then None else parse_v4_fields s fds val' (Suc digLen) False)
      else if c = 46 then
        (if first \<or> s = [] \<or> digLen = 0 then None
         else if length fds = 3 then None
         else parse_v4_fields s (fds @ [of_nat val]) 0 0 False)
      else None)"

definition hex_val :: "u8 \<Rightarrow> nat option" where
  "hex_val c = (if is_digit c then Some (unat c - 48)
     else if 97 \<le> c \<and> c \<le> 102 then Some (unat c - 87)
     else if 65 \<le> c \<and> c \<le> 70 then Some (unat c - 55) else None)"

text \<open>At most four hex digits: the value, the number of digits and the rest.\<close>

fun parse_hex :: "bytes \<Rightarrow> nat \<Rightarrow> nat \<Rightarrow> (nat \<times> nat \<times> bytes) option" where
  "parse_hex [] acc off = Some (acc, off, [])"
| "parse_hex (c # s) acc off =
     (case hex_val c of
        None \<Rightarrow> Some (acc, off, c # s)
      | Some d \<Rightarrow> if off > 3 then None else parse_hex s (acc * 16 + d) (Suc off))"

text \<open>
  The loop of \<^verbatim>\<open>netip.parseIPv6\<close>; each round consumes two of the sixteen bytes, so eight rounds are
  enough. It returns the bytes parsed and the position of the ellipsis.
\<close>

fun parse_v6_loop :: "nat \<Rightarrow> bytes \<Rightarrow> bytes \<Rightarrow> nat option \<Rightarrow> (bytes \<times> bytes \<times> nat option) option" where
  "parse_v6_loop 0 s ip ellipsis = Some (s, ip, ellipsis)"
| "parse_v6_loop (Suc n) s ip ellipsis =
     (case parse_hex s 0 0 of
        None \<Rightarrow> None
      | Some (acc, off, rest) \<Rightarrow>
          if off = 0 then None
          else if rest \<noteq> [] \<and> hd rest = 46 then
            (if ellipsis = None \<and> length ip \<noteq> 12 then None
             else if length ip + 4 > 16 then None
             else case parse_v4_fields s [] 0 0 True of
                    None \<Rightarrow> None | Some q \<Rightarrow> Some ([], ip @ q, ellipsis))
          else let ip' = ip @ [of_nat (acc div 256), of_nat acc] in
            (case rest of
               [] \<Rightarrow> Some ([], ip', ellipsis)
             | c # s1 \<Rightarrow>
                 if c \<noteq> 58 \<or> s1 = [] then None
                 else if hd s1 = 58 then
                   (if ellipsis \<noteq> None then None
                    else if tl s1 = [] then Some ([], ip', Some (length ip'))
                    else parse_v6_loop n (tl s1) ip' (Some (length ip')))
                 else parse_v6_loop n s1 ip' ellipsis))"

definition parse_v6 :: "bytes \<Rightarrow> bytes option" where
  "parse_v6 s =
     (let (s', ell) = (if take 2 s = [58, 58] then (drop 2 s, Some 0) else (s, None)) in
      if ell = Some 0 \<and> s' = [] then Some (replicate 16 0)
      else case parse_v6_loop 8 s' [] ell of
        None \<Rightarrow> None
      | Some (rest, ip, ellipsis) \<Rightarrow>
          if rest \<noteq> [] then None
          else if length ip < 16 then
            (case ellipsis of None \<Rightarrow> None
             | Some e \<Rightarrow> Some (take e ip @ replicate (16 - length ip) 0 @ drop e ip))
          else if ellipsis \<noteq> None then None else Some ip)"

text \<open>
  \<^verbatim>\<open>net.ParseIP\<close>: the first dot, colon or percent sign decides the form; a zone is refused, and an
  IPv4 address is returned in its IPv4-mapped sixteen bytes.
\<close>

definition ParseIP :: "bytes \<Rightarrow> bytes option" where
  "ParseIP s =
     (case dropWhile (\<lambda>c. c \<noteq> 46 \<and> c \<noteq> 58 \<and> c \<noteq> 37) s of
        [] \<Rightarrow> None
      | c # _ \<Rightarrow>
          if c = 46 then map_option (\<lambda>q. replicate 10 0 @ [255, 255] @ q) (parse_v4_fields s [] 0 0 True)
          else if c = 58 \<and> 37 \<notin> set s then parse_v6 s else None)"

text \<open>\<^verbatim>\<open>strings.TrimSpace\<close>, with the UTF-8 encodings of the code points that are white space.\<close>

definition space_runes :: "bytes list" where
  "space_runes = map (\<lambda>c. [c]) [9, 10, 11, 12, 13, 32] @ [[194, 133], [194, 160], [225, 154, 128]] @
     map (\<lambda>c. [226, 128, c]) [128, 129, 130, 131, 132, 133, 134, 135, 136, 137, 138, 168, 169, 175] @
     [[226, 129, 159], [227, 128, 128]]"

fun trim_left :: "bytes list \<Rightarrow> nat \<Rightarrow> bytes \<Rightarrow> bytes" where
  "trim_left runes 0 s = s"
| "trim_left runes (Suc n) s =
     (case List.find (\<lambda>r. take (length r) s = r) runes of
        None \<Rightarrow> s | Some r \<Rightarrow> trim_left runes n (drop (length r) s))"

definition TrimSpace :: "bytes \<Rightarrow> bytes" where
  "TrimSpace s =
     (let s' = trim_left space_runes (length s) s
      in rev (trim_left (map rev space_runes) (length s') (rev s')))"

text \<open>\<^verbatim>\<open>ParseAddress\<close>; the one-byte string \<^verbatim>\<open>[\<close> cannot match both brackets.\<close>

definition ParseAddress :: "bytes \<Rightarrow> Address option" where
  "ParseAddress addr0 = do {
     addr \<leftarrow> (if addr0 \<noteq> [] \<and> hd addr0 = 91 \<and> last addr0 = 93
             then go_slice addr0 1 (int (length addr0) - 1) else Some addr0);
     let addr' = (if addr \<noteq> [] \<and> (\<not> isAlphaNum (hd addr) \<or> \<not> isAlphaNum (last addr)) then TrimSpace addr else addr);
     case ParseIP addr' of
       Some ip \<Rightarrow> IPAddress ip
     | None \<Rightarrow> Some (domainAddress addr') }"

section \<open>Well-formed addresses\<close>

fun wf_address :: "Address \<Rightarrow> bool" where
  "wf_address (ipv4Address a) \<longleftrightarrow> length a = 4"
| "wf_address (ipv6Address a) \<longleftrightarrow> length a = 16 \<and> \<not> mapped_v4 a"
| "wf_address (domainAddress d) \<longleftrightarrow> True"

lemma IPAddress_wf: "IPAddress ip = Some a \<Longrightarrow> wf_address a \<and> IsIP (Family a)"
  by (auto simp: IPAddress_def IsIP_def split: if_splits)

lemma IPAddress_IP: "wf_address a \<Longrightarrow> IP a = Some ip \<Longrightarrow> IPAddress ip = Some a"
  by (cases a) (auto simp: IPAddress_def)

lemma parse_v4_fields_length:
  "parse_v4_fields s fds val d f = Some q \<Longrightarrow> length fds \<le> 3 \<Longrightarrow> length q = 4"
  by (induction s fds val d f arbitrary: q rule: parse_v4_fields.induct)
    (auto simp: Let_def split: if_splits)

lemma parse_v6_loop_length:
  "parse_v6_loop n s ip e = Some (r, q, e') \<Longrightarrow> even (length ip) \<Longrightarrow> length ip + 2 * n \<le> 16 \<Longrightarrow>
   (\<forall>k. e = Some k \<longrightarrow> k \<le> length ip) \<Longrightarrow>
   length q \<le> 16 \<and> (\<forall>k. e' = Some k \<longrightarrow> k \<le> length q)"
proof (induction n arbitrary: s ip e)
  case (Suc n)
  obtain acc off rest where h: "parse_hex s 0 0 = Some (acc, off, rest)" and off: "off \<noteq> 0"
    using Suc.prems(1) by (cases "parse_hex s 0 0") (auto split: prod.splits if_splits)
  let ?ip = "ip @ [of_nat (acc div 256), of_nat acc] :: bytes"
  have ip: "even (length ?ip)" "length ?ip + 2 * n \<le> 16" using Suc.prems by auto
  have e: "\<forall>k. e = Some k \<longrightarrow> k \<le> length ?ip" using Suc.prems(4) by force
  show ?case
  proof (cases "rest \<noteq> [] \<and> hd rest = 46")
    case True
    then show ?thesis
      using Suc.prems h off
      by (auto split: if_splits option.splits dest!: parse_v4_fields_length)
  next
    case dot: False
    show ?thesis
    proof (cases rest)
      case Nil
      then show ?thesis using Suc.prems h off by (auto simp: Let_def)
    next
      case (Cons c s1)
      then have c: "c = 58" "s1 \<noteq> []" "c \<noteq> 46" using Suc.prems(1) h off dot by (auto simp: Let_def split: if_splits)
      then show ?thesis
        using Suc.prems h off Cons Suc.IH [OF _ ip e, of s1] Suc.IH [OF _ ip, of "tl s1" "Some (length ?ip)"]
        by (simp add: Let_def split: if_splits) auto
    qed
  qed
qed auto

lemma parse_v6_length: "parse_v6 s = Some q \<Longrightarrow> length q = 16"
proof -
  assume p: "parse_v6 s = Some q"
  have "length q = 16" if "parse_v6_loop 8 s' [] ell = Some (r, ip, e)" "ell = None \<or> ell = Some 0"
      "(if length ip < 16 then (case e of None \<Rightarrow> None
          | Some k \<Rightarrow> Some (take k ip @ replicate (16 - length ip) 0 @ drop k ip))
        else if e \<noteq> None then None else Some ip) = Some q" for s' ell r ip e
    using that parse_v6_loop_length [of 8 s' "[]" ell r ip e]
    by (auto split: if_splits option.splits)
  then show ?thesis
    using p by (fastforce simp: parse_v6_def Let_def split: if_splits option.splits prod.splits)
qed

lemma ParseIP_length: "ParseIP s = Some q \<Longrightarrow> length q = 16"
  by (auto simp: ParseIP_def parse_v6_length dest: parse_v4_fields_length split: list.splits if_splits)

text \<open>\<^verbatim>\<open>ParseAddress\<close> neither panics nor returns nil: it gives a well-formed address.\<close>

lemma ParseAddress_total: "\<exists>a. ParseAddress s = Some a \<and> wf_address a"
proof -
  have "\<exists>a. IPAddress ip = Some a \<and> wf_address a" if "ParseIP t = Some ip" for t ip
    using ParseIP_length [OF that] by (auto simp: IPAddress_def)
  then have *: "\<exists>a. (case ParseIP t of None \<Rightarrow> Some (domainAddress t) | Some ip \<Rightarrow> IPAddress ip) = Some a \<and> wf_address a"
    for t by (cases "ParseIP t") auto
  have "2 \<le> length s" if "hd s = 91" "last s = 93" "s \<noteq> []"
    using that by (cases s) (auto simp: Suc_le_eq split: if_splits)
  then obtain t where t: "(if s \<noteq> [] \<and> hd s = 91 \<and> last s = 93 then go_slice s 1 (int (length s) - 1) else Some s) = Some t"
    by (force simp: go_slice_def)
  show ?thesis unfolding ParseAddress_def Let_def t Option.bind.simps by (rule * )
qed

end
