(* ===== verification/Awg_Device.thy ===== *)
theory Awg_Device
  imports Awg_Framing Awg_AllowedIPs Xray_Net
begin

text \<open>
  The device of \<^verbatim>\<open>awg-ios/device\<close>: its state machine and static identity (\<^verbatim>\<open>device.go\<close>), its peers (\<^verbatim>\<open>peer.go\<close>) and the
  \<^verbatim>\<open>set\<close> operation of the configuration protocol (\<^verbatim>\<open>uapi.go\<close>), which ties the settings of the wire format, the peers
  and the cryptokey routing table together.

  A peer is a number, its position in the list of all peers allocated so far: two \<^verbatim>\<open>Peer\<close> objects with the same
  public key are two numbers, as pointers are in the routing table. The map of peers is a list of pairs in the order in
  which a Go \<^verbatim>\<open>range\<close> visits it, which the theorems leave open. Calls into parts of the device that are not
  modelled (key pairs and staged packets of a peer) are recorded in \<open>wg_calls\<close>.

  Parameters: the methods of the interface \<^verbatim>\<open>conn.Bind\<close> are the fields of \<open>bind_ops\<close>; \<open>pub\<close> and \<open>dh\<close> are the X25519
  operations of \<^verbatim>\<open>golang.org/x/crypto\<close>. \<open>None\<close> is a panic.
\<close>

section \<open>State\<close>

datatype deviceState = deviceStateDown | deviceStateUp | deviceStateClosed

record 'e Peer =
  pr_isRunning :: bool
  pr_remoteStatic :: bytes
  pr_presharedKey :: bytes
  pr_precomputedStaticStatic :: bytes
  pr_endpoint :: "'e option"
  pr_clearSrcOnTx :: bool
  pr_disableRoaming :: bool
  pr_persistentKeepaliveInterval :: UintRange
  pr_udpWindow :: u32

definition zero_key :: bytes where "zero_key = replicate 32 0"

definition zero_Peer :: "'e Peer" where
  "zero_Peer = \<lparr>pr_isRunning = False, pr_remoteStatic = zero_key, pr_presharedKey = zero_key, pr_precomputedStaticStatic = zero_key,
     pr_endpoint = None, pr_clearSrcOnTx = False, pr_disableRoaming = False, pr_persistentKeepaliveInterval = 0, pr_udpWindow = 0\<rparr>"

datatype peer_event = ZeroAndFlushAll nat | ExpireCurrentKeypairs nat | SendKeepalive nat | SendStagedPackets nat

record 'e Device =
  wg_state :: deviceState
  wg_privateKey :: bytes
  wg_publicKey :: bytes
  wg_keyMap :: "(bytes \<times> nat) list"
  wg_peers :: "'e Peer list"
  wg_allowedips :: "nat AllowedIPs"
  wg_port :: u16
  wg_fwmark :: u32
  wg_brokenRoaming :: bool
  wg_obf :: obf_device
  wg_calls :: "peer_event list"

definition NewDevice :: "'e Device" where
  "NewDevice = \<lparr>wg_state = deviceStateDown, wg_privateKey = zero_key, wg_publicKey = zero_key, wg_keyMap = [], wg_peers = [],
     wg_allowedips = empty_table, wg_port = 0, wg_fwmark = 0, wg_brokenRoaming = False, wg_obf = default_device, wg_calls = []\<rparr>"

definition isClosed :: "'e Device \<Rightarrow> bool" where "isClosed d \<longleftrightarrow> wg_state d = deviceStateClosed"
definition isUp :: "'e Device \<Rightarrow> bool" where "isUp d \<longleftrightarrow> wg_state d = deviceStateUp"

definition MaxPeers :: nat where "MaxPeers = 65536"

record 'e bind_ops =
  bind_ParseEndpoint :: "string \<Rightarrow> 'e option"
  bind_Open :: "u16 \<Rightarrow> u16 option"
  bind_Close :: bool
  bind_SetMark :: "u32 \<Rightarrow> bool"
  bind_RouteListener :: bool

section \<open>Peers\<close>

definition upd_peer :: "nat \<Rightarrow> ('e Peer \<Rightarrow> 'e Peer) \<Rightarrow> 'e Device \<Rightarrow> 'e Device" where
  "upd_peer i f d = d\<lparr>wg_peers := (wg_peers d)[i := f (wg_peers d ! i)]\<rparr>"

definition peer_call :: "peer_event \<Rightarrow> 'e Device \<Rightarrow> 'e Device" where
  "peer_call c d = d\<lparr>wg_calls := wg_calls d @ [c]\<rparr>"

definition Peer_Start :: "nat \<Rightarrow> 'e Device \<Rightarrow> 'e Device" where
  "Peer_Start i d =
     (if isClosed d then d
      else if pr_isRunning (wg_peers d ! i) then d
      else upd_peer i (pr_isRunning_update (\<lambda>_. True)) d)"

definition Peer_Stop :: "nat \<Rightarrow> 'e Device \<Rightarrow> 'e Device" where
  "Peer_Stop i d =
     (if \<not> pr_isRunning (wg_peers d ! i) then d
      else peer_call (ZeroAndFlushAll i) (upd_peer i (pr_isRunning_update (\<lambda>_. False)) d))"

definition markEndpointSrcForClearing :: "nat \<Rightarrow> 'e Device \<Rightarrow> 'e Device" where
  "markEndpointSrcForClearing i d =
     (if pr_endpoint (wg_peers d ! i) = None then d else upd_peer i (pr_clearSrcOnTx_update (\<lambda>_. True)) d)"

definition DefaultUdpWindow32 :: u32 where "DefaultUdpWindow32 = of_int DefaultUdpWindow"

definition SetEndpointFromPacket :: "nat \<Rightarrow> 'e \<Rightarrow> 'e Device \<Rightarrow> 'e Device" where
  "SetEndpointFromPacket i endpoint d =
     (let p = wg_peers d ! i in
      if pr_disableRoaming p then d
      else upd_peer i (\<lambda>p. (if pr_endpoint p \<noteq> Some endpoint then p\<lparr>pr_udpWindow := DefaultUdpWindow32\<rparr> else p)
             \<lparr>pr_clearSrcOnTx := False, pr_endpoint := Some endpoint\<rparr>) d)"

text \<open>\<^verbatim>\<open>NewPeer\<close>: the number of the new peer, or \<open>None\<close> for an error.\<close>

definition NewPeer :: "(bytes \<Rightarrow> bytes \<Rightarrow> bytes) \<Rightarrow> bytes \<Rightarrow> 'e Device \<Rightarrow> nat option \<times> 'e Device" where
  "NewPeer dh pk d =
     (if isClosed d then (None, d)
      else if MaxPeers \<le> length (wg_keyMap d) then (None, d)
      else if map_of (wg_keyMap d) pk \<noteq> None then (None, d)
      else let i = length (wg_peers d);
               p = zero_Peer\<lparr>pr_udpWindow := DefaultUdpWindow32, pr_remoteStatic := pk,
                     pr_precomputedStaticStatic := dh (wg_privateKey d) pk\<rparr>
           in (Some i, d\<lparr>wg_peers := wg_peers d @ [p], wg_keyMap := (pk, i) # wg_keyMap d\<rparr>))"

definition LookupPeer :: "bytes \<Rightarrow> 'e Device \<Rightarrow> nat option" where "LookupPeer pk d = map_of (wg_keyMap d) pk"

definition removePeerLocked :: "nat \<Rightarrow> bytes \<Rightarrow> 'e Device \<Rightarrow> 'e Device option" where
  "removePeerLocked i key d = do {
     t \<leftarrow> RemoveByPeer (wg_allowedips d) i;
     let d = Peer_Stop i (d\<lparr>wg_allowedips := t\<rparr>);
     Some (d\<lparr>wg_keyMap := filter (\<lambda>(k, _). k \<noteq> key) (wg_keyMap d)\<rparr>) }"

definition RemovePeer :: "bytes \<Rightarrow> 'e Device \<Rightarrow> 'e Device option" where
  "RemovePeer key d = (case map_of (wg_keyMap d) key of None \<Rightarrow> Some d | Some i \<Rightarrow> removePeerLocked i key d)"

fun remove_peers :: "(bytes \<times> nat) list \<Rightarrow> 'e Device \<Rightarrow> 'e Device option" where
  "remove_peers [] d = Some d"
| "remove_peers ((key, i) # rest) d = do { d \<leftarrow> removePeerLocked i key d; remove_peers rest d }"

definition RemoveAllPeers :: "'e Device \<Rightarrow> 'e Device option" where
  "RemoveAllPeers d = do { d \<leftarrow> remove_peers (wg_keyMap d) d; Some (d\<lparr>wg_keyMap := []\<rparr>) }"

text \<open>\<^verbatim>\<open>SetPrivateKey\<close>: peers with the key of the device itself go, the others get a new shared secret.\<close>

definition SetPrivateKey :: "(bytes \<Rightarrow> bytes) \<Rightarrow> (bytes \<Rightarrow> bytes \<Rightarrow> bytes) \<Rightarrow> bytes \<Rightarrow> 'e Device \<Rightarrow> 'e Device option" where
  "SetPrivateKey pub dh sk d =
     (if sk = wg_privateKey d then Some d
      else do {
        let publicKey = pub sk;
        d \<leftarrow> remove_peers (filter (\<lambda>(key, i). pr_remoteStatic (wg_peers d ! i) = publicKey) (wg_keyMap d)) d;
        let d = d\<lparr>wg_privateKey := sk, wg_publicKey := publicKey\<rparr>;
        let ids = map snd (wg_keyMap d);
        let d = fold (\<lambda>i. upd_peer i (\<lambda>p. p\<lparr>pr_precomputedStaticStatic := dh sk (pr_remoteStatic p)\<rparr>)) ids d;
        Some (fold (\<lambda>i. peer_call (ExpireCurrentKeypairs i)) ids d) })"

section \<open>Sockets and the state machine\<close>

definition BindSetMark :: "'e bind_ops \<Rightarrow> u32 \<Rightarrow> 'e Device \<Rightarrow> bool \<times> 'e Device" where
  "BindSetMark b mark d =
     (if wg_fwmark d = mark then (True, d)
      else let d = d\<lparr>wg_fwmark := mark\<rparr> in
        if isUp d \<and> \<not> bind_SetMark b mark then (False, d)
        else (True, fold markEndpointSrcForClearing (map snd (wg_keyMap d)) d))"

definition BindUpdate :: "'e bind_ops \<Rightarrow> 'e Device \<Rightarrow> bool \<times> 'e Device" where
  "BindUpdate b d =
     (if \<not> bind_Close b then (False, d)
      else if \<not> isUp d then (True, d)
      else case bind_Open b (wg_port d) of
        None \<Rightarrow> (False, d\<lparr>wg_port := 0\<rparr>)
      | Some port \<Rightarrow>
          if \<not> bind_RouteListener b then (False, d\<lparr>wg_port := 0\<rparr>)
          else let d = d\<lparr>wg_port := port\<rparr> in
            if wg_fwmark d \<noteq> 0 \<and> \<not> bind_SetMark b (wg_fwmark d) then (False, d)
            else (True, fold markEndpointSrcForClearing (map snd (wg_keyMap d)) d))"

definition start_peer :: "nat \<Rightarrow> 'e Device \<Rightarrow> 'e Device" where
  "start_peer i d =
     (let d = Peer_Start i d in
      if \<not> Range_IsZero (pr_persistentKeepaliveInterval (wg_peers d ! i)) then peer_call (SendKeepalive i) d else d)"

definition upLocked :: "'e bind_ops \<Rightarrow> 'e Device \<Rightarrow> bool \<times> 'e Device" where
  "upLocked b d =
     (let (ok, d) = BindUpdate b d in
      if \<not> ok then (False, d) else (True, fold start_peer (map snd (wg_keyMap d)) d))"

definition downLocked :: "'e bind_ops \<Rightarrow> 'e Device \<Rightarrow> bool \<times> 'e Device" where
  "downLocked b d = (bind_Close b, fold Peer_Stop (map snd (wg_keyMap d)) d)"

text \<open>\<^verbatim>\<open>changeState\<close>: whether it succeeded, and the device. When coming up fails it falls through to going down.\<close>

definition changeState :: "'e bind_ops \<Rightarrow> deviceState \<Rightarrow> 'e Device \<Rightarrow> bool \<times> 'e Device" where
  "changeState b want d =
     (if isClosed d then (True, d)
      else if want = wg_state d then (True, d)
      else case want of
        deviceStateUp \<Rightarrow>
          (let (ok, d) = upLocked b (d\<lparr>wg_state := deviceStateUp\<rparr>) in
           if ok then (True, d)
           else (False, snd (downLocked b (d\<lparr>wg_state := deviceStateDown\<rparr>))))
      | deviceStateDown \<Rightarrow> downLocked b (d\<lparr>wg_state := deviceStateDown\<rparr>)
      | deviceStateClosed \<Rightarrow> (True, d))"

definition Up :: "'e bind_ops \<Rightarrow> 'e Device \<Rightarrow> bool \<times> 'e Device" where "Up b d = changeState b deviceStateUp d"
definition Down :: "'e bind_ops \<Rightarrow> 'e Device \<Rightarrow> bool \<times> 'e Device" where "Down b d = changeState b deviceStateDown d"

definition Device_Close :: "'e bind_ops \<Rightarrow> 'e Device \<Rightarrow> 'e Device option" where
  "Device_Close b d =
     (if isClosed d then Some d else RemoveAllPeers (snd (downLocked b (d\<lparr>wg_state := deviceStateClosed\<rparr>))))"

definition DisableSomeRoaming :: "'e Device \<Rightarrow> 'e Device" where
  "DisableSomeRoaming d =
     (let d = d\<lparr>wg_brokenRoaming := True\<rparr> in
      fold (\<lambda>i. upd_peer i (\<lambda>p. p\<lparr>pr_disableRoaming := pr_endpoint p \<noteq> None\<rparr>)) (map snd (wg_keyMap d)) d)"

section \<open>The set operation of the configuration protocol\<close>

datatype ipc_error = IpcErrorInvalid | IpcErrorPortInUse | IpcErrorProtocol | IpcErrorIO

text \<open>
  \<^verbatim>\<open>netip.ParsePrefix\<close>, with the address parser of \<open>Xray_Net\<close>; a zone is refused.
\<close>

definition ParseAddr :: "string \<Rightarrow> bytes option" where
  "ParseAddr str =
     (let s = map of_char str in
      case dropWhile (\<lambda>c. c \<noteq> 46 \<and> c \<noteq> 58 \<and> c \<noteq> 37) s of
        [] \<Rightarrow> None
      | c # _ \<Rightarrow>
          if c = 46 then parse_v4_fields s [] 0 0 True
          else if c = 58 \<and> 37 \<notin> set s then parse_v6 s else None)"

definition ParsePrefix :: "string \<Rightarrow> prefix_t option" where
  "ParsePrefix s =
     (case cut_at (CHR ''/'') (rev s) of
        None \<Rightarrow> None
      | Some (rbits, rip) \<Rightarrow> do {
          ip \<leftarrow> ParseAddr (rev rip);
          let bitsStr = rev rbits;
          bits \<leftarrow> (if length bitsStr > 1 \<and> (\<not> is_dec (hd bitsStr) \<or> hd bitsStr = CHR ''0'') then None else Atoi bitsStr);
          if bits < 0 \<or> bits > 8 * int (length ip) then None else Some \<lparr>Addr = ip, Bits = bits\<rparr> })"

text \<open>\<^verbatim>\<open>NoisePrivateKey.FromMaybeZeroHex\<close>.\<close>

definition clamp :: "bytes \<Rightarrow> bytes" where
  "clamp sk = sk[0 := sk ! 0 AND 248, 31 := (sk ! 31 AND 127) OR 64]"

definition FromMaybeZeroHex :: "string \<Rightarrow> bytes option" where
  "FromMaybeZeroHex src = map_option (\<lambda>k. if k = zero_key then k else clamp k) (loadExactHex 32 src)"

text \<open>
  The lines before the first peer. Paddings, message types and the header key go to the copy that is merged at the
  end, the other settings to the device at once. The result is the error, if any, and what has been changed so far.
\<close>

type_synonym 'e dev_result = "ipc_error option \<times> ipcSetDevice \<times> 'e Device"

definition parsed :: "'a option \<Rightarrow> ('a \<Rightarrow> ipcSetDevice \<times> 'e Device) \<Rightarrow> ipcSetDevice \<times> 'e Device \<Rightarrow> 'e dev_result option" where
  "parsed x f s = Some (case x of None \<Rightarrow> (Some IpcErrorInvalid, s) | Some v \<Rightarrow> (None, f v))"

definition set_padding :: "string \<Rightarrow> (u32 \<Rightarrow> u32 per_message \<Rightarrow> u32 per_message) \<Rightarrow> ipcSetDevice \<times> 'e Device \<Rightarrow> 'e dev_result option" where
  "set_padding value upd s = parsed (ParseUint 16 value) (\<lambda>p. ((fst s)\<lparr>ipc_paddings := upd (of_nat p) (ipc_paddings (fst s))\<rparr>, snd s)) s"

definition set_header :: "string \<Rightarrow> (UintRange \<Rightarrow> UintRange per_message \<Rightarrow> UintRange per_message) \<Rightarrow> ipcSetDevice \<times> 'e Device \<Rightarrow> 'e dev_result option" where
  "set_header value upd s = parsed (FromString value) (\<lambda>r. ((fst s)\<lparr>ipc_headers := upd r (ipc_headers (fst s))\<rparr>, snd s)) s"

definition store_setting :: "'a option \<Rightarrow> ('a \<Rightarrow> obf_device \<Rightarrow> obf_device) \<Rightarrow> ipcSetDevice \<times> 'e Device \<Rightarrow> 'e dev_result option" where
  "store_setting x upd s = parsed x (\<lambda>v. (fst s, (snd s)\<lparr>wg_obf := upd v (wg_obf (snd s))\<rparr>)) s"

definition set_junk :: "string \<Rightarrow> (u32 \<Rightarrow> junk_conf \<Rightarrow> junk_conf) \<Rightarrow> ipcSetDevice \<times> 'e Device \<Rightarrow> 'e dev_result option" where
  "set_junk value upd = store_setting (ParseUint 32 value) (\<lambda>n. dv_junk_update (upd (of_nat n)))"

definition set_timing :: "string \<Rightarrow> (UintRange \<Rightarrow> timings_conf \<Rightarrow> timings_conf) \<Rightarrow> ipcSetDevice \<times> 'e Device \<Rightarrow> 'e dev_result option" where
  "set_timing value upd = store_setting (FromString value) (\<lambda>r. dv_timings_update (upd r))"

definition set_ipacket :: "string \<Rightarrow> nat \<Rightarrow> ipcSetDevice \<times> 'e Device \<Rightarrow> 'e dev_result option" where
  "set_ipacket value i =
     store_setting (case newObfChain value of Inl _ \<Rightarrow> None | Inr chain \<Rightarrow> Some chain) (\<lambda>chain. dv_ipackets_update (\<lambda>l. l[i := chain]))"

definition handleDeviceLine ::
  "(bytes \<Rightarrow> bytes) \<Rightarrow> (bytes \<Rightarrow> bytes \<Rightarrow> bytes) \<Rightarrow> 'e bind_ops \<Rightarrow> string \<Rightarrow> string \<Rightarrow> ipcSetDevice \<times> 'e Device \<Rightarrow> 'e dev_result option" where
  "handleDeviceLine pub dh b key value s =
     (if key = ''private_key'' then
        (case FromMaybeZeroHex value of
           None \<Rightarrow> Some (Some IpcErrorInvalid, s)
         | Some sk \<Rightarrow> map_option (\<lambda>d. (None, fst s, d)) (SetPrivateKey pub dh sk (snd s)))
      else if key = ''listen_port'' then
        (case ParseUint 16 value of
           None \<Rightarrow> Some (Some IpcErrorInvalid, s)
         | Some port \<Rightarrow>
             let (ok, d) = BindUpdate b ((snd s)\<lparr>wg_port := of_nat port\<rparr>)
             in Some (if ok then None else Some IpcErrorPortInUse, fst s, d))
      else if key = ''fwmark'' then
        (case ParseUint 32 value of
           None \<Rightarrow> Some (Some IpcErrorInvalid, s)
         | Some mark \<Rightarrow>
             let (ok, d) = BindSetMark b (of_nat mark) (snd s)
             in Some (if ok then None else Some IpcErrorPortInUse, fst s, d))
      else if key = ''replace_peers'' then
        (if value \<noteq> ''true'' then Some (Some IpcErrorInvalid, s)
         else map_option (\<lambda>d. (None, fst s, d)) (RemoveAllPeers (snd s)))
      else if key = ''jc'' then set_junk value (\<lambda>n. jc_count_update (\<lambda>_. n)) s
      else if key = ''jmin'' then set_junk value (\<lambda>n. jc_min_update (\<lambda>_. n)) s
      else if key = ''jmax'' then set_junk value (\<lambda>n. jc_max_update (\<lambda>_. n)) s
      else if key = ''s1'' then set_padding value (\<lambda>p. m_init_update (\<lambda>_. p)) s
      else if key = ''s2'' then set_padding value (\<lambda>p. m_response_update (\<lambda>_. p)) s
      else if key = ''s3'' then set_padding value (\<lambda>p. m_cookie_update (\<lambda>_. p)) s
      else if key = ''s4'' then set_padding value (\<lambda>p. m_transport_update (\<lambda>_. p)) s
      else if key = ''h1'' then set_header value (\<lambda>r. m_init_update (\<lambda>_. r)) s
      else if key = ''h2'' then set_header value (\<lambda>r. m_response_update (\<lambda>_. r)) s
      else if key = ''h3'' then set_header value (\<lambda>r. m_cookie_update (\<lambda>_. r)) s
      else if key = ''h4'' then set_header value (\<lambda>r. m_transport_update (\<lambda>_. r)) s
      else if key = ''i1'' then set_ipacket value 0 s
      else if key = ''i2'' then set_ipacket value 1 s
      else if key = ''i3'' then set_ipacket value 2 s
      else if key = ''i4'' then set_ipacket value 3 s
      else if key = ''i5'' then set_ipacket value 4 s
      else if key = ''header_protection_key'' then
        parsed (loadExactHex HeaderCipherKeySize value) (\<lambda>k. ((fst s)\<lparr>ipc_headerKey := k\<rparr>, snd s)) s
      else if key = ''content_padding_addition'' then store_setting (FromString value) (\<lambda>r. dv_contentPaddingAddition_update (\<lambda>_. r)) s
      else if key = ''rekey_after_time'' then set_timing value (\<lambda>r. rekeyAfterTimeSec_update (\<lambda>_. r)) s
      else if key = ''rekey_timeout'' then set_timing value (\<lambda>r. rekeyTimeoutSec_update (\<lambda>_. r)) s
      else if key = ''reject_after_time'' then set_timing value (\<lambda>r. rejectAfterTimeSec_update (\<lambda>_. r)) s
      else if key = ''keepalive_timeout'' then set_timing value (\<lambda>r. keepaliveTimeoutSec_update (\<lambda>_. r)) s
      else if key = ''max_handshake_attempts'' then set_timing value (\<lambda>r. maxHandshakeAttemps_update (\<lambda>_. r)) s
      else if key = ''random_trailers'' then store_setting (ParseBool value) (\<lambda>v. dv_randomTrailers_update (\<lambda>_. v)) s
      else if key = ''disable_cookies'' then store_setting (ParseBool value) (\<lambda>v. dv_disableCookies_update (\<lambda>_. v)) s
      else Some (Some IpcErrorInvalid, s))"

text \<open>
  The peer a request works on: none yet, a temporary \<^verbatim>\<open>Peer\<close> that belongs to no device, or a peer of the device.
\<close>

datatype 'e peer_ref = NilPeer | TempPeer "'e Peer" | DevPeer nat

record 'e ipcSetPeer =
  sp_peer :: "'e peer_ref"
  sp_dummy :: bool
  sp_created :: bool
  sp_pkaOn :: bool

definition new_ipcSetPeer :: "'e ipcSetPeer" where
  "new_ipcSetPeer = \<lparr>sp_peer = NilPeer, sp_dummy = False, sp_created = False, sp_pkaOn = False\<rparr>"

definition handlePostConfig :: "'e ipcSetPeer \<Rightarrow> 'e Device \<Rightarrow> 'e Device" where
  "handlePostConfig peer d =
     (case sp_peer peer of
        DevPeer i \<Rightarrow>
          if sp_dummy peer then d
          else
            let d = (if sp_created peer
                     then upd_peer i (\<lambda>p. p\<lparr>pr_disableRoaming := wg_brokenRoaming d \<and> pr_endpoint p \<noteq> None\<rparr>) d else d)
            in if isUp d then
                 let d = Peer_Start i d;
                     d = (if sp_pkaOn peer then peer_call (SendKeepalive i) d else d)
                 in peer_call (SendStagedPackets i) d
               else d
      | _ \<Rightarrow> d)"

type_synonym 'e peer_result = "ipc_error option \<times> 'e ipcSetPeer \<times> 'e Device"

definition handlePublicKeyLine :: "(bytes \<Rightarrow> bytes \<Rightarrow> bytes) \<Rightarrow> string \<Rightarrow> 'e ipcSetPeer \<Rightarrow> 'e Device \<Rightarrow> 'e peer_result" where
  "handlePublicKeyLine dh value peer d =
     (case loadExactHex 32 value of
        None \<Rightarrow> (Some IpcErrorInvalid, peer, d)
      | Some publicKey \<Rightarrow>
          if wg_publicKey d = publicKey then (None, peer\<lparr>sp_dummy := True, sp_peer := TempPeer zero_Peer, sp_created := False\<rparr>, d)
          else
            let peer = peer\<lparr>sp_dummy := False\<rparr> in
            case LookupPeer publicKey d of
              Some i \<Rightarrow> (None, peer\<lparr>sp_peer := DevPeer i, sp_created := False\<rparr>, d)
            | None \<Rightarrow>
                let (r, d) = NewPeer dh publicKey d; peer = peer\<lparr>sp_created := True\<rparr> in
                (case r of
                   None \<Rightarrow> (Some IpcErrorInvalid, peer\<lparr>sp_peer := NilPeer\<rparr>, d)
                 | Some i \<Rightarrow> (None, peer\<lparr>sp_peer := DevPeer i\<rparr>, d)))"

text \<open>The object the current peer points to, and a change of its fields; a nil pointer panics.\<close>

definition current_peer :: "'e ipcSetPeer \<Rightarrow> 'e Device \<Rightarrow> 'e Peer option" where
  "current_peer peer d = (case sp_peer peer of NilPeer \<Rightarrow> None | TempPeer p \<Rightarrow> Some p | DevPeer i \<Rightarrow> Some (wg_peers d ! i))"

definition upd_current :: "('e Peer \<Rightarrow> 'e Peer) \<Rightarrow> 'e ipcSetPeer \<Rightarrow> 'e Device \<Rightarrow> ('e ipcSetPeer \<times> 'e Device) option" where
  "upd_current f peer d =
     (case sp_peer peer of
        NilPeer \<Rightarrow> None
      | TempPeer p \<Rightarrow> Some (peer\<lparr>sp_peer := TempPeer (f p)\<rparr>, d)
      | DevPeer i \<Rightarrow> Some (peer, upd_peer i f d))"

text \<open>The routing table with the current peer, where the code passes its pointer.\<close>

definition with_table :: "(nat AllowedIPs \<Rightarrow> nat \<Rightarrow> nat AllowedIPs option) \<Rightarrow> 'e ipcSetPeer \<Rightarrow> 'e Device \<Rightarrow> 'e peer_result option" where
  "with_table f peer d =
     (case sp_peer peer of
        DevPeer i \<Rightarrow> map_option (\<lambda>t. (None, peer, d\<lparr>wg_allowedips := t\<rparr>)) (f (wg_allowedips d) i)
      | _ \<Rightarrow> None)"

definition become_temp :: "'e ipcSetPeer \<Rightarrow> 'e ipcSetPeer" where
  "become_temp peer = peer\<lparr>sp_peer := TempPeer zero_Peer, sp_dummy := True\<rparr>"

definition handlePeerLine :: "'e bind_ops \<Rightarrow> string \<Rightarrow> string \<Rightarrow> 'e ipcSetPeer \<Rightarrow> 'e Device \<Rightarrow> 'e peer_result option" where
  "handlePeerLine b key value peer d =
     (if key = ''update_only'' then
        (if value \<noteq> ''true'' then Some (Some IpcErrorInvalid, peer, d)
         else if sp_created peer \<and> \<not> sp_dummy peer then do {
           p \<leftarrow> current_peer peer d;
           d \<leftarrow> RemovePeer (pr_remoteStatic p) d;
           Some (None, become_temp peer, d) }
         else Some (None, peer, d))
      else if key = ''remove'' then
        (if value \<noteq> ''true'' then Some (Some IpcErrorInvalid, peer, d)
         else if \<not> sp_dummy peer then do {
           p \<leftarrow> current_peer peer d;
           d \<leftarrow> RemovePeer (pr_remoteStatic p) d;
           Some (None, become_temp peer, d) }
         else Some (None, become_temp peer, d))
      else if key = ''preshared_key'' then
        (case loadExactHex 32 value of
           None \<Rightarrow> Some (Some IpcErrorInvalid, peer, d)
         | Some k \<Rightarrow> map_option (Pair None) (upd_current (pr_presharedKey_update (\<lambda>_. k)) peer d))
      else if key = ''endpoint'' then
        (case bind_ParseEndpoint b value of
           None \<Rightarrow> Some (Some IpcErrorInvalid, peer, d)
         | Some endpoint \<Rightarrow> map_option (Pair None) (upd_current (pr_endpoint_update (\<lambda>_. Some endpoint)) peer d))
      else if key = ''persistent_keepalive_interval'' then
        (case FromString value of
           None \<Rightarrow> Some (Some IpcErrorInvalid, peer, d)
         | Some rang \<Rightarrow> do {
             p \<leftarrow> current_peer peer d;
             (peer, d) \<leftarrow> upd_current (pr_persistentKeepaliveInterval_update (\<lambda>_. rang)) peer d;
             Some (None, peer\<lparr>sp_pkaOn := Range_IsZero (pr_persistentKeepaliveInterval p) \<and> \<not> Range_IsZero rang\<rparr>, d) })
      else if key = ''replace_allowed_ips'' then
        (if value \<noteq> ''true'' then Some (Some IpcErrorInvalid, peer, d)
         else if sp_dummy peer then Some (None, peer, d)
         else with_table RemoveByPeer peer d)
      else if key = ''allowed_ip'' then
        (let rem = (value \<noteq> [] \<and> hd value = CHR ''-''); value = (if rem then tl value else value) in
         case ParsePrefix value of
           None \<Rightarrow> Some (Some IpcErrorInvalid, peer, d)
         | Some x \<Rightarrow>
             if sp_dummy peer then Some (None, peer, d)
             else if \<not> rem then with_table (\<lambda>t. Insert t x) peer d
             else with_table (\<lambda>t. Remove t x) peer d)
      else if key = ''protocol_version'' then Some (if value \<noteq> ''1'' then Some IpcErrorInvalid else None, peer, d)
      else Some (Some IpcErrorInvalid, peer, d))"

text \<open>
  \<^verbatim>\<open>IpcSetOperation\<close> on the lines a scanner delivers; \<open>scanErr\<close> is whether the scanner ended with an error. The
  result is the error, if any, and the device.
\<close>

definition finish_set :: "bool \<Rightarrow> ipcSetDevice \<Rightarrow> 'e ipcSetPeer \<Rightarrow> 'e Device \<Rightarrow> ipc_error option \<times> 'e Device" where
  "finish_set scanErr ipcDev peer d =
     (let (e, o') = mergeWithDevice ipcDev (wg_obf d); d = d\<lparr>wg_obf := o'\<rparr> in
      if e \<noteq> None then (Some IpcErrorInvalid, d)
      else (if scanErr then Some IpcErrorIO else None, handlePostConfig peer d))"

fun set_lines ::
  "(bytes \<Rightarrow> bytes) \<Rightarrow> (bytes \<Rightarrow> bytes \<Rightarrow> bytes) \<Rightarrow> 'e bind_ops \<Rightarrow> bool \<Rightarrow> bool \<Rightarrow> string list \<Rightarrow> ipcSetDevice \<Rightarrow> 'e ipcSetPeer \<Rightarrow> 'e Device \<Rightarrow>
   (ipc_error option \<times> 'e Device) option" where
  "set_lines pub dh b scanErr deviceConfig [] ipcDev peer d = Some (finish_set scanErr ipcDev peer d)"
| "set_lines pub dh b scanErr deviceConfig (line # ls) ipcDev peer d =
     (if line = [] then Some (finish_set False ipcDev peer d)
      else case cut_at (CHR ''='') line of
        None \<Rightarrow> Some (Some IpcErrorProtocol, d)
      | Some (key, value) \<Rightarrow>
          if key = ''public_key'' then
            (case handlePublicKeyLine dh value peer (handlePostConfig peer d) of
               (Some e, _, d) \<Rightarrow> Some (Some e, d)
             | (None, peer, d) \<Rightarrow> set_lines pub dh b scanErr False ls ipcDev peer d)
          else if deviceConfig then
            (case handleDeviceLine pub dh b key value (ipcDev, d) of
               None \<Rightarrow> None
             | Some (Some e, _, d) \<Rightarrow> Some (Some e, d)
             | Some (None, ipcDev, d) \<Rightarrow> set_lines pub dh b scanErr True ls ipcDev peer d)
          else
            (case handlePeerLine b key value peer d of
               None \<Rightarrow> None
             | Some (Some e, _, d) \<Rightarrow> Some (Some e, d)
             | Some (None, peer, d) \<Rightarrow> set_lines pub dh b scanErr False ls ipcDev peer d))"

definition IpcSetOperation ::
  "(bytes \<Rightarrow> bytes) \<Rightarrow> (bytes \<Rightarrow> bytes \<Rightarrow> bytes) \<Rightarrow> 'e bind_ops \<Rightarrow> bool \<Rightarrow> string list \<Rightarrow> 'e Device \<Rightarrow> (ipc_error option \<times> 'e Device) option" where
  "IpcSetOperation pub dh b scanErr ls d = set_lines pub dh b scanErr True ls (fromDevice (wg_obf d)) new_ipcSetPeer d"

section \<open>The routing table seen from the device\<close>

text \<open>The peers that own a prefix of the table.\<close>

definition owners :: "'p AllowedIPs \<Rightarrow> 'p set" where
  "owners t = {i. \<exists>m q. (m = 4 \<or> m = 16) \<and> routes t (m, q) = Some i}"

lemma owners_empty [simp]: "owners empty_table = {}"
  by (auto simp: owners_def routes_def family_def empty_table_def)

lemma owners_upd:
  assumes "\<forall>m q. m = 4 \<or> m = 16 \<longrightarrow> routes t' (m, q) = (if P m q then y else routes t (m, q))"
  shows "owners t' \<subseteq> set_option y \<union> owners t"
proof
  fix j assume "j \<in> owners t'"
  then obtain m q where m: "m = 4 \<or> m = 16" and q: "routes t' (m, q) = Some j" unfolding owners_def by blast
  then have "(if P m q then y else routes t (m, q)) = Some j" using assms by metis
  then show "j \<in> set_option y \<union> owners t" using m unfolding owners_def by (auto split: if_splits)
qed

lemma owners_RemoveByPeer:
  assumes "table_inv t"
  obtains t' where "RemoveByPeer t i = Some t'" "table_inv t'" "owners t' \<subseteq> owners t - {i}"
proof -
  obtain t' where r: "RemoveByPeer t i = Some t'" "table_inv t'" "\<forall>m q. m = 4 \<or> m = 16 \<longrightarrow> routes t' (m, q) =
      (if (m, q) \<in> ekey ` set (trieEntries t i) then None else routes t (m, q))"
    using RemoveByPeer_map [OF assms] by blast
  have "routes t' (m, q) = (if routes t (m, q) = Some i then None else routes t (m, q))" if "m = 4 \<or> m = 16" for m q
    using r(3) entries_image [OF assms that, of q i] that by metis
  then have e: "\<forall>m q. m = 4 \<or> m = 16 \<longrightarrow> routes t' (m, q) = (if routes t (m, q) = Some i then None else routes t (m, q))" by blast
  have "i \<notin> owners t'"
  proof
    assume "i \<in> owners t'"
    then obtain m q where "m = 4 \<or> m = 16" "routes t' (m, q) = Some i" unfolding owners_def by blast
    then show False using e by (metis option.distinct(1))
  qed
  then show ?thesis using that r(1,2) owners_upd [OF e] by auto
qed

lemma owners_Insert:
  assumes "table_inv t" "valid_prefix x"
  obtains t' where "Insert t x i = Some t'" "table_inv t'" "owners t' \<subseteq> insert i (owners t)"
proof -
  obtain t' where r: "Insert t x i = Some t'" "table_inv t'"
    "\<forall>m q. m = 4 \<or> m = 16 \<longrightarrow> routes t' (m, q) = (if (m, q) = prefix_key x then Some i else routes t (m, q))"
    using Insert_map [OF assms] by blast
  have "owners t' \<subseteq> set_option (Some i) \<union> owners t" by (rule owners_upd [OF r(3)])
  then show ?thesis using that r(1,2) by simp
qed

lemma owners_Remove:
  assumes "table_inv t" "valid_prefix x"
  obtains t' where "Remove t x i = Some t'" "table_inv t'" "owners t' \<subseteq> owners t"
proof -
  obtain t' where r: "Remove t x i = Some t'" "table_inv t'" "\<forall>m q. m = 4 \<or> m = 16 \<longrightarrow> routes t' (m, q) =
      (if (m, q) = prefix_key x \<and> routes t (m, q) = Some i then None else routes t (m, q))"
    using Remove_map [OF assms] by blast
  have "owners t' \<subseteq> set_option None \<union> owners t" by (rule owners_upd [OF r(3)])
  then show ?thesis using that r(1,2) by simp
qed

lemma Lookup_owner:
  assumes "table_inv t" "length a = 4 \<or> length a = 16" "Lookup t a = Some (Some i)"
  shows "i \<in> owners t"
proof -
  obtain k where "covers_addr k a" "routes t k = Some i" using Lookup_some [OF assms(1,2), of i] assms(3) by blast
  then show ?thesis using assms(2) unfolding owners_def covers_addr_def by (cases k) auto
qed

lemma ParsePrefix_valid: "ParsePrefix s = Some x \<Longrightarrow> valid_prefix x"
proof -
  have a: "length ip = 4 \<or> length ip = 16" if "ParseAddr u = Some ip" for u ip
    using that parse_v4_fields_length [of "map of_char u" "[]" 0 0 True ip] parse_v6_length [of "map of_char u" ip]
    by (auto simp: ParseAddr_def Let_def split: list.splits if_splits)
  assume "ParsePrefix s = Some x"
  then obtain u ip where "ParseAddr u = Some ip" "Addr x = ip" "0 \<le> Bits x" "Bits x \<le> 8 * int (length ip)"
    by (auto simp: ParsePrefix_def Let_def split: option.splits prod.splits if_splits Option.bind_splits)
  then show ?thesis using a by (auto simp: valid_prefix_def)
qed

section \<open>The invariant\<close>

definition ids :: "'e Device \<Rightarrow> nat set" where "ids d = snd ` set (wg_keyMap d)"

text \<open>
  What holds whenever no operation is under way: the routing table is well-formed and owned by current peers only; the
  map of peers is one to one and its keys are those of the peers, at most \<^verbatim>\<open>MaxPeers\<close>, none of them the key of the
  device; the settings of the wire format are accepted ones.
\<close>

definition core_inv :: "'e Device \<Rightarrow> bool" where
  "core_inv d \<longleftrightarrow> table_inv (wg_allowedips d) \<and> owners (wg_allowedips d) \<subseteq> ids d \<and>
     distinct (map fst (wg_keyMap d)) \<and> distinct (map snd (wg_keyMap d)) \<and>
     (\<forall>(key, i)\<in>set (wg_keyMap d). i < length (wg_peers d) \<and> pr_remoteStatic (wg_peers d ! i) = key) \<and>
     length (wg_keyMap d) \<le> MaxPeers \<and> wg_publicKey d \<notin> fst ` set (wg_keyMap d) \<and> conf_ok (wg_obf d)"

text \<open>Only current peers of a device that is up run, and a closed device has no peers.\<close>

definition running :: "'e Device \<Rightarrow> nat set" where
  "running d = {i. i < length (wg_peers d) \<and> pr_isRunning (wg_peers d ! i)}"

definition base_inv :: "'e Device \<Rightarrow> bool" where
  "base_inv d \<longleftrightarrow> core_inv d \<and> running d \<subseteq> ids d"

definition wg_inv :: "'e Device \<Rightarrow> bool" where
  "wg_inv d \<longleftrightarrow> base_inv d \<and> (isUp d \<or> running d = {}) \<and> (isClosed d \<longrightarrow> wg_keyMap d = [])"

text \<open>
  A step that leaves the map, the table, the state and the keys alone; \<open>frame\<close> is such a step that starts no peer,
  \<open>frame_on\<close> one that may start the given peers.
\<close>

definition same_fields :: "'e Device \<Rightarrow> 'e Device \<Rightarrow> bool" where
  "same_fields d d' \<longleftrightarrow> wg_keyMap d' = wg_keyMap d \<and> wg_allowedips d' = wg_allowedips d \<and> wg_state d' = wg_state d \<and>
     wg_publicKey d' = wg_publicKey d \<and> wg_obf d' = wg_obf d \<and>
     map pr_remoteStatic (wg_peers d') = map pr_remoteStatic (wg_peers d)"

definition frame :: "'e Device \<Rightarrow> 'e Device \<Rightarrow> bool" where
  "frame d d' \<longleftrightarrow> same_fields d d' \<and> running d' \<subseteq> running d"

definition frame_on :: "nat set \<Rightarrow> 'e Device \<Rightarrow> 'e Device \<Rightarrow> bool" where
  "frame_on I d d' \<longleftrightarrow> same_fields d d' \<and> running d' \<subseteq> running d \<union> I"

lemmas frame_defs = frame_def same_fields_def frame_on_def

lemma frame_refl [simp]: "frame d d"
  by (simp add: frame_defs)

lemma frame_trans [trans]: "frame d d' \<Longrightarrow> frame d' d'' \<Longrightarrow> frame d d''"
  by (auto simp: frame_defs)

lemma frame_fold: "(\<And>i d. frame d (f i d)) \<Longrightarrow> frame d (fold f is d)"
  by (induction "is" arbitrary: d) (auto intro: frame_trans)

lemma same_fields_remote:
  assumes "same_fields d d'"
  shows "length (wg_peers d') = length (wg_peers d)"
    and "i < length (wg_peers d) \<Longrightarrow> pr_remoteStatic (wg_peers d' ! i) = pr_remoteStatic (wg_peers d ! i)"
proof -
  have m: "map pr_remoteStatic (wg_peers d') = map pr_remoteStatic (wg_peers d)" using assms by (simp add: same_fields_def)
  then show l: "length (wg_peers d') = length (wg_peers d)" by (rule map_eq_imp_length_eq)
  have "map pr_remoteStatic (wg_peers d') ! i = map pr_remoteStatic (wg_peers d) ! i" by (simp add: m)
  then show "i < length (wg_peers d) \<Longrightarrow> pr_remoteStatic (wg_peers d' ! i) = pr_remoteStatic (wg_peers d ! i)" using l by simp
qed

lemma same_fields_core_inv:
  assumes "same_fields d d'" "core_inv d"
  shows "core_inv d'"
proof -
  have e: "wg_keyMap d' = wg_keyMap d" "wg_allowedips d' = wg_allowedips d" "wg_publicKey d' = wg_publicKey d"
    "wg_obf d' = wg_obf d" "ids d' = ids d"
    using assms(1) by (simp_all add: same_fields_def ids_def)
  have "\<forall>(key, i)\<in>set (wg_keyMap d). i < length (wg_peers d') \<and> pr_remoteStatic (wg_peers d' ! i) = key"
  proof clarify
    fix key i assume "(key, i) \<in> set (wg_keyMap d)"
    then have "i < length (wg_peers d)" "pr_remoteStatic (wg_peers d ! i) = key" using assms(2) unfolding core_inv_def by blast+
    then show "i < length (wg_peers d') \<and> pr_remoteStatic (wg_peers d' ! i) = key"
      using same_fields_remote [OF assms(1)] by simp
  qed
  then show ?thesis using assms(2) unfolding core_inv_def e by blast
qed

lemma frame_core_inv: "frame d d' \<Longrightarrow> core_inv d \<Longrightarrow> core_inv d'"
  using same_fields_core_inv by (auto simp: frame_def)

lemma frame_base_inv: "frame d d' \<Longrightarrow> base_inv d \<Longrightarrow> base_inv d'"
  using frame_core_inv [of d d'] by (auto simp: base_inv_def frame_defs ids_def)

lemma frame_wg_inv: "frame d d' \<Longrightarrow> wg_inv d \<Longrightarrow> wg_inv d'"
  using frame_base_inv [of d d'] by (auto simp: wg_inv_def frame_defs isUp_def isClosed_def)

lemma frame_imp_on: "frame d d' \<Longrightarrow> frame_on I d d'"
  by (auto simp: frame_def frame_on_def)

lemma frame_on_trans: "frame_on I d d' \<Longrightarrow> frame_on I d' d'' \<Longrightarrow> frame_on I d d''"
  by (auto simp: frame_defs)

lemma frame_on_fold: "(\<And>i d. i \<in> set is \<Longrightarrow> frame_on I d (f i d)) \<Longrightarrow> frame_on I d (fold f is d)"
  by (induction "is" arbitrary: d) (auto simp: frame_imp_on intro: frame_on_trans)

lemma frame_on_wg_inv:
  assumes "frame_on I d d'" "wg_inv d" "I \<subseteq> ids d" "isUp d"
  shows "wg_inv d'"
proof -
  have s: "same_fields d d'" "running d' \<subseteq> running d \<union> I" using assms(1) by (simp_all add: frame_on_def)
  have "core_inv d'" using same_fields_core_inv [OF s(1)] assms(2) by (simp add: wg_inv_def base_inv_def)
  moreover have "ids d' = ids d" "isUp d'" "isClosed d' = isClosed d" "wg_keyMap d' = wg_keyMap d"
    using s(1) assms(4) by (simp_all add: same_fields_def ids_def isUp_def isClosed_def)
  ultimately show ?thesis using s(2) assms(2,3) unfolding wg_inv_def base_inv_def by auto
qed

named_theorems framed

lemma frame_upd_peer [framed]:
  assumes "\<And>p. pr_remoteStatic (f p) = pr_remoteStatic p" "\<And>p. pr_isRunning (f p) \<Longrightarrow> pr_isRunning p"
  shows "frame d (upd_peer i f d)"
proof -
  have "map pr_remoteStatic ((wg_peers d)[i := f (wg_peers d ! i)]) = map pr_remoteStatic (wg_peers d)"
    using assms(1) by (simp add: map_update) (metis list_update_id list_update_beyond map_update nth_map linorder_not_less length_map)
  moreover have "running (upd_peer i f d) \<subseteq> running d"
  proof
    fix x assume "x \<in> running (upd_peer i f d)"
    then show "x \<in> running d" using assms(2) [of "wg_peers d ! x"] by (cases "i = x") (auto simp: running_def upd_peer_def)
  qed
  ultimately show ?thesis by (simp add: frame_defs upd_peer_def)
qed

lemma frame_peer_call [framed]: "frame d (peer_call c d)"
  by (simp add: frame_defs peer_call_def running_def)

lemma frame_Peer_Stop [framed]: "frame d (Peer_Stop i d)"
  by (auto simp: Peer_Stop_def intro!: frame_trans [OF frame_upd_peer frame_peer_call])

lemma frame_markEndpoint [framed]: "frame d (markEndpointSrcForClearing i d)"
  by (auto simp: markEndpointSrcForClearing_def intro!: framed)

lemma frame_SetEndpoint [framed]: "frame d (SetEndpointFromPacket i e d)"
  by (auto simp: SetEndpointFromPacket_def Let_def intro!: framed split: if_splits)

lemma frame_fields: "frame d (d\<lparr>wg_fwmark := m\<rparr>)" "frame d (d\<lparr>wg_port := q\<rparr>)" "frame d (d\<lparr>wg_brokenRoaming := r\<rparr>)" "frame d (d\<lparr>wg_privateKey := sk\<rparr>)"
  by (simp_all add: frame_defs running_def)

section \<open>Removing peers\<close>

lemma Peer_Stop_stops: "running (Peer_Stop i d) = running d - {i}"
  by (cases "i < length (wg_peers d)")
    (auto simp: Peer_Stop_def running_def peer_call_def upd_peer_def nth_list_update split: if_splits)

lemma stop_all: "running (fold Peer_Stop is d) = running d - set is"
  by (induction "is" arbitrary: d) (auto simp: Peer_Stop_stops)

lemma core_inv_filter:
  assumes "core_inv d" "owners (wg_allowedips d) \<subseteq> snd ` set (filter P (wg_keyMap d))"
  shows "core_inv (d\<lparr>wg_keyMap := filter P (wg_keyMap d)\<rparr>)"
proof -
  have "length (wg_keyMap d) \<le> MaxPeers" using assms(1) by (simp add: core_inv_def)
  then have "length (filter P (wg_keyMap d)) \<le> MaxPeers" using length_filter_le le_trans by blast
  then show ?thesis using assms unfolding core_inv_def by (auto simp: distinct_map_filter ids_def)
qed

text \<open>The parts of a device that removing peers leaves alone.\<close>

definition same_rest :: "'e Device \<Rightarrow> 'e Device \<Rightarrow> bool" where
  "same_rest d d' \<longleftrightarrow> wg_state d' = wg_state d \<and> wg_publicKey d' = wg_publicKey d \<and> wg_obf d' = wg_obf d \<and>
     map pr_remoteStatic (wg_peers d') = map pr_remoteStatic (wg_peers d)"

lemma core_inv_table:
  assumes "core_inv d" "table_inv t" "owners t \<subseteq> ids d"
  shows "core_inv (d\<lparr>wg_allowedips := t\<rparr>)"
  using assms unfolding core_inv_def ids_def by simp

lemma core_inv_entry:
  assumes "core_inv d" "(key, i) \<in> set (wg_keyMap d)"
  shows "map_of (wg_keyMap d) key = Some i" "i < length (wg_peers d)" "pr_remoteStatic (wg_peers d ! i) = key"
    "snd ` set (filter (\<lambda>(k, _). k \<noteq> key) (wg_keyMap d)) = ids d - {i}"
proof -
  show "map_of (wg_keyMap d) key = Some i" using assms by (simp add: core_inv_def)
  show "i < length (wg_peers d)" "pr_remoteStatic (wg_peers d ! i) = key" using assms unfolding core_inv_def by blast+
  have "k \<noteq> key \<longleftrightarrow> j \<noteq> i" if "(k, j) \<in> set (wg_keyMap d)" for k j
  proof -
    have d: "distinct (map fst (wg_keyMap d))" "inj_on snd (set (wg_keyMap d))"
      using assms(1) by (simp_all add: core_inv_def distinct_map)
    have "j = i" if "k = key" using eq_key_imp_eq_value [OF d(1)] that \<open>(k, j) \<in> _\<close> assms(2) by blast
    moreover have "k = key" if "j = i" using inj_onD [OF d(2) _ \<open>(k, j) \<in> _\<close> assms(2)] that by simp
    ultimately show ?thesis by blast
  qed
  then show "snd ` set (filter (\<lambda>(k, _). k \<noteq> key) (wg_keyMap d)) = ids d - {i}"
    by (force simp: ids_def image_iff)
qed

lemma removePeerLocked_spec:
  assumes inv: "core_inv d" and k: "(key, i) \<in> set (wg_keyMap d)"
  obtains d' where "removePeerLocked i key d = Some d'" "core_inv d'" "same_rest d d'" "running d' = running d - {i}"
    "wg_keyMap d' = filter (\<lambda>(k, _). k \<noteq> key) (wg_keyMap d)"
proof -
  have o: "table_inv (wg_allowedips d)" "owners (wg_allowedips d) \<subseteq> ids d" using inv by (simp_all add: core_inv_def)
  obtain t where t: "RemoveByPeer (wg_allowedips d) i = Some t" "table_inv t" and "owners t \<subseteq> owners (wg_allowedips d) - {i}"
    by (rule owners_RemoveByPeer [OF o(1)])
  then have t3: "owners t \<subseteq> ids d - {i}" "owners t \<subseteq> ids d" using o(2) by blast+
  let ?d1 = "d\<lparr>wg_allowedips := t\<rparr>"
  let ?d2 = "Peer_Stop i ?d1"
  have f: "frame ?d1 ?d2" by (rule framed)
  then have c: "core_inv ?d2" using frame_core_inv core_inv_table [OF inv t(2) t3(2)] by blast
  have e: "wg_keyMap ?d2 = wg_keyMap d" "wg_allowedips ?d2 = t" "same_rest d ?d2" using f by (simp_all add: frame_defs same_rest_def)
  let ?d3 = "?d2\<lparr>wg_keyMap := filter (\<lambda>(k, _). k \<noteq> key) (wg_keyMap ?d2)\<rparr>"
  have "core_inv ?d3" using core_inv_filter [OF c] t3(1) core_inv_entry(4) [OF inv k] e by simp
  moreover have "removePeerLocked i key d = Some ?d3" using t(1) by (simp add: removePeerLocked_def Let_def)
  moreover have "running ?d3 = running d - {i}" using Peer_Stop_stops [of i ?d1] by (simp add: running_def)
  moreover have "same_rest d ?d3" using e(3) by (simp add: same_rest_def)
  ultimately show ?thesis using that e(1) by simp
qed

text \<open>What is kept when peers are removed: the invariant, the rest of the device, and the entries of the others.\<close>

definition shrunk :: "'e Device \<Rightarrow> 'e Device \<Rightarrow> bool" where
  "shrunk d d' \<longleftrightarrow> base_inv d' \<and> same_rest d d' \<and> running d' \<subseteq> running d \<and> set (wg_keyMap d') \<subseteq> set (wg_keyMap d)"

lemma shrunk_refl: "base_inv d \<Longrightarrow> shrunk d d"
  by (simp add: shrunk_def same_rest_def)

lemma shrunk_trans: "shrunk d d' \<Longrightarrow> shrunk d' d'' \<Longrightarrow> shrunk d d''"
  by (auto simp: shrunk_def same_rest_def)

lemma shrunk_wg_inv: "wg_inv d \<Longrightarrow> shrunk d d' \<Longrightarrow> wg_inv d'"
  by (auto simp: wg_inv_def shrunk_def same_rest_def isUp_def isClosed_def)

lemma removePeerLocked_shrunk:
  assumes "base_inv d" "(key, i) \<in> set (wg_keyMap d)"
  obtains d' where "removePeerLocked i key d = Some d'" "shrunk d d'" "wg_keyMap d' = filter (\<lambda>(k, _). k \<noteq> key) (wg_keyMap d)"
proof -
  have inv: "core_inv d" "running d \<subseteq> ids d" using assms(1) by (simp_all add: base_inv_def)
  obtain d' where d': "removePeerLocked i key d = Some d'" "core_inv d'" "same_rest d d'" "running d' = running d - {i}"
    "wg_keyMap d' = filter (\<lambda>(k, _). k \<noteq> key) (wg_keyMap d)"
    by (rule removePeerLocked_spec [OF inv(1) assms(2)])
  have "ids d' = ids d - {i}" using d'(5) core_inv_entry(4) [OF inv(1) assms(2)] by (simp add: ids_def)
  then have "shrunk d d'" using d' inv(2) by (auto simp: shrunk_def base_inv_def)
  then show ?thesis using that d'(1,5) by blast
qed

lemma remove_peers_shrunk:
  assumes "base_inv d" "set kms \<subseteq> set (wg_keyMap d)" "distinct (map fst kms)"
  shows "\<exists>d'. remove_peers kms d = Some d' \<and> shrunk d d' \<and> wg_keyMap d' = filter (\<lambda>(k, _). k \<notin> fst ` set kms) (wg_keyMap d)"
  using assms
proof (induction kms arbitrary: d)
  case Nil
  then show ?case by (simp add: shrunk_refl)
next
  case (Cons x kms)
  obtain key i where x: "x = (key, i)" by fastforce
  have "(key, i) \<in> set (wg_keyMap d)" using Cons.prems(2) x by simp
  then obtain d1 where d1: "removePeerLocked i key d = Some d1" "shrunk d d1" "wg_keyMap d1 = filter (\<lambda>(k, _). k \<noteq> key) (wg_keyMap d)"
    using removePeerLocked_shrunk [OF Cons.prems(1)] by blast
  have b: "base_inv d1" using d1(2) by (simp add: shrunk_def)
  have "key \<notin> fst ` set kms" "set kms \<subseteq> set (wg_keyMap d)" "distinct (map fst kms)" using Cons.prems(2,3) x by auto
  then have s: "set kms \<subseteq> set (wg_keyMap d1)" unfolding d1(3) by force
  obtain d2 where d2: "remove_peers kms d1 = Some d2" "shrunk d1 d2" "wg_keyMap d2 = filter (\<lambda>(k, _). k \<notin> fst ` set kms) (wg_keyMap d1)"
    using Cons.IH [OF b s \<open>distinct (map fst kms)\<close>] by blast
  have "wg_keyMap d2 = filter (\<lambda>(k, _). k \<notin> fst ` set (x # kms)) (wg_keyMap d)"
    unfolding d2(3) d1(3) filter_filter by (rule filter_cong) (auto simp: x)
  then show ?case using d1(1) d2(1) shrunk_trans [OF d1(2) d2(2)] x by simp
qed

lemma RemovePeer_shrunk:
  assumes "base_inv d"
  shows "\<exists>d'. RemovePeer key d = Some d' \<and> shrunk d d'"
proof (cases "map_of (wg_keyMap d) key")
  case None
  then show ?thesis using shrunk_refl [OF assms] by (simp add: RemovePeer_def)
next
  case (Some i)
  then have "(key, i) \<in> set (wg_keyMap d)" by (rule map_of_SomeD)
  then obtain d' where "removePeerLocked i key d = Some d'" "shrunk d d'" using removePeerLocked_shrunk [OF assms] by blast
  then show ?thesis using Some by (simp add: RemovePeer_def)
qed

lemma base_inv_distinct: "base_inv d \<Longrightarrow> distinct (map fst (wg_keyMap d))"
  by (simp add: base_inv_def core_inv_def)

lemma RemoveAllPeers_spec:
  assumes "base_inv d"
  shows "\<exists>d'. RemoveAllPeers d = Some d' \<and> shrunk d d' \<and> wg_keyMap d' = []"
proof -
  obtain d' where d': "remove_peers (wg_keyMap d) d = Some d'" "shrunk d d'"
    "wg_keyMap d' = filter (\<lambda>(k, _). k \<notin> fst ` set (wg_keyMap d)) (wg_keyMap d)"
    using remove_peers_shrunk [OF assms subset_refl base_inv_distinct [OF assms]] by blast
  have "wg_keyMap d' = []" unfolding d'(3) by (force simp: filter_empty_conv)
  then have e: "wg_keyMap d' = [] \<and> d'\<lparr>wg_keyMap := []\<rparr> = d'" by (cases d') simp
  have "RemoveAllPeers d = Some d'" unfolding RemoveAllPeers_def d'(1) bind.bind_lunit using e by simp
  then show ?thesis using d'(2) e by blast
qed

lemma SetPrivateKey_inv:
  assumes "wg_inv d"
  shows "\<exists>d'. SetPrivateKey pub dh sk d = Some d' \<and> wg_inv d' \<and> wg_obf d' = wg_obf d"
proof (cases "sk = wg_privateKey d")
  case True
  then show ?thesis using assms by (simp add: SetPrivateKey_def)
next
  case False
  let ?kms = "filter (\<lambda>(key, i). pr_remoteStatic (wg_peers d ! i) = pub sk) (wg_keyMap d)"
  have b: "base_inv d" using assms by (simp add: wg_inv_def)
  have kms: "pub sk \<in> fst ` set ?kms" if m: "(pub sk, i) \<in> set (wg_keyMap d)" for i
  proof -
    have "pr_remoteStatic (wg_peers d ! i) = pub sk" using m b by (simp add: base_inv_def core_inv_entry(3))
    then show ?thesis using m by force
  qed
  obtain d1 where d1: "remove_peers ?kms d = Some d1" "shrunk d d1" "wg_keyMap d1 = filter (\<lambda>(k, _). k \<notin> fst ` set ?kms) (wg_keyMap d)"
    using remove_peers_shrunk [OF b, of ?kms] base_inv_distinct [OF b] by (auto simp: distinct_map_filter)
  have "pub sk \<notin> fst ` set (wg_keyMap d1)" unfolding d1(3) using kms by auto
  moreover have w: "wg_inv d1" using shrunk_wg_inv [OF assms d1(2)] .
  ultimately have w2: "wg_inv (d1\<lparr>wg_privateKey := sk, wg_publicKey := pub sk\<rparr>)"
    by (simp add: wg_inv_def base_inv_def core_inv_def ids_def running_def isUp_def isClosed_def)
  let ?d2 = "d1\<lparr>wg_privateKey := sk, wg_publicKey := pub sk\<rparr>"
  let ?d3 = "fold (\<lambda>i. upd_peer i (\<lambda>p. p\<lparr>pr_precomputedStaticStatic := dh sk (pr_remoteStatic p)\<rparr>)) (map snd (wg_keyMap ?d2)) ?d2"
  let ?d4 = "fold (\<lambda>i. peer_call (ExpireCurrentKeypairs i)) (map snd (wg_keyMap ?d2)) ?d3"
  have f: "frame ?d2 ?d4" by (rule frame_trans [of _ ?d3]) (auto intro!: frame_fold framed)
  have "SetPrivateKey pub dh sk d = Some ?d4" using False d1(1) by (simp add: SetPrivateKey_def Let_def)
  moreover have "wg_inv ?d4" by (rule frame_wg_inv [OF f w2])
  moreover have "wg_obf ?d4 = wg_obf d" using f d1(2) by (simp add: frame_defs shrunk_def same_rest_def)
  ultimately show ?thesis by blast
qed

section \<open>Sockets and the state machine\<close>

lemma frame_mark_all: "frame d (fold markEndpointSrcForClearing is d)"
  by (rule frame_fold) (rule framed)

lemma frame_BindSetMark [framed]: "frame d (snd (BindSetMark b mark d))"
  by (auto simp: BindSetMark_def Let_def intro: frame_fields frame_trans [OF frame_fields(1) frame_mark_all])

lemma frame_BindUpdate [framed]: "frame d (snd (BindUpdate b d))"
  by (auto simp: BindUpdate_def Let_def intro: frame_fields frame_trans [OF frame_fields(2) frame_mark_all] split: option.split)

lemma frame_on_Peer_Start: "frame_on {i} d (Peer_Start i d)"
proof -
  have "map pr_remoteStatic ((wg_peers d)[i := (wg_peers d ! i)\<lparr>pr_isRunning := True\<rparr>]) = map pr_remoteStatic (wg_peers d)"
    by (cases "i < length (wg_peers d)") (simp_all add: map_update list_update_same_conv list_update_beyond)
  moreover have "running (upd_peer i (pr_isRunning_update (\<lambda>_. True)) d) \<subseteq> running d \<union> {i}"
    by (auto simp: running_def upd_peer_def nth_list_update split: if_splits)
  ultimately show ?thesis by (auto simp: Peer_Start_def frame_imp_on frame_on_def same_fields_def upd_peer_def)
qed

lemma frame_on_mono: "frame_on I d d' \<Longrightarrow> I \<subseteq> J \<Longrightarrow> frame_on J d d'"
  by (auto simp: frame_on_def)

lemma frame_on_start_peer: "frame_on {i} d (start_peer i d)"
proof -
  have "frame_on {i} (Peer_Start i d) (start_peer i d)" by (auto simp: start_peer_def Let_def intro!: frame_imp_on framed)
  then show ?thesis using frame_on_trans [OF frame_on_Peer_Start] by blast
qed

lemma base_inv_state [simp]: "base_inv (d\<lparr>wg_state := s\<rparr>) = base_inv d"
  by (simp add: base_inv_def core_inv_def ids_def running_def)

lemma downLocked_spec:
  assumes "base_inv d"
  shows "base_inv (snd (downLocked b d))" "running (snd (downLocked b d)) = {}" "wg_state (snd (downLocked b d)) = wg_state d"
    "wg_obf (snd (downLocked b d)) = wg_obf d"
proof -
  have f: "frame d (snd (downLocked b d))" by (simp add: downLocked_def) (rule frame_fold, rule framed)
  then show "base_inv (snd (downLocked b d))" "wg_state (snd (downLocked b d)) = wg_state d" "wg_obf (snd (downLocked b d)) = wg_obf d"
    using frame_base_inv [OF f assms] by (simp_all add: frame_defs)
  show "running (snd (downLocked b d)) = {}" using assms by (auto simp: downLocked_def stop_all base_inv_def ids_def)
qed

lemma down_wg_inv: "base_inv d \<Longrightarrow> \<not> isClosed d \<Longrightarrow> wg_inv (snd (downLocked b d))"
  using downLocked_spec [of d b] by (simp add: wg_inv_def isClosed_def)

lemma changeState_inv:
  assumes "wg_inv d"
  shows "wg_inv (snd (changeState b want d))"
proof (cases "isClosed d \<or> want = wg_state d \<or> want = deviceStateClosed")
  case True
  then show ?thesis using assms by (auto simp: changeState_def split: deviceState.split)
next
  case False
  have base: "base_inv d" using assms by (simp add: wg_inv_def)
  have down: "wg_inv (snd (downLocked b (d'\<lparr>wg_state := deviceStateDown\<rparr>)))" if "base_inv d'" for d'
    using that by (intro down_wg_inv) (simp_all add: isClosed_def)
  show ?thesis
  proof (cases want)
    case deviceStateDown
    then show ?thesis using False down [OF base] by (simp add: changeState_def)
  next
    case deviceStateUp
    let ?u = "d\<lparr>wg_state := deviceStateUp\<rparr>"
    obtain ok d1 where u: "BindUpdate b ?u = (ok, d1)" by fastforce
    have "wg_inv ?u" using base False deviceStateUp by (simp add: wg_inv_def isUp_def isClosed_def)
    moreover have f: "frame ?u d1" using frame_BindUpdate [of ?u b] u by simp
    ultimately have w: "wg_inv d1" by (metis frame_wg_inv)
    have up: "isUp d1" using f by (simp add: frame_defs isUp_def)
    have "frame_on (ids d1) d1 (fold start_peer (map snd (wg_keyMap d1)) d1)"
      by (rule frame_on_fold) (auto simp: ids_def intro!: frame_on_mono [OF frame_on_start_peer])
    then have "wg_inv (fold start_peer (map snd (wg_keyMap d1)) d1)" using frame_on_wg_inv [OF _ w _ up] by blast
    moreover have "base_inv d1" using w by (simp add: wg_inv_def)
    ultimately show ?thesis using False deviceStateUp down u by (auto simp: changeState_def upLocked_def)
  next
    case deviceStateClosed
    then show ?thesis using False by simp
  qed
qed

lemma Device_Close_inv:
  assumes "wg_inv d"
  shows "\<exists>d'. Device_Close b d = Some d' \<and> wg_inv d' \<and> isClosed d'"
proof (cases "isClosed d")
  case True
  then show ?thesis using assms by (simp add: Device_Close_def)
next
  case False
  let ?c = "snd (downLocked b (d\<lparr>wg_state := deviceStateClosed\<rparr>))"
  have "base_inv (d\<lparr>wg_state := deviceStateClosed\<rparr>)" using assms by (simp add: wg_inv_def)
  note c = downLocked_spec [OF this, of b]
  obtain d' where "RemoveAllPeers ?c = Some d'" "shrunk ?c d'" "wg_keyMap d' = []" using RemoveAllPeers_spec [OF c(1)] by blast
  then show ?thesis using False c(2,3) by (auto simp: Device_Close_def wg_inv_def shrunk_def same_rest_def isClosed_def)
qed

lemma frame_DisableSomeRoaming [framed]: "frame d (DisableSomeRoaming d)"
  unfolding DisableSomeRoaming_def Let_def
  by (rule frame_trans [OF frame_fields(3)], rule frame_fold, rule frame_upd_peer) simp_all

section \<open>The lines of a request\<close>

definition ranges_ok :: "ipcSetDevice \<Rightarrow> bool" where
  "ranges_ok c \<longleftrightarrow> (\<forall>r\<in>set (listed (ipc_headers c)). Lo r \<le> Hi r)"

definition line_ok :: "'e dev_result option \<Rightarrow> bool" where
  "line_ok r \<longleftrightarrow> (\<exists>e c d. r = Some (e, c, d) \<and> wg_inv d \<and> ranges_ok c)"

lemma line_okI: "wg_inv d \<Longrightarrow> ranges_ok c \<Longrightarrow> line_ok (Some (e, c, d))"
  by (simp add: line_ok_def)

lemma line_if: "(c \<Longrightarrow> line_ok a) \<Longrightarrow> (\<not> c \<Longrightarrow> line_ok b) \<Longrightarrow> line_ok (if c then a else b)"
  by simp

lemma line_parsed:
  assumes "wg_inv (snd s)" "ranges_ok (fst s)" "\<And>v. x = Some v \<Longrightarrow> wg_inv (snd (f v)) \<and> ranges_ok (fst (f v))"
  shows "line_ok (parsed x f s)"
  using assms by (cases x; cases s) (auto simp: parsed_def line_ok_def prod_eq_iff)

lemma line_set_padding: "wg_inv (snd s) \<Longrightarrow> ranges_ok (fst s) \<Longrightarrow> line_ok (set_padding v upd s)"
  unfolding set_padding_def by (rule line_parsed) (auto simp: ranges_ok_def)

lemma line_set_header:
  assumes "wg_inv (snd s)" "ranges_ok (fst s)" "\<And>x h. set (listed (upd x h)) \<subseteq> insert x (set (listed h))"
  shows "line_ok (set_header v upd s)"
  unfolding set_header_def
proof (rule line_parsed [OF assms(1,2)])
  fix x assume "FromString v = Some x"
  then have "Lo x \<le> Hi x" by (rule FromString_range)
  then show "wg_inv (snd ((fst s)\<lparr>ipc_headers := upd x (ipc_headers (fst s))\<rparr>, snd s)) \<and>
      ranges_ok (fst ((fst s)\<lparr>ipc_headers := upd x (ipc_headers (fst s))\<rparr>, snd s))"
    using assms(1,2) assms(3) [of x "ipc_headers (fst s)"] by (auto simp: ranges_ok_def)
qed

lemma wg_inv_obf: "wg_inv d \<Longrightarrow> conf_ok o' \<Longrightarrow> wg_inv (d\<lparr>wg_obf := o'\<rparr>)"
  by (simp add: wg_inv_def base_inv_def core_inv_def ids_def running_def isUp_def isClosed_def)

lemma line_store_setting:
  assumes "wg_inv (snd s)" "ranges_ok (fst s)" "\<And>x dv. dv_headers (upd x dv) = dv_headers dv \<and> dv_paddings (upd x dv) = dv_paddings dv \<and>
    dv_headerKey (upd x dv) = dv_headerKey dv"
  shows "line_ok (store_setting y upd s)"
  unfolding store_setting_def
proof (rule line_parsed [OF assms(1,2)])
  fix x
  have "conf_ok (wg_obf (snd s))" using assms(1) by (simp add: wg_inv_def base_inv_def core_inv_def)
  then have "conf_ok (upd x (wg_obf (snd s)))" using assms(3) [of x "wg_obf (snd s)"] by (simp add: conf_ok_def)
  then show "wg_inv (snd (fst s, (snd s)\<lparr>wg_obf := upd x (wg_obf (snd s))\<rparr>)) \<and> ranges_ok (fst (fst s, (snd s)\<lparr>wg_obf := upd x (wg_obf (snd s))\<rparr>))"
    using wg_inv_obf [OF assms(1)] assms(2) by simp
qed

lemma line_special:
  assumes "wg_inv d" "ranges_ok c"
  shows "line_ok (case FromMaybeZeroHex v of None \<Rightarrow> Some (Some IpcErrorInvalid, c, d)
      | Some sk \<Rightarrow> map_option (\<lambda>d. (None, c, d)) (SetPrivateKey pub dh sk d))"
    and "line_ok (map_option (\<lambda>d. (None, c, d)) (RemoveAllPeers d))"
proof -
  have "line_ok (map_option (\<lambda>d. (None, c, d)) (SetPrivateKey pub dh sk d))" for sk
    using SetPrivateKey_inv [OF assms(1), of pub dh sk] assms(2) by (auto simp: line_ok_def)
  then show "line_ok (case FromMaybeZeroHex v of None \<Rightarrow> Some (Some IpcErrorInvalid, c, d)
      | Some sk \<Rightarrow> map_option (\<lambda>d. (None, c, d)) (SetPrivateKey pub dh sk d))"
    using line_okI [OF assms] by (simp split: option.split)
  show "line_ok (map_option (\<lambda>d. (None, c, d)) (RemoveAllPeers d))"
    using RemoveAllPeers_spec [of d] shrunk_wg_inv [OF assms(1)] assms by (auto simp: line_ok_def wg_inv_def)
qed

lemma line_frame:
  assumes "wg_inv d" "ranges_ok c" "frame d (snd x)"
  shows "line_ok (let (ok, d) = x in Some (if ok then None else Some IpcErrorPortInUse, c, d))"
  using frame_wg_inv [OF assms(3,1)] assms(2) by (cases x) (auto intro: line_okI)

lemma handleDeviceLine_ok:
  assumes "wg_inv d" "ranges_ok c"
  shows "line_ok (handleDeviceLine pub dh b key v (c, d))"
proof -
  have a: "wg_inv (snd (c, d))" "ranges_ok (fst (c, d))" using assms by simp_all
  have "line_ok (case ParseUint 16 v of None \<Rightarrow> Some (Some IpcErrorInvalid, c, d) | Some port \<Rightarrow>
      let (ok, d) = BindUpdate b (d\<lparr>wg_port := of_nat port\<rparr>) in Some (if ok then None else Some IpcErrorPortInUse, c, d))"
    using line_okI [OF assms] line_frame [OF assms frame_trans [OF frame_fields(2) frame_BindUpdate]] by (simp split: option.split)
  moreover have "line_ok (case ParseUint 32 v of None \<Rightarrow> Some (Some IpcErrorInvalid, c, d) | Some mark \<Rightarrow>
      let (ok, d) = BindSetMark b (of_nat mark) d in Some (if ok then None else Some IpcErrorPortInUse, c, d))"
    using line_okI [OF assms] line_frame [OF assms frame_BindSetMark] by (simp split: option.split)
  moreover have "ranges_ok (c\<lparr>ipc_headerKey := k\<rparr>)" for k using assms(2) by (simp add: ranges_ok_def)
  ultimately show ?thesis
    unfolding handleDeviceLine_def set_junk_def set_timing_def set_ipacket_def fst_conv snd_conv
    by (intro line_if line_special line_okI line_set_padding [OF a] line_set_header [OF a] line_store_setting [OF a] line_parsed [OF a] assms)
      (simp_all add: listed_def assms)
qed

text \<open>The peer a request works on is a current peer of the device or marked as a dummy.\<close>

definition peer_ok :: "'e ipcSetPeer \<Rightarrow> 'e Device \<Rightarrow> bool" where
  "peer_ok peer d \<longleftrightarrow>
     (case sp_peer peer of NilPeer \<Rightarrow> True | TempPeer _ \<Rightarrow> sp_dummy peer | DevPeer i \<Rightarrow> \<not> sp_dummy peer \<and> i \<in> ids d)"

lemma peer_ok_DevPeer: "peer_ok peer d \<Longrightarrow> sp_peer peer = DevPeer i \<Longrightarrow> i \<in> ids d"
  by (simp add: peer_ok_def)

lemma same_fields_ids: "same_fields d d' \<Longrightarrow> ids d' = ids d"
  by (simp add: same_fields_def ids_def)

lemma handlePostConfig_frame:
  assumes "peer_ok peer d"
  shows "isUp d \<Longrightarrow> frame_on (ids d) d (handlePostConfig peer d)" and "\<not> isUp d \<Longrightarrow> frame d (handlePostConfig peer d)"
proof -
  have "(isUp d \<longrightarrow> frame_on (ids d) d (handlePostConfig peer d)) \<and> (\<not> isUp d \<longrightarrow> frame d (handlePostConfig peer d))"
  proof (cases "\<exists>i. sp_peer peer = DevPeer i \<and> \<not> sp_dummy peer")
    case True
    then obtain i where i: "sp_peer peer = DevPeer i" "\<not> sp_dummy peer" by blast
    define d1 where "d1 = (if sp_created peer then upd_peer i (\<lambda>p. p\<lparr>pr_disableRoaming := wg_brokenRoaming d \<and> pr_endpoint p \<noteq> None\<rparr>) d else d)"
    define d3 where "d3 = (if sp_pkaOn peer then peer_call (SendKeepalive i) (Peer_Start i d1) else Peer_Start i d1)"
    have f: "frame d d1" by (auto simp: d1_def intro!: frame_upd_peer)
    then have u: "isUp d1 = isUp d" by (simp add: frame_defs isUp_def)
    have "frame_on (ids d) d1 (Peer_Start i d1)" using frame_on_mono [OF frame_on_Peer_Start] peer_ok_DevPeer [OF assms i(1)] by simp
    moreover have "frame_on (ids d) (Peer_Start i d1) d3" by (auto simp: d3_def intro!: frame_imp_on framed)
    moreover have "frame_on (ids d) d3 (peer_call (SendStagedPackets i) d3)" by (rule frame_imp_on, rule framed)
    ultimately have "frame_on (ids d) d (peer_call (SendStagedPackets i) d3)" using frame_imp_on [OF f] frame_on_trans by blast
    moreover have "handlePostConfig peer d = (if isUp d1 then peer_call (SendStagedPackets i) d3 else d1)"
      using i by (simp add: handlePostConfig_def d1_def d3_def Let_def)
    ultimately show ?thesis using f u by simp
  next
    case False
    then have "handlePostConfig peer d = d" by (auto simp: handlePostConfig_def split: peer_ref.split)
    then show ?thesis by (simp add: frame_imp_on)
  qed
  then show "isUp d \<Longrightarrow> frame_on (ids d) d (handlePostConfig peer d)" "\<not> isUp d \<Longrightarrow> frame d (handlePostConfig peer d)" by blast+
qed

lemma handlePostConfig_inv:
  assumes "peer_ok peer d" "wg_inv d"
  shows "wg_inv (handlePostConfig peer d)" "same_fields d (handlePostConfig peer d)"
proof -
  show "wg_inv (handlePostConfig peer d)"
    using handlePostConfig_frame [OF assms(1)] frame_on_wg_inv [OF _ assms(2) subset_refl] frame_wg_inv [OF _ assms(2)] by blast
  show "same_fields d (handlePostConfig peer d)"
    using handlePostConfig_frame [OF assms(1)] by (auto simp: frame_def frame_on_def)
qed

lemma NewPeer_inv:
  assumes "wg_inv d" "pk \<noteq> wg_publicKey d" "NewPeer dh pk d = (r, d')"
  shows "wg_inv d' \<and> (\<forall>i. r = Some i \<longrightarrow> i \<in> ids d')"
proof (cases "isClosed d \<or> MaxPeers \<le> length (wg_keyMap d) \<or> map_of (wg_keyMap d) pk \<noteq> None")
  case True
  then have "NewPeer dh pk d = (None, d)" by (auto simp: NewPeer_def)
  then show ?thesis using assms by simp
next
  case False
  let ?n = "length (wg_peers d)"
  define p :: "'a Peer" where "p = zero_Peer\<lparr>pr_udpWindow := DefaultUdpWindow32, pr_remoteStatic := pk, pr_precomputedStaticStatic := dh (wg_privateKey d) pk\<rparr>"
  have p: "pr_remoteStatic p = pk" "\<not> pr_isRunning p" "d' = d\<lparr>wg_peers := wg_peers d @ [p], wg_keyMap := (pk, ?n) # wg_keyMap d\<rparr>" "r = Some ?n"
    using False assms(3) by (auto simp: NewPeer_def Let_def zero_Peer_def p_def)
  have c: "core_inv d" "running d \<subseteq> ids d" using assms(1) by (simp_all add: wg_inv_def base_inv_def)
  have b: "i < ?n" if "(k, i) \<in> set (wg_keyMap d)" for k i using c(1) that by (rule core_inv_entry(2))
  have k: "pk \<notin> fst ` set (wg_keyMap d)" using False by (simp add: map_of_eq_None_iff)
  have n: "?n \<notin> snd ` set (wg_keyMap d)" using b by force
  have e: "\<forall>(key, i)\<in>set (wg_keyMap d). i < length (wg_peers d @ [p]) \<and> pr_remoteStatic ((wg_peers d @ [p]) ! i) = key"
    using core_inv_entry(2,3) [OF c(1)] by (auto simp: nth_append less_Suc_eq)
  have "core_inv d'" using c(1) k n e p assms(2) False unfolding core_inv_def ids_def by (auto simp: p(3))
  moreover have "running d' = running d" using p(2) by (auto simp: running_def p(3) nth_append less_Suc_eq)
  moreover have "ids d' = insert ?n (ids d)" by (simp add: ids_def p(3))
  moreover have "isUp d' = isUp d" "isClosed d' = isClosed d" by (simp_all add: isUp_def isClosed_def p(3))
  ultimately show ?thesis using assms(1) c(2) False p(4) by (auto simp: wg_inv_def base_inv_def)
qed

lemma handlePublicKeyLine_inv:
  assumes "wg_inv d" "handlePublicKeyLine dh v peer d = (e, peer', d')"
  shows "wg_inv d' \<and> (e = None \<longrightarrow> peer_ok peer' d' \<and> sp_peer peer' \<noteq> NilPeer)"
proof (cases "loadExactHex 32 v")
  case (Some pk)
  show ?thesis
  proof (cases "wg_publicKey d = pk")
    case False
    obtain r d1 where n: "NewPeer dh pk d = (r, d1)" by fastforce
    have "wg_inv d1 \<and> (\<forall>i. r = Some i \<longrightarrow> i \<in> ids d1)" using NewPeer_inv [OF assms(1) _ n] False by blast
    moreover have "i \<in> ids d" if "LookupPeer pk d = Some i" for i
      using that by (force simp: LookupPeer_def ids_def dest: map_of_SomeD)
    ultimately show ?thesis using assms Some False n
      by (auto simp: handlePublicKeyLine_def Let_def peer_ok_def split: option.splits)
  qed (use assms Some in \<open>auto simp: handlePublicKeyLine_def peer_ok_def\<close>)
qed (use assms in \<open>auto simp: handlePublicKeyLine_def\<close>)

definition peer_line_ok :: "'e peer_result option \<Rightarrow> bool" where
  "peer_line_ok r \<longleftrightarrow> (\<exists>e peer d. r = Some (e, peer, d) \<and> wg_inv d \<and> peer_ok peer d \<and> sp_peer peer \<noteq> NilPeer)"

lemma peer_if: "(c \<Longrightarrow> peer_line_ok a) \<Longrightarrow> (\<not> c \<Longrightarrow> peer_line_ok b) \<Longrightarrow> peer_line_ok (if c then a else b)"
  by simp

lemma peer_upd:
  assumes "wg_inv d" "peer_ok peer d" "sp_peer peer \<noteq> NilPeer"
    and "\<And>p. pr_remoteStatic (f p) = pr_remoteStatic p" "\<And>p. pr_isRunning (f p) = pr_isRunning p"
  obtains peer' d' where "upd_current f peer d = Some (peer', d')" "wg_inv d'" "peer_ok peer' d'" "sp_peer peer' \<noteq> NilPeer"
    "\<And>k. peer_ok (peer'\<lparr>sp_pkaOn := k\<rparr>) d'"
proof (cases "sp_peer peer")
  case (DevPeer i)
  have f: "frame d (upd_peer i f d)" using assms(4,5) by (intro frame_upd_peer) simp_all
  have "ids (upd_peer i f d) = ids d" using f by (simp add: frame_def same_fields_ids)
  then show ?thesis using that frame_wg_inv [OF f assms(1)] assms(2) DevPeer by (simp add: upd_current_def peer_ok_def)
qed (use that assms in \<open>auto simp: upd_current_def peer_ok_def\<close>)

lemma peer_table:
  assumes "wg_inv d" "peer_ok peer d" "sp_peer peer \<noteq> NilPeer" "\<not> sp_dummy peer"
    and "\<And>i t. table_inv t \<Longrightarrow> \<exists>t'. f t i = Some t' \<and> table_inv t' \<and> owners t' \<subseteq> insert i (owners t)"
  shows "peer_line_ok (with_table f peer d)"
proof -
  obtain i where i: "sp_peer peer = DevPeer i" "i \<in> ids d" using assms(2-4) by (auto simp: peer_ok_def split: peer_ref.splits)
  have c: "core_inv d" using assms(1) by (simp add: wg_inv_def base_inv_def)
  then obtain t where t: "f (wg_allowedips d) i = Some t" "table_inv t" "owners t \<subseteq> insert i (owners (wg_allowedips d))"
    using assms(5) [of "wg_allowedips d" i] unfolding core_inv_def by blast
  have "owners t \<subseteq> ids d" using t(3) i(2) c unfolding core_inv_def by blast
  then have "core_inv (d\<lparr>wg_allowedips := t\<rparr>)" using core_inv_table [OF c t(2)] by blast
  then have "wg_inv (d\<lparr>wg_allowedips := t\<rparr>)" using assms(1) by (simp add: wg_inv_def base_inv_def ids_def running_def isUp_def isClosed_def)
  moreover have "peer_ok peer (d\<lparr>wg_allowedips := t\<rparr>)" using assms(2) i by (simp add: peer_ok_def ids_def)
  ultimately show ?thesis using i t(1) assms(3) by (simp add: with_table_def peer_line_ok_def)
qed

lemma peer_removed:
  assumes "wg_inv d" "sp_peer peer \<noteq> NilPeer"
  shows "peer_line_ok (do { p \<leftarrow> current_peer peer d; d \<leftarrow> RemovePeer (pr_remoteStatic p) d; Some (None, become_temp peer, d) })"
proof -
  obtain p where p: "current_peer peer d = Some p" using assms(2) by (cases "sp_peer peer") (auto simp: current_peer_def)
  obtain d' where "RemovePeer (pr_remoteStatic p) d = Some d'" "shrunk d d'" using RemovePeer_shrunk [of d] assms(1) by (auto simp: wg_inv_def)
  then show ?thesis using p shrunk_wg_inv [OF assms(1)] by (simp add: peer_line_ok_def become_temp_def peer_ok_def)
qed

lemma peer_upd_line:
  assumes "wg_inv d" "peer_ok peer d" "sp_peer peer \<noteq> NilPeer"
    and "\<And>p. pr_remoteStatic (f p) = pr_remoteStatic p" "\<And>p. pr_isRunning (f p) = pr_isRunning p"
  shows "peer_line_ok (map_option (Pair None) (upd_current f peer d))"
    and "peer_line_ok (do { p \<leftarrow> current_peer peer d; (peer, d) \<leftarrow> upd_current f peer d; Some (None, peer\<lparr>sp_pkaOn := g p\<rparr>, d) })"
proof -
  obtain peer' d' where u: "upd_current f peer d = Some (peer', d')" "wg_inv d'" "peer_ok peer' d'" "sp_peer peer' \<noteq> NilPeer"
    "\<And>k. peer_ok (peer'\<lparr>sp_pkaOn := k\<rparr>) d'"
    by (rule peer_upd [OF assms]) blast
  obtain p where p: "current_peer peer d = Some p" using assms(3) by (cases "sp_peer peer") (auto simp: current_peer_def)
  show "peer_line_ok (map_option (Pair None) (upd_current f peer d))"
    "peer_line_ok (do { p \<leftarrow> current_peer peer d; (peer, d) \<leftarrow> upd_current f peer d; Some (None, peer\<lparr>sp_pkaOn := g p\<rparr>, d) })"
    using u p by (simp_all add: peer_line_ok_def)
qed

lemma handlePeerLine_ok:
  assumes "wg_inv d" "peer_ok peer d" "sp_peer peer \<noteq> NilPeer"
  shows "peer_line_ok (handlePeerLine b key v peer d)"
proof -
  have s: "peer_line_ok (Some (e, peer, d))" for e using assms by (simp add: peer_line_ok_def)
  have bt: "peer_line_ok (Some (e, become_temp peer, d))" for e using assms(1) by (simp add: peer_line_ok_def become_temp_def peer_ok_def)
  have psk: "peer_line_ok (case loadExactHex 32 v of None \<Rightarrow> Some (Some IpcErrorInvalid, peer, d)
      | Some k \<Rightarrow> map_option (Pair None) (upd_current (pr_presharedKey_update (\<lambda>_. k)) peer d))"
    using s peer_upd_line(1) [OF assms] by (simp split: option.split)
  have ep: "peer_line_ok (case bind_ParseEndpoint b v of None \<Rightarrow> Some (Some IpcErrorInvalid, peer, d)
      | Some x \<Rightarrow> map_option (Pair None) (upd_current (pr_endpoint_update (\<lambda>_. Some x)) peer d))"
    using s peer_upd_line(1) [OF assms] by (simp split: option.split)
  have ka: "peer_line_ok (case FromString v of None \<Rightarrow> Some (Some IpcErrorInvalid, peer, d)
      | Some rang \<Rightarrow> do { p \<leftarrow> current_peer peer d;
          (peer, d) \<leftarrow> upd_current (pr_persistentKeepaliveInterval_update (\<lambda>_. rang)) peer d;
          Some (None, peer\<lparr>sp_pkaOn := Range_IsZero (pr_persistentKeepaliveInterval p) \<and> \<not> Range_IsZero rang\<rparr>, d) })"
    using s peer_upd_line(2) [OF assms] by (simp split: option.split)
  have rm: "peer_line_ok (with_table RemoveByPeer peer d)" if "\<not> sp_dummy peer"
  proof (rule peer_table [OF assms that])
    fix i :: nat and t :: "nat AllowedIPs" assume "table_inv t"
    then obtain t' where "RemoveByPeer t i = Some t'" "table_inv t'" "owners t' \<subseteq> owners t - {i}" by (rule owners_RemoveByPeer)
    then show "\<exists>t'. RemoveByPeer t i = Some t' \<and> table_inv t' \<and> owners t' \<subseteq> insert i (owners t)" by blast
  qed
  have ins: "peer_line_ok (with_table (\<lambda>t. Insert t x) peer d)" "peer_line_ok (with_table (\<lambda>t. Remove t x) peer d)"
    if "\<not> sp_dummy peer" and vx: "valid_prefix x" for x
  proof -
    show "peer_line_ok (with_table (\<lambda>t. Insert t x) peer d)"
    proof (rule peer_table [OF assms that(1)])
      fix i :: nat and t :: "nat AllowedIPs" assume "table_inv t"
      then obtain t' where "Insert t x i = Some t'" "table_inv t'" "owners t' \<subseteq> insert i (owners t)" by (rule owners_Insert [OF _ vx])
      then show "\<exists>t'. Insert t x i = Some t' \<and> table_inv t' \<and> owners t' \<subseteq> insert i (owners t)" by blast
    qed
    show "peer_line_ok (with_table (\<lambda>t. Remove t x) peer d)"
    proof (rule peer_table [OF assms that(1)])
      fix i :: nat and t :: "nat AllowedIPs" assume "table_inv t"
      then obtain t' where "Remove t x i = Some t'" "table_inv t'" "owners t' \<subseteq> owners t" by (rule owners_Remove [OF _ vx])
      then show "\<exists>t'. Remove t x i = Some t' \<and> table_inv t' \<and> owners t' \<subseteq> insert i (owners t)" by blast
    qed
  qed
  have ip: "peer_line_ok (let rem = (v \<noteq> [] \<and> hd v = CHR ''-''); v = (if rem then tl v else v) in
       case ParsePrefix v of None \<Rightarrow> Some (Some IpcErrorInvalid, peer, d)
       | Some x \<Rightarrow> if sp_dummy peer then Some (None, peer, d)
           else if \<not> rem then with_table (\<lambda>t. Insert t x) peer d else with_table (\<lambda>t. Remove t x) peer d)"
    unfolding Let_def using s ins ParsePrefix_valid by (simp split: option.split)
  show ?thesis
    unfolding handlePeerLine_def
    by (intro peer_if s bt psk ep ka rm ip peer_removed assms) assumption
qed

text \<open>A whole request: it does not panic and the invariant holds afterwards, whether or not it is refused.\<close>

lemma merge_inv:
  assumes "wg_inv d" "ranges_ok c" "peer_ok peer d"
  shows "wg_inv (snd (finish_set scanErr c peer d))"
proof -
  obtain e o' where m: "mergeWithDevice c (wg_obf d) = (e, o')" by fastforce
  have "conf_ok (wg_obf d)" using assms(1) by (simp add: wg_inv_def base_inv_def core_inv_def)
  then have "conf_ok o'" using not_overlapping_ipc [OF m] assms(2) by (simp add: ranges_ok_def)
  then have w: "wg_inv (d\<lparr>wg_obf := o'\<rparr>)" using wg_inv_obf [OF assms(1)] by blast
  moreover have "peer_ok peer (d\<lparr>wg_obf := o'\<rparr>)" using assms(3) by (simp add: peer_ok_def ids_def split: peer_ref.splits)
  ultimately show ?thesis using handlePostConfig_inv(1) m by (auto simp: finish_set_def Let_def)
qed

lemma set_lines_inv:
  assumes "wg_inv d" "ranges_ok c" "peer_ok peer d" "if dc then sp_peer peer = NilPeer else sp_peer peer \<noteq> NilPeer"
  shows "\<exists>e d'. set_lines pub dh b scanErr dc ls c peer d = Some (e, d') \<and> wg_inv d'"
  using assms
proof (induction ls arbitrary: dc c peer d)
  case Nil
  then show ?case using merge_inv [of d c peer scanErr] by (cases "finish_set scanErr c peer d") auto
next
  case (Cons line ls)
  consider "line = []" | "line \<noteq> []" "cut_at (CHR ''='') line = None" | key v where "line \<noteq> []" "cut_at (CHR ''='') line = Some (key, v)"
    by (cases "cut_at (CHR ''='') line") auto
  then show ?case
  proof cases
    case 1
    then show ?thesis using merge_inv [OF Cons.prems(1-3), of False] by (cases "finish_set False c peer d") auto
  next
    case 2
    then show ?thesis using Cons.prems(1) by simp
  next
    case 3
    note l = 3
    consider "key = ''public_key''" | "key \<noteq> ''public_key''" dc | "key \<noteq> ''public_key''" "\<not> dc" by blast
    then show ?thesis
    proof cases
      case 1
      obtain e peer' d' where h: "handlePublicKeyLine dh v peer (handlePostConfig peer d) = (e, peer', d')" by (metis prod_cases3)
      note handlePublicKeyLine_inv [OF handlePostConfig_inv(1) [OF Cons.prems(3,1)] h]
      then show ?thesis using Cons.IH [of d' c peer' False] Cons.prems(2) 1 l h by (cases e) auto
    next
      case 2
      obtain e c' d' where h: "handleDeviceLine pub dh b key v (c, d) = Some (e, c', d')" "wg_inv d'" "ranges_ok c'"
        using handleDeviceLine_ok [OF Cons.prems(1,2)] unfolding line_ok_def by blast
      have p: "peer_ok peer d'" using Cons.prems(4) 2 by (simp add: peer_ok_def)
      show ?thesis using Cons.IH [OF h(2,3) p, of True] Cons.prems(4) h 2 l by (cases e) auto
    next
      case 3
      obtain e peer' d' where h: "handlePeerLine b key v peer d = Some (e, peer', d')" "wg_inv d'" "peer_ok peer' d'" "sp_peer peer' \<noteq> NilPeer"
        using handlePeerLine_ok [OF Cons.prems(1,3), of b key v] Cons.prems(4) 3 by (auto simp: peer_line_ok_def)
      show ?thesis using Cons.IH [OF h(2) Cons.prems(2) h(3), of False] h 3 l by (cases e) auto
    qed
  qed
qed

section \<open>Closed is final\<close>

text \<open>No operation but those of the state machine changes the state.\<close>

named_theorems keeps_state

lemma state_basic [keeps_state]:
  "wg_state (upd_peer i f d) = wg_state d" "wg_state (peer_call c d) = wg_state d" "wg_state (Peer_Start i d) = wg_state d"
  "wg_state (Peer_Stop i d) = wg_state d" "wg_state (SetEndpointFromPacket i e d) = wg_state d"
  "wg_state (snd (NewPeer dh pk d)) = wg_state d" "wg_state (handlePostConfig peer d) = wg_state d"
  "wg_state (DisableSomeRoaming d) = wg_state d" "wg_state (snd (BindUpdate b d)) = wg_state d" "wg_state (snd (BindSetMark b m d)) = wg_state d"
proof -
  show basic: "wg_state (upd_peer i f d) = wg_state d" "wg_state (peer_call c d) = wg_state d" "wg_state (Peer_Start i d) = wg_state d" for i f d c
    by (simp_all add: upd_peer_def peer_call_def Peer_Start_def)
  show "wg_state (Peer_Stop i d) = wg_state d" "wg_state (SetEndpointFromPacket i e d) = wg_state d" "wg_state (snd (NewPeer dh pk d)) = wg_state d"
    by (simp_all add: basic Peer_Stop_def SetEndpointFromPacket_def NewPeer_def Let_def)
  show "wg_state (handlePostConfig peer d) = wg_state d"
    by (simp add: basic handlePostConfig_def Let_def split: peer_ref.split)
  show "wg_state (DisableSomeRoaming d) = wg_state d" using frame_DisableSomeRoaming [of d] by (simp add: frame_defs)
  show "wg_state (snd (BindUpdate b d)) = wg_state d" using frame_BindUpdate [of d b] by (simp add: frame_defs)
  show "wg_state (snd (BindSetMark b m d)) = wg_state d" using frame_BindSetMark [of d b m] by (simp add: frame_defs)
qed

lemma state_removePeerLocked: "removePeerLocked i key d = Some d' \<Longrightarrow> wg_state d' = wg_state d"
  by (cases "RemoveByPeer (wg_allowedips d) i") (auto simp: removePeerLocked_def Let_def keeps_state)

lemma state_remove_peers: "remove_peers kms d = Some d' \<Longrightarrow> wg_state d' = wg_state d"
proof (induction kms arbitrary: d)
  case (Cons x kms)
  obtain key i where x: "x = (key, i)" by fastforce
  then obtain d1 where "removePeerLocked i key d = Some d1" "remove_peers kms d1 = Some d'"
    using Cons.prems by (cases "removePeerLocked i key d") auto
  then show ?case using Cons.IH state_removePeerLocked by metis
qed simp

lemma state_removing:
  "RemovePeer key d = Some d' \<Longrightarrow> wg_state d' = wg_state d"
  "RemoveAllPeers d = Some d' \<Longrightarrow> wg_state d' = wg_state d"
  by (auto simp: RemovePeer_def RemoveAllPeers_def dest: state_removePeerLocked state_remove_peers split: option.splits Option.bind_splits)

lemma state_fold: "(\<And>i d. wg_state (f i d) = wg_state d) \<Longrightarrow> wg_state (fold f is d) = wg_state d"
  by (induction "is" arbitrary: d) simp_all

lemma state_SetPrivateKey: "SetPrivateKey pub dh sk d = Some d' \<Longrightarrow> wg_state d' = wg_state d"
  by (auto simp: SetPrivateKey_def Let_def keeps_state state_fold dest: state_remove_peers split: if_splits Option.bind_splits)

text \<open>A line for the device changes it through one of these steps only.\<close>

lemma handleDeviceLine_preserves:
  assumes "handleDeviceLine pub dh b key v (c, d) = Some (e, c', d')" "P d" "\<And>o'. P (d\<lparr>wg_obf := o'\<rparr>)"
    and "\<And>sk d'. SetPrivateKey pub dh sk d = Some d' \<Longrightarrow> P d'" "\<And>d'. RemoveAllPeers d = Some d' \<Longrightarrow> P d'"
    and "\<And>port. P (snd (BindUpdate b (d\<lparr>wg_port := port\<rparr>)))" "\<And>m. P (snd (BindSetMark b m d))"
  shows "P d'"
proof -
  define st where "st r \<longleftrightarrow> (\<forall>e c' d'. r = Some (e, c', d') \<longrightarrow> P d')" for r :: "'a dev_result option"
  have i: "(p \<Longrightarrow> st x) \<Longrightarrow> (\<not> p \<Longrightarrow> st y) \<Longrightarrow> st (if p then x else y)" for p x y by simp
  have s: "st (set_padding v f (c, d))" "st (set_header v g (c, d))" "st (store_setting y h (c, d))" "st (Some (e, c, d))"
    "st (parsed z (\<lambda>k. (c\<lparr>ipc_headerKey := k\<rparr>, d)) (c, d))" for f g h e z and y :: "'z option"
    using assms(2,3) by (auto simp: st_def set_padding_def set_header_def store_setting_def parsed_def split: option.splits)
  have "st (case FromMaybeZeroHex v of None \<Rightarrow> Some (Some IpcErrorInvalid, c, d) | Some sk \<Rightarrow> map_option (\<lambda>d. (None, c, d)) (SetPrivateKey pub dh sk d))"
    "st (map_option (\<lambda>d. (None, c, d)) (RemoveAllPeers d))"
    using assms(2,4,5) by (auto simp: st_def split: option.splits)
  moreover have "st (let (ok, d) = x in Some (if ok then None else Some IpcErrorPortInUse, c, d))" if "P (snd x)" for x
    using that by (cases x) (simp add: st_def)
  then have "st (case ParseUint 16 v of None \<Rightarrow> Some (Some IpcErrorInvalid, c, d) | Some port \<Rightarrow>
        let (ok, d) = BindUpdate b (d\<lparr>wg_port := of_nat port\<rparr>) in Some (if ok then None else Some IpcErrorPortInUse, c, d))"
    "st (case ParseUint 32 v of None \<Rightarrow> Some (Some IpcErrorInvalid, c, d) | Some mark \<Rightarrow>
        let (ok, d) = BindSetMark b (of_nat mark) d in Some (if ok then None else Some IpcErrorPortInUse, c, d))"
    using s(4) assms(6,7) by (simp_all split: option.split)
  ultimately have "st (handleDeviceLine pub dh b key v (c, d))"
    unfolding handleDeviceLine_def set_junk_def set_timing_def set_ipacket_def fst_conv snd_conv by (intro i s) assumption+
  then show ?thesis using assms(1) by (simp add: st_def)
qed

lemma state_handleDeviceLine: "handleDeviceLine pub dh b key v (c, d) = Some (e, c', d') \<Longrightarrow> wg_state d' = wg_state d"
  by (erule handleDeviceLine_preserves [where P = "\<lambda>d'. wg_state d' = wg_state d"])
    (simp_all add: keeps_state state_SetPrivateKey state_removing)

lemma state_upd_current: "upd_current f peer d = Some (peer', d') \<Longrightarrow> wg_state d' = wg_state d"
  by (auto simp: upd_current_def keeps_state split: peer_ref.splits)

lemma state_with_table: "with_table f peer d = Some (e, peer', d') \<Longrightarrow> wg_state d' = wg_state d"
  by (auto simp: with_table_def split: peer_ref.splits)

lemma state_handlePeerLine:
  "handlePeerLine b key v peer d = Some (e, peer', d') \<Longrightarrow> wg_state d' = wg_state d"
  unfolding handlePeerLine_def Let_def
  by (auto dest: state_upd_current state_with_table state_removing split: if_splits option.splits Option.bind_splits prod.splits)

lemma state_handlePublicKeyLine: "handlePublicKeyLine dh v peer d = (e, peer', d') \<Longrightarrow> wg_state d' = wg_state d"
  using state_basic(6) [of dh _ d]
  by (auto simp: handlePublicKeyLine_def Let_def split: option.splits if_splits prod.splits) (metis snd_conv)+

lemma state_finish_set: "wg_state (snd (finish_set s c peer d)) = wg_state d"
  by (simp add: finish_set_def Let_def keeps_state split: prod.split)

lemma state_set_lines: "set_lines pub dh b s dc ls c peer d = Some (e, d') \<Longrightarrow> wg_state d' = wg_state d"
proof (induction ls arbitrary: dc c peer d)
  case Nil
  then show ?case using state_finish_set [of s c peer d] by simp
next
  case (Cons line ls)
  show ?case
  proof (cases "line = [] \<or> cut_at (CHR ''='') line = None")
    case True
    then show ?thesis using Cons.prems state_finish_set [of False c peer d] by (auto split: if_splits)
  next
    case False
    then obtain key v where l: "line \<noteq> []" "cut_at (CHR ''='') line = Some (key, v)" by auto
    consider "key = ''public_key''" | "key \<noteq> ''public_key''" dc | "key \<noteq> ''public_key''" "\<not> dc" by blast
    then show ?thesis
    proof cases
      case 1
      obtain e1 p1 d1 where h: "handlePublicKeyLine dh v peer (handlePostConfig peer d) = (e1, p1, d1)" by (metis prod_cases3)
      have "wg_state d1 = wg_state d" using state_handlePublicKeyLine [OF h] by (simp add: keeps_state)
      then show ?thesis using Cons.IH [of False c p1 d1] Cons.prems l 1 h by (cases e1) auto
    next
      case 2
      then obtain e1 c1 d1 where h: "handleDeviceLine pub dh b key v (c, d) = Some (e1, c1, d1)"
        using Cons.prems l by (cases "handleDeviceLine pub dh b key v (c, d)") auto
      show ?thesis using Cons.IH [of True c1 peer d1] Cons.prems l 2 h state_handleDeviceLine [OF h] by (cases e1) auto
    next
      case 3
      then obtain e1 p1 d1 where h: "handlePeerLine b key v peer d = Some (e1, p1, d1)"
        using Cons.prems l by (cases "handlePeerLine b key v peer d") auto
      show ?thesis using Cons.IH [of False c p1 d1] Cons.prems l 3 h state_handlePeerLine [OF h] by (cases e1) auto
    qed
  qed
qed

section \<open>Every peer is served\<close>

text \<open>The device is up and all peers but those of \<open>X\<close> run.\<close>

definition served :: "nat set \<Rightarrow> 'e Device \<Rightarrow> bool" where
  "served X d \<longleftrightarrow> isUp d \<and> ids d - X \<subseteq> running d"

definition steady :: "'e Device \<Rightarrow> 'e Device \<Rightarrow> bool" where
  "steady d d' \<longleftrightarrow> ids d' = ids d \<and> running d' = running d \<and> wg_state d' = wg_state d"

lemma steady_refl [simp]: "steady d d"
  by (simp add: steady_def)

lemma steady_trans: "steady d d' \<Longrightarrow> steady d' d'' \<Longrightarrow> steady d d''"
  by (simp add: steady_def)

lemma steady_fold: "(\<And>i d. steady d (f i d)) \<Longrightarrow> steady d (fold f is d)"
  by (induction "is" arbitrary: d) (auto intro: steady_trans)

lemma steady_served: "steady d d' \<Longrightarrow> served X d \<Longrightarrow> served X d'"
  by (simp add: steady_def served_def isUp_def)

lemma steady_upd_peer: "(\<And>p. pr_isRunning (f p) = pr_isRunning p) \<Longrightarrow> steady d (upd_peer i f d)"
proof -
  assume a: "\<And>p. pr_isRunning (f p) = pr_isRunning p"
  have "j \<in> running (upd_peer i f d) \<longleftrightarrow> j \<in> running d" for j
    using a [of "wg_peers d ! j"] by (cases "i = j") (auto simp: running_def upd_peer_def)
  then have "running (upd_peer i f d) = running d" by blast
  then show ?thesis by (simp add: steady_def upd_peer_def ids_def)
qed

lemma steady_peer_call: "steady d (peer_call c d)"
  by (simp add: steady_def peer_call_def running_def ids_def)

lemma steady_mark_all: "steady d (fold markEndpointSrcForClearing is d)"
proof (rule steady_fold)
  fix i and d :: "'e Device"
  show "steady d (markEndpointSrcForClearing i d)" by (auto simp: markEndpointSrcForClearing_def intro: steady_upd_peer)
qed

lemma steady_fields: "steady d (d\<lparr>wg_fwmark := m\<rparr>)" "steady d (d\<lparr>wg_port := q\<rparr>)" "steady d (d\<lparr>wg_obf := o'\<rparr>)"
    "steady d (d\<lparr>wg_allowedips := t\<rparr>)" "steady d (d\<lparr>wg_privateKey := sk, wg_publicKey := pk\<rparr>)"
  by (simp_all add: steady_def running_def ids_def)

lemma steady_Bind: "steady d (snd (BindUpdate b d))" "steady d (snd (BindSetMark b mark d))"
  by (auto simp: BindUpdate_def BindSetMark_def Let_def intro: steady_fields steady_trans [OF steady_fields(1) steady_mark_all]
      steady_trans [OF steady_fields(2) steady_mark_all] split: option.split)

lemma Peer_Start_running: "i < length (wg_peers d) \<Longrightarrow> isUp d \<Longrightarrow> running (Peer_Start i d) = insert i (running d)"
  by (auto simp: Peer_Start_def running_def upd_peer_def isUp_def isClosed_def nth_list_update split: if_splits)

lemma served_removePeerLocked:
  assumes "base_inv d" "(key, i) \<in> set (wg_keyMap d)" "served X d" "removePeerLocked i key d = Some d'"
  shows "served (X - {i}) d'"
proof -
  have c: "core_inv d" using assms(1) by (simp add: base_inv_def)
  obtain d1 where d1: "removePeerLocked i key d = Some d1" "same_rest d d1" "running d1 = running d - {i}"
    "wg_keyMap d1 = filter (\<lambda>(k, _). k \<noteq> key) (wg_keyMap d)"
    using removePeerLocked_spec [OF c assms(2)] by blast
  have "ids d1 = ids d - {i}" using d1(4) core_inv_entry(4) [OF c assms(2)] by (simp add: ids_def)
  then show ?thesis using assms(3,4) d1 by (auto simp: served_def same_rest_def isUp_def)
qed

lemma served_mono: "served X d \<Longrightarrow> X \<subseteq> Y \<Longrightarrow> served Y d"
  by (auto simp: served_def)

lemma served_remove_peers:
  assumes "base_inv d" "set kms \<subseteq> set (wg_keyMap d)" "distinct (map fst kms)" "served X d" "remove_peers kms d = Some d'"
  shows "served X d'"
  using assms
proof (induction kms arbitrary: d)
  case (Cons x kms)
  obtain key i where x: "x = (key, i)" by fastforce
  have m: "(key, i) \<in> set (wg_keyMap d)" using Cons.prems(2) x by simp
  then obtain d1 where d1: "removePeerLocked i key d = Some d1" "shrunk d d1" "wg_keyMap d1 = filter (\<lambda>(k, _). k \<noteq> key) (wg_keyMap d)"
    using removePeerLocked_shrunk [OF Cons.prems(1)] by blast
  have "key \<notin> fst ` set kms" "set kms \<subseteq> set (wg_keyMap d)" "distinct (map fst kms)" using Cons.prems(2,3) x by auto
  then have s: "set kms \<subseteq> set (wg_keyMap d1)" unfolding d1(3) by force
  have "served X d1" using served_mono [OF served_removePeerLocked [OF Cons.prems(1) m Cons.prems(4) d1(1)]] by blast
  then show ?case using Cons.IH [OF _ s \<open>distinct (map fst kms)\<close>] d1(1,2) Cons.prems(5) x by (simp add: shrunk_def)
qed simp

lemma served_SetPrivateKey:
  assumes "wg_inv d" "served X d" "SetPrivateKey pub dh sk d = Some d'"
  shows "served X d'"
proof (cases "sk = wg_privateKey d")
  case True
  then show ?thesis using assms(2,3) by (simp add: SetPrivateKey_def)
next
  case False
  let ?kms = "filter (\<lambda>(key, i). pr_remoteStatic (wg_peers d ! i) = pub sk) (wg_keyMap d)"
  have b: "base_inv d" using assms(1) by (simp add: wg_inv_def)
  have s: "set ?kms \<subseteq> set (wg_keyMap d)" "distinct (map fst ?kms)" using base_inv_distinct [OF b] by (auto simp: distinct_map_filter)
  then obtain d1 where d1: "remove_peers ?kms d = Some d1" using remove_peers_shrunk [OF b] by blast
  let ?d2 = "d1\<lparr>wg_privateKey := sk, wg_publicKey := pub sk\<rparr>"
  let ?d3 = "fold (\<lambda>i. upd_peer i (\<lambda>p. p\<lparr>pr_precomputedStaticStatic := dh sk (pr_remoteStatic p)\<rparr>)) (map snd (wg_keyMap ?d2)) ?d2"
  have e: "d' = fold (\<lambda>i. peer_call (ExpireCurrentKeypairs i)) (map snd (wg_keyMap ?d2)) ?d3"
    using False assms(3) d1 by (simp add: SetPrivateKey_def Let_def)
  have "steady ?d2 ?d3" by (rule steady_fold, rule steady_upd_peer) simp
  moreover have "steady ?d3 d'" unfolding e by (rule steady_fold, rule steady_peer_call)
  ultimately have "steady d1 d'" using steady_fields(5) steady_trans by blast
  then show ?thesis using steady_served served_remove_peers [OF b s assms(2) d1] by blast
qed

lemma served_RemoveAllPeers:
  assumes "base_inv d" "served X d" "RemoveAllPeers d = Some d'"
  shows "served X d'"
  using RemoveAllPeers_spec [OF assms(1)] assms(2,3) by (auto simp: served_def shrunk_def same_rest_def isUp_def ids_def)

lemma served_handleDeviceLine:
  assumes "wg_inv d" "served X d" "handleDeviceLine pub dh b key v (c, d) = Some (e, c', d')"
  shows "served X d'"
proof (rule handleDeviceLine_preserves [OF assms(3), where P = "served X"])
  show "served X d" by fact
  show "served X (d\<lparr>wg_obf := o'\<rparr>)" for o' using steady_served [OF steady_fields(3) assms(2)] .
  show "SetPrivateKey pub dh sk d = Some d' \<Longrightarrow> served X d'" for sk d' using served_SetPrivateKey [OF assms(1,2)] .
  show "RemoveAllPeers d = Some d' \<Longrightarrow> served X d'" for d' using served_RemoveAllPeers [OF _ assms(2)] assms(1) by (simp add: wg_inv_def)
  show "served X (snd (BindUpdate b (d\<lparr>wg_port := port\<rparr>)))" for port
    using steady_served [OF steady_trans [OF steady_fields(2) steady_Bind(1)] assms(2)] .
  show "served X (snd (BindSetMark b m d))" for m using steady_served [OF steady_Bind(2) assms(2)] .
qed

text \<open>The peer that a request is configuring may not run yet.\<close>

fun ref_ids :: "'e peer_ref \<Rightarrow> nat set" where
  "ref_ids (DevPeer i) = {i}"
| "ref_ids _ = {}"

lemma served_handlePostConfig:
  assumes "wg_inv d" "peer_ok peer d" "served (ref_ids (sp_peer peer)) d"
  shows "served {} (handlePostConfig peer d)"
proof (cases "sp_peer peer")
  case (DevPeer i)
  then have i: "i \<in> ids d" "\<not> sp_dummy peer" using assms(2) by (simp_all add: peer_ok_def)
  define d1 where "d1 = (if sp_created peer then upd_peer i (\<lambda>p. p\<lparr>pr_disableRoaming := wg_brokenRoaming d \<and> pr_endpoint p \<noteq> None\<rparr>) d else d)"
  define d3 where "d3 = (if sp_pkaOn peer then peer_call (SendKeepalive i) (Peer_Start i d1) else Peer_Start i d1)"
  have s: "steady d d1" "length (wg_peers d1) = length (wg_peers d)" by (auto simp: d1_def upd_peer_def intro: steady_upd_peer [unfolded upd_peer_def])
  then have u: "isUp d1" using assms(3) by (simp add: steady_def served_def isUp_def)
  have "i < length (wg_peers d)" using assms(1) i(1) by (auto simp: wg_inv_def base_inv_def ids_def dest: core_inv_entry(2))
  then have "running (Peer_Start i d1) = insert i (running d1)" using Peer_Start_running u s(2) by metis
  moreover have "ids (Peer_Start i d1) = ids d1" by (simp add: Peer_Start_def upd_peer_def ids_def)
  ultimately have "served {} (Peer_Start i d1)"
    using assms(3) s(1) DevPeer u by (auto simp: served_def steady_def keeps_state isUp_def)
  moreover have "steady (Peer_Start i d1) (peer_call (SendStagedPackets i) d3)"
    by (auto simp: d3_def intro: steady_trans [OF _ steady_peer_call] steady_peer_call)
  moreover have "handlePostConfig peer d = peer_call (SendStagedPackets i) d3"
    using i DevPeer u by (simp add: handlePostConfig_def d1_def [symmetric] d3_def Let_def)
  ultimately show ?thesis using steady_served by metis
qed (use assms in \<open>simp_all add: handlePostConfig_def\<close>)

lemma served_handlePublicKeyLine:
  assumes "served {} d" "handlePublicKeyLine dh v peer d = (None, peer', d')"
  shows "served (ref_ids (sp_peer peer')) d'"
proof -
  have n: "served {i} d1" if "NewPeer dh pk d = (Some i, d1)" for pk i d1
  proof -
    have "running d \<subseteq> running d1" "ids d1 = insert i (ids d)" "wg_state d1 = wg_state d"
      using that by (auto simp: NewPeer_def Let_def running_def ids_def nth_append split: if_splits)
    then show ?thesis using assms(1) by (auto simp: served_def isUp_def)
  qed
  show ?thesis
    using assms n served_mono [OF assms(1)]
    by (auto simp: handlePublicKeyLine_def Let_def split: option.splits if_splits prod.splits)
qed

lemma ids_entry:
  assumes "core_inv d" "i \<in> ids d"
  shows "(pr_remoteStatic (wg_peers d ! i), i) \<in> set (wg_keyMap d)"
  using assms core_inv_entry(3) [OF assms(1)] by (auto simp: ids_def)

lemma served_RemovePeer_current:
  assumes "wg_inv d" "peer_ok peer d" "\<not> sp_dummy peer" "served (ref_ids (sp_peer peer)) d"
    and "current_peer peer d = Some p" "RemovePeer (pr_remoteStatic p) d = Some d'"
  shows "served {} d'"
proof -
  obtain i where i: "sp_peer peer = DevPeer i" "i \<in> ids d" "p = wg_peers d ! i"
    using assms(2,3,5) by (auto simp: peer_ok_def current_peer_def split: peer_ref.splits)
  have b: "base_inv d" "core_inv d" using assms(1) by (simp_all add: wg_inv_def base_inv_def)
  have m: "(pr_remoteStatic p, i) \<in> set (wg_keyMap d)" using ids_entry [OF b(2) i(2)] i(3) by simp
  then have "removePeerLocked i (pr_remoteStatic p) d = Some d'"
    using assms(6) core_inv_entry(1) [OF b(2) m] by (simp add: RemovePeer_def)
  then show ?thesis using served_removePeerLocked [OF b(1) m assms(4)] i(1) by simp
qed

lemma served_upd_current:
  assumes "upd_current f peer d = Some (peer', d')" "served (ref_ids (sp_peer peer)) d" "\<And>p. pr_isRunning (f p) = pr_isRunning p"
  shows "served (ref_ids (sp_peer peer')) d'"
proof -
  have "served X (upd_peer i f d)" if "served X d" for X i by (rule steady_served [OF steady_upd_peer that]) (rule assms(3))
  then show ?thesis using assms(1,2) by (auto simp: upd_current_def split: peer_ref.splits)
qed

lemma served_with_table:
  "with_table f peer d = Some (e, peer', d') \<Longrightarrow> served (ref_ids (sp_peer peer)) d \<Longrightarrow> served (ref_ids (sp_peer peer')) d'"
  using steady_served [OF steady_fields(4)] by (auto simp: with_table_def split: peer_ref.splits)

lemma served_handlePeerLine:
  assumes "wg_inv d" "peer_ok peer d" "served (ref_ids (sp_peer peer)) d" "handlePeerLine b key v peer d = Some (e, peer', d')"
  shows "served (ref_ids (sp_peer peer')) d'"
proof -
  define st where "st r \<longleftrightarrow> (\<forall>e peer' d'. r = Some (e, peer', d') \<longrightarrow> served (ref_ids (sp_peer peer')) d')" for r :: "'a peer_result option"
  have i: "(p \<Longrightarrow> st x) \<Longrightarrow> (\<not> p \<Longrightarrow> st y) \<Longrightarrow> st (if p then x else y)" for p x y by simp
  have s: "st (Some (e, peer, d))" for e using assms(3) by (simp add: st_def)
  have bt: "st (Some (e, become_temp peer, d))" if "sp_dummy peer" for e
    using that assms(2,3) by (auto simp: st_def become_temp_def peer_ok_def split: peer_ref.splits)
  have rp: "st (do { p \<leftarrow> current_peer peer d; d \<leftarrow> RemovePeer (pr_remoteStatic p) d; Some (None, become_temp peer, d) })" if "\<not> sp_dummy peer"
    using served_RemovePeer_current [OF assms(1,2) that assms(3)] by (auto simp: st_def become_temp_def split: Option.bind_splits)
  have u: "st (map_option (Pair None) (upd_current f peer d))"
    "st (do { p \<leftarrow> current_peer peer d; (peer, d) \<leftarrow> upd_current f peer d; Some (None, peer\<lparr>sp_pkaOn := g p\<rparr>, d) })"
    if "\<And>p. pr_isRunning (f p) = pr_isRunning p" for f g
    using served_upd_current [OF _ assms(3) that] by (auto simp: st_def split: Option.bind_splits prod.splits)
  have wt: "st (with_table f peer d)" for f using served_with_table [OF _ assms(3)] by (auto simp: st_def)
  have o: "(x = None \<Longrightarrow> st y) \<Longrightarrow> (\<And>k. x = Some k \<Longrightarrow> st (z k)) \<Longrightarrow> st (case x of None \<Rightarrow> y | Some k \<Rightarrow> z k)" for x :: "'z option" and y z
    by (cases x) auto
  have "st (handlePeerLine b key v peer d)"
    unfolding handlePeerLine_def Let_def by (intro i s rp bt u wt o) simp_all
  then show ?thesis using assms(4) by (simp add: st_def)
qed

lemma served_finish_set:
  assumes "wg_inv d" "ranges_ok c" "peer_ok peer d" "served (ref_ids (sp_peer peer)) d" "finish_set s c peer d = (None, d')"
  shows "served {} d'"
proof -
  obtain e o' where m: "mergeWithDevice c (wg_obf d) = (e, o')" by fastforce
  let ?d = "d\<lparr>wg_obf := o'\<rparr>"
  have "conf_ok (wg_obf d)" using assms(1) by (simp add: wg_inv_def base_inv_def core_inv_def)
  then have "conf_ok o'" using not_overlapping_ipc [OF m] assms(2) by (simp add: ranges_ok_def)
  then have "wg_inv ?d" using wg_inv_obf [OF assms(1)] by blast
  moreover have "peer_ok peer ?d" using assms(3) by (simp add: peer_ok_def ids_def split: peer_ref.splits)
  ultimately have "served {} (handlePostConfig peer ?d)"
    using served_handlePostConfig steady_served [OF steady_fields(3) assms(4)] by blast
  then show ?thesis using assms(5) m by (simp add: finish_set_def Let_def split: if_splits)
qed

lemma served_set_lines:
  assumes "wg_inv d" "ranges_ok c" "peer_ok peer d" "if dc then sp_peer peer = NilPeer else sp_peer peer \<noteq> NilPeer"
    and "served (ref_ids (sp_peer peer)) d" "set_lines pub dh b s dc ls c peer d = Some (None, d')"
  shows "served {} d'"
  using assms
proof (induction ls arbitrary: dc c peer d)
  case Nil
  then show ?case using served_finish_set by auto
next
  case (Cons line ls)
  show ?case
  proof (cases "line = [] \<or> cut_at (CHR ''='') line = None")
    case True
    then show ?thesis using Cons.prems(6) served_finish_set [OF Cons.prems(1-3,5)] by (auto split: if_splits)
  next
    case False
    then obtain key v where l: "line \<noteq> []" "cut_at (CHR ''='') line = Some (key, v)" by auto
    consider "key = ''public_key''" | "key \<noteq> ''public_key''" dc | "key \<noteq> ''public_key''" "\<not> dc" by blast
    then show ?thesis
    proof cases
      case 1
      let ?d = "handlePostConfig peer d"
      obtain e1 p1 d1 where h: "handlePublicKeyLine dh v peer ?d = (e1, p1, d1)" by (metis prod_cases3)
      then have e: "e1 = None" "set_lines pub dh b s False ls c p1 d1 = Some (None, d')" using Cons.prems(6) l 1 by (cases e1; simp)+
      have w: "wg_inv ?d" "served {} ?d" using handlePostConfig_inv(1) served_handlePostConfig Cons.prems(1,3,5) by blast+
      have "wg_inv d1" "peer_ok p1 d1" "sp_peer p1 \<noteq> NilPeer" "served (ref_ids (sp_peer p1)) d1"
        using handlePublicKeyLine_inv [OF w(1) h] served_handlePublicKeyLine [OF w(2)] h e(1) by blast+
      then show ?thesis using Cons.IH [of d1 c p1 False] Cons.prems(2) e(2) by simp
    next
      case 2
      obtain e1 c1 d1 where h: "handleDeviceLine pub dh b key v (c, d) = Some (e1, c1, d1)" "wg_inv d1" "ranges_ok c1"
        using handleDeviceLine_ok [OF Cons.prems(1,2)] unfolding line_ok_def by blast
      have e: "set_lines pub dh b s True ls c1 peer d1 = Some (None, d')" using Cons.prems(6) l 2 h(1) by (cases e1) auto
      have "peer_ok peer d1" using Cons.prems(4) 2 by (simp add: peer_ok_def)
      then show ?thesis using Cons.IH [OF h(2,3), of peer True] served_handleDeviceLine [OF Cons.prems(1,5) h(1)] Cons.prems(4) 2 e by simp
    next
      case 3
      obtain e1 p1 d1 where h: "handlePeerLine b key v peer d = Some (e1, p1, d1)" "wg_inv d1" "peer_ok p1 d1" "sp_peer p1 \<noteq> NilPeer"
        using handlePeerLine_ok [OF Cons.prems(1,3), of b key v] Cons.prems(4) 3 by (auto simp: peer_line_ok_def)
      have e: "set_lines pub dh b s False ls c p1 d1 = Some (None, d')" using Cons.prems(6) l 3 h(1) by (cases e1) auto
      show ?thesis using Cons.IH [OF h(2) Cons.prems(2) h(3), of False] served_handlePeerLine [OF Cons.prems(1,3,5) h(1)] h(4) e by simp
    qed
  qed
qed

section \<open>Runs of a device\<close>

datatype 'e device_op =
    OpSet "'e bind_ops" bool "string list"
  | OpUp "'e bind_ops"
  | OpDown "'e bind_ops"
  | OpClose "'e bind_ops"
  | OpSetPrivateKey bytes
  | OpRemovePeer bytes
  | OpRemoveAllPeers
  | OpDisableSomeRoaming
  | OpEndpointFromPacket nat 'e

fun device_step :: "(bytes \<Rightarrow> bytes) \<Rightarrow> (bytes \<Rightarrow> bytes \<Rightarrow> bytes) \<Rightarrow> 'e device_op \<Rightarrow> 'e Device \<Rightarrow> 'e Device option" where
  "device_step pub dh (OpSet b scanErr ls) d = map_option snd (IpcSetOperation pub dh b scanErr ls d)"
| "device_step pub dh (OpUp b) d = Some (snd (Up b d))"
| "device_step pub dh (OpDown b) d = Some (snd (Down b d))"
| "device_step pub dh (OpClose b) d = Device_Close b d"
| "device_step pub dh (OpSetPrivateKey sk) d = SetPrivateKey pub dh sk d"
| "device_step pub dh (OpRemovePeer key) d = RemovePeer key d"
| "device_step pub dh OpRemoveAllPeers d = RemoveAllPeers d"
| "device_step pub dh OpDisableSomeRoaming d = Some (DisableSomeRoaming d)"
| "device_step pub dh (OpEndpointFromPacket i e) d = Some (SetEndpointFromPacket i e d)"

fun device_run :: "(bytes \<Rightarrow> bytes) \<Rightarrow> (bytes \<Rightarrow> bytes \<Rightarrow> bytes) \<Rightarrow> 'e device_op list \<Rightarrow> 'e Device \<Rightarrow> 'e Device option" where
  "device_run pub dh [] d = Some d"
| "device_run pub dh (op # ops) d = do { d \<leftarrow> device_step pub dh op d; device_run pub dh ops d }"

lemma wg_inv_NewDevice: "wg_inv NewDevice"
  using default_conf_ok
  by (simp add: wg_inv_def base_inv_def core_inv_def NewDevice_def ids_def running_def isClosed_def table_inv_empty)

lemma start_ranges: "wg_inv d \<Longrightarrow> ranges_ok (fromDevice (wg_obf d))"
  by (simp add: wg_inv_def base_inv_def core_inv_def conf_ok_def ranges_ok_def fromDevice_def)

lemma start_peer_ok: "peer_ok new_ipcSetPeer d" "sp_peer new_ipcSetPeer = NilPeer"
  by (simp_all add: peer_ok_def new_ipcSetPeer_def)

lemma IpcSetOperation_inv:
  assumes "wg_inv d"
  shows "\<exists>e d'. IpcSetOperation pub dh b s ls d = Some (e, d') \<and> wg_inv d'"
  unfolding IpcSetOperation_def using start_peer_ok by (intro set_lines_inv assms start_ranges) simp_all

lemma device_step_inv:
  assumes "wg_inv d"
  shows "\<exists>d'. device_step pub dh op d = Some d' \<and> wg_inv d'"
proof -
  have b: "base_inv d" using assms by (simp add: wg_inv_def)
  show ?thesis
  proof (cases op)
    case (OpSet b s ls)
    then show ?thesis using IpcSetOperation_inv [OF assms, of pub dh b s ls] by auto
  next
    case (OpClose b)
    then show ?thesis using Device_Close_inv [OF assms, of b] by auto
  next
    case (OpSetPrivateKey sk)
    then show ?thesis using SetPrivateKey_inv [OF assms, of pub dh sk] by auto
  next
    case (OpRemovePeer key)
    then show ?thesis using RemovePeer_shrunk [OF b, of key] shrunk_wg_inv [OF assms] by auto
  next
    case OpRemoveAllPeers
    then show ?thesis using RemoveAllPeers_spec [OF b] shrunk_wg_inv [OF assms] by auto
  qed (use changeState_inv [OF assms] frame_wg_inv [OF frame_DisableSomeRoaming assms] frame_wg_inv [OF frame_SetEndpoint assms]
    in \<open>simp_all add: Up_def Down_def\<close>)
qed

lemma device_step_closed:
  assumes "isClosed d" "device_step pub dh op d = Some d'"
  shows "isClosed d'"
proof -
  have "wg_state d' = wg_state d" if "\<forall>b. op \<noteq> OpUp b \<and> op \<noteq> OpDown b \<and> op \<noteq> OpClose b"
    using assms(2) that state_set_lines state_SetPrivateKey state_removing
    by (cases op) (auto simp: IpcSetOperation_def keeps_state)
  then show ?thesis using assms
    by (cases op) (auto simp: Up_def Down_def changeState_def Device_Close_def isClosed_def)
qed

lemma device_run_inv: "wg_inv d \<Longrightarrow> \<exists>d'. device_run pub dh ops d = Some d' \<and> wg_inv d'"
proof (induction ops arbitrary: d)
  case (Cons op ops)
  obtain d1 where d1: "device_step pub dh op d = Some d1" "wg_inv d1" using device_step_inv [OF Cons.prems] by blast
  then show ?case using Cons.IH [OF d1(2)] by simp
qed simp

lemma device_run_closed: "isClosed d \<Longrightarrow> device_run pub dh ops d = Some d' \<Longrightarrow> isClosed d'"
proof (induction ops arbitrary: d)
  case (Cons op ops)
  obtain d1 where "device_step pub dh op d = Some d1" "device_run pub dh ops d1 = Some d'"
    using Cons.prems(2) by (cases "device_step pub dh op d") auto
  then show ?case using Cons.IH device_step_closed [OF Cons.prems(1)] by metis
qed simp

section \<open>Properties\<close>


definition bind_stub :: "unit bind_ops" where
  "bind_stub = \<lparr>bind_ParseEndpoint = (\<lambda>_. None), bind_Open = Some, bind_Close = True, bind_SetMark = (\<lambda>_. True), bind_RouteListener = True\<rparr>"


lemma hex_decode_ones: "hex_decode (replicate (2 * n) CHR ''1'') = Some (replicate n 17)"
  by (induction n) (simp_all add: hex_value_def)

lemma loadExactHex_ones: "loadExactHex 32 (replicate 64 CHR ''1'') = Some (replicate 32 17)"
  using hex_decode_ones [of 32] by (simp add: loadExactHex_def)

lemma new_device_up: "Up bind_stub NewDevice = (True, NewDevice\<lparr>wg_state := deviceStateUp\<rparr>)"
  by (simp add: Up_def changeState_def upLocked_def BindUpdate_def NewDevice_def bind_stub_def isClosed_def isUp_def)

text \<open>A request that creates a peer and is then refused: the peer is in the map and does not run, though the device is up.\<close>

lemma refused_request_leaves_peer_stopped:
  "map_option (\<lambda>(e, d). (e, map pr_isRunning (wg_peers d), map snd (wg_keyMap d)))
     (IpcSetOperation (\<lambda>k. k) (\<lambda>k _. k) bind_stub False [''public_key='' @ replicate 64 CHR ''1'', ''bogus=1'']
        (snd (Up bind_stub NewDevice))) = Some (Some IpcErrorInvalid, [False], [0])"
proof -
  let ?d = "NewDevice\<lparr>wg_state := deviceStateUp\<rparr> :: unit Device"
  have c: "cut_at (CHR ''='') (''public_key='' @ x) = Some (''public_key'', x)" "cut_at (CHR ''='') ''bogus=1'' = Some (''bogus'', ''1'')" for x
    by simp_all
  have "replicate 32 (17 :: u8) \<noteq> zero_key" by (simp add: zero_key_def)
  then obtain i peer d where h: "handlePublicKeyLine (\<lambda>k _. k) (replicate 64 CHR ''1'') new_ipcSetPeer ?d = (None, peer, d)"
    "map pr_isRunning (wg_peers d) = [False]" "map snd (wg_keyMap d) = [0]"
    by (simp add: handlePublicKeyLine_def loadExactHex_ones NewDevice_def LookupPeer_def NewPeer_def isClosed_def MaxPeers_def zero_Peer_def)
  have p: "handlePostConfig new_ipcSetPeer ?d = ?d" by (simp add: handlePostConfig_def new_ipcSetPeer_def)
  have "handlePeerLine bind_stub ''bogus'' v peer d = Some (Some IpcErrorInvalid, peer, d)" for v by (simp add: handlePeerLine_def)
  then show ?thesis using h(2,3) by (simp add: new_device_up IpcSetOperation_def c p h(1) del: append_Cons append.simps cut_at.simps)
qed



end
