(* ===== verification/Ray_Config.thy ===== *)
theory Ray_Config
  imports Awg_Device
begin

text \<open>
  The configuration of the client in \<^verbatim>\<open>awg-ios/cmd/persianray\<close>: defaults and checks (\<^verbatim>\<open>config.go\<close>), the packets that open a
  connection (\<^verbatim>\<open>i1.go\<close>), and the configuration request for the device that is built from them. The decoded JSON object is
  an argument. Random bytes are \<open>rnd k i\<close>, byte \<open>i\<close> of the \<open>k\<close>-th read. A Go string is a list of ASCII characters.
\<close>

section \<open>Library functions\<close>

definition TrimSpace :: "string \<Rightarrow> string" where
  "TrimSpace s = rev (dropWhile is_space (rev (dropWhile is_space s)))"

definition lower_char :: "char \<Rightarrow> char" where
  "lower_char c = (let n = (of_char c :: nat) in if 65 \<le> n \<and> n \<le> 90 then char_of (n + 32) else c)"

definition ToLower :: "string \<Rightarrow> string" where "ToLower s = map lower_char s"

definition Trim_char :: "char \<Rightarrow> string \<Rightarrow> string" where
  "Trim_char x s = rev (dropWhile (\<lambda>c. c = x) (rev (dropWhile (\<lambda>c. c = x) s)))"

fun Split_char :: "char \<Rightarrow> string \<Rightarrow> string list" where
  "Split_char x [] = [[]]"
| "Split_char x (c # s) = (case Split_char x s of p # ps \<Rightarrow> if c = x then [] # p # ps else (c # p) # ps | [] \<Rightarrow> [])"

definition str_bytes :: "string \<Rightarrow> bytes" where "str_bytes s = map of_char s"

definition hex_digit :: "nat \<Rightarrow> char" where "hex_digit n = ''0123456789abcdef'' ! n"

fun EncodeToString :: "bytes \<Rightarrow> string" where
  "EncodeToString [] = []"
| "EncodeToString (b # bs) = hex_digit (unat b div 16) # hex_digit (unat b mod 16) # EncodeToString bs"

text \<open>\<^verbatim>\<open>base64.StdEncoding.DecodeString\<close>: line ends are skipped, padding is required, trailing bits are ignored.\<close>

definition b64_val :: "char \<Rightarrow> nat option" where
  "b64_val c =
     (let n = (of_char c :: nat) in
      if 65 \<le> n \<and> n \<le> 90 then Some (n - 65)
      else if 97 \<le> n \<and> n \<le> 122 then Some (n - 71)
      else if 48 \<le> n \<and> n \<le> 57 then Some (n + 4)
      else if n = 43 then Some 62
      else if n = 47 then Some 63
      else None)"

fun b64_quanta :: "string \<Rightarrow> bytes option" where
  "b64_quanta [] = Some []"
| "b64_quanta (a # b # c # d # r) =
     (if d = CHR ''='' then
        (if r \<noteq> [] then None
         else if c = CHR ''='' then do { x \<leftarrow> b64_val a; y \<leftarrow> b64_val b; Some [of_nat (4 * x + y div 16)] }
         else do { x \<leftarrow> b64_val a; y \<leftarrow> b64_val b; z \<leftarrow> b64_val c; Some [of_nat (4 * x + y div 16), of_nat (y mod 16 * 16 + z div 4)] })
      else do { x \<leftarrow> b64_val a; y \<leftarrow> b64_val b; z \<leftarrow> b64_val c; w \<leftarrow> b64_val d; rest \<leftarrow> b64_quanta r;
                Some (of_nat (4 * x + y div 16) # of_nat (y mod 16 * 16 + z div 4) # of_nat (z mod 4 * 64 + w) # rest) })"
| "b64_quanta _ = None"

definition b64_DecodeString :: "string \<Rightarrow> bytes option" where
  "b64_DecodeString s = b64_quanta (filter (\<lambda>c. c \<noteq> CHR 0x0A \<and> c \<noteq> CHR 0x0D) s)"

text \<open>\<^verbatim>\<open>net.SplitHostPort\<close> and \<^verbatim>\<open>net.JoinHostPort\<close>.\<close>

definition SplitHostPort :: "string \<Rightarrow> (string \<times> string) option" where
  "SplitHostPort s =
     (case cut_at (CHR '':'') (rev s) of
        None \<Rightarrow> None
      | Some (rport, rhost) \<Rightarrow>
          let port = rev rport; host = rev rhost in
          if s \<noteq> [] \<and> hd s = CHR ''['' then
            (case cut_at (CHR '']'') s of
               None \<Rightarrow> None
             | Some (inside, after) \<Rightarrow>
                 if length inside + 1 \<noteq> length host then None
                 else if CHR ''['' \<in> set (tl s) \<or> CHR '']'' \<in> set after then None
                 else Some (tl inside, port))
          else if CHR '':'' \<in> set host then None
          else if CHR ''['' \<in> set s \<or> CHR '']'' \<in> set s then None
          else Some (host, port))"

definition JoinHostPort :: "string \<Rightarrow> string \<Rightarrow> string" where
  "JoinHostPort host port =
     (if CHR '':'' \<in> set host then ''['' @ host @ '']:'' @ port else host @ '':'' @ port)"

section \<open>The configuration\<close>

record socksConfig =
  PrivateKey :: string
  PeerPublicKey :: string
  Address :: string
  Endpoint :: string
  DNS :: string
  Jc :: int
  Jmin :: int
  Jmax :: int
  I1 :: string
  I1Sni :: string
  Bind :: string
  SocksPort :: int
  Hop :: bool
  HopShield :: bool
  InnerPrivateKey :: string
  InnerPeerPublicKey :: string
  InnerAddress :: string
  InnerEndpoint :: string
  InnerEndpoints :: "string list"
  ApplyPolicy :: bool
  BlockAds :: bool
  BlockAdult :: bool
  SafeSearch :: bool
  BypassLocal :: bool
  BlockQuic :: bool
  SafeSearchVIP :: string
  AdExact :: "string list"
  AdSuffix :: "string list"
  AdultExact :: "string list"
  AdultSuffix :: "string list"
  LocalSuffix :: "string list"
  SafeSearchExact :: "string list"
  DoHExact :: "string list"
  DoHSuffix :: "string list"

text \<open>\<^verbatim>\<open>parseConfigJSON\<close> after decoding; \<open>None\<close> is the error.\<close>

definition default_to :: "string \<Rightarrow> string \<Rightarrow> string" where "default_to s v = (if v = [] then s else v)"

definition with_defaults :: "socksConfig \<Rightarrow> socksConfig" where
  "with_defaults c = c\<lparr>Address := default_to ''172.16.0.2/32'' (Address c), DNS := default_to ''1.1.1.1'' (DNS c),
     Bind := default_to ''127.0.0.1'' (Bind c)\<rparr>"

definition with_limits :: "socksConfig \<Rightarrow> socksConfig" where
  "with_limits c =
     (let c = (if Jmax c < Jmin c then c\<lparr>Jmax := Jmin c\<rparr> else c)
      in if TrimSpace (SafeSearchVIP c) = [] then c\<lparr>SafeSearchVIP := ''216.239.38.120''\<rparr> else c)"

definition with_hop :: "socksConfig \<Rightarrow> socksConfig option" where
  "with_hop c =
     (if \<not> Hop c then Some c
      else if InnerPrivateKey c = [] \<or> InnerPeerPublicKey c = [] then None
      else
        let c = c\<lparr>InnerAddress := default_to ''172.16.0.2/32'' (InnerAddress c)\<rparr>
        in Some (if TrimSpace (InnerEndpoint c) = [] \<and> InnerEndpoints c = [] then c\<lparr>InnerEndpoint := ''188.114.97.170:2408''\<rparr> else c))"

definition parseConfig :: "socksConfig \<Rightarrow> socksConfig option" where
  "parseConfig c =
     (if PrivateKey c = [] \<or> PeerPublicKey c = [] \<or> Endpoint c = [] then None
      else if SocksPort c < 0 \<or> SocksPort c > 65535 then None
      else with_hop (with_limits (with_defaults c)))"

text \<open>\<^verbatim>\<open>keyToHex\<close>: URL-safe characters are replaced and padding is added.\<close>

definition replace_char :: "char \<Rightarrow> char \<Rightarrow> string \<Rightarrow> string" where
  "replace_char x y s = map (\<lambda>c. if c = x then y else c) s"

definition keyToHex :: "string \<Rightarrow> string option" where
  "keyToHex b64 =
     (let s = replace_char (CHR ''_'') (CHR ''/'') (replace_char (CHR ''-'') (CHR ''+'') (TrimSpace b64));
          s = s @ replicate ((4 - length s mod 4) mod 4) (CHR ''='') in
      case b64_DecodeString s of
        None \<Rightarrow> None
      | Some raw \<Rightarrow> if length raw \<noteq> 32 then None else Some (EncodeToString raw))"

text \<open>The copy a ping works on, without policy and extra inner endpoints, and the inner endpoints to try.\<close>

definition cloneForPing :: "string \<Rightarrow> socksConfig \<Rightarrow> socksConfig" where
  "cloneForPing endpoint c =
     c\<lparr>Endpoint := endpoint, ApplyPolicy := False, BlockAds := False, BlockAdult := False, SafeSearch := False, BypassLocal := False,
       BlockQuic := False, AdExact := [], AdSuffix := [], AdultExact := [], AdultSuffix := [], LocalSuffix := [], SafeSearchExact := [],
       DoHExact := [], DoHSuffix := [], SocksPort := 0, Bind := ''127.0.0.1'', HopShield := False, InnerEndpoints := []\<rparr>"

definition normalizeEndpoint :: "string \<Rightarrow> string" where
  "normalizeEndpoint s0 =
     (let s = TrimSpace s0 in
      if s = [] then []
      else if CHR '':'' \<notin> set s then JoinHostPort s ''2408''
      else case SplitHostPort s of None \<Rightarrow> [] | Some (host, port) \<Rightarrow> JoinHostPort host port)"

definition add_host :: "string \<Rightarrow> string list \<Rightarrow> string list" where
  "add_host s out = (let s = normalizeEndpoint s in if s = [] \<or> s \<in> set out then out else out @ [s])"

definition hopInnerHosts :: "socksConfig \<Rightarrow> string list" where
  "hopInnerHosts c =
     (let out = fold add_host (InnerEndpoints c) (add_host (InnerEndpoint c) []) in
      if out = [] then add_host ''188.114.97.170:2408'' out else out)"

section \<open>Opening packets\<close>

definition rand_read :: "(nat \<Rightarrow> nat \<Rightarrow> u8) \<Rightarrow> nat \<Rightarrow> nat \<Rightarrow> bytes" where
  "rand_read rnd k n = map (rnd k) [0..<n]"

definition dns_label :: "string \<Rightarrow> bytes" where
  "dns_label label = (if label = [] \<or> length label > 63 then [] else of_nat (length label) # str_bytes label)"

definition dnsQuery :: "(nat \<Rightarrow> nat \<Rightarrow> u8) \<Rightarrow> string \<Rightarrow> bytes" where
  "dnsQuery rnd name =
     rand_read rnd 0 2 @ [0x01, 0x00, 0x00, 0x01, 0x00, 0x00, 0x00, 0x00, 0x00, 0x00] @
     concat (map dns_label (Split_char (CHR ''.'') (Trim_char (CHR ''.'') name))) @ [0x00, 0x00, 0x01, 0x00, 0x01]"

definition crlf :: string where "crlf = [CHR 0x0D, CHR 0x0A]"

definition sipOptions :: "(nat \<Rightarrow> nat \<Rightarrow> u8) \<Rightarrow> string \<Rightarrow> bytes" where
  "sipOptions rnd host =
     (let tag = EncodeToString (rand_read rnd 0 8) in
      str_bytes (
        ''OPTIONS sip:'' @ host @ '' SIP/2.0'' @ crlf @
        ''Via: SIP/2.0/UDP 192.0.2.1:5060;branch=z9hG4bK'' @ take 8 tag @ crlf @
        ''From: <sip:user@192.0.2.1>;tag='' @ drop 8 tag @ crlf @
        ''To: <sip:'' @ host @ ''>'' @ crlf @
        ''Call-ID: '' @ tag @ ''@192.0.2.1'' @ crlf @
        ''CSeq: 1 OPTIONS'' @ crlf @
        ''Contact: <sip:user@192.0.2.1:5060>'' @ crlf @
        ''Max-Forwards: 70'' @ crlf @
        ''Content-Length: 0'' @ crlf @ crlf))"

definition stunBinding :: "(nat \<Rightarrow> nat \<Rightarrow> u8) \<Rightarrow> bytes" where
  "stunBinding rnd = [0x00, 0x01] @ put16 0 @ put32 0x2112A442 @ rand_read rnd 0 12"

definition encodeVarint :: "nat \<Rightarrow> bytes" where
  "encodeVarint n =
     (if n < 64 then [of_nat n]
      else if n < 16384 then [0x40 OR of_nat (n div 256), of_nat n]
      else let v = n mod 2 ^ 32 in [0x80 OR of_nat (v div 2 ^ 24), of_nat (v div 2 ^ 16), of_nat (v div 2 ^ 8), of_nat v])"

definition len16 :: "nat \<Rightarrow> bytes" where "len16 n = [of_nat (n div 256), of_nat n]"
definition len24 :: "nat \<Rightarrow> bytes" where "len24 n = [of_nat (n div 65536), of_nat (n div 256), of_nat n]"

definition tlsClientHello :: "(nat \<Rightarrow> nat \<Rightarrow> u8) \<Rightarrow> string \<Rightarrow> bytes" where
  "tlsClientHello rnd sni =
     (let sniBytes = str_bytes sni;
          sniListLen = 3 + length sniBytes;
          extBody = len16 sniListLen @ [0x00] @ len16 (length sniBytes) @ sniBytes;
          extSNI = [0x00, 0x00] @ len16 (length extBody) @ extBody;
          extensions = extSNI @ [0x00, 0x2b, 0x00, 0x03, 0x02, 0x03, 0x04];
          body = [0x03, 0x03] @ rand_read rnd 2 32 @ [0x00] @ [0x00, 0x02, 0x13, 0x01] @ [0x01, 0x00] @ len16 (length extensions) @ extensions;
          hs = [0x01] @ len24 (length body) @ body
      in [0x16, 0x03, 0x01] @ len16 (length hs) @ hs)"

definition quicInitial :: "(nat \<Rightarrow> nat \<Rightarrow> u8) \<Rightarrow> string \<Rightarrow> bytes" where
  "quicInitial rnd sni =
     (let dcid = rand_read rnd 0 8;
          scid = rand_read rnd 1 8;
          ch = tlsClientHello rnd sni;
          payload = [0x06, 0x00] @ encodeVarint (length ch) @ ch;
          payload = payload @ replicate (120 - length payload) 0x00;
          pnAndPayload = 0x00 # payload;
          b = [0xC3, 0x00, 0x00, 0x00, 0x01] @ [of_nat (length dcid)] @ dcid @ [of_nat (length scid)] @ scid @ [0x00] @
              encodeVarint (length pnAndPayload) @ pnAndPayload
      in take 1200 b)"

definition i1_packet :: "(nat \<Rightarrow> nat \<Rightarrow> u8) \<Rightarrow> string \<Rightarrow> string \<Rightarrow> bytes" where
  "i1_packet rnd kind sni =
     (if kind = [] \<or> kind = ''none'' then []
      else if kind = ''awg'' then quicInitial rnd sni
      else if kind = ''dns'' then dnsQuery rnd sni
      else if kind = ''sip'' then sipOptions rnd sni
      else if kind = ''stun'' then stunBinding rnd
      else if kind = ''quic'' then quicInitial rnd sni
      else [])"

definition buildI1 :: "(nat \<Rightarrow> nat \<Rightarrow> u8) \<Rightarrow> string \<Rightarrow> string \<Rightarrow> string" where
  "buildI1 rnd kind sni =
     (let pkt = i1_packet rnd (ToLower (TrimSpace kind)) (default_to ''www.cloudflare.com'' (TrimSpace sni)) in
      if pkt = [] then [] else ''<b 0x'' @ EncodeToString pkt @ ''>'')"

section \<open>The configuration request\<close>

text \<open>\<^verbatim>\<open>%d\<close> of an integer.\<close>

definition show_int :: "int \<Rightarrow> string" where
  "show_int n = (if n < 0 then CHR ''-'' # decimal (nat (- n)) else decimal (nat n))"

definition text_line :: "string \<Rightarrow> string" where "text_line s = s @ [CHR 0x0A]"

definition uapiPeer :: "(nat \<Rightarrow> nat \<Rightarrow> u8) \<Rightarrow> socksConfig \<Rightarrow> string \<Rightarrow> string \<Rightarrow> string \<Rightarrow> bool \<Rightarrow> string option" where
  "uapiPeer rnd c privB64 pubB64 endpoint spoof = do {
     priv \<leftarrow> keyToHex privB64;
     pub \<leftarrow> keyToHex pubB64;
     let i1 = buildI1 rnd (I1 c) (I1Sni c);
     Some (text_line (''private_key='' @ priv) @
       (if spoof then
          (if Jc c > 0 then text_line (''jc='' @ show_int (Jc c)) @ text_line (''jmin='' @ show_int (Jmin c)) @ text_line (''jmax='' @ show_int (Jmax c)) else []) @
          (if i1 \<noteq> [] then text_line (''i1='' @ i1) else [])
        else []) @
       text_line (''public_key='' @ pub) @ text_line (''endpoint='' @ endpoint) @ text_line ''allowed_ip=0.0.0.0/0'' @
       text_line ''persistent_keepalive_interval=25'') }"

definition uapi :: "(nat \<Rightarrow> nat \<Rightarrow> u8) \<Rightarrow> socksConfig \<Rightarrow> string option" where
  "uapi rnd c = uapiPeer rnd c (PrivateKey c) (PeerPublicKey c) (Endpoint c) True"

definition innerUAPI :: "(nat \<Rightarrow> nat \<Rightarrow> u8) \<Rightarrow> socksConfig \<Rightarrow> string \<Rightarrow> string option" where
  "innerUAPI rnd c endpoint = uapiPeer rnd c (InnerPrivateKey c) (InnerPeerPublicKey c) endpoint False"

text \<open>
  \<^verbatim>\<open>IpcSet\<close>: the lines a \<^verbatim>\<open>bufio.Scanner\<close> delivers, without a trailing carriage return, until one does not fit its buffer.
\<close>

definition MaxScanTokenSize :: nat where "MaxScanTokenSize = 65536"

definition drop_cr :: "string \<Rightarrow> string" where
  "drop_cr s = (if s \<noteq> [] \<and> last s = CHR 0x0D then butlast s else s)"

fun scan_until_long :: "string list \<Rightarrow> bool \<times> string list" where
  "scan_until_long [] = (False, [])"
| "scan_until_long (l # ls) =
     (if length l \<ge> MaxScanTokenSize then (True, []) else let (e, r) = scan_until_long ls in (e, drop_cr l # r))"

definition scan_lines :: "string \<Rightarrow> bool \<times> string list" where
  "scan_lines s = (let ls = Split_char (CHR 0x0A) s in scan_until_long (if last ls = [] then butlast ls else ls))"

definition IpcSet :: "(bytes \<Rightarrow> bytes) \<Rightarrow> (bytes \<Rightarrow> bytes \<Rightarrow> bytes) \<Rightarrow> 'e bind_ops \<Rightarrow> string \<Rightarrow> 'e Device \<Rightarrow> (ipc_error option \<times> 'e Device) option" where
  "IpcSet pub dh b uapiConf d = (let (e, ls) = scan_lines uapiConf in IpcSetOperation pub dh b e ls d)"

section \<open>Keys as text\<close>

lemma hex_value_digit: "n < 16 \<Longrightarrow> hex_value (hex_digit n) = Some n"
proof -
  have "\<forall>n\<in>set [0..<16]. hex_value (hex_digit n) = Some n" by code_simp
  then show "n < 16 \<Longrightarrow> hex_value (hex_digit n) = Some n" by simp
qed

lemma word_of_nat_unat: "n = unat x \<Longrightarrow> word_of_nat n = (x :: u8)"
  by simp

lemma hex_decode_EncodeToString [simp]: "hex_decode (EncodeToString b) = Some b"
proof (induction b)
  case (Cons x b)
  have "unat x < 2 ^ LENGTH(8)" by (rule unsigned_less)
  then have "unat x div 16 < 16" "unat x mod 16 < 16" by simp_all
  moreover have "word_of_nat (16 * (unat x div 16) + unat x mod 16) = x" by (rule word_of_nat_unat) simp
  ultimately show ?case using Cons by (simp add: hex_value_digit del: of_nat_add of_nat_mult)
qed simp

lemma length_EncodeToString [simp]: "length (EncodeToString b) = 2 * length b"
  by (induction b) auto

text \<open>The base 64 text of bytes, with padding.\<close>

fun b64_text :: "bytes \<Rightarrow> string" where
  "b64_text [] = []"
| "b64_text [a] = [b64_alphabet ! (unat a div 4), b64_alphabet ! (unat a mod 4 * 16), CHR ''='', CHR ''='']"
| "b64_text [a, b] =
     [b64_alphabet ! (unat a div 4), b64_alphabet ! (unat a mod 4 * 16 + unat b div 16), b64_alphabet ! (unat b mod 16 * 4), CHR ''='']"
| "b64_text (a # b # c # r) =
     b64_alphabet ! (unat a div 4) # b64_alphabet ! (unat a mod 4 * 16 + unat b div 16) #
     b64_alphabet ! (unat b mod 16 * 4 + unat c div 64) # b64_alphabet ! (unat c mod 64) # b64_text r"

definition plain_char :: "char \<Rightarrow> bool" where
  "plain_char c \<longleftrightarrow> \<not> is_space c \<and> c \<noteq> CHR ''-'' \<and> c \<noteq> CHR ''_'' \<and> c \<noteq> CHR 0x0A \<and> c \<noteq> CHR 0x0D"

lemma alphabet_char_all:
  "list_all (\<lambda>n. b64_val (b64_alphabet ! n) = Some n \<and> plain_char (b64_alphabet ! n) \<and> b64_alphabet ! n \<noteq> CHR ''='') [0..<64]"
  by (simp add: b64_alphabet_def upt_rec b64_val_def plain_char_def is_space_def Let_def)

lemma alphabet_char:
  assumes "n < 64"
  shows "b64_val (b64_alphabet ! n) = Some n" "plain_char (b64_alphabet ! n)" "b64_alphabet ! n \<noteq> CHR ''=''"
  using alphabet_char_all assms by (simp_all add: list_all_iff)

lemma byte_groups:
  fixes a b c :: nat
  assumes "a < 256" "b < 256" "c < 256"
  shows "a div 4 < 64" "a mod 4 * 16 < 64" "a mod 4 * 16 + b div 16 < 64" "b mod 16 * 4 < 64"
    "b mod 16 * 4 + c div 64 < 64" "c mod 64 < 64"
    "4 * (a div 4) + (a mod 4 * 16 + b div 16) div 16 = a" "4 * (a div 4) + a mod 4 * 16 div 16 = a"
    "(a mod 4 * 16 + b div 16) mod 16 * 16 + (b mod 16 * 4 + c div 64) div 4 = b"
    "(a mod 4 * 16 + b div 16) mod 16 * 16 + b mod 16 * 4 div 4 = b"
    "(b mod 16 * 4 + c div 64) mod 4 * 64 + c mod 64 = c"
proof -
  have m: "a mod 4 < 4" "b mod 16 < 16" "c mod 64 < 64" by simp_all
  have d: "a div 4 < 64" "b div 16 < 16" "c div 64 < 4" using assms by (simp_all add: div_less_iff_less_mult)
  show "a div 4 < 64" "a mod 4 * 16 < 64" "a mod 4 * 16 + b div 16 < 64" "b mod 16 * 4 < 64" "b mod 16 * 4 + c div 64 < 64" "c mod 64 < 64"
    using m d by linarith+
  have e: "(a mod 4 * 16 + b div 16) div 16 = a mod 4" "(a mod 4 * 16 + b div 16) mod 16 = b div 16"
    "(b mod 16 * 4 + c div 64) div 4 = b mod 16" "(b mod 16 * 4 + c div 64) mod 4 = c div 64"
    using d(2,3) by simp_all
  have f: "x div n * n + x mod n = x" "n * (x div n) + x mod n = x" for x n :: nat by simp_all
  show "4 * (a div 4) + (a mod 4 * 16 + b div 16) div 16 = a" "4 * (a div 4) + a mod 4 * 16 div 16 = a"
    "(a mod 4 * 16 + b div 16) mod 16 * 16 + (b mod 16 * 4 + c div 64) div 4 = b"
    "(a mod 4 * 16 + b div 16) mod 16 * 16 + b mod 16 * 4 div 4 = b"
    "(b mod 16 * 4 + c div 64) mod 4 * 64 + c mod 64 = c"
    unfolding e by (simp_all only: f nonzero_mult_div_cancel_right zero_neq_numeral not_False_eq_True)
qed

lemma unat_u8: "unat (x :: u8) < 256"
  using unsigned_less [of x] by simp

lemma u8_quotients: "unat (x :: u8) div 16 < 16" "unat (x :: u8) div 64 < 4"
  using unat_u8 [of x] by (simp_all add: div_less_iff_less_mult)

lemmas u8_groups = byte_groups [OF unat_u8 unat_u8 unat_u8]

lemma b64_quanta_text: "b64_quanta (b64_text b) = Some b"
  by (induction b rule: b64_text.induct)
    (simp_all add: alphabet_char u8_groups u8_quotients del: of_nat_add of_nat_mult)

lemma b64_text_plain: "c \<in> set (b64_text b) \<Longrightarrow> plain_char c"
proof -
  have "plain_char (CHR ''='')" by (simp add: plain_char_def is_space_def)
  then show "c \<in> set (b64_text b) \<Longrightarrow> plain_char c"
    by (induction b rule: b64_text.induct) (auto simp: alphabet_char u8_groups)
qed

lemma length_b64_text: "length (b64_text b) mod 4 = 0"
  by (induction b rule: b64_text.induct) auto

end
