(* ===== verification/Ray_Request.thy ===== *)
theory Ray_Request
  imports Ray_Config
begin

text \<open>
  What the device makes of the configuration request that the client builds in \<^verbatim>\<open>awg-ios/cmd/persianray/config.go\<close>:
  the request as a list of lines, the effect of each line, and the first packets the device then sends.
\<close>

section \<open>Lines\<close>

lemma Split_char_step: "x \<notin> set u \<Longrightarrow> Split_char x (u @ x # v) = u # Split_char x v"
proof (induction u)
  case Nil
  have "Split_char x v \<noteq> []" by (induction v) (auto split: list.splits)
  then show ?case by (simp split: list.splits)
qed auto

lemma Split_lines: "\<forall>l\<in>set ls. x \<notin> set l \<Longrightarrow> Split_char x (concat (map (\<lambda>l. l @ [x]) ls)) = ls @ [[]]"
  by (induction ls) (simp_all add: Split_char_step)

definition plain_line :: "string \<Rightarrow> bool" where
  "plain_line l \<longleftrightarrow> CHR 0x0A \<notin> set l \<and> length l < MaxScanTokenSize \<and> (l \<noteq> [] \<longrightarrow> last l \<noteq> CHR 0x0D)"

lemma scan_until_long_plain: "\<forall>l\<in>set ls. plain_line l \<Longrightarrow> scan_until_long ls = (False, ls)"
  by (induction ls) (auto simp: plain_line_def drop_cr_def)

lemma scan_lines_text:
  assumes "\<forall>l\<in>set ls. plain_line l"
  shows "scan_lines (concat (map text_line ls)) = (False, ls)"
proof -
  have "text_line = (\<lambda>l. l @ [CHR 0x0A])" by (rule ext) (simp add: text_line_def)
  then have "Split_char (CHR 0x0A) (concat (map text_line ls)) = ls @ [[]]"
    using assms Split_lines [of ls "CHR 0x0A"] by (simp add: plain_line_def)
  then show ?thesis using scan_until_long_plain [OF assms] by (simp add: scan_lines_def)
qed

lemma cut_at_key: "x \<notin> set key \<Longrightarrow> cut_at x (key @ x # v) = Some (key, v)"
  by (induction key) auto

section \<open>The words of the request\<close>

lemma hex_text_plain: "c \<in> set (EncodeToString b) \<Longrightarrow> c \<in> set ''0123456789abcdef''"
proof (induction b)
  case (Cons x b)
  have h: "hex_digit n \<in> set ''0123456789abcdef''" if "n < 16" for n unfolding hex_digit_def using that by (intro nth_mem) simp
  have "unat x div 16 < 16" "unat x mod 16 < 16" using u8_quotients by simp_all
  then have "set (EncodeToString (x # b)) \<subseteq> set ''0123456789abcdef'' \<union> set (EncodeToString b)"
    using h unfolding EncodeToString.simps list.set by blast
  then show ?case using Cons by blast
qed simp

lemma hex_text_notin: "c \<notin> set ''0123456789abcdef'' \<Longrightarrow> c \<notin> set (EncodeToString b)"
  using hex_text_plain by blast

lemma decimal_notin: "\<not> is_dec c \<Longrightarrow> c \<notin> set (decimal n)"
  using decimal_digits [of n] by (auto simp: list_all_iff)

lemma length_decimal: "length (decimal n) \<le> n + 1"
proof (induction n rule: decimal.induct)
  case (1 n)
  then show ?case by (subst decimal.simps) auto
qed

lemma length_decimal_32: "n < 2 ^ 32 \<Longrightarrow> length (decimal n) \<le> 10"
proof -
  have s: "length (decimal n) \<le> Suc k" if "n < 10 ^ Suc k" for n k using that
  proof (induction k arbitrary: n)
    case 0
    then show ?case by (subst decimal.simps) simp
  next
    case (Suc k)
    have "n div 10 < 10 ^ Suc k" using Suc.prems by (simp add: div_less_iff_less_mult)
    then show ?case using Suc.IH by (subst decimal.simps) auto
  qed
  show "n < 2 ^ 32 \<Longrightarrow> length (decimal n) \<le> 10" using s [of n 9] by simp
qed

lemma Fields_word: "\<forall>c\<in>set w. \<not> is_space c \<Longrightarrow> Fields_loop cur (w @ s) = Fields_loop (rev w @ cur) s"
  by (induction w arbitrary: cur) simp_all

lemma parse_tag_bytes:
  assumes "pkt \<noteq> []"
  shows "parse_tag (''b 0x'' @ EncodeToString pkt) = Inr (bytesObf pkt)"
proof -
  let ?h = "EncodeToString pkt"
  have "\<forall>c\<in>set ?h. \<not> is_space c" using hex_text_plain [of _ pkt] by (force simp: is_space_def)
  then have "\<forall>c\<in>set (''0x'' @ ?h). \<not> is_space c" by (simp add: is_space_def)
  then have "Fields_loop [] (''0x'' @ ?h) = [''0x'' @ ?h]" using Fields_word [of "''0x'' @ ?h" "[]" "[]"] by simp
  then have "Fields (''b 0x'' @ ?h) = [''b'', ''0x'' @ ?h]" by (simp add: Fields_def is_space_def)
  moreover have "?h \<noteq> []" using assms length_EncodeToString [of pkt] by (metis length_0_conv mult_eq_0_iff zero_neq_numeral)
  then have "newBytesObf (''0x'' @ ?h) = Some (bytesObf pkt)" by (simp add: newBytesObf_def TrimPrefix_def)
  ultimately show ?thesis by (simp add: parse_tag_def obfBuilders_def)
qed

definition i1_chain :: "bytes \<Rightarrow> obfChain" where
  "i1_chain pkt = \<lparr>oc_Spec = ''<b 0x'' @ EncodeToString pkt @ ''>'', oc_obfs = [bytesObf pkt]\<rparr>"

lemma newObfChain_bytes:
  assumes "pkt \<noteq> []"
  shows "newObfChain (''<b 0x'' @ EncodeToString pkt @ ''>'') = Inr (Some (i1_chain pkt))"
proof -
  let ?t = "''b 0x'' @ EncodeToString pkt"
  have "CHR ''>'' \<notin> set ?t" by (simp add: hex_text_notin)
  then have c: "cut_at (CHR ''>'') (?t @ ''>'') = Some (?t, [])" by (rule cut_at_key)
  have "parse_tags [] = Inr ([], [])" by (simp add: parse_tags.simps)
  then have "parse_tags (''<'' @ ?t @ ''>'') = Inr ([], [bytesObf pkt])"
    using c parse_tag_bytes [OF assms] by (subst parse_tags.simps) simp
  then show ?thesis by (simp add: newObfChain_def i1_chain_def)
qed

section \<open>The request as lines\<close>

definition request_lines :: "(nat \<Rightarrow> nat \<Rightarrow> u8) \<Rightarrow> socksConfig \<Rightarrow> bytes \<Rightarrow> bytes \<Rightarrow> string \<Rightarrow> bool \<Rightarrow> string list" where
  "request_lines rnd c sk pk endpoint spoof =
     [''private_key='' @ EncodeToString sk] @
     (if spoof \<and> Jc c > 0 then [''jc='' @ show_int (Jc c), ''jmin='' @ show_int (Jmin c), ''jmax='' @ show_int (Jmax c)] else []) @
     (if spoof \<and> buildI1 rnd (I1 c) (I1Sni c) \<noteq> [] then [''i1='' @ buildI1 rnd (I1 c) (I1Sni c)] else []) @
     [''public_key='' @ EncodeToString pk, ''endpoint='' @ endpoint, ''allowed_ip=0.0.0.0/0'', ''persistent_keepalive_interval=25'']"

lemma uapiPeer_lines:
  assumes "keyToHex a = Some (EncodeToString sk)" "keyToHex b = Some (EncodeToString pk)"
  shows "uapiPeer rnd c a b endpoint spoof = Some (concat (map text_line (request_lines rnd c sk pk endpoint spoof)))"
  using assms by (simp add: uapiPeer_def request_lines_def Let_def)

text \<open>The packet the opening setting stands for, and the numbers the device accepts.\<close>

definition opening_packet :: "(nat \<Rightarrow> nat \<Rightarrow> u8) \<Rightarrow> socksConfig \<Rightarrow> bytes" where
  "opening_packet rnd c = i1_packet rnd (ToLower (TrimSpace (I1 c))) (default_to ''www.cloudflare.com'' (TrimSpace (I1Sni c)))"

lemma buildI1_opening: "buildI1 rnd (I1 c) (I1Sni c) = (if opening_packet rnd c = [] then [] else oc_Spec (i1_chain (opening_packet rnd c)))"
  by (simp add: buildI1_def opening_packet_def i1_chain_def Let_def)

definition numbers_ok :: "socksConfig \<Rightarrow> bool" where
  "numbers_ok c \<longleftrightarrow> 0 < Jc c \<longrightarrow> Jc c < 2 ^ 32 \<and> 0 \<le> Jmin c \<and> Jmin c < 2 ^ 32 \<and> 0 \<le> Jmax c \<and> Jmax c < 2 ^ 32"

lemma plain_key_lines: "length b = 32 \<Longrightarrow> plain_line (''private_key='' @ EncodeToString b) \<and> plain_line (''public_key='' @ EncodeToString b)"
proof -
  assume "length b = 32"
  moreover have "CHR 0x0A \<notin> set (EncodeToString b)" "CHR 0x0D \<notin> set (EncodeToString b)" by (simp_all add: hex_text_notin)
  moreover have "last (EncodeToString b) \<noteq> CHR 0x0D" if "EncodeToString b \<noteq> []" using that calculation(3) by (metis last_in_set)
  ultimately show ?thesis by (simp add: plain_line_def MaxScanTokenSize_def)
qed

lemma plain_number: "0 \<le> n \<Longrightarrow> n < 2 ^ 32 \<Longrightarrow> plain_line (''jc='' @ show_int n) \<and> plain_line (''jmin='' @ show_int n) \<and> plain_line (''jmax='' @ show_int n)"
proof -
  assume a: "0 \<le> n" "n < 2 ^ 32"
  let ?s = "decimal (nat n)"
  have "CHR 0x0A \<notin> set ?s" "CHR 0x0D \<notin> set ?s" "?s \<noteq> []" using decimal_notin [of _ "nat n"] decimal_digits [of "nat n"] by (simp_all add: is_dec_def)
  moreover have "length ?s \<le> 10" using a by (intro length_decimal_32) simp
  moreover have "last ?s \<noteq> CHR 0x0D" using calculation by (metis last_in_set)
  ultimately show ?thesis using a by (simp add: plain_line_def show_int_def MaxScanTokenSize_def)
qed

lemma request_lines_plain:
  assumes "length sk = 32" "length pk = 32" "plain_line (''endpoint='' @ endpoint)" "spoof \<longrightarrow> numbers_ok c \<and> length (opening_packet rnd c) \<le> 32000"
  shows "\<forall>l\<in>set (request_lines rnd c sk pk endpoint spoof). plain_line l"
proof -
  have "plain_line (''private_key='' @ EncodeToString sk)" "plain_line (''public_key='' @ EncodeToString pk)"
    using assms(1,2) plain_key_lines by blast+
  moreover have "plain_line ''allowed_ip=0.0.0.0/0''" "plain_line ''persistent_keepalive_interval=25''"
    by (simp_all add: plain_line_def MaxScanTokenSize_def)
  moreover have "plain_line (''jc='' @ show_int (Jc c))" "plain_line (''jmin='' @ show_int (Jmin c))" "plain_line (''jmax='' @ show_int (Jmax c))"
    if "spoof" "Jc c > 0" using that assms(4) plain_number by (simp_all add: numbers_ok_def)
  moreover have "plain_line (''i1='' @ oc_Spec (i1_chain (opening_packet rnd c)))" if "spoof"
    using that assms(4) hex_text_notin [of "CHR 0x0A" "opening_packet rnd c"] by (simp add: plain_line_def i1_chain_def MaxScanTokenSize_def)
  ultimately show ?thesis using assms(3)
    by (cases spoof; cases "Jc c > 0"; cases "opening_packet rnd c = []") (simp_all add: request_lines_def buildI1_opening)
qed

section \<open>The effect of the lines\<close>

lemma device_line_step:
  assumes "handleDeviceLine pub dh b key v (c, d) = Some (None, c', d')" "CHR ''='' \<notin> set key" "key \<noteq> ''public_key''"
  shows "set_lines pub dh b s True ((key @ ''='' @ v) # ls) c peer d = set_lines pub dh b s True ls c' peer d'"
  using assms cut_at_key [OF assms(2), of v] by simp

lemma peer_line_step:
  assumes "handlePeerLine b key v peer d = Some (None, peer', d')" "CHR ''='' \<notin> set key" "key \<noteq> ''public_key''"
  shows "set_lines pub dh b s False ((key @ ''='' @ v) # ls) c peer d = set_lines pub dh b s False ls c peer' d'"
  using assms cut_at_key [OF assms(2), of v] by simp

lemma loadExactHex_text: "length k = 32 \<Longrightarrow> loadExactHex 32 (EncodeToString k) = Some k"
  by (simp add: loadExactHex_def)

lemma clamp_not_zero:
  assumes "length sk = 32"
  shows "clamp sk \<noteq> zero_key" "length (clamp sk) = 32"
proof -
  have "((sk ! 31 AND 127) OR 64 :: u8) \<noteq> 0"
  proof
    assume "(sk ! 31 AND 127) OR 64 = 0"
    then have "bit ((sk ! 31 AND 127) OR 64 :: u8) 6 = bit (0 :: u8) 6" by simp
    then show False by (simp add: bit_simps)
  qed
  moreover have "clamp sk ! 31 = (sk ! 31 AND 127) OR 64" using assms by (simp add: clamp_def)
  ultimately show "clamp sk \<noteq> zero_key" by (metis nth_replicate zero_key_def lessI numeral_eq_Suc pred_numeral_simps(2) less_numeral_extra(1) numeral_less_iff semiring_norm(76,78,80,81))
  show "length (clamp sk) = 32" using assms by (simp add: clamp_def)
qed

definition keyed_device :: "(bytes \<Rightarrow> bytes) \<Rightarrow> bytes \<Rightarrow> obf_device \<Rightarrow> 'e Device" where
  "keyed_device pub sk o' = NewDevice\<lparr>wg_privateKey := clamp sk, wg_publicKey := pub (clamp sk), wg_obf := o'\<rparr>"

lemma private_key_line:
  assumes "length sk = 32" "sk \<noteq> zero_key"
  shows "handleDeviceLine pub dh b ''private_key'' (EncodeToString sk) (c, NewDevice) = Some (None, c, keyed_device pub sk default_device)"
proof -
  have "FromMaybeZeroHex (EncodeToString sk) = Some (clamp sk)" using assms by (simp add: FromMaybeZeroHex_def loadExactHex_text)
  then show ?thesis using clamp_not_zero(1) [OF assms(1)]
    by (simp add: handleDeviceLine_def SetPrivateKey_def NewDevice_def keyed_device_def zero_key_def)
qed

lemma junk_line:
  assumes "0 \<le> n" "n < 2 ^ 32"
  shows "set_junk (show_int n) upd (c, keyed_device pub sk o') =
    Some (None, c, keyed_device pub sk (dv_junk_update (upd (of_nat (nat n))) o'))"
proof -
  have "ParseUint 32 (show_int n) = Some (nat n)" using assms by (simp add: show_int_def ParseUint_decimal)
  then show ?thesis by (simp add: set_junk_def store_setting_def parsed_def keyed_device_def NewDevice_def)
qed

lemma i1_line:
  assumes "pkt \<noteq> []"
  shows "set_ipacket (oc_Spec (i1_chain pkt)) 0 (c, keyed_device pub sk o') =
    Some (None, c, keyed_device pub sk (dv_ipackets_update (\<lambda>l. l[0 := Some (i1_chain pkt)]) o'))"
  using newObfChain_bytes [OF assms] by (simp add: set_ipacket_def store_setting_def parsed_def keyed_device_def NewDevice_def i1_chain_def)

text \<open>The settings of the wire format that a request leaves.\<close>

definition client_obf :: "(nat \<Rightarrow> nat \<Rightarrow> u8) \<Rightarrow> socksConfig \<Rightarrow> bool \<Rightarrow> obf_device" where
  "client_obf rnd c spoof =
     (let o1 = (if spoof \<and> Jc c > 0
                then default_device\<lparr>dv_junk := \<lparr>jc_min = of_int (Jmin c), jc_max = of_int (Jmax c), jc_count = of_int (Jc c)\<rparr>\<rparr>
                else default_device)
      in if spoof \<and> opening_packet rnd c \<noteq> [] then o1\<lparr>dv_ipackets := [Some (i1_chain (opening_packet rnd c)), None, None, None, None]\<rparr> else o1)"

lemma device_key_lines:
  "handleDeviceLine pub dh b ''jc'' v s = set_junk v (\<lambda>n. jc_count_update (\<lambda>_. n)) s"
  "handleDeviceLine pub dh b ''jmin'' v s = set_junk v (\<lambda>n. jc_min_update (\<lambda>_. n)) s"
  "handleDeviceLine pub dh b ''jmax'' v s = set_junk v (\<lambda>n. jc_max_update (\<lambda>_. n)) s"
  "handleDeviceLine pub dh b ''i1'' v s = set_ipacket v 0 s"
  by (simp_all add: handleDeviceLine_def)

lemma junk_lines:
  assumes "0 < Jc c" "numbers_ok c"
  shows "set_lines pub dh b s True ([''jc='' @ show_int (Jc c), ''jmin='' @ show_int (Jmin c), ''jmax='' @ show_int (Jmax c)] @ ls) i peer
      (keyed_device pub sk default_device) =
    set_lines pub dh b s True ls i peer (keyed_device pub sk
      (default_device\<lparr>dv_junk := \<lparr>jc_min = of_int (Jmin c), jc_max = of_int (Jmax c), jc_count = of_int (Jc c)\<rparr>\<rparr>))"
proof -
  note n = assms [unfolded numbers_ok_def]
  let ?o1 = "dv_junk_update (\<lambda>j. j\<lparr>jc_count := of_nat (nat (Jc c))\<rparr>) default_device"
  let ?o2 = "dv_junk_update (\<lambda>j. j\<lparr>jc_min := of_nat (nat (Jmin c))\<rparr>) ?o1"
  let ?o3 = "dv_junk_update (\<lambda>j. j\<lparr>jc_max := of_nat (nat (Jmax c))\<rparr>) ?o2"
  have "set_lines pub dh b s True ((''jc'' @ ''='' @ show_int (Jc c)) # (''jmin'' @ ''='' @ show_int (Jmin c)) # (''jmax'' @ ''='' @ show_int (Jmax c)) # ls)
      i peer (keyed_device pub sk default_device) =
    set_lines pub dh b s True ((''jmin'' @ ''='' @ show_int (Jmin c)) # (''jmax'' @ ''='' @ show_int (Jmax c)) # ls) i peer (keyed_device pub sk ?o1)"
    by (rule device_line_step) (use n in \<open>simp_all add: device_key_lines junk_line\<close>)
  also have "\<dots> = set_lines pub dh b s True ((''jmax'' @ ''='' @ show_int (Jmax c)) # ls) i peer (keyed_device pub sk ?o2)"
    by (rule device_line_step) (use n in \<open>simp_all add: device_key_lines junk_line\<close>)
  also have "\<dots> = set_lines pub dh b s True ls i peer (keyed_device pub sk ?o3)"
    by (rule device_line_step) (use n in \<open>simp_all add: device_key_lines junk_line\<close>)
  finally show ?thesis using n by (simp add: default_device_def of_nat_nat)
qed

lemma opening_line:
  assumes "opening_packet rnd c \<noteq> []"
  shows "set_lines pub dh b s True ((''i1='' @ buildI1 rnd (I1 c) (I1Sni c)) # ls) i peer (keyed_device pub sk o') =
    set_lines pub dh b s True ls i peer (keyed_device pub sk (dv_ipackets_update (\<lambda>l. l[0 := Some (i1_chain (opening_packet rnd c))]) o'))"
proof -
  have "set_lines pub dh b s True ((''i1'' @ ''='' @ buildI1 rnd (I1 c) (I1Sni c)) # ls) i peer (keyed_device pub sk o') =
    set_lines pub dh b s True ls i peer (keyed_device pub sk (dv_ipackets_update (\<lambda>l. l[0 := Some (i1_chain (opening_packet rnd c))]) o'))"
    by (rule device_line_step) (use assms in \<open>simp_all add: device_key_lines i1_line buildI1_opening\<close>)
  then show ?thesis by simp
qed

lemma spoof_lines:
  assumes "spoof \<longrightarrow> numbers_ok c"
  shows "set_lines pub dh b s True (
      (if spoof \<and> Jc c > 0 then [''jc='' @ show_int (Jc c), ''jmin='' @ show_int (Jmin c), ''jmax='' @ show_int (Jmax c)] else []) @
      (if spoof \<and> buildI1 rnd (I1 c) (I1Sni c) \<noteq> [] then [''i1='' @ buildI1 rnd (I1 c) (I1Sni c)] else []) @ ls) i peer
      (keyed_device pub sk default_device) =
    set_lines pub dh b s True ls i peer (keyed_device pub sk (client_obf rnd c spoof))"
proof -
  define o1 where "o1 = (if spoof \<and> Jc c > 0
    then default_device\<lparr>dv_junk := \<lparr>jc_min = of_int (Jmin c), jc_max = of_int (Jmax c), jc_count = of_int (Jc c)\<rparr>\<rparr> else default_device)"
  have j: "set_lines pub dh b s True (
      (if spoof \<and> Jc c > 0 then [''jc='' @ show_int (Jc c), ''jmin='' @ show_int (Jmin c), ''jmax='' @ show_int (Jmax c)] else []) @ ls) i peer
      (keyed_device pub sk default_device) = set_lines pub dh b s True ls i peer (keyed_device pub sk o1)" for ls
    using junk_lines [of c pub dh b s ls] assms by (cases "spoof \<and> Jc c > 0") (simp_all only: o1_def if_True if_False append_Nil simp_thms)
  have e: "buildI1 rnd (I1 c) (I1Sni c) \<noteq> [] \<longleftrightarrow> opening_packet rnd c \<noteq> []" by (simp add: buildI1_opening i1_chain_def)
  have "dv_ipackets o1 = replicate 5 None" by (simp add: o1_def default_device_def)
  then have "client_obf rnd c spoof =
      (if spoof \<and> opening_packet rnd c \<noteq> [] then dv_ipackets_update (\<lambda>l. l[0 := Some (i1_chain (opening_packet rnd c))]) o1 else o1)"
    by (simp add: client_obf_def o1_def [symmetric] numeral_eq_Suc)
  moreover have "set_lines pub dh b s True ((if spoof \<and> buildI1 rnd (I1 c) (I1Sni c) \<noteq> [] then [''i1='' @ buildI1 rnd (I1 c) (I1Sni c)] else []) @ ls)
      i peer (keyed_device pub sk o1) =
    set_lines pub dh b s True ls i peer (keyed_device pub sk
      (if spoof \<and> opening_packet rnd c \<noteq> [] then dv_ipackets_update (\<lambda>l. l[0 := Some (i1_chain (opening_packet rnd c))]) o1 else o1))"
    unfolding e using opening_line [of rnd c pub dh b s ls i peer sk o1] by simp
  ultimately show ?thesis by (simp only: j)
qed

text \<open>The only peer, the table with the default route, and the device that a request leaves.\<close>

definition client_peer :: "(bytes \<Rightarrow> bytes \<Rightarrow> bytes) \<Rightarrow> bytes \<Rightarrow> bytes \<Rightarrow> 'e option \<Rightarrow> UintRange \<Rightarrow> 'e Peer" where
  "client_peer dh sk pk e keepalive =
     zero_Peer\<lparr>pr_udpWindow := DefaultUdpWindow32, pr_remoteStatic := pk, pr_precomputedStaticStatic := dh (clamp sk) pk,
       pr_endpoint := e, pr_persistentKeepaliveInterval := keepalive\<rparr>"

definition peered_device :: "(bytes \<Rightarrow> bytes) \<Rightarrow> bytes \<Rightarrow> bytes \<Rightarrow> obf_device \<Rightarrow> 'e Peer \<Rightarrow> nat AllowedIPs \<Rightarrow> 'e Device" where
  "peered_device pub sk pk o' p t = (keyed_device pub sk o')\<lparr>wg_keyMap := [(pk, 0)], wg_peers := [p], wg_allowedips := t\<rparr>"

definition any4 :: prefix_t where "any4 = \<lparr>Addr = [0, 0, 0, 0], Bits = 0\<rparr>"

definition default_route :: "nat AllowedIPs" where
  "default_route = \<lparr>IPv4 = Entry (Some 0) 0 [0, 0, 0, 0] NilEntry NilEntry, IPv6 = NilEntry, trieEntries = (\<lambda>_. [])(0 := [([0, 0, 0, 0], 0)])\<rparr>"

lemma Insert_any4: "Insert empty_table any4 0 = Some default_route"
  by (simp add: Insert_def insert_entry_def empty_table_def any4_def default_route_def family_def set_family_def
      prefix_cidr_def insert_trie_def newEntry_def maskSelf_def CIDRMask_def addToPeerEntries_def)

lemma default_route_inv: "table_inv default_route"
  using Insert_map [OF table_inv_empty, of any4 "0 :: nat"] Insert_any4 by (auto simp: valid_prefix_def any4_def)

lemma default_route_all: "length a = 4 \<Longrightarrow> Lookup default_route a = Some (Some 0)"
proof -
  assume a: "length a = 4"
  have "covers_addr (4, []) a" using a by (simp add: covers_addr_def)
  moreover have r: "routes default_route (4, []) = Some 0" by (simp add: routes_def family_def default_route_def)
  moreover have "routes default_route k = None" if "covers_addr k a" "k \<noteq> (4, [])" for k
    using that a by (cases k) (auto simp: covers_addr_def routes_def family_def default_route_def)
  ultimately show ?thesis using Lookup_some [OF default_route_inv, of a 0] a by (metis le_refl)
qed

lemma ParsePrefix_any4: "ParsePrefix ''0.0.0.0/0'' = Some any4"
  unfolding any4_def by code_simp

lemma FromString_25: "FromString ''25'' = Some (FromUint32 25 25)"
  by (simp add: FromString_def ParseUint_def is_dec_def digit_value_def Let_def)

definition client_peer_set :: "bool \<Rightarrow> 'e ipcSetPeer" where
  "client_peer_set pka = \<lparr>sp_peer = DevPeer 0, sp_dummy = False, sp_created = True, sp_pkaOn = pka\<rparr>"

lemma public_key_line:
  fixes b :: "'e bind_ops"
  assumes "length pk = 32" "pk \<noteq> pub (clamp sk)"
  shows "set_lines pub dh b s dc ((''public_key='' @ EncodeToString pk) # ls) i new_ipcSetPeer (keyed_device pub sk o') =
    set_lines pub dh b s False ls i (client_peer_set False) (peered_device pub sk pk o' (client_peer dh sk pk None 0) empty_table)"
proof -
  let ?d = "keyed_device pub sk o' :: 'e Device"
  have c: "cut_at (CHR ''='') (''public_key='' @ EncodeToString pk) = Some (''public_key'', EncodeToString pk)"
    using cut_at_key [of "CHR ''=''" "''public_key''" "EncodeToString pk"] by simp
  have p: "handlePostConfig new_ipcSetPeer ?d = ?d" by (simp add: handlePostConfig_def new_ipcSetPeer_def)
  have "handlePublicKeyLine dh (EncodeToString pk) new_ipcSetPeer ?d =
      (None, client_peer_set False, peered_device pub sk pk o' (client_peer dh sk pk None 0) empty_table)"
    using assms
    by (auto simp: handlePublicKeyLine_def loadExactHex_text keyed_device_def NewDevice_def LookupPeer_def NewPeer_def isClosed_def MaxPeers_def
        client_peer_set_def new_ipcSetPeer_def peered_device_def client_peer_def zero_Peer_def)
  then show ?thesis using p by (simp add: c del: append_Cons append.simps cut_at.simps)
qed

lemma client_peer_lines:
  fixes b :: "'e bind_ops"
  assumes "bind_ParseEndpoint b endpoint = Some e"
  shows "set_lines pub dh b s False [''endpoint='' @ endpoint, ''allowed_ip=0.0.0.0/0'', ''persistent_keepalive_interval=25''] i
      (client_peer_set False) (peered_device pub sk pk o' (client_peer dh sk pk None 0) empty_table) =
    Some (finish_set s i (client_peer_set True) (peered_device pub sk pk o' (client_peer dh sk pk (Some e) (FromUint32 25 25)) default_route))"
proof -
  let ?d = "\<lambda>p t. peered_device pub sk pk o' p t :: 'e Device" and ?p = "client_peer dh sk pk :: 'e option \<Rightarrow> _"
  have "set_lines pub dh b s False ((''endpoint'' @ ''='' @ endpoint) # (''allowed_ip'' @ ''='' @ ''0.0.0.0/0'') #
      [''persistent_keepalive_interval'' @ ''='' @ ''25'']) i (client_peer_set False) (?d (?p None 0) empty_table) =
    set_lines pub dh b s False ((''allowed_ip'' @ ''='' @ ''0.0.0.0/0'') # [''persistent_keepalive_interval'' @ ''='' @ ''25'']) i
      (client_peer_set False) (?d (?p (Some e) 0) empty_table)"
    by (rule peer_line_step)
      (use assms in \<open>simp_all add: handlePeerLine_def upd_current_def client_peer_set_def upd_peer_def peered_device_def client_peer_def\<close>)
  also have "\<dots> = set_lines pub dh b s False [''persistent_keepalive_interval'' @ ''='' @ ''25''] i (client_peer_set False) (?d (?p (Some e) 0) default_route)"
    by (rule peer_line_step) (simp_all add: handlePeerLine_def ParsePrefix_any4 with_table_def Insert_any4 client_peer_set_def peered_device_def)
  also have "\<dots> = set_lines pub dh b s False [] i (client_peer_set True) (?d (?p (Some e) (FromUint32 25 25)) default_route)"
    by (rule peer_line_step)
      (simp_all add: handlePeerLine_def FromString_25 current_peer_def upd_current_def client_peer_set_def upd_peer_def peered_device_def client_peer_def
        Range_IsZero_def FromUint32_def)
  finally show ?thesis by simp
qed

lemma client_obf_merge:
  "mergeWithDevice (fromDevice default_device) (client_obf rnd c spoof) = (None, client_obf rnd c spoof)"
proof -
  have "\<not> overlapping (listed default_headers)" using default_conf_ok by (simp add: conf_ok_def default_device_def)
  then show ?thesis by (simp add: mergeWithDevice_def fromDevice_def default_device_def Key_IsZero_def client_obf_def Let_def)
qed

definition client_device ::
  "(nat \<Rightarrow> nat \<Rightarrow> u8) \<Rightarrow> (bytes \<Rightarrow> bytes) \<Rightarrow> (bytes \<Rightarrow> bytes \<Rightarrow> bytes) \<Rightarrow> socksConfig \<Rightarrow> bool \<Rightarrow> bytes \<Rightarrow> bytes \<Rightarrow> 'e \<Rightarrow> 'e Device" where
  "client_device rnd pub dh c spoof sk pk e =
     peered_device pub sk pk (client_obf rnd c spoof) (client_peer dh sk pk (Some e) (FromUint32 25 25)) default_route"

lemma client_finish:
  "finish_set False (fromDevice default_device) (client_peer_set True)
     (peered_device pub sk pk (client_obf rnd c spoof) (client_peer dh sk pk (Some e) (FromUint32 25 25)) default_route) =
   (None, client_device rnd pub dh c spoof sk pk e)"
  by (simp add: finish_set_def client_device_def peered_device_def keyed_device_def NewDevice_def client_obf_merge handlePostConfig_def client_peer_set_def
      upd_peer_def isUp_def client_peer_def zero_Peer_def)

text \<open>A request built from good keys and numbers and a good endpoint is accepted by a new device.\<close>

lemma request_accepted:
  fixes b :: "'e bind_ops"
  assumes "length sk = 32" "length pk = 32" "sk \<noteq> zero_key" "pk \<noteq> pub (clamp sk)"
    and "plain_line (''endpoint='' @ endpoint)" "bind_ParseEndpoint b endpoint = Some e"
    and "spoof \<longrightarrow> numbers_ok c \<and> length (opening_packet rnd c) \<le> 32000"
    and "keyToHex privB64 = Some (EncodeToString sk)" "keyToHex pubB64 = Some (EncodeToString pk)"
  shows "\<exists>conf. uapiPeer rnd c privB64 pubB64 endpoint spoof = Some conf \<and>
    IpcSet pub dh b conf NewDevice = Some (None, client_device rnd pub dh c spoof sk pk e)"
proof -
  let ?ls = "request_lines rnd c sk pk endpoint spoof" and ?i = "fromDevice default_device"
  let ?spoof = "(if spoof \<and> Jc c > 0 then [''jc='' @ show_int (Jc c), ''jmin='' @ show_int (Jmin c), ''jmax='' @ show_int (Jmax c)] else []) @
      (if spoof \<and> buildI1 rnd (I1 c) (I1Sni c) \<noteq> [] then [''i1='' @ buildI1 rnd (I1 c) (I1Sni c)] else [])"
  let ?peer = "[''endpoint='' @ endpoint, ''allowed_ip=0.0.0.0/0'', ''persistent_keepalive_interval=25'']"
  have l: "?ls = (''private_key='' @ EncodeToString sk) # ?spoof @ (''public_key='' @ EncodeToString pk) # ?peer" by (simp add: request_lines_def)
  have k: "set_lines pub dh b False True ((''private_key'' @ ''='' @ EncodeToString sk) # ls) ?i new_ipcSetPeer NewDevice =
      set_lines pub dh b False True ls ?i new_ipcSetPeer (keyed_device pub sk default_device)" for ls
    by (rule device_line_step) (simp_all add: private_key_line [OF assms(1,3)])
  have "set_lines pub dh b False True ?ls ?i new_ipcSetPeer NewDevice =
      set_lines pub dh b False True (?spoof @ (''public_key='' @ EncodeToString pk) # ?peer) ?i new_ipcSetPeer (keyed_device pub sk default_device)"
    unfolding l using k by simp
  also have "\<dots> = set_lines pub dh b False True ((''public_key='' @ EncodeToString pk) # ?peer) ?i new_ipcSetPeer (keyed_device pub sk (client_obf rnd c spoof))"
    unfolding append_assoc by (rule spoof_lines) (use assms(7) in blast)
  also have "\<dots> = set_lines pub dh b False False ?peer ?i (client_peer_set False)
      (peered_device pub sk pk (client_obf rnd c spoof) (client_peer dh sk pk None 0) empty_table)"
    by (rule public_key_line [where pub = pub, OF assms(2,4)])
  also have "\<dots> = Some (None, client_device rnd pub dh c spoof sk pk e)"
    unfolding client_peer_lines [OF assms(6)] client_finish ..
  finally have "IpcSetOperation pub dh b False ?ls NewDevice = Some (None, client_device rnd pub dh c spoof sk pk e)"
    by (simp add: IpcSetOperation_def NewDevice_def)
  moreover have "scan_lines (concat (map text_line ?ls)) = (False, ?ls)"
    by (rule scan_lines_text) (rule request_lines_plain [OF assms(1,2,5,7)])
  ultimately show ?thesis using uapiPeer_lines [OF assms(8,9), of rnd c endpoint spoof] by (simp add: IpcSet_def)
qed

section \<open>Spellings of a key\<close>

definition url_safe :: "string \<Rightarrow> string" where
  "url_safe s = replace_char (CHR ''/'') (CHR ''_'') (replace_char (CHR ''+'') (CHR ''-'') s)"

definition key_text :: "bytes \<Rightarrow> string \<Rightarrow> bool" where
  "key_text k s \<longleftrightarrow> (\<exists>w1 t w2. s = w1 @ t @ w2 \<and> list_all is_space w1 \<and> list_all is_space w2 \<and>
     (let u = b64_text k; v = filter (\<lambda>c. c \<noteq> CHR ''='') u in t \<in> {u, v, url_safe u, url_safe v}))"

lemma TrimSpace_pad:
  assumes "list_all is_space w1" "list_all is_space w2" "\<forall>c\<in>set t. \<not> is_space c" "t \<noteq> []"
  shows "TrimSpace (w1 @ t @ w2) = t"
proof -
  have d: "dropWhile is_space (w @ u) = u" if "list_all is_space w" "u \<noteq> []" "\<not> is_space (hd u)" for w u
    using that by (induction w) (auto simp: dropWhile_eq_self_iff)
  have "\<not> is_space (hd (t @ w2))" "\<not> is_space (hd (rev t))" "list_all is_space (rev w2)"
    using assms(2-4) by (simp_all add: hd_rev)
  then have "dropWhile is_space (w1 @ t @ w2) = t @ w2" "dropWhile is_space (rev w2 @ rev t) = rev t"
    using assms(1,4) d [of w1 "t @ w2"] d [of "rev w2" "rev t"] by simp_all
  then show ?thesis by (simp add: TrimSpace_def)
qed

lemma b64_text_padding:
  "b64_text k = filter (\<lambda>c. c \<noteq> CHR ''='') (b64_text k) @ replicate ((3 - length k mod 3) mod 3) (CHR ''='')"
proof (induction k rule: b64_text.induct)
  case (4 a b c r)
  have "length (a # b # c # r) mod 3 = length r mod 3" by simp
  then show ?case using 4 by (simp add: alphabet_char u8_groups del: length_Cons list.size)
qed (simp_all add: alphabet_char u8_groups numeral_2_eq_2)

lemma plain_no_url: "\<forall>c\<in>set s. plain_char c \<Longrightarrow> replace_char (CHR ''_'') (CHR ''/'') (replace_char (CHR ''-'') (CHR ''+'') s) = s"
  unfolding replace_char_def map_map by (rule map_idI) (simp add: plain_char_def)

lemma url_safe_back: "\<forall>c\<in>set s. plain_char c \<Longrightarrow> replace_char (CHR ''_'') (CHR ''/'') (replace_char (CHR ''-'') (CHR ''+'') (url_safe s)) = s"
  unfolding replace_char_def url_safe_def map_map by (rule map_idI) (simp add: plain_char_def)

lemma url_safe_no_space: "\<forall>c\<in>set s. \<not> is_space c \<Longrightarrow> \<forall>c\<in>set (url_safe s). \<not> is_space c"
proof
  fix c assume a: "\<forall>c\<in>set s. \<not> is_space c" and "c \<in> set (url_safe s)"
  then obtain x where "x \<in> set s" "c \<in> {x, CHR ''-'', CHR ''_''}" by (auto simp: url_safe_def replace_char_def split: if_splits)
  moreover have "\<not> is_space (CHR ''_'')" "\<not> is_space (CHR ''-'')" by (simp_all add: is_space_def)
  ultimately show "\<not> is_space c" using a by blast
qed

lemma length_url_safe [simp]: "length (url_safe s) = length s" by (simp add: url_safe_def replace_char_def)

lemma keyToHex_text:
  assumes "length k = 32" "key_text k s"
  shows "keyToHex s = Some (EncodeToString k)"
proof -
  define u v where "u = b64_text k" and "v = filter (\<lambda>c. c \<noteq> CHR ''='') u"
  obtain w1 t w2 where s: "s = w1 @ t @ w2" "list_all is_space w1" "list_all is_space w2" and t: "t \<in> {u, v, url_safe u, url_safe v}"
    using assms(2) unfolding key_text_def Let_def u_def v_def by blast
  have uv: "u = v @ [CHR ''='']" using b64_text_padding [of k] assms(1) by (simp add: u_def v_def)
  have p: "\<forall>c\<in>set u. plain_char c" "\<forall>c\<in>set v. plain_char c" using b64_text_plain [of _ k] by (auto simp: u_def v_def)
  have l: "length u mod 4 = 0" "length v mod 4 = 3"
    using length_b64_text [of k] uv by (simp_all add: u_def [symmetric]) presburger
  have "length t = length u \<or> length t = length v" using t by auto
  then have "t \<noteq> []" using l(2) uv by auto
  moreover have "\<forall>c\<in>set t. \<not> is_space c"
  proof -
    have n: "\<forall>c\<in>set u. \<not> is_space c" "\<forall>c\<in>set v. \<not> is_space c" using p by (simp_all add: plain_char_def)
    show ?thesis using t n url_safe_no_space [OF n(1)] url_safe_no_space [OF n(2)] by blast
  qed
  ultimately have t_ok: "\<forall>c\<in>set t. \<not> is_space c" "t \<noteq> []" by blast+
  have r: "replace_char (CHR ''_'') (CHR ''/'') (replace_char (CHR ''-'') (CHR ''+'') t) \<in> {u, v}"
    using t plain_no_url url_safe_back p by auto
  have "x @ replicate ((4 - length x mod 4) mod 4) (CHR ''='') = u" if "x \<in> {u, v}" for x using that l uv by auto
  then have "(let x = replace_char (CHR ''_'') (CHR ''/'') (replace_char (CHR ''-'') (CHR ''+'') t)
      in x @ replicate ((4 - length x mod 4) mod 4) (CHR ''='')) = u" using r by (simp add: Let_def)
  moreover have "b64_DecodeString u = Some k"
  proof -
    have "filter (\<lambda>c. c \<noteq> CHR 0x0A \<and> c \<noteq> CHR 0x0D) u = u" using p(1) by (intro filter_True) (auto simp: plain_char_def)
    then show ?thesis by (simp add: b64_DecodeString_def b64_quanta_text u_def)
  qed
  moreover have "TrimSpace s = t" using TrimSpace_pad [OF s(2,3) t_ok] s(1) by simp
  ultimately show ?thesis using assms(1) by (simp add: keyToHex_def Let_def)
qed

section \<open>The first packets\<close>

lemma length_TrimSpace: "length (TrimSpace s) \<le> length s"
  unfolding TrimSpace_def length_rev
  by (rule order_trans [OF length_dropWhile_le]) (simp add: length_dropWhile_le)

lemma length_dns_labels: "length (concat (map dns_label (Split_char x s))) \<le> length s + 1"
proof -
  have l: "length (dns_label u) \<le> length u + 1" for u by (simp add: dns_label_def str_bytes_def)
  have s: "Split_char x s \<noteq> []" for s by (induction s) (auto split: list.splits)
  have e: "sum_list (map (\<lambda>u. length u + 1) (Split_char x s)) = length s + 1"
  proof (induction s)
    case (Cons a s)
    then show ?case using s [of s] by (cases "Split_char x s") auto
  qed simp
  have "length (concat (map dns_label us)) \<le> sum_list (map (\<lambda>u. length u + 1) us)" for us
  proof (induction us)
    case (Cons a us)
    then show ?case using l [of a] by simp
  qed simp
  then show ?thesis using e by (metis)
qed

lemma length_i1_packet: "length sni \<le> 10000 \<Longrightarrow> length (i1_packet rnd kind sni) \<le> 32000"
proof -
  assume a: "length sni \<le> 10000"
  have t: "length (Trim_char x sni) \<le> length sni" for x
    unfolding Trim_char_def length_rev by (rule order_trans [OF length_dropWhile_le]) (simp add: length_dropWhile_le)
  have "length (dnsQuery rnd sni) \<le> 32000"
    using length_dns_labels [of "CHR ''.''" "Trim_char (CHR ''.'') sni"] t [of "CHR ''.''"] a
    unfolding dnsQuery_def rand_read_def length_append length_map by simp
  moreover have "length (sipOptions rnd sni) \<le> 32000" using a by (simp add: sipOptions_def str_bytes_def crlf_def rand_read_def Let_def)
  moreover have "length (stunBinding rnd) = 20" by (simp add: stunBinding_def rand_read_def put16_def put32_def)
  moreover have "length (quicInitial rnd sni) \<le> 1200" by (simp add: quicInitial_def Let_def)
  ultimately show ?thesis by (simp add: i1_packet_def)
qed

lemma opening_packet_length: "length (I1Sni c) \<le> 10000 \<Longrightarrow> length (opening_packet rnd c) \<le> 32000"
  unfolding opening_packet_def default_to_def
  by (intro length_i1_packet) (use length_TrimSpace [of "I1Sni c"] in auto)

lemma ipacket_bytes: "length pkt \<le> 32000 \<Longrightarrow> ipacket rnd unix (i1_chain pkt) = Some pkt"
  by (simp add: ipacket_def i1_chain_def chain_ObfuscatedLen_def make_bytes_def chain_Obfuscate_def go_slice_def overwrite_def i64_id)

lemma client_batch:
  assumes "length (opening_packet rnd c) \<le> 32000"
  shows "handshake_batch ks fr rndI rndJ rnd' unix (client_obf rnd c True) w body =
    Some ((if opening_packet rnd c = [] then [] else [opening_packet rnd c]) @ JunkPackets fr rndJ (client_obf rnd c True) @
      [initiation_datagram ks fr rnd' (client_obf rnd c True) w body])"
proof -
  have "dv_ipackets (client_obf rnd c True) =
      (if opening_packet rnd c = [] then None else Some (i1_chain (opening_packet rnd c))) # replicate 4 None"
    by (simp add: client_obf_def default_device_def Let_def numeral_eq_Suc)
  then show ?thesis using assms by (simp add: handshake_batch_def ipacket_bytes numeral_eq_Suc)
qed

lemma client_junk:
  assumes "numbers_ok c" "0 < Jc c \<longrightarrow> Jmin c \<le> Jmax c" "fastrandn_ok fr"
  shows "length (JunkPackets fr rndJ (client_obf rnd c True)) = nat (Jc c)"
    and "j \<in> set (JunkPackets fr rndJ (client_obf rnd c True)) \<Longrightarrow> Jmin c \<le> int (length j) \<and> int (length j) \<le> Jmax c"
proof -
  let ?j = "dv_junk (client_obf rnd c True)"
  have none: "unat (jc_count ?j) = 0" if "\<not> 0 < Jc c" using that by (simp add: client_obf_def default_device_def Let_def)
  have some: "uint (jc_count ?j) = Jc c" "uint (jc_min ?j) = Jmin c" "uint (jc_max ?j) = Jmax c" if "0 < Jc c"
    using that assms(1) by (simp_all add: client_obf_def numbers_ok_def Let_def unsigned_of_int take_bit_int_eq_self)
  show "length (JunkPackets fr rndJ (client_obf rnd c True)) = nat (Jc c)"
  proof -
    have "unat (jc_count ?j) = nat (uint (jc_count ?j))" by (rule unat_eq_nat_uint)
    then have "unat (jc_count ?j) = nat (Jc c)" using none some(1) by (cases "0 < Jc c") auto
    then show ?thesis by (simp add: JunkPackets_def Let_def)
  qed
  show "Jmin c \<le> int (length j) \<and> int (length j) \<le> Jmax c" if "j \<in> set (JunkPackets fr rndJ (client_obf rnd c True))"
  proof -
    have p: "0 < Jc c"
    proof (rule ccontr)
      assume "\<not> 0 < Jc c"
      then have "JunkPackets fr rndJ (client_obf rnd c True) = []" using none by (simp add: JunkPackets_def Let_def)
      then show False using that by simp
    qed
    let ?n = "jc_max ?j - jc_min ?j"
    have le: "jc_min ?j \<le> jc_max ?j" using some(2,3) [OF p] assms(2) p by (simp add: word_le_def)
    have n: "uint ?n = Jmax c - Jmin c" using some(2,3) [OF p] le by (simp add: uint_minus_simple_alt [THEN iffD1])
    have f: "uint (fr ?n) \<le> uint ?n"
    proof (cases "?n = 0")
      case True
      then show ?thesis using assms(3) by (simp add: fastrandn_ok_def)
    next
      case False
      then have "fr ?n < ?n" using assms(3) by (simp add: fastrandn_ok_def)
      then show ?thesis by (simp add: word_less_def)
    qed
    have "uint (jc_min ?j + fr ?n) = Jmin c + uint (fr ?n)"
      using f n some(2,3) [OF p] assms(1) p uint_lt2p [of "jc_max ?j"] uint_ge_0 [of "fr ?n"]
      by (simp add: uint_plus_if_size word_size numbers_ok_def)
    moreover have "length j = unat (jc_min ?j + fr ?n)" using that by (auto simp: JunkPackets_def Let_def rand_bytes_def)
    moreover have "0 \<le> Jmin c" using some(2) [OF p] uint_ge_0 [of "jc_min ?j"] by simp
    ultimately show ?thesis using f n uint_ge_0 [of "fr ?n"] by (simp add: unat_eq_nat_uint)
  qed
qed

section \<open>A parsed configuration\<close>

lemma parseConfig_spec:
  assumes "parseConfig c0 = Some c"
  shows "PrivateKey c = PrivateKey c0" "PeerPublicKey c = PeerPublicKey c0" "Endpoint c = Endpoint c0" "Jc c = Jc c0" "Jmin c = Jmin c0"
    "Jmax c = max (Jmin c0) (Jmax c0)" "I1 c = I1 c0" "I1Sni c = I1Sni c0" "Address c \<noteq> []" "0 \<le> SocksPort c \<and> SocksPort c \<le> 65535"
    "Hop c \<Longrightarrow> InnerPrivateKey c \<noteq> [] \<and> InnerPeerPublicKey c \<noteq> [] \<and> InnerAddress c \<noteq> []"
proof -
  let ?c = "with_limits (with_defaults c0)"
  have d: "with_hop ?c = Some c" "0 \<le> SocksPort c0 \<and> SocksPort c0 \<le> 65535" using assms by (auto simp: parseConfig_def split: if_splits)
  have l: "PrivateKey ?c = PrivateKey c0" "PeerPublicKey ?c = PeerPublicKey c0" "Endpoint ?c = Endpoint c0" "Jc ?c = Jc c0" "Jmin ?c = Jmin c0"
    "Jmax ?c = max (Jmin c0) (Jmax c0)" "I1 ?c = I1 c0" "I1Sni ?c = I1Sni c0" "Address ?c \<noteq> []" "SocksPort ?c = SocksPort c0"
    by (simp_all add: with_limits_def with_defaults_def default_to_def Let_def)
  have h: "PrivateKey c = PrivateKey ?c" "PeerPublicKey c = PeerPublicKey ?c" "Endpoint c = Endpoint ?c" "Jc c = Jc ?c" "Jmin c = Jmin ?c"
    "Jmax c = Jmax ?c" "I1 c = I1 ?c" "I1Sni c = I1Sni ?c" "Address c = Address ?c" "SocksPort c = SocksPort ?c"
    "Hop c \<Longrightarrow> InnerPrivateKey c \<noteq> [] \<and> InnerPeerPublicKey c \<noteq> [] \<and> InnerAddress c \<noteq> []" if "with_hop ?c = Some c" for c
    using that by (auto simp: with_hop_def default_to_def Let_def split: if_splits)
  from h [OF d(1)] l d(2) show "PrivateKey c = PrivateKey c0" "PeerPublicKey c = PeerPublicKey c0" "Endpoint c = Endpoint c0" "Jc c = Jc c0"
    "Jmin c = Jmin c0" "Jmax c = max (Jmin c0) (Jmax c0)" "I1 c = I1 c0" "I1Sni c = I1Sni c0" "Address c \<noteq> []" "0 \<le> SocksPort c \<and> SocksPort c \<le> 65535"
    "Hop c \<Longrightarrow> InnerPrivateKey c \<noteq> [] \<and> InnerPeerPublicKey c \<noteq> [] \<and> InnerAddress c \<noteq> []" by simp_all
qed

lemma client_device_up:
  fixes b :: "'e bind_ops"
  assumes "Up b (client_device rnd pub dh c spoof sk pk e) = (True, d)"
  shows "isUp d \<and> pr_isRunning (wg_peers d ! 0)"
proof -
  let ?d = "client_device rnd pub dh c spoof sk pk e"
  define d0 where "d0 = ?d\<lparr>wg_state := deviceStateUp\<rparr>"
  have k: "wg_keyMap d0 = [(pk, 0)]" "length (wg_peers d0) = 1" "isUp d0"
    by (simp_all add: d0_def client_device_def peered_device_def isUp_def)
  have "wg_state ?d = deviceStateDown" by (simp add: client_device_def peered_device_def keyed_device_def NewDevice_def)
  then have u: "upLocked b d0 = (True, d)"
    using assms by (auto simp: Up_def changeState_def isClosed_def d0_def Let_def split: prod.splits if_splits)
  obtain ok d1 where b: "BindUpdate b d0 = (ok, d1)" by fastforce
  then have f: "frame d0 d1" using frame_BindUpdate [of d0 b] by simp
  then have d1: "wg_keyMap d1 = [(pk, 0)]" "length (wg_peers d1) = 1" "isUp d1"
    using k map_eq_imp_length_eq [of pr_remoteStatic "wg_peers d1" pr_remoteStatic "wg_peers d0"] by (simp_all add: frame_defs isUp_def)
  have "d = start_peer 0 d1" using u b d1(1) by (simp add: upLocked_def split: if_splits)
  then show ?thesis using d1(2,3)
    by (auto simp: start_peer_def Peer_Start_def peer_call_def upd_peer_def isUp_def isClosed_def Let_def)
qed


text \<open>A configuration with a STUN packet and three junk packets; one key is URL-safe and unpadded, with a space before it.\<close>

definition sample_config :: socksConfig where
  "sample_config = \<lparr>PrivateKey = b64_text (replicate 32 17),
     PeerPublicKey = '' '' @ url_safe (filter (\<lambda>c. c \<noteq> CHR ''='') (b64_text (replicate 32 251))),
     Address = [], Endpoint = ''162.159.192.1:2408'', DNS = [], Jc = 3, Jmin = 40, Jmax = 70, I1 = ''stun'', I1Sni = [], Bind = [], SocksPort = 0,
     Hop = False, HopShield = False, InnerPrivateKey = [], InnerPeerPublicKey = [], InnerAddress = [], InnerEndpoint = [], InnerEndpoints = [],
     ApplyPolicy = False, BlockAds = False, BlockAdult = False, SafeSearch = False, BypassLocal = False, BlockQuic = False, SafeSearchVIP = [],
     AdExact = [], AdSuffix = [], AdultExact = [], AdultSuffix = [], LocalSuffix = [], SafeSearchExact = [], DoHExact = [], DoHSuffix = []\<rparr>"

definition sample_bind :: "unit bind_ops" where "sample_bind = bind_stub\<lparr>bind_ParseEndpoint := (\<lambda>_. Some ())\<rparr>"

lemma sample_keys: "key_text (replicate 32 17) (PrivateKey sample_config)" "key_text (replicate 32 251) (PeerPublicKey sample_config)"
proof -
  show "key_text (replicate 32 17) (PrivateKey sample_config)"
    unfolding key_text_def sample_config_def Let_def by (rule exI [of _ "[]"], rule exI [of _ "b64_text (replicate 32 17)"], rule exI [of _ "[]"]) simp
  show "key_text (replicate 32 251) (PeerPublicKey sample_config)"
    unfolding key_text_def sample_config_def Let_def
    by (rule exI [of _ "'' ''"], rule exI [of _ "url_safe (filter (\<lambda>c. c \<noteq> CHR ''='') (b64_text (replicate 32 251)))"], rule exI [of _ "[]"])
      (simp add: is_space_def)
qed

lemma key_text_nonempty: "length k = 32 \<Longrightarrow> key_text k s \<Longrightarrow> s \<noteq> []"
  using keyToHex_text [of k s] by (auto simp: keyToHex_def TrimSpace_def b64_DecodeString_def replace_char_def)


end
