(* ===== verification/Ray_Engine.thy ===== *)
theory Ray_Engine
  imports Ray_Request
begin

text \<open>
  The tunnels of the client in \<^verbatim>\<open>awg-ios/cmd/persianray\<close>: opening, closing and replacing them (\<^verbatim>\<open>engine.go\<close>), the second hop inside
  the first (\<^verbatim>\<open>hop.go\<close>), its socket (\<^verbatim>\<open>hopbind.go\<close>) and the probes (\<^verbatim>\<open>ping.go\<close>). Devices and listeners are numbered in the
  order they are made; the network stack of a device has its number. What the network answers is an argument.
\<close>

section \<open>Addresses\<close>

text \<open>\<^verbatim>\<open>netip.Addr\<close> is its bytes and its zone; \<^verbatim>\<open>netip.ParseAddr\<close>.\<close>

type_synonym netip_addr = "bytes \<times> string"

definition netip_ParseAddr :: "string \<Rightarrow> netip_addr option" where
  "netip_ParseAddr s =
     (case cut_at (CHR ''%'') s of
        None \<Rightarrow> map_option (\<lambda>a. (a, [])) (ParseAddr s)
      | Some (front, zone) \<Rightarrow>
          (case ParseAddr front of Some a \<Rightarrow> if length a = 16 \<and> zone \<noteq> [] then Some (a, zone) else None | None \<Rightarrow> None))"

definition parseAddr :: "string \<Rightarrow> netip_addr option" where
  "parseAddr cidr =
     (let s = TrimSpace cidr in netip_ParseAddr (case cut_at (CHR ''/'') s of Some (front, _) \<Rightarrow> front | None \<Rightarrow> s))"

definition TrimSuffix :: "string \<Rightarrow> string \<Rightarrow> string" where
  "TrimSuffix s suf = (if length suf \<le> length s \<and> drop (length s - length suf) s = suf then take (length s - length suf) s else s)"

text \<open>\<^verbatim>\<open>filterSame24\<close> keeps the endpoints outside the /24 of the outer endpoint.\<close>

definition outer_host :: "string \<Rightarrow> string" where
  "outer_host outerEP =
     (case SplitHostPort (normalizeEndpoint outerEP) of
        Some (h, _) \<Rightarrow> h
      | None \<Rightarrow>
          let oh = TrimSpace (TrimSuffix outerEP '':2408'') in
          case cut_at (CHR '':'') (rev outerEP) of
            Some (_, rfront) \<Rightarrow> if rfront \<noteq> [] \<and> ParseAddr (rev rfront) \<noteq> None then rev rfront else oh
          | None \<Rightarrow> oh)"

definition same24 :: "bytes \<Rightarrow> string \<Rightarrow> bool" where
  "same24 o4 h =
     (case SplitHostPort h of
        None \<Rightarrow> False
      | Some (host, _) \<Rightarrow> (case netip_ParseAddr host of Some (a, _) \<Rightarrow> length a = 4 \<and> take 3 a = take 3 o4 | None \<Rightarrow> False))"

definition filterSame24 :: "string list \<Rightarrow> string \<Rightarrow> string list" where
  "filterSame24 hosts outerEP =
     (case netip_ParseAddr (outer_host outerEP) of
        Some (o4, _) \<Rightarrow> if length o4 = 4 then filter (\<lambda>h. \<not> same24 o4 h) hosts else hosts
      | None \<Rightarrow> hosts)"

section \<open>The socket of the inner hop\<close>

text \<open>
  \<^verbatim>\<open>hopBind\<close>: an endpoint is an address and a port. \<open>listen\<close> is what \<^verbatim>\<open>ListenUDPAddrPort\<close> answers with the port of the new
  socket, \<open>lookup\<close> what the resolver of the outer stack answers.
\<close>

type_synonym hopEndpoint = "netip_addr \<times> u16"

record hopBind =
  hb_pc :: "u16 option"
  hb_closed :: bool

datatype bind_error = ErrBindAlreadyOpen | ErrClosed | ErrListen | ErrRead | ErrWrite

definition hopBind_Open :: "(u16 \<Rightarrow> u16 option) \<Rightarrow> u16 \<Rightarrow> hopBind \<Rightarrow> (bind_error + u16) \<times> hopBind" where
  "hopBind_Open listen port hb =
     (if hb_pc hb \<noteq> None then (Inl ErrBindAlreadyOpen, hb)
      else case listen port of
        None \<Rightarrow> (Inl ErrListen, hb)
      | Some actual \<Rightarrow> (Inr actual, hb\<lparr>hb_pc := Some actual, hb_closed := False\<rparr>))"

definition hopBind_Close :: "bool \<Rightarrow> hopBind \<Rightarrow> bool \<times> hopBind" where
  "hopBind_Close ok hb = (if hb_pc hb \<noteq> None then ok else True, hb\<lparr>hb_closed := True, hb_pc := None\<rparr>)"

definition Unmap :: "bytes \<Rightarrow> bytes" where
  "Unmap a = (if length a = 16 \<and> take 12 a = replicate 10 0 @ [255, 255] then drop 12 a else a)"

definition hopBind_ParseEndpoint :: "(string \<Rightarrow> string list option) \<Rightarrow> string \<Rightarrow> hopEndpoint option" where
  "hopBind_ParseEndpoint lookup s = do {
     let (host, portStr) = (case SplitHostPort s of Some hp \<Rightarrow> hp | None \<Rightarrow> (s, ''2408''));
     port \<leftarrow> Atoi portStr;
     case ParseAddr host of
       Some ip \<Rightarrow> Some ((Unmap ip, []), of_int port)
     | None \<Rightarrow>
         (case lookup host of
            Some (a # _) \<Rightarrow> map_option (\<lambda>(ip, zone). ((Unmap ip, if Unmap ip = ip then zone else []), of_int port)) (netip_ParseAddr a)
          | _ \<Rightarrow> None) }"

text \<open>\<^verbatim>\<open>Send\<close> writes until a write fails; \<^verbatim>\<open>receive\<close> takes what the socket has read.\<close>

fun hopBind_write :: "(bytes \<Rightarrow> bool) \<Rightarrow> bytes list \<Rightarrow> bytes list \<times> bind_error option" where
  "hopBind_write ok [] = ([], None)"
| "hopBind_write ok (buf # bufs) =
     (if \<not> ok buf then ([], Some ErrWrite) else let (sent, e) = hopBind_write ok bufs in (buf # sent, e))"

definition hopBind_Send :: "(bytes \<Rightarrow> bool) \<Rightarrow> bytes list \<Rightarrow> hopBind \<Rightarrow> bytes list \<times> bind_error option" where
  "hopBind_Send ok bufs hb = (if hb_pc hb = None then ([], Some ErrClosed) else hopBind_write ok bufs)"

definition hopBind_receive :: "(bytes \<times> bytes \<times> u16) option \<Rightarrow> hopBind \<Rightarrow> bind_error + (bytes \<times> hopEndpoint option)" where
  "hopBind_receive packet hb =
     (if hb_pc hb = None \<or> hb_closed hb then Inl ErrClosed
      else case packet of
        None \<Rightarrow> Inl ErrRead
      | Some (data, ip, port) \<Rightarrow> Inr (data, if length ip = 4 \<or> length ip = 16 then Some ((Unmap ip, []), port) else None))"

text \<open>The operations the inner device calls; \<^verbatim>\<open>BindUpdate\<close> closes before it opens.\<close>

definition hop_bind_ops :: "(u16 \<Rightarrow> u16 option) \<Rightarrow> (string \<Rightarrow> string list option) \<Rightarrow> bool \<Rightarrow> hopEndpoint bind_ops" where
  "hop_bind_ops listen lookup closeOk =
     \<lparr>bind_ParseEndpoint = hopBind_ParseEndpoint lookup, bind_Open = listen, bind_Close = closeOk, bind_SetMark = (\<lambda>_. True),
      bind_RouteListener = True\<rparr>"

section \<open>Tunnels\<close>

record tunnel =
  tn_outerDev :: "nat option"
  tn_innerDev :: "nat option"
  tn_outerNet :: nat
  tn_innerNet :: "nat option"
  tn_outerLocal :: netip_addr
  tn_innerLocal :: netip_addr
  tn_ln :: "nat option"
  tn_port :: nat
  tn_cfg :: socksConfig

record engine =
  en_devs :: "hopEndpoint Device list"
  en_lns :: "bool list"
  en_live :: "tunnel option"

definition no_engine :: engine where "no_engine = \<lparr>en_devs = [], en_lns = [], en_live = None\<rparr>"

record hopEgress =
  eg_IP :: string
  eg_Country :: string

text \<open>What the system and the network answer during one call; a number is that of the device.\<close>

record world =
  w_rnd :: "nat \<Rightarrow> nat \<Rightarrow> u8"
  w_tun :: "nat \<Rightarrow> netip_addr \<Rightarrow> netip_addr \<Rightarrow> bool"
  w_bind :: "nat \<Rightarrow> hopEndpoint bind_ops"
  w_hop_listen :: "nat \<Rightarrow> u16 \<Rightarrow> u16 option"
  w_lookup :: "nat \<Rightarrow> string \<Rightarrow> string list option"
  w_hop_close :: "nat \<Rightarrow> bool"
  w_listen :: "string \<Rightarrow> nat option"
  w_first :: "hopEgress option"
  w_egress :: "nat \<Rightarrow> hopEgress option"
  w_probe :: "int option"

definition socksTarget :: "tunnel \<Rightarrow> nat \<times> netip_addr" where
  "socksTarget t = (case tn_innerNet t of Some n \<Rightarrow> (n, tn_innerLocal t) | None \<Rightarrow> (tn_outerNet t, tn_outerLocal t))"

definition set_dev :: "nat \<Rightarrow> hopEndpoint Device \<Rightarrow> engine \<Rightarrow> engine" where
  "set_dev n d en = en\<lparr>en_devs := (en_devs en)[n := d]\<rparr>"

definition close_dev :: "hopEndpoint bind_ops \<Rightarrow> nat \<Rightarrow> engine \<Rightarrow> engine option" where
  "close_dev b n en = map_option (\<lambda>d. set_dev n d en) (Device_Close b (en_devs en ! n))"

definition dns_addr :: "socksConfig \<Rightarrow> netip_addr" where
  "dns_addr cfg = (case netip_ParseAddr (DNS cfg) of Some a \<Rightarrow> a | None \<Rightarrow> ([1, 1, 1, 1], []))"

text \<open>\<^verbatim>\<open>IpcSet\<close> and \<^verbatim>\<open>Up\<close> on a new device, which is closed when one of them fails.\<close>

definition start_dev ::
  "(bytes \<Rightarrow> bytes) \<Rightarrow> (bytes \<Rightarrow> bytes \<Rightarrow> bytes) \<Rightarrow> hopEndpoint bind_ops \<Rightarrow> nat \<Rightarrow> string \<Rightarrow> engine \<Rightarrow> (bool \<times> engine) option" where
  "start_dev pub dh b n conf en = do {
     (e, d) \<leftarrow> IpcSet pub dh b conf (en_devs en ! n);
     if e \<noteq> None then map_option (Pair False) (close_dev b n (set_dev n d en))
     else let (ok, d) = Up b d in
       if \<not> ok then map_option (Pair False) (close_dev b n (set_dev n d en))
       else Some (True, set_dev n d en) }"

definition hop_bind :: "world \<Rightarrow> nat \<Rightarrow> nat \<Rightarrow> hopEndpoint bind_ops" where
  "hop_bind w outer n = hop_bind_ops (w_hop_listen w n) (w_lookup w outer) (w_hop_close w n)"

definition replaceInner ::
  "(bytes \<Rightarrow> bytes) \<Rightarrow> (bytes \<Rightarrow> bytes \<Rightarrow> bytes) \<Rightarrow> world \<Rightarrow> socksConfig \<Rightarrow> string \<Rightarrow> tunnel \<Rightarrow> engine \<Rightarrow> (bool \<times> tunnel \<times> engine) option" where
  "replaceInner pub dh w cfg endpoint t en = do {
     (t, en) \<leftarrow> (case tn_innerDev t of
        None \<Rightarrow> Some (t, en)
      | Some n \<Rightarrow> map_option (Pair (t\<lparr>tn_innerDev := None, tn_innerNet := None\<rparr>)) (close_dev (hop_bind w (tn_outerNet t) n) n en));
     case parseAddr (InnerAddress cfg) of
       None \<Rightarrow> Some (False, t, en)
     | Some innerLocal \<Rightarrow>
         let n = length (en_devs en); b = hop_bind w (tn_outerNet t) n in
         if \<not> w_tun w n innerLocal (dns_addr cfg) then Some (False, t, en)
         else
           let en = en\<lparr>en_devs := en_devs en @ [NewDevice]\<rparr> in
           (case innerUAPI (w_rnd w) cfg endpoint of
              None \<Rightarrow> map_option (\<lambda>en. (False, t, en)) (close_dev b n en)
            | Some conf \<Rightarrow> do {
                (ok, en) \<leftarrow> start_dev pub dh b n conf en;
                Some (if ok then (True, t\<lparr>tn_innerDev := Some n, tn_innerNet := Some n, tn_innerLocal := innerLocal\<rparr>, en) else (False, t, en)) }) }"

definition ToUpper :: "string \<Rightarrow> string" where
  "ToUpper s = map (\<lambda>c. let n = (of_char c :: nat) in if 97 \<le> n \<and> n \<le> 122 then char_of (n - 32) else c) s"

definition hopExitsDiffer :: "hopEgress \<Rightarrow> hopEgress \<Rightarrow> bool" where
  "hopExitsDiffer a b =
     (let ac = ToUpper (TrimSpace (eg_Country a)); bc = ToUpper (TrimSpace (eg_Country b)) in
      if ac \<noteq> [] \<and> bc \<noteq> [] then ac \<noteq> bc
      else eg_IP a \<noteq> [] \<and> eg_IP b \<noteq> [] \<and> eg_IP a \<noteq> eg_IP b)"

text \<open>The loop over the candidates, with the egress of the outer tunnel.\<close>

fun hop_loop ::
  "(bytes \<Rightarrow> bytes) \<Rightarrow> (bytes \<Rightarrow> bytes \<Rightarrow> bytes) \<Rightarrow> world \<Rightarrow> socksConfig \<Rightarrow> hopEgress \<Rightarrow> string list \<Rightarrow> tunnel \<Rightarrow> engine \<Rightarrow>
   (bool \<times> tunnel \<times> engine) option" where
  "hop_loop pub dh w cfg first [] t en = Some (tn_innerDev t \<noteq> None, t, en)"
| "hop_loop pub dh w cfg first (ep # rest) t en = do {
     (ok, t, en) \<leftarrow> replaceInner pub dh w cfg ep t en;
     if \<not> ok then hop_loop pub dh w cfg first rest t en
     else if \<not> HopShield cfg then Some (True, t, en)
     else case tn_innerNet t \<bind> w_egress w of
       None \<Rightarrow> if rest = [] then Some (True, t, en) else hop_loop pub dh w cfg first rest t en
     | Some second \<Rightarrow>
         if hopExitsDiffer first second \<or> rest = [] then Some (True, t, en) else hop_loop pub dh w cfg first rest t en }"

definition hop_hosts :: "socksConfig \<Rightarrow> string list" where
  "hop_hosts cfg =
     (let hosts = filterSame24 (hopInnerHosts cfg) (Endpoint cfg);
          hosts = (if hosts = [] then [''188.114.97.170:2408''] else hosts)
      in if \<not> HopShield cfg then take 1 hosts else take 4 hosts)"

definition startHop ::
  "(bytes \<Rightarrow> bytes) \<Rightarrow> (bytes \<Rightarrow> bytes \<Rightarrow> bytes) \<Rightarrow> world \<Rightarrow> socksConfig \<Rightarrow> tunnel \<Rightarrow> engine \<Rightarrow> (bool \<times> tunnel \<times> engine) option" where
  "startHop pub dh w cfg t en =
     (let first = (case w_first w of Some eg \<Rightarrow> if HopShield cfg then eg else \<lparr>eg_IP = [], eg_Country = []\<rparr> | None \<Rightarrow> \<lparr>eg_IP = [], eg_Country = []\<rparr>)
      in hop_loop pub dh w cfg first (hop_hosts cfg) t en)"

text \<open>\<^verbatim>\<open>close\<close> leaves the object without its devices; the caller drops it.\<close>

definition close_opt :: "(nat \<Rightarrow> hopEndpoint bind_ops) \<Rightarrow> nat option \<Rightarrow> engine \<Rightarrow> engine option" where
  "close_opt b dev en = (case dev of None \<Rightarrow> Some en | Some n \<Rightarrow> close_dev (b n) n en)"

definition close_listener :: "nat option \<Rightarrow> engine \<Rightarrow> engine" where
  "close_listener ln en = (case ln of None \<Rightarrow> en | Some k \<Rightarrow> en\<lparr>en_lns := (en_lns en)[k := False]\<rparr>)"

definition tunnel_close :: "world \<Rightarrow> tunnel \<Rightarrow> engine \<Rightarrow> engine option" where
  "tunnel_close w t en = do {
     en \<leftarrow> close_opt (hop_bind w (tn_outerNet t)) (tn_innerDev t) (close_listener (tn_ln t) en);
     close_opt (w_bind w) (tn_outerDev t) en }"

text \<open>\<^verbatim>\<open>openTunnel\<close>: the tunnel, or \<open>None\<close> for an error.\<close>

definition tunnel_listen :: "world \<Rightarrow> socksConfig \<Rightarrow> tunnel \<Rightarrow> engine \<Rightarrow> (tunnel option \<times> engine) option" where
  "tunnel_listen w cfg t en =
     (case w_listen w (JoinHostPort (Bind cfg) (show_int (SocksPort cfg))) of
        None \<Rightarrow> map_option (Pair None) (tunnel_close w t en)
      | Some port \<Rightarrow> Some (Some (t\<lparr>tn_ln := Some (length (en_lns en)), tn_port := port\<rparr>), en\<lparr>en_lns := en_lns en @ [True]\<rparr>))"

definition openTunnel ::
  "(bytes \<Rightarrow> bytes) \<Rightarrow> (bytes \<Rightarrow> bytes \<Rightarrow> bytes) \<Rightarrow> world \<Rightarrow> socksConfig \<Rightarrow> engine \<Rightarrow> (tunnel option \<times> engine) option" where
  "openTunnel pub dh w cfg en =
     (case (uapi (w_rnd w) cfg, parseAddr (Address cfg)) of
        (Some conf, Some loc) \<Rightarrow>
          let n = length (en_devs en) in
          if \<not> w_tun w n loc (dns_addr cfg) then Some (None, en)
          else do {
            (ok, en) \<leftarrow> start_dev pub dh (w_bind w n) n conf (en\<lparr>en_devs := en_devs en @ [NewDevice]\<rparr>);
            if \<not> ok then Some (None, en)
            else
              let t = \<lparr>tn_outerDev = Some n, tn_innerDev = None, tn_outerNet = n, tn_innerNet = None, tn_outerLocal = loc,
                       tn_innerLocal = ([], []), tn_ln = None, tn_port = 0, tn_cfg = cfg\<rparr>
              in if Hop cfg then do {
                   (ok, t, en) \<leftarrow> startHop pub dh w cfg t en;
                   if \<not> ok then map_option (Pair None) (tunnel_close w t en) else tunnel_listen w cfg t en }
                 else tunnel_listen w cfg t en }
      | _ \<Rightarrow> Some (None, en))"

definition setHopInner ::
  "(bytes \<Rightarrow> bytes) \<Rightarrow> (bytes \<Rightarrow> bytes \<Rightarrow> bytes) \<Rightarrow> world \<Rightarrow> string \<Rightarrow> tunnel \<Rightarrow> engine \<Rightarrow> (bool \<times> tunnel \<times> engine) option" where
  "setHopInner pub dh w endpoint t en =
     (if \<not> Hop (tn_cfg t) then Some (False, t, en)
      else let ep = normalizeEndpoint endpoint in
        if ep = [] then Some (False, t, en) else replaceInner pub dh w (tn_cfg t) ep t en)"

section \<open>The exported operations\<close>

definition stopLive :: "world \<Rightarrow> engine \<Rightarrow> engine option" where
  "stopLive w en =
     (case en_live en of None \<Rightarrow> Some en | Some t \<Rightarrow> map_option (\<lambda>en. en\<lparr>en_live := None\<rparr>) (tunnel_close w t en))"

definition startLive :: "(bytes \<Rightarrow> bytes) \<Rightarrow> (bytes \<Rightarrow> bytes \<Rightarrow> bytes) \<Rightarrow> world \<Rightarrow> socksConfig \<Rightarrow> engine \<Rightarrow> (bool \<times> engine) option" where
  "startLive pub dh w cfg en = do {
     en \<leftarrow> stopLive w en;
     (t, en) \<leftarrow> openTunnel pub dh w cfg en;
     Some (t \<noteq> None, case t of None \<Rightarrow> en | Some t \<Rightarrow> en\<lparr>en_live := Some t\<rparr>) }"

definition setLiveHopInner :: "(bytes \<Rightarrow> bytes) \<Rightarrow> (bytes \<Rightarrow> bytes \<Rightarrow> bytes) \<Rightarrow> world \<Rightarrow> string \<Rightarrow> engine \<Rightarrow> (bool \<times> engine) option" where
  "setLiveHopInner pub dh w endpoint en =
     (case en_live en of
        None \<Rightarrow> Some (False, en)
      | Some t \<Rightarrow> do { (ok, t, en) \<leftarrow> setHopInner pub dh w endpoint t en; Some (ok, en\<lparr>en_live := Some t\<rparr>) })"

text \<open>One probe: a tunnel of its own, closed at the end; the time of the request is what the network gives.\<close>

definition pingOne ::
  "(bytes \<Rightarrow> bytes) \<Rightarrow> (bytes \<Rightarrow> bytes \<Rightarrow> bytes) \<Rightarrow> world \<Rightarrow> socksConfig \<Rightarrow> string \<Rightarrow> engine \<Rightarrow> (int option \<times> engine) option" where
  "pingOne pub dh w identity endpoint en =
     (if TrimSpace endpoint = [] then Some (None, en)
      else do {
        (t, en) \<leftarrow> openTunnel pub dh w (cloneForPing endpoint identity) en;
        case t of None \<Rightarrow> Some (None, en) | Some t \<Rightarrow> map_option (Pair (w_probe w)) (tunnel_close w t en) })"

text \<open>\<^verbatim>\<open>runPing\<close>: defaults and limits, then one result for each probe; the probes are taken one after the other.\<close>

record pingRequest =
  Parallel :: int
  TimeoutMs :: int
  ProbeHost :: string
  ProbePort :: int
  ProbePath :: string
  Identity :: socksConfig
  Probes :: "(string \<times> string) list"

definition ping_defaults :: "pingRequest \<Rightarrow> pingRequest" where
  "ping_defaults q =
     q\<lparr>Parallel := (if Parallel q < 1 then 1 else if Parallel q > 8 then 8 else Parallel q),
       TimeoutMs := (if TimeoutMs q < 250 then 8000 else TimeoutMs q),
       ProbeHost := default_to ''www.gstatic.com'' (ProbeHost q),
       ProbePort := (if ProbePort q = 0 then 80 else ProbePort q),
       ProbePath := default_to ''/generate_204'' (ProbePath q)\<rparr>"

fun ping_all ::
  "(bytes \<Rightarrow> bytes) \<Rightarrow> (bytes \<Rightarrow> bytes \<Rightarrow> bytes) \<Rightarrow> (nat \<Rightarrow> world) \<Rightarrow> nat \<Rightarrow> socksConfig \<Rightarrow> (string \<times> string) list \<Rightarrow> engine \<Rightarrow>
   ((string \<times> int option) list \<times> engine) option" where
  "ping_all pub dh ws i identity [] en = Some ([], en)"
| "ping_all pub dh ws i identity ((ID, endpoint) # ps) en = do {
     (ms, en) \<leftarrow> pingOne pub dh (ws i) identity endpoint en;
     (rs, en) \<leftarrow> ping_all pub dh ws (Suc i) identity ps en;
     Some ((ID, ms) # rs, en) }"

definition runPing ::
  "(bytes \<Rightarrow> bytes) \<Rightarrow> (bytes \<Rightarrow> bytes \<Rightarrow> bytes) \<Rightarrow> (nat \<Rightarrow> world) \<Rightarrow> pingRequest \<Rightarrow> engine \<Rightarrow> ((string \<times> int option) list option \<times> engine) option" where
  "runPing pub dh ws q0 en =
     (let q = ping_defaults q0 in
      if PrivateKey (Identity q) = [] \<or> PeerPublicKey (Identity q) = [] then Some (None, en)
      else map_option (\<lambda>(rs, en). (Some rs, en)) (ping_all pub dh ws 0 (Identity q) (Probes q) en))"

text \<open>\<^verbatim>\<open>AwgStart\<close>, \<^verbatim>\<open>AwgStop\<close>, \<^verbatim>\<open>AwgSetHopInner\<close> and \<^verbatim>\<open>AwgPing\<close>.\<close>

datatype call = AwgStart socksConfig | AwgStop | AwgSetHopInner string | AwgPing pingRequest

definition engine_step :: "(bytes \<Rightarrow> bytes) \<Rightarrow> (bytes \<Rightarrow> bytes \<Rightarrow> bytes) \<Rightarrow> (nat \<Rightarrow> world) \<times> call \<Rightarrow> engine \<Rightarrow> (bool \<times> engine) option" where
  "engine_step pub dh wc en =
     (case wc of (ws, c) \<Rightarrow>
        (case c of
           AwgStart c0 \<Rightarrow> (case parseConfig c0 of None \<Rightarrow> Some (False, en) | Some cfg \<Rightarrow> startLive pub dh (ws 0) cfg en)
         | AwgStop \<Rightarrow> map_option (Pair True) (stopLive (ws 0) en)
         | AwgSetHopInner endpoint \<Rightarrow> setLiveHopInner pub dh (ws 0) endpoint en
         | AwgPing q \<Rightarrow> map_option (map_prod (\<lambda>r. r \<noteq> None) id) (runPing pub dh ws q en)))"

fun engine_run :: "(bytes \<Rightarrow> bytes) \<Rightarrow> (bytes \<Rightarrow> bytes \<Rightarrow> bytes) \<Rightarrow> ((nat \<Rightarrow> world) \<times> call) list \<Rightarrow> engine \<Rightarrow> engine option" where
  "engine_run pub dh [] en = Some en"
| "engine_run pub dh (c # cs) en = do { (_, en) \<leftarrow> engine_step pub dh c en; engine_run pub dh cs en }"

lemma hopBind_reopen:
  "fst (hopBind_Open listen port (snd (hopBind_Close ok hb))) = (case listen port of None \<Rightarrow> Inl ErrListen | Some p \<Rightarrow> Inr p)"
  by (simp add: hopBind_Open_def hopBind_Close_def split: option.split)

text \<open>The port of an endpoint is cut to 16 bits.\<close>

lemma hop_port_wraps: "hopBind_ParseEndpoint (\<lambda>_. None) ''1.2.3.4:65537'' = Some (([1, 2, 3, 4], []), 1)"
proof -
  have "SplitHostPort ''1.2.3.4:65537'' = Some (''1.2.3.4'', ''65537'')" "ParseAddr ''1.2.3.4'' = Some [1, 2, 3, 4]" by code_simp+
  moreover have "Atoi ''65537'' = Some 65537" by (simp add: Atoi_def is_dec_def digit_value_def)
  ultimately show ?thesis by (simp add: hopBind_ParseEndpoint_def Unmap_def)
qed

text \<open>A probe does not get the defaults of \<^verbatim>\<open>parseConfigJSON\<close>: without an address it fails.\<close>

lemma ping_needs_address:
  assumes "Address identity = []"
  shows "pingOne pub dh w identity endpoint en = Some (None, en)"
proof -
  have "parseAddr [] = None" by code_simp
  moreover have "Address (cloneForPing endpoint identity) = []" using assms by (simp add: cloneForPing_def)
  ultimately have "openTunnel pub dh w (cloneForPing endpoint identity) en = Some (None, en)"
    by (cases "uapi (w_rnd w) (cloneForPing endpoint identity)") (simp_all add: openTunnel_def)
  then show ?thesis by (simp add: pingOne_def)
qed

section \<open>Devices and listeners in use\<close>

definition open_ids :: "engine \<Rightarrow> nat set" where
  "open_ids en = {n. n < length (en_devs en) \<and> \<not> isClosed (en_devs en ! n)}"

definition open_lns :: "engine \<Rightarrow> nat set" where
  "open_lns en = {k. k < length (en_lns en) \<and> en_lns en ! k}"

definition devs_inv :: "engine \<Rightarrow> bool" where "devs_inv en \<longleftrightarrow> (\<forall>d\<in>set (en_devs en). wg_inv d)"

text \<open>From \<open>en\<close> to \<open>en'\<close> only the devices in \<open>X\<close> and the listeners in \<open>Y\<close> change, and new ones may come.\<close>

definition grows :: "nat set \<Rightarrow> nat set \<Rightarrow> engine \<Rightarrow> engine \<Rightarrow> bool" where
  "grows X Y en en' \<longleftrightarrow> length (en_devs en) \<le> length (en_devs en') \<and> (\<forall>m < length (en_devs en). m \<notin> X \<longrightarrow> en_devs en' ! m = en_devs en ! m) \<and>
     length (en_lns en) \<le> length (en_lns en') \<and> (\<forall>k < length (en_lns en). k \<notin> Y \<longrightarrow> en_lns en' ! k = en_lns en ! k) \<and> en_live en' = en_live en"

lemma grows_same [simp]: "grows X Y en en" by (simp add: grows_def)

lemma grows_trans: "grows X Y en en' \<Longrightarrow> grows X' Y' en' en'' \<Longrightarrow> grows (X \<union> X') (Y \<union> Y') en en''"
  by (auto simp: grows_def)

lemma grows_mono: "grows X Y en en' \<Longrightarrow> X \<inter> {..<length (en_devs en)} \<subseteq> X' \<Longrightarrow> Y \<inter> {..<length (en_lns en)} \<subseteq> Y' \<Longrightarrow> grows X' Y' en en'"
  by (auto simp: grows_def)

lemma devs_inv_nth: "devs_inv en \<Longrightarrow> n < length (en_devs en) \<Longrightarrow> wg_inv (en_devs en ! n)"
  by (simp add: devs_inv_def)

lemma set_dev_spec:
  assumes "devs_inv en" "n < length (en_devs en)" "wg_inv d"
  shows "devs_inv (set_dev n d en)" "grows {n} {} en (set_dev n d en)" "length (en_devs (set_dev n d en)) = length (en_devs en)"
    "en_devs (set_dev n d en) ! n = d" "en_lns (set_dev n d en) = en_lns en"
    "open_ids (set_dev n d en) = (if isClosed d then open_ids en - {n} else insert n (open_ids en))"
  using assms set_update_subset_insert [of "en_devs en" n d]
  by (auto simp: set_dev_def devs_inv_def grows_def open_ids_def nth_list_update)

lemma close_dev_spec:
  assumes "devs_inv en" "n < length (en_devs en)"
  shows "\<exists>en'. close_dev b n en = Some en' \<and> devs_inv en' \<and> grows {n} {} en en' \<and> length (en_devs en') = length (en_devs en) \<and>
    en_lns en' = en_lns en \<and> open_ids en' = open_ids en - {n}"
proof -
  obtain d where "Device_Close b (en_devs en ! n) = Some d" "wg_inv d" "isClosed d" using Device_Close_inv [OF devs_inv_nth [OF assms]] by blast
  then show ?thesis using set_dev_spec [OF assms, of d] by (simp add: close_dev_def)
qed

lemma IpcSet_spec:
  assumes "wg_inv d"
  shows "\<exists>e d'. IpcSet pub dh b conf d = Some (e, d') \<and> wg_inv d' \<and> wg_state d' = wg_state d"
proof -
  obtain s ls where "scan_lines conf = (s, ls)" by fastforce
  moreover obtain e d' where "IpcSetOperation pub dh b s ls d = Some (e, d')" "wg_inv d'" using IpcSetOperation_inv [OF assms] by blast
  moreover have "wg_state d' = wg_state d" using state_set_lines calculation(2) unfolding IpcSetOperation_def by blast
  ultimately show ?thesis by (simp add: IpcSet_def)
qed

lemma Up_spec:
  assumes "wg_inv d" "\<not> isClosed d"
  shows "wg_inv (snd (Up b d))" "\<not> isClosed (snd (Up b d))" "fst (Up b d) \<Longrightarrow> isUp (snd (Up b d))"
proof -
  show "wg_inv (snd (Up b d))" using changeState_inv [OF assms(1)] by (simp add: Up_def)
  have base: "base_inv d" using assms(1) by (simp add: wg_inv_def)
  have s: "wg_state (start_peer i d') = wg_state d'" for i and d' :: "'a Device" by (simp add: start_peer_def Let_def keeps_state)
  have f: "wg_state (snd (upLocked b d')) = wg_state d'" for d'
    using state_basic(9) [of b d'] by (cases "BindUpdate b d'") (simp add: upLocked_def state_fold [OF s])
  have g: "wg_state (snd (downLocked b d')) = wg_state d'" for d' by (simp add: downLocked_def state_fold keeps_state)
  show "fst (Up b d) \<Longrightarrow> isUp (snd (Up b d))" "\<not> isClosed (snd (Up b d))"
    using assms(2) f [of "d\<lparr>wg_state := deviceStateUp\<rparr>"] g
    by (auto simp: Up_def changeState_def isUp_def isClosed_def split: prod.split if_splits)
qed

lemma start_dev_spec:
  assumes "devs_inv en" "n < length (en_devs en)" "\<not> isClosed (en_devs en ! n)"
  shows "\<exists>ok en'. start_dev pub dh b n conf en = Some (ok, en') \<and> devs_inv en' \<and> grows {n} {} en en' \<and> length (en_devs en') = length (en_devs en) \<and>
    en_lns en' = en_lns en \<and> open_ids en' = (if ok then open_ids en else open_ids en - {n}) \<and> (ok \<longrightarrow> isUp (en_devs en' ! n))"
proof -
  obtain e d where s: "IpcSet pub dh b conf (en_devs en ! n) = Some (e, d)" "wg_inv d" "wg_state d = wg_state (en_devs en ! n)"
    using IpcSet_spec [OF devs_inv_nth [OF assms(1,2)]] by blast
  have o: "\<not> isClosed d" "insert n (open_ids en) = open_ids en" using s(3) assms(2,3) by (auto simp: isClosed_def open_ids_def)
  have fail: "\<exists>en'. map_option (Pair False) (close_dev b n (set_dev n d' en)) = Some (False, en') \<and> devs_inv en' \<and> grows {n} {} en en' \<and>
      length (en_devs en') = length (en_devs en) \<and> en_lns en' = en_lns en \<and> open_ids en' = open_ids en - {n}" if "wg_inv d'" for d'
  proof -
    note sd = set_dev_spec [OF assms(1,2) that]
    obtain en' where c: "close_dev b n (set_dev n d' en) = Some en'" "devs_inv en'" "grows {n} {} (set_dev n d' en) en'"
      "length (en_devs en') = length (en_devs en)" "en_lns en' = en_lns en" "open_ids en' = open_ids (set_dev n d' en) - {n}"
      using close_dev_spec [OF sd(1), of n b] sd(3,5) assms(2) by metis
    have "open_ids en' = open_ids en - {n}" using c(6) sd(6) by (auto split: if_splits)
    then show ?thesis using c grows_trans [OF sd(2) c(3)] by simp
  qed
  note u = Up_spec [OF s(2) o(1), of b]
  show ?thesis
  proof (cases "e = None \<and> fst (Up b d)")
    case True
    then show ?thesis using s(1) u set_dev_spec [OF assms(1,2) u(1)] o(2)
      by (intro exI [of _ True] exI [of _ "set_dev n (snd (Up b d)) en"], cases "Up b d") (simp add: start_dev_def)
  next
    case False
    then show ?thesis using s(1) fail [OF s(2)] fail [OF u(1)] by (cases "Up b d") (auto simp: start_dev_def)
  qed
qed

definition owned :: "tunnel \<Rightarrow> nat set" where "owned t = set_option (tn_outerDev t) \<union> set_option (tn_innerDev t)"

definition tunnel_ok :: "tunnel \<Rightarrow> engine \<Rightarrow> bool" where
  "tunnel_ok t en \<longleftrightarrow> tn_outerDev t = Some (tn_outerNet t) \<and> tn_innerNet t = tn_innerDev t \<and> tn_innerDev t \<noteq> Some (tn_outerNet t) \<and>
     (\<forall>n\<in>owned t. n < length (en_devs en) \<and> isUp (en_devs en ! n))"

definition same_outer :: "tunnel \<Rightarrow> tunnel \<Rightarrow> bool" where
  "same_outer t t' \<longleftrightarrow> tn_outerDev t' = tn_outerDev t \<and> tn_outerNet t' = tn_outerNet t \<and> tn_outerLocal t' = tn_outerLocal t \<and>
     tn_ln t' = tn_ln t \<and> tn_port t' = tn_port t \<and> tn_cfg t' = tn_cfg t"

lemma same_outer_refl [simp]: "same_outer t t" by (simp add: same_outer_def)
lemma same_outer_trans: "same_outer t t' \<Longrightarrow> same_outer t' t'' \<Longrightarrow> same_outer t t''" by (simp add: same_outer_def)

lemma isUp_open: "isUp d \<Longrightarrow> \<not> isClosed d" by (simp add: isUp_def isClosed_def)

lemma tunnel_ok_open: "tunnel_ok t en \<Longrightarrow> owned t \<subseteq> open_ids en"
  using isUp_open by (auto simp: tunnel_ok_def open_ids_def)

lemma tunnel_ok_grows: "tunnel_ok t en \<Longrightarrow> grows X Y en en' \<Longrightarrow> X \<inter> owned t = {} \<Longrightarrow> tunnel_ok t en'"
  by (force simp: tunnel_ok_def grows_def)

lemma drop_inner_spec:
  assumes "devs_inv en" "tunnel_ok t en"
  shows "\<exists>t' en'. (case tn_innerDev t of None \<Rightarrow> Some (t, en)
      | Some n \<Rightarrow> map_option (Pair (t\<lparr>tn_innerDev := None, tn_innerNet := None\<rparr>)) (close_dev (b n) n en)) = Some (t', en') \<and>
    devs_inv en' \<and> tunnel_ok t' en' \<and> tn_innerDev t' = None \<and> same_outer t t' \<and> grows (set_option (tn_innerDev t)) {} en en' \<and>
    en_lns en' = en_lns en \<and> open_ids en' = open_ids en - set_option (tn_innerDev t)"
proof (cases "tn_innerDev t")
  case None
  then show ?thesis using assms by simp
next
  case (Some n)
  then have n: "n < length (en_devs en)" using assms(2) by (simp add: tunnel_ok_def owned_def)
  obtain en' where c: "close_dev (b n) n en = Some en'" "devs_inv en'" "grows {n} {} en en'" "length (en_devs en') = length (en_devs en)"
    "en_lns en' = en_lns en" "open_ids en' = open_ids en - {n}" using close_dev_spec [OF assms(1) n, of "b n"] by blast
  let ?t = "t\<lparr>tn_innerDev := None, tn_innerNet := None\<rparr>"
  have o: "tunnel_ok ?t en" "owned ?t = {tn_outerNet t}" "tn_outerNet t \<noteq> n" using assms(2) Some by (auto simp: tunnel_ok_def owned_def)
  then have "tunnel_ok ?t en'" using tunnel_ok_grows [OF o(1) c(3)] by simp
  then show ?thesis using c Some by (simp add: same_outer_def)
qed

lemma NewDevice_open: "\<not> isClosed NewDevice" by (simp add: isClosed_def NewDevice_def)

lemma new_device_spec:
  assumes "devs_inv en"
  defines "en' \<equiv> en\<lparr>en_devs := en_devs en @ [NewDevice]\<rparr>" and "n \<equiv> length (en_devs en)"
  shows "devs_inv en'" "grows {} {} en en'" "n < length (en_devs en')" "\<not> isClosed (en_devs en' ! n)" "en_lns en' = en_lns en"
    "open_ids en' = insert n (open_ids en)" "n \<notin> open_ids en"
  using assms wg_inv_NewDevice NewDevice_open
  by (auto simp: devs_inv_def grows_def open_ids_def nth_append less_Suc_eq)

definition inner_result :: "tunnel \<Rightarrow> engine \<Rightarrow> bool \<Rightarrow> tunnel \<Rightarrow> engine \<Rightarrow> bool" where
  "inner_result t en ok t' en' \<longleftrightarrow> devs_inv en' \<and> tunnel_ok t' en' \<and> same_outer t t' \<and> grows (set_option (tn_innerDev t)) {} en en' \<and>
     en_lns en' = en_lns en \<and> open_ids en' = open_ids en - set_option (tn_innerDev t) \<union> set_option (tn_innerDev t') \<and>
     (\<forall>n. tn_innerDev t' = Some n \<longrightarrow> length (en_devs en) \<le> n \<or> tn_innerDev t = Some n) \<and> (tn_innerDev t' \<noteq> None \<longleftrightarrow> ok)"

lemma new_inner_spec:
  fixes en :: engine
  assumes "devs_inv en" "tunnel_ok t en" "tn_innerDev t = None"
  defines "en1 \<equiv> en\<lparr>en_devs := en_devs en @ [NewDevice]\<rparr>" and "n \<equiv> length (en_devs en)"
  shows "\<exists>en'. close_dev b n en1 = Some en' \<and> inner_result t en False t en'"
    and "\<exists>ok en'. start_dev pub dh b n conf en1 = Some (ok, en') \<and>
      inner_result t en ok (if ok then t\<lparr>tn_innerDev := Some n, tn_innerNet := Some n, tn_innerLocal := loc\<rparr> else t) en'"
proof -
  note d = new_device_spec [OF assms(1), folded en1_def n_def]
  have g: "grows {} {} en en'" if "grows {n} {} en1 en'" for en'
    by (rule grows_mono [OF grows_trans [OF d(2) that]]) (simp_all add: n_def)
  have t: "tunnel_ok t en'" if "grows {} {} en en'" for en' using tunnel_ok_grows [OF assms(2) that] by simp
  have o: "owned t = {tn_outerNet t}" "tn_outerNet t < n" using assms(2,3) by (auto simp: tunnel_ok_def owned_def n_def)
  obtain en' where c: "close_dev b n en1 = Some en'" "devs_inv en'" "grows {n} {} en1 en'" "en_lns en' = en_lns en1"
    "open_ids en' = open_ids en1 - {n}" using close_dev_spec [OF d(1,3), of b] by blast
  then have "inner_result t en False t en'" using g [OF c(3)] t [OF g [OF c(3)]] d(5,6,7) assms(3) by (simp add: inner_result_def)
  then show "\<exists>en'. close_dev b n en1 = Some en' \<and> inner_result t en False t en'" using c(1) by blast
  obtain ok en' where s: "start_dev pub dh b n conf en1 = Some (ok, en')" "devs_inv en'" "grows {n} {} en1 en'"
    "length (en_devs en') = length (en_devs en1)" "en_lns en' = en_lns en1" "open_ids en' = (if ok then open_ids en1 else open_ids en1 - {n})"
    "ok \<longrightarrow> isUp (en_devs en' ! n)" using start_dev_spec [OF d(1,3,4), of pub dh b conf] by blast
  let ?t = "t\<lparr>tn_innerDev := Some n, tn_innerNet := Some n, tn_innerLocal := loc\<rparr>"
  note ge = g [OF s(3)]
  have "tunnel_ok ?t en'" if ok using that t [OF ge] o s(4,7) d(3) by (auto simp: tunnel_ok_def owned_def)
  then have "inner_result t en ok (if ok then ?t else t) en'"
    using s d(5,6,7) ge t [OF ge] assms(3) by (auto simp: inner_result_def same_outer_def n_def)
  then show "\<exists>ok en'. start_dev pub dh b n conf en1 = Some (ok, en') \<and> inner_result t en ok (if ok then ?t else t) en'" using s(1) by blast
qed

lemma inner_result_trans:
  assumes "inner_result t en ok t1 en1" "inner_result t1 en1 ok' t2 en2"
  shows "inner_result t en ok' t2 en2"
proof -
  note a = assms(1) [unfolded inner_result_def] and b = assms(2) [unfolded inner_result_def]
  have i: "set_option (tn_innerDev t1) \<inter> {..<length (en_devs en)} \<subseteq> set_option (tn_innerDev t)" using a by force
  have g: "grows (set_option (tn_innerDev t) \<union> set_option (tn_innerDev t1)) ({} \<union> {}) en en2" using grows_trans a b by blast
  have "grows (set_option (tn_innerDev t)) {} en en2" by (rule grows_mono [OF g]) (use i in auto)
  moreover have "open_ids en2 = open_ids en - set_option (tn_innerDev t) \<union> set_option (tn_innerDev t2)"
  proof -
    have "set_option (tn_innerDev t1) \<inter> (open_ids en - set_option (tn_innerDev t)) = {}" using i by (auto simp: open_ids_def)
    moreover have "open_ids en1 = open_ids en - set_option (tn_innerDev t) \<union> set_option (tn_innerDev t1)"
      "open_ids en2 = open_ids en1 - set_option (tn_innerDev t1) \<union> set_option (tn_innerDev t2)" using a b by blast+
    ultimately show ?thesis by blast
  qed
  moreover have "length (en_devs en) \<le> length (en_devs en1)" using a by (simp add: grows_def)
  then have "length (en_devs en) \<le> n \<or> tn_innerDev t = Some n" if "tn_innerDev t2 = Some n" for n
    using a b that le_trans by blast
  ultimately show ?thesis using a b same_outer_trans unfolding inner_result_def by auto
qed

lemma replaceInner_spec:
  assumes "devs_inv en" "tunnel_ok t en"
  shows "\<exists>ok t' en'. replaceInner pub dh w cfg ep t en = Some (ok, t', en') \<and> inner_result t en ok t' en'"
proof -
  obtain t1 en1 where d: "(case tn_innerDev t of None \<Rightarrow> Some (t, en)
      | Some n \<Rightarrow> map_option (Pair (t\<lparr>tn_innerDev := None, tn_innerNet := None\<rparr>)) (close_dev (hop_bind w (tn_outerNet t) n) n en)) = Some (t1, en1)"
    "devs_inv en1" "tunnel_ok t1 en1" "tn_innerDev t1 = None" "same_outer t t1" "grows (set_option (tn_innerDev t)) {} en en1"
    "en_lns en1 = en_lns en" "open_ids en1 = open_ids en - set_option (tn_innerDev t)"
    using drop_inner_spec [OF assms, of "hop_bind w (tn_outerNet t)"] by blast
  then have r: "inner_result t en False t1 en1" by (simp add: inner_result_def)
  note new = new_inner_spec [OF d(2,3,4)]
  show ?thesis
  proof (cases "parseAddr (InnerAddress cfg)")
    case None
    then have "replaceInner pub dh w cfg ep t en = Some (False, t1, en1)" using d(1) by (simp add: replaceInner_def)
    then show ?thesis using r by blast
  next
    case (Some loc)
    let ?n = "length (en_devs en1)" and ?en = "en1\<lparr>en_devs := en_devs en1 @ [NewDevice]\<rparr>" and ?b = "hop_bind w (tn_outerNet t1) (length (en_devs en1))"
    show ?thesis
    proof (cases "w_tun w ?n loc (dns_addr cfg)")
      case False
      then have "replaceInner pub dh w cfg ep t en = Some (False, t1, en1)" using d(1) Some by (simp add: replaceInner_def)
      then show ?thesis using r by blast
    next
      case tun: True
      show ?thesis
      proof (cases "innerUAPI (w_rnd w) cfg ep")
        case None
        obtain en' where c: "close_dev ?b ?n ?en = Some en'" "inner_result t1 en1 False t1 en'" using new(1) [of ?b] by blast
        then have "replaceInner pub dh w cfg ep t en = Some (False, t1, en')" using d(1) Some tun None by (simp add: replaceInner_def Let_def)
        then show ?thesis using inner_result_trans [OF r c(2)] by blast
      next
        case conf: (Some conf)
        let ?t = "\<lambda>ok. if ok then t1\<lparr>tn_innerDev := Some ?n, tn_innerNet := Some ?n, tn_innerLocal := loc\<rparr> else t1"
        obtain ok en' where s: "start_dev pub dh ?b ?n conf ?en = Some (ok, en')" "inner_result t1 en1 ok (?t ok) en'"
          using new(2) [of pub dh ?b conf loc] by blast
        then have "replaceInner pub dh w cfg ep t en = Some (ok, ?t ok, en')"
          using d(1) Some tun conf by (cases ok) (simp_all add: replaceInner_def Let_def)
        then show ?thesis using inner_result_trans [OF r s(2)] by blast
      qed
    qed
  qed
qed

lemma inner_result_keep: "inner_result t en ok t' en' \<Longrightarrow> devs_inv en' \<and> tunnel_ok t' en'"
  by (simp add: inner_result_def)

lemma hop_loop_spec:
  assumes "devs_inv en" "tunnel_ok t en"
  shows "\<exists>ok t' en'. hop_loop pub dh w cfg first hosts t en = Some (ok, t', en') \<and> inner_result t en ok t' en'"
  using assms
proof (induction hosts arbitrary: t en)
  case Nil
  then have "inner_result t en (tn_innerDev t \<noteq> None) t en" using tunnel_ok_open [OF Nil(2)] by (auto simp: inner_result_def owned_def)
  then show ?case by simp
next
  case (Cons ep rest)
  obtain ok t1 en1 where r: "replaceInner pub dh w cfg ep t en = Some (ok, t1, en1)" "inner_result t en ok t1 en1"
    using replaceInner_spec [OF Cons.prems] by blast
  obtain ok' t2 en2 where "hop_loop pub dh w cfg first rest t1 en1 = Some (ok', t2, en2)" "inner_result t1 en1 ok' t2 en2"
    using Cons.IH inner_result_keep [OF r(2)] by blast
  then have l: "\<exists>ok' t2 en2. hop_loop pub dh w cfg first rest t1 en1 = Some (ok', t2, en2) \<and> inner_result t en ok' t2 en2"
    using inner_result_trans [OF r(2)] by blast
  show ?case
  proof (cases "ok \<and> (HopShield cfg \<longrightarrow> (case tn_innerNet t1 \<bind> w_egress w of None \<Rightarrow> rest = []
      | Some second \<Rightarrow> hopExitsDiffer first second \<or> rest = []))")
    case True
    then have "hop_loop pub dh w cfg first (ep # rest) t en = Some (ok, t1, en1)" using r(1) by (auto split: option.split)
    then show ?thesis using r(2) by blast
  next
    case False
    then have "hop_loop pub dh w cfg first (ep # rest) t en = hop_loop pub dh w cfg first rest t1 en1" using r(1) by (auto split: option.splits)
    then show ?thesis using l by simp
  qed
qed

lemma startHop_spec:
  assumes "devs_inv en" "tunnel_ok t en"
  shows "\<exists>ok t' en'. startHop pub dh w cfg t en = Some (ok, t', en') \<and> inner_result t en ok t' en'"
  unfolding startHop_def Let_def by (rule hop_loop_spec [OF assms])

lemma close_opt_spec:
  assumes "devs_inv en" "\<forall>n\<in>set_option dev. n < length (en_devs en)"
  shows "\<exists>en'. close_opt b dev en = Some en' \<and> devs_inv en' \<and> grows (set_option dev) {} en en' \<and> length (en_devs en') = length (en_devs en) \<and>
    en_lns en' = en_lns en \<and> open_ids en' = open_ids en - set_option dev"
proof (cases dev)
  case None
  then show ?thesis using assms(1) by (simp add: close_opt_def)
next
  case (Some n)
  then show ?thesis using close_dev_spec [OF assms(1), of n "b n"] assms(2) by (simp add: close_opt_def)
qed

lemma close_listener_spec:
  "devs_inv (close_listener ln en) = devs_inv en" "grows {} (set_option ln) en (close_listener ln en)"
  "en_devs (close_listener ln en) = en_devs en" "open_ids (close_listener ln en) = open_ids en"
  "open_lns (close_listener ln en) = open_lns en - set_option ln"
proof -
  have l: "{j. j < length l \<and> l[k := False] ! j} = {j. j < length l \<and> l ! j} - {k}" for l k
  proof -
    have "l[k := False] ! j = (j \<noteq> k \<and> l ! j)" if "j < length l" for j using that by (cases "j = k") simp_all
    then show ?thesis by auto
  qed
  show "devs_inv (close_listener ln en) = devs_inv en" "en_devs (close_listener ln en) = en_devs en"
    "open_ids (close_listener ln en) = open_ids en" by (simp_all add: close_listener_def devs_inv_def open_ids_def split: option.split)
  show "grows {} (set_option ln) en (close_listener ln en)" by (simp add: close_listener_def grows_def split: option.split)
  show "open_lns (close_listener ln en) = open_lns en - set_option ln" by (cases ln) (simp_all add: close_listener_def open_lns_def l)
qed

lemma tunnel_close_spec:
  assumes "devs_inv en" "\<forall>n\<in>owned t. n < length (en_devs en)"
  shows "\<exists>en'. tunnel_close w t en = Some en' \<and> devs_inv en' \<and> grows (owned t) (set_option (tn_ln t)) en en' \<and>
    open_ids en' = open_ids en - owned t \<and> open_lns en' = open_lns en - set_option (tn_ln t)"
proof -
  let ?en = "close_listener (tn_ln t) en"
  note c = close_listener_spec [where ln = "tn_ln t" and en = en]
  obtain en1 where e1: "close_opt (hop_bind w (tn_outerNet t)) (tn_innerDev t) ?en = Some en1" "devs_inv en1"
    "grows (set_option (tn_innerDev t)) {} ?en en1" "length (en_devs en1) = length (en_devs ?en)" "en_lns en1 = en_lns ?en"
    "open_ids en1 = open_ids ?en - set_option (tn_innerDev t)"
    using close_opt_spec [of ?en "tn_innerDev t" "hop_bind w (tn_outerNet t)"] assms c(1,3) by (auto simp: owned_def)
  obtain en2 where e2: "close_opt (w_bind w) (tn_outerDev t) en1 = Some en2" "devs_inv en2"
    "grows (set_option (tn_outerDev t)) {} en1 en2" "en_lns en2 = en_lns en1" "open_ids en2 = open_ids en1 - set_option (tn_outerDev t)"
    using close_opt_spec [OF e1(2), of "tn_outerDev t" "w_bind w"] assms(2) e1(4) c(3) by (auto simp: owned_def)
  have "grows (owned t) (set_option (tn_ln t)) en en2"
    by (rule grows_mono [OF grows_trans [OF grows_trans [OF c(2) e1(3)] e2(3)]]) (auto simp: owned_def)
  moreover have "open_lns en2 = open_lns en - set_option (tn_ln t)" using c(5) e1(5) e2(4) by (simp add: open_lns_def)
  moreover have "open_ids en2 = open_ids en - owned t" using c(4) e1(6) e2(5) by (auto simp: owned_def)
  ultimately show ?thesis using e1(1) e2(1,2) by (simp add: tunnel_close_def)
qed

text \<open>A tunnel that has just been opened: its devices and its listener are new.\<close>

definition opened :: "socksConfig \<Rightarrow> engine \<Rightarrow> tunnel option \<Rightarrow> engine \<Rightarrow> bool" where
  "opened cfg en r en' \<longleftrightarrow> devs_inv en' \<and> grows {} {} en en' \<and>
     (case r of
        None \<Rightarrow> open_ids en' = open_ids en \<and> open_lns en' = open_lns en
      | Some t \<Rightarrow> tunnel_ok t en' \<and> open_ids en' = open_ids en \<union> owned t \<and> (\<forall>n\<in>owned t. length (en_devs en) \<le> n) \<and>
          (\<exists>k. tn_ln t = Some k \<and> length (en_lns en) \<le> k \<and> open_lns en' = insert k (open_lns en)) \<and>
          tn_cfg t = cfg \<and> (Hop cfg \<longrightarrow> tn_innerDev t \<noteq> None))"

lemma closed_tunnel_spec:
  assumes "devs_inv en1" "tunnel_ok t en1" "grows {} {} en en1" "en_lns en1 = en_lns en" "open_ids en1 = open_ids en \<union> owned t"
    and "\<forall>n\<in>owned t. length (en_devs en) \<le> n" "tn_ln t = None"
  shows "\<exists>en'. tunnel_close w t en1 = Some en' \<and> opened cfg en None en'"
proof -
  have "\<forall>n\<in>owned t. n < length (en_devs en1)" using assms(2) by (simp add: tunnel_ok_def)
  then obtain en' where c: "tunnel_close w t en1 = Some en'" "devs_inv en'" "grows (owned t) (set_option (tn_ln t)) en1 en'"
    "open_ids en' = open_ids en1 - owned t" "open_lns en' = open_lns en1 - set_option (tn_ln t)"
    using tunnel_close_spec [OF assms(1)] by blast
  have "grows {} {} en en'" by (rule grows_mono [OF grows_trans [OF assms(3) c(3)]]) (use assms(6,7) in auto)
  moreover have "owned t \<inter> open_ids en = {}" using assms(6) by (auto simp: open_ids_def)
  then have "open_ids en' = open_ids en" using c(4) assms(5) by blast
  moreover have "open_lns en' = open_lns en" using c(5) assms(4,7) by (simp add: open_lns_def)
  ultimately show ?thesis using c(1,2) by (simp add: opened_def)
qed

lemma tunnel_listen_spec:
  assumes "devs_inv en1" "tunnel_ok t en1" "grows {} {} en en1" "en_lns en1 = en_lns en" "open_ids en1 = open_ids en \<union> owned t"
    and "\<forall>n\<in>owned t. length (en_devs en) \<le> n" "tn_ln t = None" "tn_cfg t = cfg" "Hop cfg \<longrightarrow> tn_innerDev t \<noteq> None"
  shows "\<exists>r en'. tunnel_listen w cfg t en1 = Some (r, en') \<and> opened cfg en r en'"
proof -
  show "\<exists>r en'. tunnel_listen w cfg t en1 = Some (r, en') \<and> opened cfg en r en'"
  proof (cases "w_listen w (JoinHostPort (Bind cfg) (show_int (SocksPort cfg)))")
    case None
    then show ?thesis using closed_tunnel_spec [OF assms(1-7), of w cfg] by (auto simp: tunnel_listen_def)
  next
    case (Some port)
    let ?t = "t\<lparr>tn_ln := Some (length (en_lns en1)), tn_port := port\<rparr>" and ?en = "en1\<lparr>en_lns := en_lns en1 @ [True]\<rparr>"
    have "open_lns ?en = insert (length (en_lns en1)) (open_lns en1)" by (auto simp: open_lns_def nth_append less_Suc_eq)
    moreover have "open_lns en1 = open_lns en" using assms(4) by (simp add: open_lns_def)
    moreover have "grows {} {} en1 ?en" by (simp add: grows_def nth_append)
    then have "grows {} {} en ?en" using grows_trans [OF assms(3)] by fastforce
    moreover have "owned ?t = owned t" "open_ids ?en = open_ids en1" by (simp_all add: owned_def open_ids_def)
    moreover have "devs_inv ?en" "tunnel_ok ?t ?en" using assms(1,2) by (simp_all add: devs_inv_def tunnel_ok_def owned_def)
    ultimately have "opened cfg en (Some ?t) ?en" using assms(4-6,8,9) unfolding opened_def by simp
    then show ?thesis using Some by (simp add: tunnel_listen_def)
  qed
qed

lemma openTunnel_spec:
  assumes "devs_inv en"
  shows "\<exists>r en'. openTunnel pub dh w cfg en = Some (r, en') \<and> opened cfg en r en'"
proof (cases "uapi (w_rnd w) cfg = None \<or> parseAddr (Address cfg) = None")
  case True
  then have "openTunnel pub dh w cfg en = Some (None, en)" by (cases "uapi (w_rnd w) cfg") (auto simp: openTunnel_def)
  then show ?thesis using assms by (simp add: opened_def)
next
  case False
  then obtain conf loc where p: "uapi (w_rnd w) cfg = Some conf" "parseAddr (Address cfg) = Some loc" by auto
  let ?n = "length (en_devs en)" and ?en = "en\<lparr>en_devs := en_devs en @ [NewDevice]\<rparr>"
  note d = new_device_spec [OF assms]
  show ?thesis
  proof (cases "w_tun w ?n loc (dns_addr cfg)")
    case False
    then show ?thesis using assms p by (simp add: openTunnel_def opened_def)
  next
    case tun: True
    obtain ok en1 where s: "start_dev pub dh (w_bind w ?n) ?n conf ?en = Some (ok, en1)" "devs_inv en1" "grows {?n} {} ?en en1"
      "length (en_devs en1) = length (en_devs ?en)" "en_lns en1 = en_lns ?en" "open_ids en1 = (if ok then open_ids ?en else open_ids ?en - {?n})"
      "ok \<longrightarrow> isUp (en_devs en1 ! ?n)" using start_dev_spec [OF d(1,3,4), of pub dh "w_bind w ?n" conf] by blast
    have g: "grows {} {} en en1" by (rule grows_mono [OF grows_trans [OF d(2) s(3)]]) auto
    show ?thesis
    proof (cases ok)
      case False
      then have "opened cfg en None en1" using s(2,5,6) g d(5,6,7) by (simp add: opened_def open_lns_def)
      then show ?thesis using s(1) tun p False by (simp add: openTunnel_def)
    next
      case True
      let ?t = "\<lparr>tn_outerDev = Some ?n, tn_innerDev = None, tn_outerNet = ?n, tn_innerNet = None, tn_outerLocal = loc,
        tn_innerLocal = ([], []), tn_ln = None, tn_port = 0, tn_cfg = cfg\<rparr>"
      have o: "owned ?t = {?n}" by (simp add: owned_def)
      have t: "tunnel_ok ?t en1" using s(4,7) True d(3) by (simp add: tunnel_ok_def owned_def)
      have i: "open_ids en1 = open_ids en \<union> owned ?t" using s(6) True d(6) o by simp
      have l: "en_lns en1 = en_lns en" using s(5) by simp
      show ?thesis
      proof (cases "Hop cfg")
        case False
        then have "openTunnel pub dh w cfg en = tunnel_listen w cfg ?t en1" using s(1) tun p True by (simp add: openTunnel_def Let_def)
        then show ?thesis using tunnel_listen_spec(1) [OF s(2) t g l i, of cfg w] False o by simp
      next
        case hop: True
        obtain ok' t2 en2 where h: "startHop pub dh w cfg ?t en1 = Some (ok', t2, en2)" "inner_result ?t en1 ok' t2 en2"
          using startHop_spec [OF s(2) t] by blast
        note r = h(2) [unfolded inner_result_def]
        have t2: "tn_outerDev t2 = Some ?n" "tn_ln t2 = None" "tn_cfg t2 = cfg" using r by (simp_all add: same_outer_def)
        have g2: "grows {} {} en en2" using grows_trans [OF g, of "{}" "{}" en2] r by simp
        have own: "\<forall>n\<in>owned t2. ?n \<le> n" using r t2(1) s(4) by (auto simp: owned_def)
        have i2: "open_ids en2 = open_ids en \<union> owned t2" using r i o t2(1) by (auto simp: owned_def)
        have e: "openTunnel pub dh w cfg en = (if ok' then tunnel_listen w cfg t2 en2 else map_option (Pair None) (tunnel_close w t2 en2))"
          using s(1) tun p True hop h(1) by (simp add: openTunnel_def Let_def)
        show ?thesis
        proof (cases ok')
          case True
          then have "Hop cfg \<longrightarrow> tn_innerDev t2 \<noteq> None" using r by blast
          then show ?thesis using tunnel_listen_spec(1) [of en2 t2 en cfg w] r g2 l i2 own t2(2,3) e True by simp
        next
          case False
          obtain en3 where "tunnel_close w t2 en2 = Some en3" "opened cfg en None en3"
            using closed_tunnel_spec [of en2 t2 en w cfg] r g2 l i2 own t2(2) by auto
          then show ?thesis using e False by simp
        qed
      qed
    qed
  qed
qed

definition engine_inv :: "engine \<Rightarrow> bool" where
  "engine_inv en \<longleftrightarrow> devs_inv en \<and>
     (case en_live en of
        None \<Rightarrow> open_ids en = {} \<and> open_lns en = {}
      | Some t \<Rightarrow> tunnel_ok t en \<and> open_ids en = owned t \<and> (\<exists>k. tn_ln t = Some k \<and> open_lns en = {k}))"

lemma engine_inv_fields [simp]:
  "devs_inv (en\<lparr>en_live := l\<rparr>) = devs_inv en" "open_ids (en\<lparr>en_live := l\<rparr>) = open_ids en" "open_lns (en\<lparr>en_live := l\<rparr>) = open_lns en"
  "tunnel_ok t (en\<lparr>en_live := l\<rparr>) = tunnel_ok t en"
  by (simp_all add: devs_inv_def open_ids_def open_lns_def tunnel_ok_def)

lemma stopLive_spec:
  assumes "engine_inv en"
  shows "\<exists>en'. stopLive w en = Some en' \<and> engine_inv en' \<and> en_live en' = None"
proof (cases "en_live en")
  case None
  then show ?thesis using assms by (simp add: stopLive_def)
next
  case (Some t)
  then have i: "devs_inv en" "tunnel_ok t en" "open_ids en = owned t" "open_lns en = set_option (tn_ln t)"
    using assms by (auto simp: engine_inv_def)
  then have "\<forall>n\<in>owned t. n < length (en_devs en)" by (simp add: tunnel_ok_def)
  then obtain en' where "tunnel_close w t en = Some en'" "devs_inv en'" "open_ids en' = open_ids en - owned t"
    "open_lns en' = open_lns en - set_option (tn_ln t)" using tunnel_close_spec [OF i(1)] by blast
  then show ?thesis using Some i(3,4) by (simp add: stopLive_def engine_inv_def)
qed

lemma startLive_spec:
  assumes "engine_inv en"
  shows "\<exists>ok en'. startLive pub dh w cfg en = Some (ok, en') \<and> engine_inv en' \<and> (ok \<longleftrightarrow> en_live en' \<noteq> None) \<and>
    (\<forall>t. en_live en' = Some t \<longrightarrow> tn_cfg t = cfg \<and> (Hop cfg \<longrightarrow> tn_innerDev t \<noteq> None))"
proof -
  obtain en1 where s: "stopLive w en = Some en1" "engine_inv en1" "en_live en1 = None" using stopLive_spec [OF assms] by blast
  then have e: "devs_inv en1" "open_ids en1 = {}" "open_lns en1 = {}" by (simp_all add: engine_inv_def)
  obtain r en2 where o: "openTunnel pub dh w cfg en1 = Some (r, en2)" "opened cfg en1 r en2" using openTunnel_spec [OF e(1)] by blast
  have l: "en_live en2 = None" using o(2) s(3) by (simp add: opened_def grows_def)
  show ?thesis
  proof (cases r)
    case None
    then have "startLive pub dh w cfg en = Some (False, en2)" using s(1) o(1) by (simp add: startLive_def)
    moreover have "engine_inv en2" using o(2) l e None by (simp add: opened_def engine_inv_def)
    ultimately show ?thesis using l by (intro exI [of _ False] exI [of _ en2]) simp
  next
    case (Some t)
    then show ?thesis using s(1) o e by (auto simp: startLive_def opened_def engine_inv_def)
  qed
qed

lemma setLiveHopInner_spec:
  assumes "engine_inv en"
  shows "\<exists>ok en'. setLiveHopInner pub dh w ep en = Some (ok, en') \<and> engine_inv en' \<and>
    (case en_live en of None \<Rightarrow> en' = en \<and> \<not> ok
     | Some t \<Rightarrow> if Hop (tn_cfg t) \<and> normalizeEndpoint ep \<noteq> []
         then \<exists>t'. en_live en' = Some t' \<and> same_outer t t' \<and> (ok \<longleftrightarrow> tn_innerDev t' \<noteq> None)
         else en' = en \<and> \<not> ok)"
proof (cases "en_live en")
  case None
  then have "setLiveHopInner pub dh w ep en = Some (False, en)" by (simp add: setLiveHopInner_def)
  then show ?thesis using assms None by (intro exI [of _ False] exI [of _ en]) simp
next
  case (Some t)
  then have i: "devs_inv en" "tunnel_ok t en" "open_ids en = owned t" "\<exists>k. tn_ln t = Some k \<and> open_lns en = {k}"
    using assms by (auto simp: engine_inv_def)
  show ?thesis
  proof (cases "Hop (tn_cfg t) \<and> normalizeEndpoint ep \<noteq> []")
    case False
    then have "setLiveHopInner pub dh w ep en = Some (False, en\<lparr>en_live := Some t\<rparr>)"
      using Some by (auto simp: setLiveHopInner_def setHopInner_def Let_def)
    moreover have "en\<lparr>en_live := Some t\<rparr> = en" using Some by simp
    ultimately show ?thesis using Some False assms by (simp only: option.case if_False) blast
  next
    case True
    obtain ok t' en1 where r: "replaceInner pub dh w (tn_cfg t) (normalizeEndpoint ep) t en = Some (ok, t', en1)" "inner_result t en ok t' en1"
      using replaceInner_spec [OF i(1,2)] by blast
    note ir = r(2) [unfolded inner_result_def]
    have "open_ids en1 = owned t'"
    proof -
      have "open_ids en1 = owned t - set_option (tn_innerDev t) \<union> set_option (tn_innerDev t')" using ir i(3) by simp
      also have "owned t - set_option (tn_innerDev t) = set_option (tn_outerDev t')" using i(2) ir by (auto simp: owned_def tunnel_ok_def same_outer_def)
      finally show ?thesis by (simp add: owned_def)
    qed
    moreover have "open_lns en1 = open_lns en" using ir by (simp add: open_lns_def)
    moreover have "tn_ln t' = tn_ln t" using ir by (simp add: same_outer_def)
    ultimately have "engine_inv (en1\<lparr>en_live := Some t'\<rparr>)" using ir i(4) by (simp add: engine_inv_def)
    moreover have "setLiveHopInner pub dh w ep en = Some (ok, en1\<lparr>en_live := Some t'\<rparr>)"
      using Some True r(1) by (simp add: setLiveHopInner_def setHopInner_def Let_def)
    ultimately show ?thesis using Some True ir by simp
  qed
qed

lemma pingOne_spec:
  assumes "engine_inv en"
  shows "\<exists>r en'. pingOne pub dh w identity ep en = Some (r, en') \<and> engine_inv en' \<and> grows {} {} en en'"
proof (cases "TrimSpace ep = []")
  case True
  then show ?thesis using assms by (simp add: pingOne_def)
next
  case False
  let ?cfg = "cloneForPing ep identity"
  have d: "devs_inv en" using assms by (simp add: engine_inv_def)
  have inv: "engine_inv en'" if "devs_inv en'" "grows {} {} en en'" "open_ids en' = open_ids en" "open_lns en' = open_lns en" for en'
  proof -
    have "en_live en' = en_live en" using that(2) by (simp add: grows_def)
    moreover have "tunnel_ok t en \<Longrightarrow> tunnel_ok t en'" for t using tunnel_ok_grows [OF _ that(2)] by simp
    ultimately show ?thesis using assms that(1,3,4) by (auto simp: engine_inv_def split: option.splits)
  qed
  obtain r en1 where o: "openTunnel pub dh w ?cfg en = Some (r, en1)" "opened ?cfg en r en1" using openTunnel_spec [OF d] by blast
  show ?thesis
  proof (cases r)
    case None
    then show ?thesis using o False inv [of en1] by (simp add: pingOne_def opened_def)
  next
    case (Some t)
    then obtain k where t: "devs_inv en1" "grows {} {} en en1" "tunnel_ok t en1" "open_ids en1 = open_ids en \<union> owned t"
      "\<forall>n\<in>owned t. length (en_devs en) \<le> n" "tn_ln t = Some k" "length (en_lns en) \<le> k" "open_lns en1 = insert k (open_lns en)"
      using o(2) by (auto simp: opened_def)
    then have "\<forall>n\<in>owned t. n < length (en_devs en1)" by (simp add: tunnel_ok_def)
    then obtain en2 where c: "tunnel_close w t en1 = Some en2" "devs_inv en2" "grows (owned t) (set_option (tn_ln t)) en1 en2"
      "open_ids en2 = open_ids en1 - owned t" "open_lns en2 = open_lns en1 - set_option (tn_ln t)" using tunnel_close_spec [OF t(1)] by blast
    have g: "grows {} {} en en2" by (rule grows_mono [OF grows_trans [OF t(2) c(3)]]) (use t(5-7) in auto)
    have "open_ids en \<inter> owned t = {}" using t(5) by (auto simp: open_ids_def)
    then have "open_ids en2 = open_ids en" using c(4) t(4) by blast
    moreover have "k \<notin> open_lns en" using t(7) by (simp add: open_lns_def)
    then have "open_lns en2 = open_lns en" using c(5) t(6,8) by auto
    ultimately show ?thesis using inv [OF c(2) g] g o(1) Some c(1) False by (simp add: pingOne_def)
  qed
qed

lemma ping_all_spec:
  assumes "engine_inv en"
  shows "\<exists>rs en'. ping_all pub dh ws i identity ps en = Some (rs, en') \<and> engine_inv en' \<and> map fst rs = map fst ps"
  using assms
proof (induction ps arbitrary: i en)
  case (Cons p ps)
  obtain ID ep where p: "p = (ID, ep)" by fastforce
  obtain r en1 where r: "pingOne pub dh (ws i) identity ep en = Some (r, en1)" "engine_inv en1" using pingOne_spec [OF Cons.prems] by blast
  obtain rs en2 where "ping_all pub dh ws (Suc i) identity ps en1 = Some (rs, en2)" "engine_inv en2" "map fst rs = map fst ps"
    using Cons.IH [OF r(2)] by blast
  then show ?case using p r(1) by simp
qed simp

lemma runPing_spec:
  assumes "engine_inv en"
  shows "\<exists>r en'. runPing pub dh ws q en = Some (r, en') \<and> engine_inv en' \<and> (\<forall>rs. r = Some rs \<longrightarrow> map fst rs = map fst (Probes q))"
proof -
  obtain rs en' where "ping_all pub dh ws 0 (Identity q) (Probes q) en = Some (rs, en')" "engine_inv en'" "map fst rs = map fst (Probes q)"
    using ping_all_spec [OF assms] by blast
  then show ?thesis using assms by (simp add: runPing_def ping_defaults_def Let_def)
qed

lemma engine_step_spec:
  assumes "engine_inv en"
  shows "\<exists>ok en'. engine_step pub dh wc en = Some (ok, en') \<and> engine_inv en'"
proof -
  obtain ws c where wc: "wc = (ws, c)" by fastforce
  let ?w = "ws 0"
  show ?thesis
  proof (cases c)
    case (AwgStart c0)
    show ?thesis
    proof (cases "parseConfig c0")
      case None
      then have "engine_step pub dh wc en = Some (False, en)" using wc AwgStart by (simp add: engine_step_def)
      then show ?thesis using assms by blast
    next
      case (Some cfg)
      then have "engine_step pub dh wc en = startLive pub dh ?w cfg en" using wc AwgStart by (simp add: engine_step_def)
      then show ?thesis using startLive_spec [OF assms, of pub dh ?w cfg] by (elim exE conjE) simp
    qed
  next
    case AwgStop
    then show ?thesis using stopLive_spec [OF assms, of ?w] wc by (auto simp: engine_step_def)
  next
    case (AwgSetHopInner ep)
    then show ?thesis using setLiveHopInner_spec [OF assms, of pub dh ?w ep] wc by (auto simp: engine_step_def)
  next
    case (AwgPing q)
    then show ?thesis using runPing_spec [OF assms, of pub dh ws q] wc by (auto simp: engine_step_def)
  qed
qed

lemma engine_run_spec: "engine_inv en \<Longrightarrow> \<exists>en'. engine_run pub dh cs en = Some en' \<and> engine_inv en'"
proof (induction cs arbitrary: en)
  case (Cons c cs)
  obtain ok en1 where "engine_step pub dh c en = Some (ok, en1)" "engine_inv en1" using engine_step_spec [OF Cons.prems] by blast
  then show ?case using Cons.IH [of en1] by simp
qed simp

lemma no_engine_inv: "engine_inv no_engine"
  by (simp add: engine_inv_def no_engine_def devs_inv_def open_ids_def open_lns_def)

lemma engine_run_append: "engine_run pub dh (cs @ ds) en = engine_run pub dh cs en \<bind> engine_run pub dh ds"
  by (induction cs arbitrary: en) (auto split: Option.bind_splits)

section \<open>A client that starts\<close>

lemma start_dev_ok:
  assumes "IpcSet pub dh b conf (en_devs en ! n) = Some (None, d)" "Up b d = (True, d')"
  shows "start_dev pub dh b n conf en = Some (True, set_dev n d' en)"
  using assms by (simp add: start_dev_def)

lemma client_device_comes_up:
  assumes "bind_Close b" "\<And>p. bind_Open b p \<noteq> None" "bind_RouteListener b"
  shows "\<exists>d'. Up b (client_device rnd pub dh c spoof sk pk e) = (True, d')"
  using assms
  by (auto simp: Up_def changeState_def upLocked_def BindUpdate_def client_device_def peered_device_def keyed_device_def NewDevice_def isClosed_def
      isUp_def Let_def split: option.split prod.split if_splits)

text \<open>A network where everything works, one where no interface can be made, and a configuration with two hops.\<close>

definition good_world :: world where
  "good_world = \<lparr>w_rnd = (\<lambda>_ _. 7), w_tun = (\<lambda>_ _ _. True), w_bind = (\<lambda>_. hop_bind_ops Some (\<lambda>_. None) True), w_hop_listen = (\<lambda>_. Some),
     w_lookup = (\<lambda>_ _. None), w_hop_close = (\<lambda>_. True), w_listen = (\<lambda>_. Some 1080), w_first = None, w_egress = (\<lambda>_. None), w_probe = None\<rparr>"

definition no_tun_world :: world where "no_tun_world = good_world\<lparr>w_tun := (\<lambda>_ _ _. False)\<rparr>"

definition hop_config :: socksConfig where
  "hop_config = sample_config\<lparr>Address := ''172.16.0.2/32'', DNS := ''1.1.1.1'', Bind := ''127.0.0.1'', SafeSearchVIP := ''216.239.38.120'', Hop := True,
     InnerPrivateKey := b64_text (replicate 32 17), InnerPeerPublicKey := b64_text (replicate 32 251), InnerAddress := ''172.16.0.3'',
     InnerEndpoint := ''188.114.97.170:2408''\<rparr>"

lemma b64_text_nonempty: "k \<noteq> [] \<Longrightarrow> b64_text k \<noteq> []"
  by (cases k rule: b64_text.cases) simp_all

lemma hop_config_parse: "parseConfig hop_config = Some hop_config"
proof -
  have t: "TrimSpace ''216.239.38.120'' \<noteq> []" "TrimSpace ''188.114.97.170:2408'' \<noteq> []" by code_simp+
  have "PrivateKey hop_config \<noteq> []" "PeerPublicKey hop_config \<noteq> []"
    using key_text_nonempty [OF _ sample_keys(1)] key_text_nonempty [OF _ sample_keys(2)] by (simp_all add: hop_config_def)
  moreover have "InnerPrivateKey hop_config \<noteq> []" "InnerPeerPublicKey hop_config \<noteq> []"
    using b64_text_nonempty by (simp_all add: hop_config_def)
  moreover have "with_limits (with_defaults hop_config) = hop_config"
    using t(1) by (simp add: hop_config_def sample_config_def with_limits_def with_defaults_def default_to_def Let_def)
  moreover have "TrimSpace (InnerEndpoint hop_config) \<noteq> []" "InnerAddress hop_config = ''172.16.0.3''" "Hop hop_config"
    "Endpoint hop_config \<noteq> []" "SocksPort hop_config = 0"
    using t(2) by (simp_all add: hop_config_def sample_config_def)
  ultimately show ?thesis by (simp add: parseConfig_def with_hop_def default_to_def Let_def)
qed

lemma sample_addresses:
  "parseAddr ''172.16.0.2/32'' = Some ([172, 16, 0, 2], [])" "parseAddr ''172.16.0.3'' = Some ([172, 16, 0, 3], [])"
  by code_simp+

lemma sample_endpoints:
  "hopBind_ParseEndpoint (\<lambda>_. None) ''162.159.192.1:2408'' = Some (([162, 159, 192, 1], []), 2408)"
  "hopBind_ParseEndpoint (\<lambda>_. None) ''188.114.97.170:2408'' = Some (([188, 114, 97, 170], []), 2408)"
  by code_simp+

lemma sample_normal: "normalizeEndpoint ''188.114.97.170:2408'' = ''188.114.97.170:2408''"
  by code_simp

lemma hop_config_hosts: "hop_hosts hop_config = [''188.114.97.170:2408'']"
proof -
  have "filterSame24 [''188.114.97.170:2408''] ''162.159.192.1:2408'' = [''188.114.97.170:2408'']" by code_simp
  moreover have "hopInnerHosts hop_config = [''188.114.97.170:2408'']"
    by (simp add: hopInnerHosts_def hop_config_def sample_config_def add_host_def sample_normal Let_def)
  ultimately show ?thesis by (simp add: hop_hosts_def hop_config_def sample_config_def Let_def)
qed

abbreviation test_pub :: "bytes \<Rightarrow> bytes" where "test_pub \<equiv> \<lambda>_. zero_key"
abbreviation test_dh :: "bytes \<Rightarrow> bytes \<Rightarrow> bytes" where "test_dh \<equiv> \<lambda>k _. k"
abbreviation test_bind :: "hopEndpoint bind_ops" where "test_bind \<equiv> hop_bind_ops Some (\<lambda>_. None) True"

lemma key_text_plain: "key_text k (b64_text k)"
  unfolding key_text_def Let_def by (rule exI [of _ "[]"], rule exI [of _ "b64_text k"], rule exI [of _ "[]"]) simp

lemma test_request:
  assumes "(privB64, pubB64, endpoint, spoof) \<in> {(PrivateKey hop_config, PeerPublicKey hop_config, Endpoint hop_config, True),
    (InnerPrivateKey hop_config, InnerPeerPublicKey hop_config, ''188.114.97.170:2408'', False)}"
  shows "\<exists>conf d d'. uapiPeer (w_rnd good_world) hop_config privB64 pubB64 endpoint spoof = Some conf \<and>
    IpcSet test_pub test_dh test_bind conf NewDevice = Some (None, d) \<and> Up test_bind d = (True, d')"
proof -
  have keys: "key_text (replicate 32 17) privB64" "key_text (replicate 32 251) pubB64"
    using assms sample_keys key_text_plain by (auto simp: hop_config_def)
  have k: "keyToHex privB64 = Some (EncodeToString (replicate 32 17))" "keyToHex pubB64 = Some (EncodeToString (replicate 32 251))"
    using keyToHex_text keys by simp_all
  have z: "replicate 32 (17 :: u8) \<noteq> zero_key" "replicate 32 251 \<noteq> test_pub (clamp (replicate 32 17))" by (simp_all add: zero_key_def)
  have l: "plain_line (''endpoint='' @ endpoint)" using assms by (auto simp: hop_config_def sample_config_def plain_line_def MaxScanTokenSize_def)
  obtain e where e: "bind_ParseEndpoint test_bind endpoint = Some e"
    using assms sample_endpoints by (auto simp: hop_bind_ops_def hop_config_def sample_config_def)
  have n: "spoof \<longrightarrow> numbers_ok hop_config \<and> length (opening_packet (w_rnd good_world) hop_config) \<le> 32000"
    using opening_packet_length [of hop_config] by (simp add: numbers_ok_def hop_config_def sample_config_def)
  have s: "length (replicate 32 (17 :: u8)) = 32" "length (replicate 32 (251 :: u8)) = 32" by simp_all
  obtain conf where c: "uapiPeer (w_rnd good_world) hop_config privB64 pubB64 endpoint spoof = Some conf"
    "IpcSet test_pub test_dh test_bind conf NewDevice =
      Some (None, client_device (w_rnd good_world) test_pub test_dh hop_config spoof (replicate 32 17) (replicate 32 251) e)"
    using request_accepted [where pub = test_pub and dh = test_dh and b = test_bind and rnd = "w_rnd good_world" and c = hop_config, OF s z l e n k] by blast
  obtain d' where "Up test_bind (client_device (w_rnd good_world) test_pub test_dh hop_config spoof (replicate 32 17) (replicate 32 251) e) = (True, d')"
  proof -
    have "bind_Close test_bind" "\<And>p. bind_Open test_bind p \<noteq> None" "bind_RouteListener test_bind" by (simp_all add: hop_bind_ops_def)
    from client_device_comes_up [OF this] show ?thesis using that by blast
  qed
  then show ?thesis using c by blast
qed

lemma test_replaceInner:
  assumes "tn_innerDev t = None"
  shows "\<exists>en'. replaceInner test_pub test_dh good_world hop_config ''188.114.97.170:2408'' t en =
    Some (True, t\<lparr>tn_innerDev := Some (length (en_devs en)), tn_innerNet := Some (length (en_devs en)), tn_innerLocal := ([172, 16, 0, 3], [])\<rparr>, en')"
proof -
  let ?en = "en\<lparr>en_devs := en_devs en @ [NewDevice]\<rparr>" and ?n = "length (en_devs en)"
  have w: "w_tun good_world n a d" "hop_bind good_world m n = test_bind" for n a d m by (simp_all add: good_world_def hop_bind_def)
  obtain conf d d' where c: "innerUAPI (w_rnd good_world) hop_config ''188.114.97.170:2408'' = Some conf"
    "IpcSet test_pub test_dh test_bind conf NewDevice = Some (None, d)" "Up test_bind d = (True, d')"
    using test_request [of "InnerPrivateKey hop_config" "InnerPeerPublicKey hop_config" "''188.114.97.170:2408''" False] by (auto simp: innerUAPI_def)
  have "start_dev test_pub test_dh test_bind ?n conf ?en = Some (True, set_dev ?n d' ?en)" using start_dev_ok c(2,3) by simp
  moreover have "parseAddr (InnerAddress hop_config) = Some ([172, 16, 0, 3], [])" by (simp add: hop_config_def sample_addresses)
  ultimately show ?thesis using assms c(1) w by (simp add: replaceInner_def Let_def)
qed

lemma test_start: "\<exists>en. startLive test_pub test_dh good_world hop_config no_engine = Some (True, en)"
proof -
  let ?en = "no_engine\<lparr>en_devs := [NewDevice]\<rparr>"
  have w: "w_tun good_world n a d" "w_bind good_world n = test_bind" "w_listen good_world s = Some 1080" for n a d s by (simp_all add: good_world_def)
  obtain conf d d' where c: "uapi (w_rnd good_world) hop_config = Some conf" "IpcSet test_pub test_dh test_bind conf NewDevice = Some (None, d)"
    "Up test_bind d = (True, d')"
    using test_request [of "PrivateKey hop_config" "PeerPublicKey hop_config" "Endpoint hop_config" True] by (auto simp: uapi_def)
  have s: "start_dev test_pub test_dh test_bind 0 conf ?en = Some (True, set_dev 0 d' ?en)" using start_dev_ok c(2,3) by simp
  have a: "parseAddr (Address hop_config) = Some ([172, 16, 0, 2], [])" "Hop hop_config" "\<not> HopShield hop_config"
    by (simp_all add: hop_config_def sample_config_def sample_addresses)
  let ?t = "\<lparr>tn_outerDev = Some 0, tn_innerDev = None, tn_outerNet = 0, tn_innerNet = None, tn_outerLocal = ([172, 16, 0, 2], []),
    tn_innerLocal = ([], []), tn_ln = None, tn_port = 0, tn_cfg = hop_config\<rparr>"
  obtain t2 en2 where r: "replaceInner test_pub test_dh good_world hop_config ''188.114.97.170:2408'' ?t (set_dev 0 d' ?en) = Some (True, t2, en2)"
    using test_replaceInner [of ?t "set_dev 0 d' ?en"] by auto
  then have "startHop test_pub test_dh good_world hop_config ?t (set_dev 0 d' ?en) = Some (True, t2, en2)"
    using a(3) by (simp add: startHop_def hop_config_hosts)
  then have "\<exists>t3 en3. openTunnel test_pub test_dh good_world hop_config no_engine = Some (Some t3, en3)"
    using c(1) s a w by (simp add: openTunnel_def tunnel_listen_def no_engine_def Let_def)
  then show ?thesis by (auto simp: startLive_def stopLive_def no_engine_def)
qed

section \<open>Properties\<close>



text \<open>
  C12. Which hop carries the traffic. A start with two hops succeeds only with an inner device that is up, and connections then
  go through it and not directly through the outer one. Replacing the inner hop while the tunnel is live either puts a new
  inner device in its place or, when it fails, leaves the tunnel live without an inner device although its configuration
  asks for two hops, so that connections go on through the outer device alone.
\<close>

theorem hop_traffic:
  assumes "engine_run pub dh cs no_engine = Some en"
  shows "(startLive pub dh w cfg en = Some (True, en') \<and> Hop cfg \<longrightarrow>
      (\<exists>t m. en_live en' = Some t \<and> tn_innerDev t = Some m \<and> fst (socksTarget t) = m \<and> tn_outerDev t \<noteq> Some m \<and> isUp (en_devs en' ! m))) \<and>
    (en_live en = Some t \<and> Hop (tn_cfg t) \<and> normalizeEndpoint ep \<noteq> [] \<and> setLiveHopInner pub dh w ep en = Some (ok, en') \<longrightarrow>
      (\<exists>t'. en_live en' = Some t' \<and> tn_cfg t' = tn_cfg t \<and> tn_outerDev t' = tn_outerDev t \<and>
         (if ok then \<exists>m. tn_innerDev t' = Some m \<and> fst (socksTarget t') = m \<and> isUp (en_devs en' ! m)
          else tn_innerDev t' = None \<and> tn_outerDev t' = Some (fst (socksTarget t')))))"
proof -
  have inv: "engine_inv en" using engine_run_spec [OF no_engine_inv, of pub dh cs] assms by auto
  have target: "tn_innerDev t = Some m \<Longrightarrow> fst (socksTarget t) = m \<and> tn_outerDev t \<noteq> Some m \<and> isUp (en_devs en' ! m)"
    "tn_innerDev t = None \<Longrightarrow> tn_outerDev t = Some (fst (socksTarget t))" if "tunnel_ok t en'" for t m
    using that by (simp_all add: tunnel_ok_def socksTarget_def owned_def)
  have ok: "tunnel_ok t en'" if "engine_inv en'" "en_live en' = Some t" for t using that by (simp add: engine_inv_def)
  have start: "\<exists>t m. en_live en' = Some t \<and> tn_innerDev t = Some m \<and> fst (socksTarget t) = m \<and> tn_outerDev t \<noteq> Some m \<and> isUp (en_devs en' ! m)"
    if s1: "startLive pub dh w cfg en = Some (True, en')" "Hop cfg"
  proof -
    obtain ok1 en1 where s: "startLive pub dh w cfg en = Some (ok1, en1)" "engine_inv en1" "ok1 \<longleftrightarrow> en_live en1 \<noteq> None"
      "\<forall>t. en_live en1 = Some t \<longrightarrow> tn_cfg t = cfg \<and> (Hop cfg \<longrightarrow> tn_innerDev t \<noteq> None)" using startLive_spec [OF inv, of pub dh w cfg] by blast
    then have "en1 = en'" "ok1" using s1(1) by simp_all
    then obtain t m where t: "engine_inv en'" "en_live en' = Some t" "tn_innerDev t = Some m" using s(2-4) s1(2) by blast
    then show ?thesis using target(1) [OF ok] by blast
  qed
  have replace: "\<exists>t'. en_live en' = Some t' \<and> tn_cfg t' = tn_cfg t \<and> tn_outerDev t' = tn_outerDev t \<and>
      (if ok then \<exists>m. tn_innerDev t' = Some m \<and> fst (socksTarget t') = m \<and> isUp (en_devs en' ! m)
       else tn_innerDev t' = None \<and> tn_outerDev t' = Some (fst (socksTarget t')))"
    if r1: "en_live en = Some t" "Hop (tn_cfg t)" "normalizeEndpoint ep \<noteq> []" "setLiveHopInner pub dh w ep en = Some (ok, en')"
  proof -
    obtain t' where t: "engine_inv en'" "en_live en' = Some t'" "same_outer t t'" "ok \<longleftrightarrow> tn_innerDev t' \<noteq> None"
      using setLiveHopInner_spec [OF inv, of pub dh w ep] r1 by auto
    show ?thesis using t target [where t = t'] \<open>engine_inv en'\<close> by (cases "tn_innerDev t'") (simp_all add: same_outer_def engine_inv_def)
  qed
  show ?thesis using start replace by blast
qed

theorem hop_traffic_witness:
  "\<exists>en en' t. engine_run test_pub test_dh [(\<lambda>_. good_world, AwgStart hop_config)] no_engine = Some en \<and>
     setLiveHopInner test_pub test_dh no_tun_world ''188.114.97.170:2408'' en = Some (False, en') \<and>
     en_live en' = Some t \<and> Hop (tn_cfg t) \<and> tn_outerDev t = Some (fst (socksTarget t))"
proof -
  obtain en where s: "startLive test_pub test_dh good_world hop_config no_engine = Some (True, en)" using test_start by blast
  have e: "engine_run test_pub test_dh [(\<lambda>_. good_world, AwgStart hop_config)] no_engine = Some en"
    using s hop_config_parse by (simp add: engine_step_def)
  have h: "Hop hop_config" by (simp add: hop_config_def)
  obtain t where l: "en_live en = Some t" "tn_cfg t = hop_config" "engine_inv en"
    using startLive_spec [OF no_engine_inv, of test_pub test_dh good_world hop_config] s h by auto
  obtain ok en' where r: "setLiveHopInner test_pub test_dh no_tun_world ''188.114.97.170:2408'' en = Some (ok, en')"
    using setLiveHopInner_spec [OF l(3), of test_pub test_dh no_tun_world "''188.114.97.170:2408''"] by blast
  have "w_tun no_tun_world = (\<lambda>_ _ _. False)" by (simp add: no_tun_world_def)
  then have "\<not> ok" using r l(1,2) h
    by (auto simp: setLiveHopInner_def setHopInner_def sample_normal replaceInner_def Let_def split: option.splits Option.bind_splits)
  moreover have "normalizeEndpoint ''188.114.97.170:2408'' \<noteq> []" by (simp add: sample_normal)
  ultimately show ?thesis
    using hop_traffic [OF e, of no_tun_world hop_config en' t "''188.114.97.170:2408''" ok] e r l h by auto
qed

end
