(* ===== verification/Ray_Socks.thy ===== *)
theory Ray_Socks
  imports Ray_Config "HOL-Library.Sublist"
begin

text \<open>
  The SOCKS server of the client in \<^verbatim>\<open>awg-ios/cmd/persianray\<close>: the policy on hosts (\<^verbatim>\<open>policy.go\<close>), the protocol and what is
  dialled (\<^verbatim>\<open>socks.go\<close>), and the count of blocked advertisements and the quoting of errors (\<^verbatim>\<open>export.go\<close>). A client is the bytes it
  sends; a run of a handler is the list of what it does.
\<close>

section \<open>The policy\<close>

datatype policyAction = actTunnel | actDirect | actBlockAds | actBlock | actSafeSearch

definition policyOn :: "socksConfig \<Rightarrow> bool" where
  "policyOn c \<longleftrightarrow> ApplyPolicy c \<and> (BlockAds c \<or> BlockAdult c \<or> SafeSearch c \<or> BypassLocal c \<or> BlockQuic c)"

definition HasSuffix :: "string \<Rightarrow> string \<Rightarrow> bool" where
  "HasSuffix s suf \<longleftrightarrow> length suf \<le> length s \<and> drop (length s - length suf) s = suf"

fun match_exact :: "string \<Rightarrow> string list \<Rightarrow> bool" where
  "match_exact host [] = False"
| "match_exact host (e # es) = (if host = e then True else match_exact host es)"

fun match_suffix :: "string \<Rightarrow> string list \<Rightarrow> bool" where
  "match_suffix host [] = False"
| "match_suffix host (s # ss) = (if host = s \<or> HasSuffix host (''.'' @ s) then True else match_suffix host ss)"

definition matchHost :: "string \<Rightarrow> string list \<Rightarrow> string list \<Rightarrow> bool" where
  "matchHost host exact sufs \<longleftrightarrow> match_exact host exact \<or> match_suffix host sufs"

definition trim_dot :: "string \<Rightarrow> string" where
  "trim_dot s = (if HasSuffix s ''.'' then take (length s - 1) s else s)"

definition action :: "socksConfig \<Rightarrow> string \<Rightarrow> nat \<Rightarrow> policyAction" where
  "action c host port =
     (if \<not> policyOn c then actTunnel
      else let h = ToLower (trim_dot host) in
        if BlockAds c \<and> matchHost h (AdExact c) (AdSuffix c) then actBlockAds
        else if BlockAdult c \<and> matchHost h (AdultExact c) (AdultSuffix c) then actBlock
        else if SafeSearch c \<and> port = 853 then actBlock
        else if SafeSearch c \<and> matchHost h (DoHExact c) (DoHSuffix c) then actBlock
        else if SafeSearch c \<and> matchHost h (SafeSearchExact c) [] then actSafeSearch
        else if BypassLocal c \<and> matchHost h [] (LocalSuffix c) then actDirect
        else actTunnel)"

definition dropQUIC :: "socksConfig \<Rightarrow> nat \<Rightarrow> bool" where
  "dropQUIC c port \<longleftrightarrow> ApplyPolicy c \<and> (BlockQuic c \<or> SafeSearch c) \<and> port = 443"

definition joinHostPort :: "string \<Rightarrow> nat \<Rightarrow> string" where "joinHostPort host port = JoinHostPort host (decimal port)"

section \<open>Addresses as text\<close>

text \<open>\<^verbatim>\<open>net.IP.String\<close>: dotted decimal, or hexadecimal fields where the first longest run of zeros is left out.\<close>

fun join :: "string \<Rightarrow> string list \<Rightarrow> string" where
  "join sep [] = []"
| "join sep [x] = x"
| "join sep (x # y # xs) = x @ sep @ join sep (y # xs)"

fun hex_text :: "nat \<Rightarrow> string" where
  "hex_text n = (if n < 16 then [hex_digit n] else hex_text (n div 16) @ [hex_digit (n mod 16)])"

declare hex_text.simps [simp del]

fun fields16 :: "bytes \<Rightarrow> nat list" where
  "fields16 (a # b # r) = (256 * unat a + unat b) # fields16 r"
| "fields16 _ = []"

definition zero_run :: "nat list \<Rightarrow> nat \<times> nat" where
  "zero_run gs =
     fold (\<lambda>i (s, e). let l = length (takeWhile (\<lambda>g. g = 0) (drop i gs)) in if 2 \<le> l \<and> e - s < l then (i, i + l) else (s, e)) [0..<8] (255, 255)"

definition v6_text :: "bytes \<Rightarrow> string" where
  "v6_text ip =
     (let gs = fields16 ip; (s, e) = zero_run gs in
      if s = 255 then join '':'' (map hex_text gs)
      else join '':'' (map hex_text (take s gs)) @ ''::'' @ join '':'' (map hex_text (drop e gs)))"

definition To4 :: "bytes \<Rightarrow> bytes option" where
  "To4 ip = (if length ip = 4 then Some ip else if length ip = 16 \<and> take 12 ip = replicate 10 0 @ [255, 255] then Some (drop 12 ip) else None)"

definition IP_String :: "bytes \<Rightarrow> string" where
  "IP_String ip = (case To4 ip of Some v4 \<Rightarrow> join ''.'' (map (\<lambda>b. decimal (unat b)) v4) | None \<Rightarrow> v6_text ip)"

section \<open>The protocol\<close>

definition be16 :: "u8 \<Rightarrow> u8 \<Rightarrow> nat" where "be16 a b = 256 * unat a + unat b"

definition text_of :: "bytes \<Rightarrow> string" where "text_of b = map (\<lambda>x. char_of (unat x)) b"

text \<open>\<^verbatim>\<open>io.ReadFull\<close>: the bytes and the rest of the stream, or an error when it ends too early.\<close>

definition ReadFull :: "nat \<Rightarrow> bytes \<Rightarrow> (bytes \<times> bytes) option" where
  "ReadFull n r = (if length r < n then None else Some (take n r, drop n r))"

definition readSocksAddr :: "u8 \<Rightarrow> bytes \<Rightarrow> ((string \<times> nat) \<times> bytes) option" where
  "readSocksAddr atyp r =
     (if atyp = 1 then do { (a, r) \<leftarrow> ReadFull 6 r; Some ((IP_String (take 4 a), be16 (a ! 4) (a ! 5)), r) }
      else if atyp = 4 then do { (a, r) \<leftarrow> ReadFull 18 r; Some ((IP_String (take 16 a), be16 (a ! 16) (a ! 17)), r) }
      else if atyp = 3 then do {
        (lb, r) \<leftarrow> ReadFull 1 r;
        (a, r) \<leftarrow> ReadFull (unat (lb ! 0) + 2) r;
        let n = length a - 2;
        Some ((text_of (take n a), be16 (a ! n) (a ! (n + 1))), r) }
      else None)"

text \<open>\<^verbatim>\<open>parseSocksUDP\<close> and \<^verbatim>\<open>encodeSocksUDP\<close>.\<close>

definition parseSocksUDP :: "bytes \<Rightarrow> (string \<times> nat \<times> bytes) option" where
  "parseSocksUDP b =
     (if length b < 4 \<or> b ! 2 \<noteq> 0 then None
      else if b ! 3 = 1 then
        (if length b < 10 then None else Some (IP_String (take 4 (drop 4 b)), be16 (b ! 8) (b ! 9), drop 10 b))
      else if b ! 3 = 4 then
        (if length b < 22 then None else Some (IP_String (take 16 (drop 4 b)), be16 (b ! 20) (b ! 21), drop 22 b))
      else if b ! 3 = 3 then
        (if length b < 5 then None
         else let n = unat (b ! 4) in
           if length b < 7 + n then None
           else Some (text_of (take n (drop 5 b)), be16 (b ! (5 + n)) (b ! (6 + n)), drop (7 + n) b))
      else None)"

definition encodeSocksUDP :: "string \<Rightarrow> bytes \<Rightarrow> bytes" where
  "encodeSocksUDP source payload =
     (let (host, portStr) = (case SplitHostPort source of Some hp \<Rightarrow> hp | None \<Rightarrow> ([], []));
          port = (case Atoi portStr of Some p \<Rightarrow> p | None \<Rightarrow> 0);
          pb = put16 (of_int port)
      in case ParseAddr host of
           None \<Rightarrow> payload
         | Some ip \<Rightarrow>
             (case To4 ip of
                Some v4 \<Rightarrow> [0, 0, 0, 1] @ v4 @ pb @ payload
              | None \<Rightarrow> [0, 0, 0, 4] @ ip @ pb @ payload))"

section \<open>The handlers\<close>

text \<open>
  What a handler does: bytes to the client, a connection through the tunnel or directly, the copying in both directions
  that follows, one more blocked advertisement, a datagram into the tunnel. \<open>dial\<close> says whether a connection succeeds,
  \<open>wr\<close> whether the \<open>k\<close>-th write to the client does.
\<close>

datatype sevent = Reply bytes | DialTunnel string | DialDirect string | CopyBoth | CountAd | UdpAssociate | TunnelDatagram string bytes

definition socksFail :: "u8 \<Rightarrow> sevent" where "socksFail rep = Reply [5, rep, 0, 1, 0, 0, 0, 0, 0, 0]"

definition connected :: "bool \<Rightarrow> sevent list" where
  "connected writeOk = Reply [5, 0, 0, 1, 0, 0, 0, 0, 0, 0] # (if writeOk then [CopyBoth] else [])"

definition proxyDirect :: "(sevent \<Rightarrow> bool) \<Rightarrow> bool \<Rightarrow> string \<Rightarrow> nat \<Rightarrow> sevent list" where
  "proxyDirect dial writeOk host port =
     (let d = DialDirect (joinHostPort host port) in d # (if \<not> dial d then [socksFail 5] else connected writeOk))"

definition proxyConnect :: "(sevent \<Rightarrow> bool) \<Rightarrow> bool \<Rightarrow> string \<Rightarrow> nat \<Rightarrow> socksConfig \<Rightarrow> sevent list" where
  "proxyConnect dial writeOk host port c =
     (case action c host port of
        actBlockAds \<Rightarrow> [CountAd, socksFail 2]
      | actBlock \<Rightarrow> [socksFail 2]
      | actDirect \<Rightarrow> proxyDirect dial writeOk host port
      | a \<Rightarrow>
          let d = DialTunnel (joinHostPort (if a = actSafeSearch then SafeSearchVIP c else host) port) in
          d # (if \<not> dial d then [socksFail 5] else connected writeOk))"

definition handleSocks :: "(sevent \<Rightarrow> bool) \<Rightarrow> (nat \<Rightarrow> bool) \<Rightarrow> bytes \<Rightarrow> socksConfig \<Rightarrow> sevent list" where
  "handleSocks dial wr r c =
     (case ReadFull 2 r of
        None \<Rightarrow> []
      | Some (hdr, r) \<Rightarrow>
          if hdr ! 0 \<noteq> 5 then []
          else case ReadFull (unat (hdr ! 1)) r of
            None \<Rightarrow> []
          | Some (_, r) \<Rightarrow>
              Reply [5, 0] #
              (if \<not> wr 0 then []
               else case ReadFull 4 r of
                 None \<Rightarrow> []
               | Some (req, r) \<Rightarrow>
                   if req ! 0 \<noteq> 5 then []
                   else case readSocksAddr (req ! 3) r of
                     None \<Rightarrow> []
                   | Some ((host, port), _) \<Rightarrow>
                       if req ! 1 = 1 then proxyConnect dial (wr 1) host port c
                       else if req ! 1 = 3 then [UdpAssociate]
                       else [Reply [5, 7, 0, 1, 0, 0, 0, 0, 0, 0]]))"

text \<open>
  \<^verbatim>\<open>proxyUDP\<close>: one datagram of the client and one of the tunnel, with the address of the last client datagram that was
  let through. \<open>resolve\<close> is \<^verbatim>\<open>net.ResolveUDPAddr\<close>.
\<close>

definition client_datagram ::
  "(string \<Rightarrow> string option) \<Rightarrow> socksConfig \<Rightarrow> 'a \<Rightarrow> bytes \<Rightarrow> 'a option \<Rightarrow> sevent list \<times> 'a option" where
  "client_datagram resolve c addr b clientAddr =
     (case parseSocksUDP b of
        None \<Rightarrow> ([], clientAddr)
      | Some (host, port, payload) \<Rightarrow>
          if dropQUIC c port then ([], clientAddr)
          else case action c host port of
            actBlockAds \<Rightarrow> ([CountAd], clientAddr)
          | actBlock \<Rightarrow> ([], clientAddr)
          | actDirect \<Rightarrow> ([], clientAddr)
          | actSafeSearch \<Rightarrow> ([], clientAddr)
          | actTunnel \<Rightarrow>
              (case resolve (joinHostPort host port) of
                 None \<Rightarrow> ([], Some addr)
               | Some raddr \<Rightarrow> ([TunnelDatagram raddr payload], Some addr)))"

definition tunnel_datagram :: "string \<Rightarrow> bytes \<Rightarrow> 'a option \<Rightarrow> ('a \<times> bytes) option" where
  "tunnel_datagram source payload clientAddr = map_option (\<lambda>dst. (dst, encodeSocksUDP source payload)) clientAddr"

text \<open>
  The other side, in \<^verbatim>\<open>socksGenerate204\<close>: what a probe sends and how it reads the answers, up to the response of the host.
\<close>

definition probe_sends :: "bytes \<Rightarrow> u16 \<Rightarrow> bytes" where
  "probe_sends host port = [5, 1, 0] @ [5, 1, 0, 3, of_nat (length host)] @ host @ put16 port"

definition probe_reads :: "bytes \<Rightarrow> bytes option" where
  "probe_reads r = do {
     (greet, r) \<leftarrow> ReadFull 2 r;
     if greet ! 0 \<noteq> 5 \<or> greet ! 1 \<noteq> 0 then None
     else do {
       (head, r) \<leftarrow> ReadFull 4 r;
       if head ! 0 \<noteq> 5 \<or> head ! 1 \<noteq> 0 then None
       else do {
         (_, r) \<leftarrow>
           (if head ! 3 = 1 then ReadFull 4 r
            else if head ! 3 = 4 then ReadFull 16 r
            else if head ! 3 = 3 then do { (lb, r) \<leftarrow> ReadFull 1 r; ReadFull (unat (lb ! 0)) r }
            else None);
         (_, r) \<leftarrow> ReadFull 2 r;
         Some r } } }"

text \<open>\<^verbatim>\<open>adBlockPending\<close> and \<^verbatim>\<open>AwgAdBlockTake\<close>; \<^verbatim>\<open>jsonQuote\<close>.\<close>

definition count_ads :: "sevent list \<Rightarrow> int \<Rightarrow> int" where
  "count_ads es pending = i64 (pending + int (length (filter (\<lambda>e. e = CountAd) es)))"

definition AwgAdBlockTake :: "int \<Rightarrow> int \<times> int" where "AwgAdBlockTake pending = (pending, 0)"

definition quote_char :: "char \<Rightarrow> string" where
  "quote_char c =
     (if c = CHR 0x5C \<or> c = CHR 0x22 then [CHR 0x5C, c]
      else if c = CHR 0x0A then [CHR 0x5C, CHR ''n'']
      else if c = CHR 0x0D then [CHR 0x5C, CHR ''r'']
      else [c])"

definition jsonQuote :: "string \<Rightarrow> string" where
  "jsonQuote s = [CHR 0x22] @ concat (map quote_char s) @ [CHR 0x22]"

section \<open>Hosts and domains\<close>

abbreviation labels :: "string \<Rightarrow> string list" where "labels \<equiv> Split_char (CHR ''.'')"

lemma HasSuffix_iff: "HasSuffix s suf \<longleftrightarrow> suffix suf s"
proof
  assume "HasSuffix s suf"
  then show "suffix suf s" unfolding HasSuffix_def by (metis suffix_drop)
next
  assume "suffix suf s"
  then show "HasSuffix s suf" by (auto simp: HasSuffix_def suffix_def)
qed

lemma Split_char_nonempty: "Split_char x s \<noteq> []"
  by (induction s) (auto split: list.splits)

lemma Split_char_append: "Split_char x (u @ x # v) = Split_char x u @ Split_char x v"
proof (induction u)
  case Nil
  then show ?case using Split_char_nonempty [of x v] by (auto split: list.splits)
next
  case (Cons c u)
  then show ?case using Split_char_nonempty [of x u] by (cases "Split_char x u") auto
qed

lemma join_Split: "join [x] (Split_char x s) = s"
proof (induction s)
  case (Cons c s)
  then show ?case using Split_char_nonempty [of x s]
    by (cases "Split_char x s"; cases "tl (Split_char x s)") auto
qed simp

lemma join_append: "xs \<noteq> [] \<Longrightarrow> ys \<noteq> [] \<Longrightarrow> join sep (xs @ ys) = join sep xs @ sep @ join sep ys"
  by (induction sep xs rule: join.induct) (auto simp: neq_Nil_conv)

text \<open>A suffix entry matches the domain itself and its subdomains.\<close>

lemma domain_match: "host = s \<or> HasSuffix host (''.'' @ s) \<longleftrightarrow> suffix (labels s) (labels host)"
proof
  assume "host = s \<or> HasSuffix host (''.'' @ s)"
  then show "suffix (labels s) (labels host)" by (auto simp: HasSuffix_iff suffix_def Split_char_append)
next
  assume "suffix (labels s) (labels host)"
  then obtain ps where p: "labels host = ps @ labels s" by (auto simp: suffix_def)
  show "host = s \<or> HasSuffix host (''.'' @ s)"
  proof (cases "ps = []")
    case True
    then show ?thesis using p join_Split by (metis append_Nil)
  next
    case False
    then have "host = join ''.'' ps @ ''.'' @ s" using p join_append [OF False Split_char_nonempty] join_Split by metis
    then show ?thesis by (auto simp: HasSuffix_iff suffix_def)
  qed
qed

definition in_lists :: "string \<Rightarrow> string list \<Rightarrow> string list \<Rightarrow> bool" where
  "in_lists h exact sufs \<longleftrightarrow> h \<in> set exact \<or> (\<exists>s\<in>set sufs. suffix (labels s) (labels h))"

lemma matchHost_iff: "matchHost h exact sufs \<longleftrightarrow> in_lists h exact sufs"
proof -
  have "match_exact h exact \<longleftrightarrow> h \<in> set exact" by (induction exact) auto
  moreover have "match_suffix h sufs \<longleftrightarrow> (\<exists>s\<in>set sufs. h = s \<or> HasSuffix h (''.'' @ s))" by (induction sufs) auto
  ultimately show ?thesis unfolding matchHost_def in_lists_def domain_match by simp
qed

section \<open>The messages of a client\<close>

lemma be16_put16: "be16 (put16 p ! 0) (put16 p ! 1) = unat p"
proof -
  have u: "unat p < 65536" using unsigned_less [of p] by simp
  have "unat (put16 p ! 0) = unat p div 256" using u by (simp add: put16_def unsigned_ucast_eq unat_div_distrib drop_bit_eq_div take_bit_eq_mod div_less_iff_less_mult)
  moreover have "unat (put16 p ! 1) = unat p mod 256" by (simp add: put16_def unsigned_ucast_eq take_bit_eq_mod)
  ultimately show ?thesis by (simp add: be16_def)
qed

lemma ReadFull_append: "length a = n \<Longrightarrow> ReadFull n (a @ r) = Some (a, r)" by (auto simp: ReadFull_def)

lemma unat_len: "n < 256 \<Longrightarrow> unat (of_nat n :: u8) = n" by (simp add: unat_of_nat)

text \<open>An address as a client sends it: its type, the bytes, and the text the server makes of it.\<close>

datatype socks_addr = SocksIP bytes | SocksName bytes

fun addr_ok :: "socks_addr \<Rightarrow> bool" where
  "addr_ok (SocksIP ip) = (length ip = 4 \<or> length ip = 16)"
| "addr_ok (SocksName name) = (length name < 256)"

fun addr_type :: "socks_addr \<Rightarrow> u8" where
  "addr_type (SocksIP ip) = (if length ip = 4 then 1 else 4)"
| "addr_type (SocksName name) = 3"

fun addr_bytes :: "socks_addr \<Rightarrow> bytes" where
  "addr_bytes (SocksIP ip) = ip"
| "addr_bytes (SocksName name) = of_nat (length name) # name"

fun addr_text :: "socks_addr \<Rightarrow> string" where
  "addr_text (SocksIP ip) = IP_String ip"
| "addr_text (SocksName name) = text_of name"

lemma readSocksAddr_sent:
  assumes "addr_ok a"
  shows "readSocksAddr (addr_type a) (addr_bytes a @ put16 p @ r) = Some ((addr_text a, unat p), r)"
proof -
  have n: "(xs @ put16 p) ! k = put16 p ! 0" "(xs @ put16 p) ! Suc k = put16 p ! 1" if "length xs = k" for xs k
    using that by (auto simp: nth_append)
  show ?thesis
  proof (cases a)
    case (SocksIP ip)
    have "ReadFull (length ip + 2) (ip @ put16 p @ r) = Some (ip @ put16 p, r)" using ReadFull_append [of "ip @ put16 p" "length ip + 2" r] by simp
    moreover have "length ip = 4 \<Longrightarrow> (ip @ put16 p) ! 4 = put16 p ! 0 \<and> (ip @ put16 p) ! 5 = put16 p ! 1"
      "length ip = 16 \<Longrightarrow> (ip @ put16 p) ! 16 = put16 p ! 0 \<and> (ip @ put16 p) ! 17 = put16 p ! 1" by (simp_all add: nth_append)
    ultimately show ?thesis using assms SocksIP be16_put16 [of p] by (cases "length ip = 4") (simp_all add: readSocksAddr_def)
  next
    case (SocksName name)
    have "ReadFull (length name + 2) (name @ put16 p @ r) = Some (name @ put16 p, r)"
      using ReadFull_append [of "name @ put16 p" "length name + 2" r] by simp
    moreover have "ReadFull 1 (of_nat (length name) # name @ put16 p @ r) = Some ([of_nat (length name)], name @ put16 p @ r)"
      by (simp add: ReadFull_def)
    ultimately show ?thesis using assms SocksName n [of name "length name"] be16_put16 [of p] by (simp add: readSocksAddr_def unat_len)
  qed
qed

definition connect_request :: "bytes \<Rightarrow> u8 \<Rightarrow> socks_addr \<Rightarrow> u16 \<Rightarrow> bytes" where
  "connect_request methods cmd a p =
     [5, of_nat (length methods)] @ methods @ [5, cmd, 0, addr_type a] @ addr_bytes a @ put16 p"

lemma handleSocks_request:
  assumes "length methods < 256" "addr_ok a"
  shows "handleSocks dial wr (connect_request methods cmd a p @ r) c =
    Reply [5, 0] # (if \<not> wr 0 then [] else if cmd = 1 then proxyConnect dial (wr 1) (addr_text a) (unat p) c
      else if cmd = 3 then [UdpAssociate] else [Reply [5, 7, 0, 1, 0, 0, 0, 0, 0, 0]])"
proof -
  have "connect_request methods cmd a p @ r =
      [5, of_nat (length methods)] @ methods @ [5, cmd, 0, addr_type a] @ addr_bytes a @ put16 p @ r" by (simp add: connect_request_def)
  moreover have "ReadFull 2 ([5, of_nat (length methods)] @ u) = Some ([5, of_nat (length methods)], u)"
    "ReadFull (length methods) (methods @ u) = Some (methods, u)" "ReadFull 4 ([5, cmd, 0, addr_type a] @ u) = Some ([5, cmd, 0, addr_type a], u)" for u
    by (rule ReadFull_append, simp)+
  ultimately show ?thesis using readSocksAddr_sent [OF assms(2), of p r] by (simp only: handleSocks_def) (simp add: unat_len [OF assms(1)])
qed

lemma parseSocksUDP_sent:
  assumes "addr_ok a"
  shows "parseSocksUDP ([0, 0, 0, addr_type a] @ addr_bytes a @ put16 p @ payload) = Some (addr_text a, unat p, payload)"
proof (cases a)
  case (SocksIP ip)
  let ?b = "[0, 0, 0, addr_type a] @ ip @ put16 p @ payload"
  have "length ip = 4 \<Longrightarrow> ?b ! 8 = put16 p ! 0 \<and> ?b ! 9 = put16 p ! 1"
    "length ip = 16 \<Longrightarrow> ?b ! 20 = put16 p ! 0 \<and> ?b ! 21 = put16 p ! 1" by (simp_all add: nth_append nth_Cons')
  then show ?thesis using assms SocksIP be16_put16 [of p] by (cases "length ip = 4") (simp_all add: parseSocksUDP_def)
next
  case (SocksName name)
  let ?b = "[0, 0, 0, 3, of_nat (length name)] @ name @ put16 p @ payload"
  have "?b ! (5 + length name) = put16 p ! 0" "?b ! (6 + length name) = put16 p ! 1"
    by (simp_all add: nth_append nth_Cons')
  moreover have "drop (7 + length name) (xs @ payload) = payload" if "length xs = 7 + length name" for xs using that by simp
  from this [of "[0, 0, 0, 3, of_nat (length name)] @ name @ put16 p"] have "drop (7 + length name) ?b = payload" by simp
  ultimately show ?thesis using assms SocksName be16_put16 [of p] by (simp add: parseSocksUDP_def unat_len nth_Cons' Let_def)
qed

lemma encodeSocksUDP_text:
  assumes "SplitHostPort source = Some (host, decimal n)" "ParseAddr host = Some ip" "length ip = 4 \<or> length ip = 16" "n < 65536"
  shows "parseSocksUDP (encodeSocksUDP source payload) = Some (IP_String ip, n, payload)"
proof -
  have d: "decimal n \<noteq> []" "list_all is_dec (decimal n)" "foldl (\<lambda>acc c. 10 * acc + digit_value c) 0 (decimal n) = n" using decimal_digits [of n] by simp_all
  then have "hd (decimal n) \<notin> {CHR ''-'', CHR ''+''}" by (cases "decimal n") (auto simp: is_dec_def)
  then have port: "Atoi (decimal n) = Some (int n)" using d assms(4) by (simp add: Atoi_def)
  have u: "unat (of_int (int n) :: u16) = n" using assms(4) by (simp add: unat_of_nat)
  show ?thesis
  proof (cases "To4 ip")
    case None
    then have "addr_ok (SocksIP ip)" "length ip = 16" using assms(3) by (auto simp: To4_def)
    then show ?thesis using parseSocksUDP_sent [of "SocksIP ip" "of_int (int n)" payload] assms(1,2) port u None by (simp add: encodeSocksUDP_def)
  next
    case (Some v4)
    then have v: "length v4 = 4" "IP_String v4 = IP_String ip" using assms(3) by (auto simp: To4_def IP_String_def split: if_splits)
    then show ?thesis using parseSocksUDP_sent [of "SocksIP v4" "of_int (int n)" payload] assms(1,2) port u Some by (simp add: encodeSocksUDP_def)
  qed
qed

text \<open>The bytes a handler has sent to its client.\<close>

fun replies :: "sevent list \<Rightarrow> bytes" where
  "replies [] = []"
| "replies (Reply b # es) = b @ replies es"
| "replies (_ # es) = replies es"

lemma probe_connect_request: "probe_sends name p = connect_request [0] 1 (SocksName name) p"
  by (simp add: probe_sends_def connect_request_def)

lemma probe_reads_reply:
  "probe_reads (5 # 0 # 5 # 0 # 0 # 1 # 0 # 0 # 0 # 0 # 0 # 0 # r) = Some r"
  "k \<noteq> 0 \<Longrightarrow> probe_reads (5 # 0 # 5 # k # s) = None"
  by (simp_all add: probe_reads_def ReadFull_def)

lemma probe_served:
  assumes "length name < 256"
  shows "probe_reads (replies (handleSocks dial (\<lambda>_. True) (probe_sends name p) c) @ r) =
    (case action c (text_of name) (unat p) of
       actBlockAds \<Rightarrow> None
     | actBlock \<Rightarrow> None
     | actDirect \<Rightarrow> if dial (DialDirect (joinHostPort (text_of name) (unat p))) then Some r else None
     | actSafeSearch \<Rightarrow> if dial (DialTunnel (joinHostPort (SafeSearchVIP c) (unat p))) then Some r else None
     | actTunnel \<Rightarrow> if dial (DialTunnel (joinHostPort (text_of name) (unat p))) then Some r else None)"
proof -
  have "handleSocks dial (\<lambda>_. True) (probe_sends name p) c = Reply [5, 0] # proxyConnect dial True (text_of name) (unat p) c"
    using handleSocks_request [of "[0]" "SocksName name" dial "\<lambda>_. True" 1 p "[]" c] assms by (simp add: probe_connect_request)
  then have "replies (handleSocks dial (\<lambda>_. True) (probe_sends name p) c) = 5 # 0 # replies (proxyConnect dial True (text_of name) (unat p) c)"
    by simp
  moreover have "replies (proxyConnect dial True (text_of name) (unat p) c) =
      (let ok = [5, 0, 0, 1, 0, 0, 0, 0, 0, 0]; fail = (\<lambda>k. [5, k, 0, 1, 0, 0, 0, 0, 0, 0]) in
       case action c (text_of name) (unat p) of
         actBlockAds \<Rightarrow> fail 2
       | actBlock \<Rightarrow> fail 2
       | actDirect \<Rightarrow> if dial (DialDirect (joinHostPort (text_of name) (unat p))) then ok else fail 5
       | actSafeSearch \<Rightarrow> if dial (DialTunnel (joinHostPort (SafeSearchVIP c) (unat p))) then ok else fail 5
       | actTunnel \<Rightarrow> if dial (DialTunnel (joinHostPort (text_of name) (unat p))) then ok else fail 5)"
    by (cases "action c (text_of name) (unat p)") (simp_all add: proxyConnect_def proxyDirect_def connected_def socksFail_def)
  ultimately show ?thesis
    by (cases "action c (text_of name) (unat p)") (simp_all add: probe_reads_reply)
qed

text \<open>A datagram whose source has a zone goes back without a header.\<close>

lemma zone_without_header: "encodeSocksUDP ''[fe80::1%en0]:53'' [9] = [9]"
  by code_simp

text \<open>The text in quotes reads back when the quotes and the escapes are undone.\<close>

fun unquote :: "string \<Rightarrow> string" where
  "unquote [] = []"
| "unquote [c] = (if c = CHR 0x22 then [] else [c])"
| "unquote (c # d # s) =
     (if c = CHR 0x22 then []
      else if c = CHR 0x5C then (if d = CHR ''n'' then CHR 0x0A else if d = CHR ''r'' then CHR 0x0D else d) # unquote s
      else c # unquote (d # s))"

lemma unquote_jsonQuote: "unquote (tl (jsonQuote s)) = s"
proof -
  have "unquote (concat (map quote_char s) @ [CHR 0x22]) = s"
  proof (induction s)
    case (Cons c s)
    obtain d u where u: "concat (map quote_char s) @ [CHR 0x22] = d # u" by (cases "concat (map quote_char s) @ [CHR 0x22]") auto
    then have "concat (map quote_char (c # s)) @ [CHR 0x22] = quote_char c @ d # u" by simp
    moreover have "unquote (d # u) = s" using Cons u by simp
    moreover have "unquote (quote_char c @ d # u) = c # unquote (d # u)" by (simp add: quote_char_def)
    ultimately show ?case by (simp only:)
  qed simp
  then show ?thesis by (simp add: jsonQuote_def)
qed

lemma ParseAddr_length: "ParseAddr u = Some ip \<Longrightarrow> length ip = 4 \<or> length ip = 16"
  using parse_v4_fields_length [of "map of_char u" "[]" 0 0 True ip] parse_v6_length [of "map of_char u" ip]
  by (auto simp: ParseAddr_def Let_def split: list.splits if_splits)

lemma ReadFull_take: "length a = n \<Longrightarrow> ReadFull n (take k (a @ r)) = (if k < n then None else Some (a, take (k - n) r))"
  by (auto simp: ReadFull_def)

lemma readSocksAddr_short:
  assumes "addr_ok a" "k < length (addr_bytes a) + 2"
  shows "readSocksAddr (addr_type a) (take k (addr_bytes a @ put16 p)) = None"
proof (cases a)
  case (SocksIP ip)
  then show ?thesis using assms by (cases "length ip = 4") (simp_all add: readSocksAddr_def ReadFull_def)
next
  case (SocksName name)
  then show ?thesis using assms by (cases k) (simp_all add: readSocksAddr_def ReadFull_def unat_len)
qed

lemma handleSocks_short:
  assumes "length methods < 256" "addr_ok a" "n < length (connect_request methods cmd a p)"
  shows "handleSocks dial wr (take n (connect_request methods cmd a p)) c \<in> {[], [Reply [5, 0]]}"
proof -
  have l: "length (connect_request methods cmd a p) = 8 + length methods + length (addr_bytes a)" by (simp add: connect_request_def)
  have t: "ReadFull 2 (take k ([5, of_nat (length methods)] @ u)) = (if k < 2 then None else Some ([5, of_nat (length methods)], take (k - 2) u))"
    "ReadFull (length methods) (take k (methods @ u)) = (if k < length methods then None else Some (methods, take (k - length methods) u))"
    "ReadFull 4 (take k ([5, cmd, 0, addr_type a] @ u)) = (if k < 4 then None else Some ([5, cmd, 0, addr_type a], take (k - 4) u))" for k u
    by (rule ReadFull_take, simp)+
  have s: "readSocksAddr (addr_type a) (take (n - 2 - length methods - 4) (addr_bytes a @ put16 p)) = None" if "2 + length methods + 4 \<le> n"
    by (rule readSocksAddr_short [OF assms(2)]) (use that assms(3) l in linarith)
  have "connect_request methods cmd a p = [5, of_nat (length methods)] @ methods @ [5, cmd, 0, addr_type a] @ addr_bytes a @ put16 p"
    by (simp add: connect_request_def)
  note e = this
  consider "n < 2" | "2 \<le> n" "n < 2 + length methods" | "2 + length methods \<le> n" "n < 6 + length methods" | "6 + length methods \<le> n" by linarith
  then show ?thesis
  proof cases
    case 4
    then show ?thesis using s unfolding e handleSocks_def by (simp add: t unat_len [OF assms(1)] del: append.simps take_append)
  qed (unfold e handleSocks_def, simp_all add: t unat_len [OF assms(1)] del: append.simps take_append)
qed

section \<open>Properties\<close>

text \<open>
  C17. The policy holds for what is dialled. A name is on a list when it is one of the exact names or a suffix entry is
  that domain or one above it, without regard to case and to a final dot. Without a policy every connection goes through the
  tunnel to the address that was asked for. With one: a name on the list of advertisements is refused and counted once, before
  all other rules; a name on the adult list, and with Safe Search the port of DNS over TLS and the names of DNS over HTTPS, are
  refused and nothing is dialled; a Safe Search name is dialled through the tunnel at the Safe Search address only; only
  names on the local list leave the tunnel. A datagram reaches the tunnel only when no rule takes its host or port.
\<close>

theorem policy_respected:
  fixes c host port dial w
  defines "h \<equiv> ToLower (trim_dot host)" and "es \<equiv> proxyConnect dial w host port c"
  defines "ad \<equiv> BlockAds c \<and> in_lists h (AdExact c) (AdSuffix c)"
    and "refused \<equiv> BlockAdult c \<and> in_lists h (AdultExact c) (AdultSuffix c) \<or> SafeSearch c \<and> (port = 853 \<or> in_lists h (DoHExact c) (DoHSuffix c))"
  shows "(\<not> policyOn c \<longrightarrow> hd es = DialTunnel (joinHostPort host port) \<and> (\<forall>a. DialDirect a \<notin> set es)) \<and>
    (policyOn c \<longrightarrow>
       (ad \<longrightarrow> es = [CountAd, socksFail 2]) \<and>
       (\<not> ad \<and> refused \<longrightarrow> es = [socksFail 2]) \<and>
       (\<not> ad \<and> \<not> refused \<and> SafeSearch c \<and> h \<in> set (SafeSearchExact c) \<longrightarrow>
          hd es = DialTunnel (joinHostPort (SafeSearchVIP c) port) \<and> (\<forall>a. DialDirect a \<notin> set es)) \<and>
       (DialDirect a \<in> set es \<longrightarrow> BypassLocal c \<and> in_lists h [] (LocalSuffix c) \<and> a = joinHostPort host port)) \<and>
    (CountAd \<in> set es \<longrightarrow> policyOn c \<and> ad) \<and>
    (TunnelDatagram raddr payload \<in> set (fst (client_datagram resolve c addr b old)) \<longrightarrow>
       (\<exists>host port. parseSocksUDP b = Some (host, port, payload) \<and> action c host port = actTunnel \<and> \<not> dropQUIC c port \<and>
          resolve (joinHostPort host port) = Some raddr))"
proof -
  have s: "in_lists h (SafeSearchExact c) [] \<longleftrightarrow> h \<in> set (SafeSearchExact c)" by (simp add: in_lists_def)
  have a: "action c host port =
      (if \<not> policyOn c then actTunnel else if ad then actBlockAds else if refused then actBlock
       else if SafeSearch c \<and> h \<in> set (SafeSearchExact c) then actSafeSearch
       else if BypassLocal c \<and> in_lists h [] (LocalSuffix c) then actDirect else actTunnel)"
    unfolding action_def Let_def matchHost_iff ad_def refused_def h_def [symmetric] s by auto
  have es: "es = (case action c host port of actBlockAds \<Rightarrow> [CountAd, socksFail 2] | actBlock \<Rightarrow> [socksFail 2]
      | actDirect \<Rightarrow> proxyDirect dial w host port
      | act \<Rightarrow> let d = DialTunnel (joinHostPort (if act = actSafeSearch then SafeSearchVIP c else host) port) in
          d # (if \<not> dial d then [socksFail 5] else connected w))" by (simp add: es_def proxyConnect_def)
  have d: "TunnelDatagram raddr payload \<in> set (fst (client_datagram resolve c addr b old)) \<Longrightarrow>
      \<exists>host port. parseSocksUDP b = Some (host, port, payload) \<and> action c host port = actTunnel \<and> \<not> dropQUIC c port \<and>
        resolve (joinHostPort host port) = Some raddr"
    by (auto simp: client_datagram_def split: option.splits if_splits policyAction.splits)
  show ?thesis using d unfolding es a
    by (auto simp: proxyDirect_def connected_def socksFail_def Let_def split: if_splits)
qed

text \<open>A configuration with one list of each kind.\<close>

definition policy_config :: socksConfig where
  "policy_config = \<lparr>PrivateKey = [], PeerPublicKey = [], Address = [], Endpoint = [], DNS = [], Jc = 0, Jmin = 0, Jmax = 0, I1 = [], I1Sni = [],
     Bind = [], SocksPort = 0, Hop = False, HopShield = False, InnerPrivateKey = [], InnerPeerPublicKey = [], InnerAddress = [], InnerEndpoint = [],
     InnerEndpoints = [], ApplyPolicy = True, BlockAds = True, BlockAdult = False, SafeSearch = True, BypassLocal = True, BlockQuic = False,
     SafeSearchVIP = ''216.239.38.120'', AdExact = [], AdSuffix = [''ads.com''], AdultExact = [], AdultSuffix = [], LocalSuffix = [''ir''],
     SafeSearchExact = [''google.com''], DoHExact = [], DoHSuffix = []\<rparr>"

theorem policy_respected_witness:
  "proxyConnect (\<lambda>_. True) True ''X.Ads.com.'' 443 policy_config = [CountAd, socksFail 2]
   \<and> hd (proxyConnect (\<lambda>_. True) True ''Google.com'' 443 policy_config) = DialTunnel (joinHostPort ''216.239.38.120'' 443)"
proof -
  have on: "policyOn policy_config" by (simp add: policyOn_def policy_config_def)
  have h: "ToLower (trim_dot ''X.Ads.com.'') = ''x.ads.com''" "ToLower (trim_dot ''Google.com'') = ''google.com''" by code_simp+
  have m: "in_lists ''x.ads.com'' (AdExact policy_config) (AdSuffix policy_config)" "\<not> in_lists ''google.com'' (AdExact policy_config) (AdSuffix policy_config)"
    "\<not> in_lists ''google.com'' (DoHExact policy_config) (DoHSuffix policy_config)"
    unfolding matchHost_iff [symmetric] policy_config_def by (simp_all add: matchHost_def HasSuffix_def)
  have f: "BlockAds policy_config" "\<not> BlockAdult policy_config" "SafeSearch policy_config" "''google.com'' \<in> set (SafeSearchExact policy_config)"
    "SafeSearchVIP policy_config = ''216.239.38.120''" by (simp_all add: policy_config_def)
  show ?thesis
    using policy_respected [where c = policy_config and host = "''X.Ads.com.''" and port = 443 and dial = "\<lambda>_. True" and w = True
        and a = "[]" and raddr = "[]" and payload = "[]" and resolve = "\<lambda>_. None" and addr = "0 :: nat" and b = "[]" and old = None]
      policy_respected [where c = policy_config and host = "''Google.com''" and port = 443 and dial = "\<lambda>_. True" and w = True
        and a = "[]" and raddr = "[]" and payload = "[]" and resolve = "\<lambda>_. None" and addr = "0 :: nat" and b = "[]" and old = None] on m f
    unfolding h by simp
qed

text \<open>
  C28. The messages of the SOCKS protocol. A client that sends a greeting with any methods and a request to connect to an
  IPv4 or IPv6 address or a name of at most 255 bytes is answered, and the policy and the dialling see that address as
  text and that port; a request that ends early dials nothing. The header of a datagram gives the address, the port and the
  payload back, and so does the header the server puts before a datagram it returns when the text of its source is an
  address and a port. A probe of the client, which speaks the other side of the protocol, gets through to the response of
  the host exactly when the policy lets the host pass and the connection succeeds.
\<close>

theorem socks_messages:
  assumes "addr_ok a" "length methods < 256"
  shows "handleSocks dial wr (connect_request methods 1 a p @ r) c =
      Reply [5, 0] # (if \<not> wr 0 then [] else proxyConnect dial (wr 1) (addr_text a) (unat p) c) \<and>
    (\<forall>n < length (connect_request methods cmd a p).
      handleSocks dial wr (take n (connect_request methods cmd a p)) c \<in> {[], [Reply [5, 0]]}) \<and>
    parseSocksUDP ([0, 0, 0, addr_type a] @ addr_bytes a @ put16 p @ payload) = Some (addr_text a, unat p, payload) \<and>
    (SplitHostPort source = Some (host, decimal n) \<and> ParseAddr host = Some ip \<and> n < 65536 \<longrightarrow>
      parseSocksUDP (encodeSocksUDP source payload) = Some (IP_String ip, n, payload)) \<and>
    (length name < 256 \<longrightarrow>
      (probe_reads (replies (handleSocks dial (\<lambda>_. True) (probe_sends name p) c) @ r) = Some r \<longleftrightarrow>
         action c (text_of name) (unat p) \<notin> {actBlockAds, actBlock} \<and>
         dial (if action c (text_of name) (unat p) = actDirect then DialDirect (joinHostPort (text_of name) (unat p))
           else DialTunnel (joinHostPort (if action c (text_of name) (unat p) = actSafeSearch then SafeSearchVIP c else text_of name) (unat p)))))"
  using handleSocks_request [OF assms(2,1), of dial wr 1] handleSocks_short [OF assms(2,1)] parseSocksUDP_sent [OF assms(1)]
    encodeSocksUDP_text ParseAddr_length probe_served [of name dial p c r] by (simp split: policyAction.splits)

theorem socks_messages_witness:
  "handleSocks (\<lambda>_. True) (\<lambda>_. True) (connect_request [0] 1 (SocksName [97, 46, 98]) 80 @ [1, 2]) (policy_config\<lparr>ApplyPolicy := False\<rparr>) =
     [Reply [5, 0], DialTunnel ''a.b:80'', Reply [5, 0, 0, 1, 0, 0, 0, 0, 0, 0], CopyBoth]
   \<and> parseSocksUDP (encodeSocksUDP ''10.1.2.3:53'' [9]) = Some (IP_String [10, 1, 2, 3], 53, [9])"
proof -
  have h: "SplitHostPort ''10.1.2.3:53'' = Some (''10.1.2.3'', decimal 53)" "ParseAddr ''10.1.2.3'' = Some [10, 1, 2, 3]" by code_simp+
  have a: "text_of [97, 46, 98] = ''a.b''" "joinHostPort ''a.b'' 80 = ''a.b:80''" by code_simp+
  have "addr_ok (SocksName [97, 46, 98])" "length [0 :: u8] < 256" by simp_all
  from socks_messages [OF this, where dial = "\<lambda>_. True" and wr = "\<lambda>_. True" and p = 80 and r = "[1, 2]" and c = "policy_config\<lparr>ApplyPolicy := False\<rparr>"
      and cmd = 1 and payload = "[9]" and host = "''10.1.2.3''" and n = 53 and ip = "[10, 1, 2, 3]" and source = "''10.1.2.3:53''"]
  show ?thesis using h a by (simp add: proxyConnect_def action_def policyOn_def connected_def)
qed

end
