(* ===== verification/Xray_Io.thy ===== *)
theory Xray_Io
  imports Prelude
begin

text \<open>
  Errors as values and the \<^verbatim>\<open>io.Reader\<close> interface of the proxy core. A reader is a function of its
  state and of the slice it is given: it returns the slice's new content, the number of bytes it
  delivered, an error and its new state. \<open>ReadFull\<close> is \<^verbatim>\<open>io.ReadFull\<close>, whose loop ends only when the
  reader makes progress, so it takes fuel. The locale \<open>byte_source\<close> is the contract of a reader that
  delivers a byte string in arbitrary portions; its lemmas hold for each of the program's readers.
\<close>

section \<open>Errors\<close>

datatype go_error =
    EOF
  | ErrUnexpectedEOF
  | ErrClosedPipe
  | ErrBufferFull
  | NewError string
  | BaseError string go_error
  | OtherError nat

text \<open>\<open>None\<close> is the nil error.\<close>

type_synonym err = "go_error option"

section \<open>Readers\<close>

type_synonym 'r reader = "'r \<Rightarrow> bytes \<Rightarrow> bytes \<times> nat \<times> err \<times> 'r"

text \<open>
  \<^verbatim>\<open>io.ReadFull\<close>: it reads until the slice is full or the reader fails; a failure after the last
  byte is dropped, and \<^verbatim>\<open>EOF\<close> after some bytes is \<^verbatim>\<open>ErrUnexpectedEOF\<close>. The arguments \<open>got\<close> and \<open>p\<close> are the
  part of the slice already filled and the rest. \<open>None\<close>: the loop did not end within the fuel.
\<close>

fun read_loop :: "nat \<Rightarrow> 'r reader \<Rightarrow> 'r \<Rightarrow> bytes \<Rightarrow> bytes \<Rightarrow> (bytes \<times> bytes \<times> err \<times> 'r) option" where
  "read_loop fuel rd r got [] = Some (got, [], None, r)"
| "read_loop 0 rd r got (x # p) = None"
| "read_loop (Suc fuel) rd r got (x # p) =
     (let (p', n, e, r') = rd r (x # p);
          got' = got @ take n p'; rest = drop n p' in
      case e of
        None \<Rightarrow> read_loop fuel rd r' got' rest
      | Some er \<Rightarrow> Some (got', rest, e, r'))"

definition ReadFull :: "nat \<Rightarrow> 'r reader \<Rightarrow> 'r \<Rightarrow> bytes \<Rightarrow> (bytes \<times> nat \<times> err \<times> 'r) option" where
  "ReadFull fuel rd r p =
     (case read_loop fuel rd r [] p of
        None \<Rightarrow> None
      | Some (got, rest, e, r') \<Rightarrow>
          Some (got @ rest, length got,
            (if length p \<le> length got then None
             else if 0 < length got \<and> e = Some EOF then Some ErrUnexpectedEOF else e), r'))"

section \<open>Readers that deliver a byte string\<close>

text \<open>
  \<open>content r\<close> is what the reader has left. Asked for at least one byte it delivers a non-empty prefix
  without an error, or, when nothing is left, \<^verbatim>\<open>EOF\<close>.
\<close>

locale byte_source =
  fixes rd :: "'r reader"
    and content :: "'r \<Rightarrow> bytes"
    and good :: "'r \<Rightarrow> bool"
  assumes deliver: "good r \<Longrightarrow> content r \<noteq> [] \<Longrightarrow> p \<noteq> [] \<Longrightarrow>
      \<exists>n r'. 0 < n \<and> n \<le> length p \<and> n \<le> length (content r) \<and> good r' \<and> content r' = drop n (content r) \<and>
        rd r p = (take n (content r) @ drop n p, n, None, r')"
    and at_end: "good r \<Longrightarrow> content r = [] \<Longrightarrow> p \<noteq> [] \<Longrightarrow> \<exists>r'. good r' \<and> content r' = [] \<and> rd r p = (p, 0, Some EOF, r')"
begin

lemma read_loop_spec:
  assumes "good r" "length p \<le> fuel"
  shows "\<exists>r'. good r' \<and> content r' = drop (length p) (content r) \<and>
    read_loop fuel rd r got p = Some (got @ take (length p) (content r), drop (length (content r)) p,
      (if length p \<le> length (content r) then None else Some EOF), r')"
  using assms
proof (induction fuel arbitrary: r got p)
  case (Suc fuel)
  show ?case
  proof (cases "p = [] \<or> content r = []")
    case True
    then show ?thesis
      using Suc.prems at_end [of r p] by (cases p) (auto simp: Let_def)
  next
    case False
    then obtain n r' where n: "0 < n" "n \<le> length p" "n \<le> length (content r)" "good r'"
        "content r' = drop n (content r)" "rd r p = (take n (content r) @ drop n p, n, None, r')"
      using deliver Suc.prems(1) by blast
    obtain x q where p: "p = x # q" using False by (cases p) auto
    have len: "length p - n \<le> length (content r) - n \<longleftrightarrow> length p \<le> length (content r)" "length p - n \<le> fuel"
      using n Suc.prems(2) by linarith+
    obtain r'' where "good r''" "content r'' = drop (length p) (content r)"
        "read_loop fuel rd r' (got @ take n (content r)) (drop n p) =
          Some (got @ take n (content r) @ take (length p - n) (drop n (content r)),
            drop (length (content r)) p, (if length p \<le> length (content r) then None else Some EOF), r'')"
      using Suc.IH [of r' "drop n p" "got @ take n (content r)"] n len by auto
    moreover have "take n (content r) @ take (length p - n) (drop n (content r)) = take (length p) (content r)"
      using n(2) by (metis le_add_diff_inverse take_add)
    moreover have "read_loop (Suc fuel) rd r got p = read_loop fuel rd r' (got @ take n (content r)) (drop n p)"
      using n p by (simp add: Let_def)
    ultimately show ?thesis by auto
  qed
next
  case 0
  then show ?case by (intro exI [of _ r]) simp
qed

lemma ReadFull_spec:
  assumes "good r" "length p \<le> fuel"
  shows "\<exists>r'. good r' \<and> content r' = drop (length p) (content r) \<and>
    ReadFull fuel rd r p = Some (take (length p) (content r) @ drop (length (content r)) p,
      min (length p) (length (content r)),
      (if length p \<le> length (content r) then None
       else if content r = [] then Some EOF else Some ErrUnexpectedEOF), r')"
  using read_loop_spec [OF assms, of "[]"] by (auto simp: ReadFull_def min_def)

end

section \<open>A reader over a byte string\<close>

text \<open>\<^verbatim>\<open>bytes.Reader\<close> of the standard library: it copies what fits and answers \<^verbatim>\<open>EOF\<close> at the end.\<close>

definition bytes_reader :: "bytes reader" where
  "bytes_reader s p =
     (if s = [] then (p, 0, Some EOF, [])
      else (overwrite p 0 s, min (length p) (length s), None, drop (length p) s))"

interpretation bytes_src: byte_source bytes_reader "\<lambda>s. s" "\<lambda>_. True"
proof
  fix r p :: bytes
  assume "r \<noteq> []" "p \<noteq> []"
  then show "\<exists>n r'. 0 < n \<and> n \<le> length p \<and> n \<le> length r \<and> True \<and> r' = drop n r \<and>
      bytes_reader r p = (take n r @ drop n p, n, None, r')"
    by (intro exI [of _ "min (length p) (length r)"] exI [of _ "drop (length p) r"])
      (auto simp: bytes_reader_def overwrite_def min_def)
qed (simp add: bytes_reader_def)

end
