(* ===== verification/Xray_Buffer.thy ===== *)
theory Xray_Buffer
  imports Xray_Io Xray_Net
begin

text \<open>
  The pooled byte buffer of the proxy core (\<^verbatim>\<open>xray-core/common/buf/buffer.go\<close>). The record
  \<open>Buffer\<close> is the Go struct: \<open>bv\<close> is the slice \<^verbatim>\<open>v\<close> and \<open>spare\<close> what its backing array holds
  between the length and the capacity of \<^verbatim>\<open>v\<close> (a nil slice is empty); \<open>bstart\<close> and \<open>bend\<close> are
  \<^verbatim>\<open>start\<close> and \<^verbatim>\<open>end\<close>, \<^verbatim>\<open>int32\<close> values. Arrays come from a pool with whatever bytes their
  last user left, so the constructors take the array as an argument. A buffer has one owner and is
  passed by value; a slice into a buffer that the caller writes through is the pair of its bounds.
  \<open>contents\<close> is the byte string a buffer stands for and \<open>buf_ok\<close> the invariant.
\<close>

section \<open>The structure\<close>

datatype ownership = managed | unmanaged | bytespools

record Buffer =
  bv :: bytes
  spare :: bytes
  bstart :: int
  bend :: int
  bown :: ownership
  UDP :: "Destination option"

definition Size :: nat where "Size = 8192"

definition vlen :: "Buffer \<Rightarrow> int" where "vlen b = i32 (int (length (bv b)))"
definition whole :: "Buffer \<Rightarrow> bytes" where "whole b = bv b @ spare b"

definition set_whole :: "bytes \<Rightarrow> Buffer \<Rightarrow> Buffer" where
  "set_whole w b = b\<lparr>bv := take (length (bv b)) w, spare := drop (length (bv b)) w\<rparr>"

definition clear_range :: "nat \<Rightarrow> nat \<Rightarrow> Buffer \<Rightarrow> Buffer" where
  "clear_range lo hi b = set_whole (overwrite (whole b) lo (replicate (hi - lo) 0)) b"

section \<open>Constructors\<close>

definition New :: "bytes \<Rightarrow> Buffer" where
  "New arr = \<lparr>bv = (if length arr \<ge> Size then take Size arr else replicate Size 0),
     spare = (if length arr \<ge> Size then drop Size arr else []),
     bstart = 0, bend = 0, bown = managed, UDP = None\<rparr>"

text \<open>\<open>extra\<close> is what lies behind the given slice in its array.\<close>

definition NewExisted :: "bytes \<Rightarrow> bytes \<Rightarrow> Buffer option" where
  "NewExisted b extra =
     (if length b + length extra < Size then None
      else Some \<lparr>bv = (if length b < Size then take Size (b @ extra) else b),
        spare = (if length b < Size then drop Size (b @ extra) else extra),
        bstart = 0, bend = i32 (int (length b)), bown = managed, UDP = None\<rparr>)"

definition FromBytes :: "bytes \<Rightarrow> bytes \<Rightarrow> Buffer" where
  "FromBytes b extra = \<lparr>bv = b, spare = extra, bstart = 0, bend = i32 (int (length b)), bown = unmanaged, UDP = None\<rparr>"

definition NewWithSize :: "bytes \<Rightarrow> Buffer" where
  "NewWithSize arr = \<lparr>bv = arr, spare = [], bstart = 0, bend = 0, bown = bytespools, UDP = None\<rparr>"

section \<open>Methods\<close>

definition Clear :: "Buffer \<Rightarrow> Buffer" where
  "Clear b = b\<lparr>bstart := 0, bend := 0\<rparr>"

text \<open>\<^verbatim>\<open>Release\<close>: the buffer afterwards and the array it returned to a pool, if any.\<close>

definition Release :: "Buffer \<Rightarrow> Buffer \<times> bytes option" where
  "Release b =
     (if bv b = [] \<or> bown b = unmanaged then (b, None)
      else ((Clear b)\<lparr>bv := [], spare := [], UDP := None\<rparr>,
        (case bown b of
           managed \<Rightarrow> if length (whole b) = Size then Some (whole b) else None
         | _ \<Rightarrow> Some (whole b))))"

definition Len :: "Buffer \<Rightarrow> int" where "Len b = i32 (bend b - bstart b)"
definition Cap :: "Buffer \<Rightarrow> int" where "Cap b = vlen b"
definition Available :: "Buffer \<Rightarrow> int" where "Available b = i32 (vlen b - bend b)"
definition IsEmpty :: "Buffer \<Rightarrow> bool" where "IsEmpty b \<longleftrightarrow> Len b = 0"
definition IsFull :: "Buffer \<Rightarrow> bool" where "IsFull b \<longleftrightarrow> bend b = vlen b"

definition Byte :: "Buffer \<Rightarrow> int \<Rightarrow> u8 option" where
  "Byte b index = go_index (bv b) (i32 (bstart b + index))"

definition SetByte :: "Buffer \<Rightarrow> int \<Rightarrow> u8 \<Rightarrow> Buffer option" where
  "SetByte b index val = do {
     _ \<leftarrow> go_index (bv b) (i32 (bstart b + index));
     Some (b\<lparr>bv := (bv b)[nat (i32 (bstart b + index)) := val]\<rparr>) }"

definition Bytes :: "Buffer \<Rightarrow> bytes option" where
  "Bytes b = go_slice (whole b) (bstart b) (bend b)"

text \<open>\<^verbatim>\<open>Extend\<close> returns the bounds of the extension, which it has cleared.\<close>

definition Extend :: "Buffer \<Rightarrow> int \<Rightarrow> ((nat \<times> nat) \<times> Buffer) option" where
  "Extend b n =
     (let e = i32 (bend b + n) in
      if e > vlen b then None
      else do {
        _ \<leftarrow> go_slice (whole b) (bend b) e;
        Some ((nat (bend b), nat e), (clear_range (nat (bend b)) (nat e) b)\<lparr>bend := e\<rparr>) })"

text \<open>Writing \<open>data\<close> through a slice that starts at \<open>lo\<close>.\<close>

definition store :: "nat \<Rightarrow> bytes \<Rightarrow> Buffer \<Rightarrow> Buffer" where
  "store lo data b = b\<lparr>bv := overwrite (bv b) lo data\<rparr>"

definition from_end :: "Buffer \<Rightarrow> int \<Rightarrow> int" where
  "from_end b x = (if x < 0 then i32 (x + Len b) else x)"

definition BytesRange :: "Buffer \<Rightarrow> int \<Rightarrow> int \<Rightarrow> bytes option" where
  "BytesRange b from to =
     go_slice (whole b) (i32 (bstart b + from_end b from)) (i32 (bstart b + from_end b to))"

definition BytesFrom :: "Buffer \<Rightarrow> int \<Rightarrow> bytes option" where
  "BytesFrom b from = go_slice (whole b) (i32 (bstart b + from_end b from)) (bend b)"

definition BytesTo :: "Buffer \<Rightarrow> int \<Rightarrow> bytes option" where
  "BytesTo b to =
     (let to1 = from_end b to; to2 = (if to1 < 0 then 0 else to1)
      in go_slice (whole b) (bstart b) (i32 (bstart b + to2)))"

definition Check :: "Buffer \<Rightarrow> Buffer" where
  "Check b =
     (let s = (if bstart b < 0 then 0 else bstart b); e = (if bend b < 0 then 0 else bend b)
      in b\<lparr>bstart := (if s > e then e else s), bend := e\<rparr>)"

definition Resize :: "Buffer \<Rightarrow> int \<Rightarrow> int \<Rightarrow> Buffer option" where
  "Resize b from0 to0 =
     (let oldEnd = bend b; from1 = from_end b from0; to1 = from_end b to0 in
      if to1 < from1 then None
      else
        let b1 = Check (b\<lparr>bend := i32 (bstart b + to1), bstart := i32 (bstart b + from1)\<rparr>) in
        if bend b1 > oldEnd then do {
          _ \<leftarrow> go_slice (whole b1) oldEnd (bend b1);
          Some (clear_range (nat oldEnd) (nat (bend b1)) b1) }
        else Some b1)"

definition Advance :: "Buffer \<Rightarrow> int \<Rightarrow> Buffer" where
  "Advance b from = Check (b\<lparr>bstart := i32 (bstart b + from_end b from)\<rparr>)"

definition Write :: "Buffer \<Rightarrow> bytes \<Rightarrow> (nat \<times> err \<times> Buffer) option" where
  "Write b data = do {
     room \<leftarrow> go_slice (bv b) (bend b) (int (length (bv b)));
     let nBytes = min (length room) (length data);
     let b' = (store (nat (bend b)) data b)\<lparr>bend := i32 (bend b + int nBytes)\<rparr>;
     Some (nBytes, (if nBytes < length data then Some ErrBufferFull else None), b') }"

definition WriteByte :: "Buffer \<Rightarrow> u8 \<Rightarrow> (err \<times> Buffer) option" where
  "WriteByte b c =
     (if IsFull b then Some (Some ErrBufferFull, b)
      else do {
        _ \<leftarrow> go_index (bv b) (bend b);
        Some (None, b\<lparr>bv := (bv b)[nat (bend b) := c], bend := i32 (bend b + 1)\<rparr>) })"

definition ReadByte :: "Buffer \<Rightarrow> ((u8 \<times> err) \<times> Buffer) option" where
  "ReadByte b =
     (if bstart b = bend b then Some ((0, Some EOF), b)
      else do {
        nb \<leftarrow> go_index (bv b) (bstart b);
        Some ((nb, None), b\<lparr>bstart := i32 (bstart b + 1)\<rparr>) })"

definition ReadBytes :: "Buffer \<Rightarrow> int \<Rightarrow> ((bytes \<times> err) \<times> Buffer) option" where
  "ReadBytes b len =
     (if i32 (bend b - bstart b) < len then Some (([], Some EOF), b)
      else do {
        nb \<leftarrow> go_slice (whole b) (bstart b) (i32 (bstart b + len));
        Some ((nb, None), b\<lparr>bstart := i32 (bstart b + len)\<rparr>) })"

text \<open>\<^verbatim>\<open>Read\<close> into a slice \<open>p\<close>: its new content, the count, the error and the buffer.\<close>

definition Read :: "Buffer \<Rightarrow> bytes \<Rightarrow> (bytes \<times> nat \<times> err \<times> Buffer) option" where
  "Read b p =
     (if Len b = 0 then Some (p, 0, Some EOF, b)
      else do {
        src \<leftarrow> Bytes b;
        let nBytes = min (length p) (length src);
        let b' = (if i32 (int nBytes) = Len b then Clear b else b\<lparr>bstart := i32 (bstart b + i32 (int nBytes))\<rparr>);
        Some (overwrite p 0 src, nBytes, None, b') })"

definition ReadFrom :: "'r reader \<Rightarrow> 'r \<Rightarrow> Buffer \<Rightarrow> (nat \<times> err \<times> Buffer \<times> 'r) option" where
  "ReadFrom rd r b = do {
     room \<leftarrow> go_slice (bv b) (bend b) (int (length (bv b)));
     let (p, n, e, r') = rd r room;
     Some (n, e, (store (nat (bend b)) p b)\<lparr>bend := i32 (bend b + int n)\<rparr>, r') }"

definition ReadFullFrom :: "nat \<Rightarrow> 'r reader \<Rightarrow> 'r \<Rightarrow> Buffer \<Rightarrow> int \<Rightarrow> (nat \<times> err \<times> Buffer \<times> 'r) option" where
  "ReadFullFrom fuel rd r b sz =
     (let e = i32 (bend b + sz) in
      if e > vlen b then Some (0, Some (NewError ''out of bound: ''), b, r)
      else do {
        room \<leftarrow> go_slice (whole b) (bend b) e;
        (p, n, er, r') \<leftarrow> ReadFull fuel rd r room;
        Some (n, er, (set_whole (overwrite (whole b) (nat (bend b)) p) b)\<lparr>bend := i32 (bend b + int n)\<rparr>, r') })"

section \<open>The byte string a buffer stands for\<close>

definition buf_ok :: "Buffer \<Rightarrow> bool" where
  "buf_ok b \<longleftrightarrow> 0 \<le> bstart b \<and> bstart b \<le> bend b \<and> bend b \<le> int (length (bv b)) \<and>
     length (bv b) + length (spare b) < 2 ^ 31"

definition contents :: "Buffer \<Rightarrow> bytes" where
  "contents b = drop (nat (bstart b)) (take (nat (bend b)) (bv b))"

text \<open>The bytes that can still be written.\<close>

definition room_of :: "Buffer \<Rightarrow> nat" where
  "room_of b = length (bv b) - nat (bend b)"

lemma buf_okE:
  assumes "buf_ok b"
  obtains s e where "bstart b = int s" "bend b = int e" "s \<le> e" "e \<le> length (bv b)"
    "length (bv b) + length (spare b) < 2147483648" "length (bv b) < 2147483648"
proof -
  have "bstart b = int (nat (bstart b))" "bend b = int (nat (bend b))" "nat (bstart b) \<le> nat (bend b)"
    "nat (bend b) \<le> length (bv b)" "length (bv b) + length (spare b) < 2147483648"
    using assms by (auto simp: buf_ok_def)
  then show thesis using that by (metis add_lessD1)
qed

lemma contents_length: "buf_ok b \<Longrightarrow> int (length (contents b)) = bend b - bstart b"
  by (erule buf_okE) (simp add: contents_def)

lemma Len_eq [simp]: "buf_ok b \<Longrightarrow> Len b = int (length (contents b))"
  by (erule buf_okE) (simp add: contents_def Len_def)

lemma Available_eq [simp]: "buf_ok b \<Longrightarrow> Available b = int (room_of b)"
  by (erule buf_okE) (simp add: Available_def vlen_def room_of_def)

lemma IsEmpty_eq [simp]: "buf_ok b \<Longrightarrow> IsEmpty b \<longleftrightarrow> contents b = []"
  by (simp add: IsEmpty_def)

lemma IsFull_eq [simp]: "buf_ok b \<Longrightarrow> IsFull b \<longleftrightarrow> room_of b = 0"
  by (erule buf_okE) (auto simp: IsFull_def vlen_def room_of_def)

lemma go_slice_whole:
  assumes "e \<le> length (bv b)" "s \<le> e"
  shows "go_slice (whole b) (int s) (int e) = Some (drop s (take e (bv b)))"
  using assms by (simp add: go_slice_def whole_def take_drop)

lemma Bytes_eq [simp]: "buf_ok b \<Longrightarrow> Bytes b = Some (contents b)"
  by (erule buf_okE) (simp add: Bytes_def go_slice_whole contents_def)

lemma New_ok [simp]: "length arr < 2 ^ 31 \<Longrightarrow> buf_ok (New arr)"
  by (simp add: New_def buf_ok_def Size_def)

lemma New_contents [simp]: "contents (New arr) = []"
  by (simp add: New_def contents_def)

lemma New_room [simp]: "room_of (New arr) = 8192"
  by (simp add: New_def room_of_def Size_def)

lemma FromBytes_ok [simp]: "length b + length x < 2 ^ 31 \<Longrightarrow> buf_ok (FromBytes b x)"
  by (simp add: FromBytes_def buf_ok_def)

lemma FromBytes_contents [simp]: "length b < 2 ^ 31 \<Longrightarrow> contents (FromBytes b x) = b"
  by (simp add: FromBytes_def contents_def)

lemma NewExisted_spec:
  assumes "Size \<le> length b + length x" "length b + length x < 2 ^ 31"
  shows "\<exists>r. NewExisted b x = Some r \<and> buf_ok r \<and> contents r = b"
  using assms by (auto simp: NewExisted_def buf_ok_def contents_def Size_def)

text \<open>The array under \<open>v\<close> after an overwrite inside it.\<close>

lemma set_whole_overwrite:
  assumes "lo + length data \<le> length (bv b)"
  shows "set_whole (overwrite (whole b) lo data) b = store lo data b"
  using assms by (simp add: set_whole_def store_def overwrite_def whole_def)

lemma clear_range_eq:
  assumes "lo \<le> hi" "hi \<le> length (bv b)"
  shows "clear_range lo hi b = store lo (replicate (hi - lo) 0) b"
  using assms by (simp add: clear_range_def set_whole_overwrite)

lemma store_fields [simp]:
  "bstart (store lo d b) = bstart b" "bend (store lo d b) = bend b" "spare (store lo d b) = spare b"
  "UDP (store lo d b) = UDP b" "bown (store lo d b) = bown b" "bv (store lo d b) = overwrite (bv b) lo d"
  by (simp_all add: store_def)

text \<open>Appending at the end: the one fact behind \<^verbatim>\<open>Write\<close>, \<^verbatim>\<open>Extend\<close> and the reading methods.\<close>

lemma append_at_end:
  assumes ok: "buf_ok b" and n: "n \<le> room_of b" "n \<le> length d"
  defines "b' \<equiv> (store (nat (bend b)) d b)\<lparr>bend := i32 (bend b + int n)\<rparr>"
  shows "buf_ok b'" "contents b' = contents b @ take n d" "room_of b' = room_of b - n" "UDP b' = UDP b"
    "length (bv b') = length (bv b)"
proof -
  obtain s e where b: "bstart b = int s" "bend b = int e" "s \<le> e" "e \<le> length (bv b)"
    "length (bv b) + length (spare b) < 2147483648" "length (bv b) < 2147483648"
    using ok by (rule buf_okE)
  have en: "e + n \<le> length (bv b)" using n b by (simp add: room_of_def)
  then have i: "i32 (int e + int n) = int (e + n)" using b by simp
  show "buf_ok b'" "room_of b' = room_of b - n" "UDP b' = UDP b" "length (bv b') = length (bv b)"
    using b en i unfolding b'_def buf_ok_def room_of_def by (simp_all flip: of_nat_add)
  have "take (e + n) (overwrite (bv b) e d) = take e (bv b) @ take n d"
    using en n(2) by (auto simp: overwrite_def min_def)
  then show "contents b' = contents b @ take n d"
    using b i unfolding b'_def contents_def by (simp flip: of_nat_add)
qed

section \<open>Functional behaviour of the methods\<close>

lemma Write_ok:
  assumes "buf_ok b"
  shows "\<exists>b'. Write b data = Some (min (room_of b) (length data),
      if room_of b < length data then Some ErrBufferFull else None, b') \<and> buf_ok b' \<and>
    contents b' = contents b @ take (room_of b) data \<and> room_of b' = room_of b - length data \<and>
    UDP b' = UDP b \<and> length (bv b') = length (bv b)"
proof -
  obtain s e where b: "bstart b = int s" "bend b = int e" "s \<le> e" "e \<le> length (bv b)"
    "length (bv b) + length (spare b) < 2147483648" "length (bv b) < 2147483648"
    using assms by (rule buf_okE)
  have "go_slice (bv b) (bend b) (int (length (bv b))) = Some (drop e (bv b))"
    using b by (simp add: go_slice_def)
  moreover have "take (min (room_of b) (length data)) data = take (room_of b) data" by (simp add: min_def)
  ultimately show ?thesis
    using append_at_end [OF assms, of "min (room_of b) (length data)" data] b
    by (auto simp: Write_def Let_def room_of_def min_def)
qed

lemma Write_fits:
  assumes "buf_ok b" "length data \<le> room_of b"
  shows "\<exists>b'. Write b data = Some (length data, None, b') \<and> buf_ok b' \<and> contents b' = contents b @ data \<and>
    room_of b' = room_of b - length data \<and> UDP b' = UDP b \<and> length (bv b') = length (bv b)"
  using Write_ok [OF assms(1), of data] assms(2) by (auto simp: min_def)

lemma overwrite_single: "i < length xs \<Longrightarrow> overwrite xs i [c] = xs[i := c]"
  by (simp add: overwrite_def upd_conv_take_nth_drop)

lemma WriteByte_ok:
  assumes "buf_ok b" "0 < room_of b"
  shows "\<exists>b'. WriteByte b c = Some (None, b') \<and> buf_ok b' \<and> contents b' = contents b @ [c] \<and>
    room_of b' = room_of b - 1 \<and> UDP b' = UDP b \<and> length (bv b') = length (bv b)"
proof -
  obtain s e where b: "bstart b = int s" "bend b = int e" "s \<le> e" "e \<le> length (bv b)"
    using assms(1) by (rule buf_okE)
  have e: "e < length (bv b)" using assms(2) b by (simp add: room_of_def)
  then show ?thesis
    using append_at_end [OF assms(1), of 1 "[c]"] assms b
    by (auto simp: WriteByte_def go_index_def store_def overwrite_single)
qed

lemma Extend_ok:
  assumes "buf_ok b" "n \<le> room_of b"
  shows "\<exists>b'. Extend b (int n) = Some ((nat (bend b), nat (bend b) + n), b') \<and> buf_ok b' \<and>
    contents b' = contents b @ replicate n 0 \<and> room_of b' = room_of b - n \<and> UDP b' = UDP b \<and>
    bstart b' = bstart b \<and> bend b' = bend b + int n \<and> length (bv b') = length (bv b)"
proof -
  obtain s e where b: "bstart b = int s" "bend b = int e" "s \<le> e" "e \<le> length (bv b)"
    "length (bv b) + length (spare b) < 2147483648" "length (bv b) < 2147483648"
    using assms(1) by (rule buf_okE)
  have en: "e + n \<le> length (bv b)" using assms b by (simp add: room_of_def)
  then have i: "i32 (int e + int n) = int (e + n)" using b by simp
  have "go_slice (whole b) (int e) (int (e + n)) \<noteq> None" using go_slice_whole [of "e + n" b e] en by simp
  then show ?thesis
    using append_at_end [OF assms, of "replicate n 0"] b en i clear_range_eq [of e "e + n" b]
    by (auto simp: Extend_def Let_def vlen_def min_def nat_int_add)
qed

lemma Extend_panics:
  assumes "buf_ok b" "room_of b < n" "bend b + int n < 2 ^ 31"
  shows "Extend b (int n) = None"
  using assms by (elim buf_okE) (auto simp: Extend_def Let_def vlen_def room_of_def)

text \<open>Writing through the slice \<^verbatim>\<open>Extend\<close> returned.\<close>

lemma contents_take_drop:
  assumes "buf_ok b" "lo = nat (bstart b) + k" "k + length d \<le> length (contents b)"
  shows "buf_ok (store lo d b)" "contents (store lo d b) = overwrite (contents b) k d"
    "room_of (store lo d b) = room_of b"
proof -
  obtain s e where b: "bstart b = int s" "bend b = int e" "s \<le> e" "e \<le> length (bv b)"
    "length (bv b) + length (spare b) < 2147483648" "length (bv b) < 2147483648"
    using assms(1) by (rule buf_okE)
  have k: "s + k + length d \<le> e" using assms(2,3) b by (simp add: contents_def)
  then show "buf_ok (store lo d b)" "room_of (store lo d b) = room_of b"
    using assms(2) b by (simp_all add: buf_ok_def room_of_def)
  have "drop s (take e (overwrite (bv b) (s + k) d)) = overwrite (drop s (take e (bv b))) k d"
    using k b(4) by (intro nth_equalityI) (auto simp: nth_overwrite)
  then show "contents (store lo d b) = overwrite (contents b) k d"
    using assms(2) b by (simp add: contents_def)
qed

lemma BytesRange_ok:
  assumes "buf_ok b" "i \<le> j" "j \<le> length (contents b)"
  shows "BytesRange b (int i) (int j) = Some (take (j - i) (drop i (contents b)))"
proof -
  obtain s e where b: "bstart b = int s" "bend b = int e" "s \<le> e" "e \<le> length (bv b)"
    "length (bv b) + length (spare b) < 2147483648" "length (bv b) < 2147483648"
    using assms(1) by (rule buf_okE)
  have "s + j \<le> e" using assms b by (simp add: contents_def)
  then have "i32 (int s + int i) = int (s + i)" "i32 (int s + int j) = int (s + j)" "s + j \<le> length (bv b)"
    using assms b by simp_all
  then show ?thesis
    using b assms go_slice_whole [of "s + j" b "s + i"] \<open>s + j \<le> e\<close>
    by (auto simp: BytesRange_def from_end_def contents_def drop_take min_def add.commute)
qed

lemma BytesFrom_ok:
  assumes "buf_ok b" "i \<le> length (contents b)"
  shows "BytesFrom b (int i) = Some (drop i (contents b))"
    "0 < k \<Longrightarrow> k \<le> length (contents b) \<Longrightarrow> BytesFrom b (- int k) = Some (drop (length (contents b) - k) (contents b))"
proof -
  obtain s e where b: "bstart b = int s" "bend b = int e" "s \<le> e" "e \<le> length (bv b)"
    "length (bv b) + length (spare b) < 2147483648" "length (bv b) < 2147483648"
    using assms(1) by (rule buf_okE)
  have len: "length (contents b) = e - s" using b by (simp add: contents_def)
  have *: "go_slice (whole b) (i32 (int s + int j)) (int e) = Some (drop j (contents b))" if "j \<le> e - s" for j
    using that b go_slice_whole [of e b "s + j"] by (simp add: contents_def add.commute)
  show "BytesFrom b (int i) = Some (drop i (contents b))"
    using * assms(2) len b by (simp add: BytesFrom_def from_end_def)
  assume k: "0 < k" "k \<le> length (contents b)"
  then have "i32 (- int k + Len b) = int (e - s - k)" using assms(1) len b by (simp add: of_nat_diff)
  then show "BytesFrom b (- int k) = Some (drop (length (contents b) - k) (contents b))"
    using * [of "e - s - k"] k len b by (simp add: BytesFrom_def from_end_def)
qed

lemma BytesTo_ok:
  assumes "buf_ok b" "j \<le> length (contents b)"
  shows "BytesTo b (int j) = Some (take j (contents b))"
  using BytesRange_ok [OF assms(1), of 0 j] assms i32_id [of "bstart b"]
  by (auto simp: BytesRange_def BytesTo_def from_end_def buf_ok_def)

lemma Byte_ok:
  assumes "buf_ok b" "i < length (contents b)"
  shows "Byte b (int i) = Some (contents b ! i)"
  using assms by (elim buf_okE) (simp add: Byte_def go_index_def contents_def nat_int_add)

text \<open>Cutting: \<^verbatim>\<open>Advance\<close>, \<^verbatim>\<open>Resize\<close>.\<close>

lemma contents_cut:
  assumes "buf_ok b" "k \<le> length (contents b)"
  shows "buf_ok (b\<lparr>bstart := bstart b + int k\<rparr>)" "contents (b\<lparr>bstart := bstart b + int k\<rparr>) = drop k (contents b)"
  using assms by (auto simp: buf_ok_def contents_def nat_add_distrib add.commute)

lemma Advance_ok:
  assumes "buf_ok b" "k \<le> length (contents b)"
  shows "buf_ok (Advance b (int k))" "contents (Advance b (int k)) = drop k (contents b)"
    "UDP (Advance b (int k)) = UDP b"
proof -
  have k: "bstart b + int k \<le> bend b" using assms contents_length [OF assms(1)] by linarith
  then have "i32 (bstart b + int k) = bstart b + int k" using assms(1) by (intro i32_id) (auto simp: buf_ok_def)
  then have "Advance b (int k) = b\<lparr>bstart := bstart b + int k\<rparr>"
    using assms(1) k by (auto simp: Advance_def from_end_def Check_def Let_def buf_ok_def)
  then show "buf_ok (Advance b (int k))" "contents (Advance b (int k)) = drop k (contents b)"
    "UDP (Advance b (int k)) = UDP b"
    using contents_cut [OF assms] by simp_all
qed

lemma Resize_ok:
  assumes ok: "buf_ok b" and ij: "i \<le> j" "nat (bstart b) + j \<le> length (bv b)"
  shows "\<exists>b'. Resize b (int i) (int j) = Some b' \<and> buf_ok b' \<and>
    contents b' = drop i (take j (contents b @ replicate (j - length (contents b)) 0))"
proof -
  obtain s e where b: "bstart b = int s" "bend b = int e" "s \<le> e" "e \<le> length (bv b)"
    "length (bv b) + length (spare b) < 2147483648" "length (bv b) < 2147483648"
    using ok by (rule buf_okE)
  let ?b1 = "b\<lparr>bend := int (s + j), bstart := int (s + i)\<rparr>"
  have sj: "s + j \<le> length (bv b)" using ij b by simp
  have Chk: "Check (b\<lparr>bend := i32 (bstart b + int j), bstart := i32 (bstart b + int i)\<rparr>) = ?b1"
    using b ij sj by (simp add: Check_def Let_def)
  show ?thesis
  proof (cases "e < s + j")
    case False
    then have "Resize b (int i) (int j) = Some ?b1"
      using Chk b ij by (simp add: Resize_def from_end_def Let_def)
    moreover have "j \<le> length (contents b)" using False b by (simp add: contents_def)
    ultimately show ?thesis
      using False b ij sj by (auto simp: buf_ok_def contents_def drop_take min_def nat_int_add add.commute)
  next
    case True
    let ?b2 = "(store e (replicate (s + j - e) 0) b)\<lparr>bend := int (s + j)\<rparr>"
    have "go_slice (whole ?b1) (int e) (int (s + j)) \<noteq> None"
      using go_slice_whole [of "s + j" ?b1 e] True sj by simp
    moreover have "clear_range e (s + j) ?b1 = ?b2\<lparr>bstart := int (s + i)\<rparr>"
      using clear_range_eq [of e "s + j" ?b1] True sj by (simp add: store_def)
    ultimately have R: "Resize b (int i) (int j) = Some (?b2\<lparr>bstart := bstart ?b2 + int i\<rparr>)"
      using Chk b ij True by (auto simp: Resize_def from_end_def Let_def nat_int_add)
    have "s + j - e \<le> room_of b" using sj b by (simp add: room_of_def)
    then have 2: "buf_ok ?b2" "contents ?b2 = contents b @ replicate (s + j - e) 0"
      using append_at_end [OF ok, of "s + j - e" "replicate (s + j - e) 0"] True b sj by (simp_all add: of_nat_diff)
    have "s + j - e = j - length (contents b)" "j = length (contents ?b2)" using True b 2 by (auto simp: contents_def)
    then show ?thesis using R contents_cut [OF 2(1), of i] 2 ij by auto
  qed
qed

text \<open>Reading.\<close>

lemma ReadByte_ok:
  assumes "buf_ok b"
  shows "\<exists>b'. buf_ok b' \<and> (case contents b of
      [] \<Rightarrow> ReadByte b = Some ((0, Some EOF), b') \<and> b' = b
    | c # cs \<Rightarrow> ReadByte b = Some ((c, None), b') \<and> contents b' = cs)"
proof -
  obtain s e where b: "bstart b = int s" "bend b = int e" "s \<le> e" "e \<le> length (bv b)"
    "length (bv b) + length (spare b) < 2147483648" "length (bv b) < 2147483648"
    using assms by (rule buf_okE)
  show ?thesis
  proof (cases "s = e")
    case True
    then show ?thesis using assms b by (simp add: ReadByte_def contents_def)
  next
    case False
    then have "contents b = bv b ! s # drop (Suc s) (take e (bv b))"
      using b by (simp add: contents_def Cons_nth_drop_Suc [symmetric])
    moreover have "ReadByte b = Some ((bv b ! s, None), b\<lparr>bstart := bstart b + int 1\<rparr>)"
      using False b by (simp add: ReadByte_def go_index_def)
    ultimately show ?thesis using contents_cut [OF assms, of 1] by simp
  qed
qed

lemma ReadBytes_ok:
  assumes "buf_ok b"
  shows "\<exists>b'. buf_ok b' \<and> (if n \<le> length (contents b)
    then ReadBytes b (int n) = Some ((take n (contents b), None), b') \<and> contents b' = drop n (contents b)
    else ReadBytes b (int n) = Some (([], Some EOF), b') \<and> b' = b)"
proof -
  obtain s e where b: "bstart b = int s" "bend b = int e" "s \<le> e" "e \<le> length (bv b)"
    "length (bv b) + length (spare b) < 2147483648" "length (bv b) < 2147483648"
    using assms by (rule buf_okE)
  have len: "length (contents b) = e - s" using b by (simp add: contents_def)
  show ?thesis
  proof (cases "n \<le> length (contents b)")
    case True
    then have "ReadBytes b (int n) = Some ((take n (contents b), None), b\<lparr>bstart := bstart b + int n\<rparr>)"
      using b len go_slice_whole [of "s + n" b s]
      by (auto simp: ReadBytes_def contents_def drop_take min_def)
    then show ?thesis using True contents_cut [OF assms True] by auto
  next
    case False
    then show ?thesis using assms b len by (auto simp: ReadBytes_def)
  qed
qed

lemma Clear_ok [simp]: "buf_ok b \<Longrightarrow> buf_ok (Clear b)" "contents (Clear b) = []"
  by (simp_all add: Clear_def buf_ok_def contents_def)

lemma Read_ok:
  assumes "buf_ok b" "contents b \<noteq> []"
  shows "\<exists>b'. Read b p = Some (overwrite p 0 (contents b), min (length p) (length (contents b)), None, b') \<and>
    buf_ok b' \<and> contents b' = drop (length p) (contents b)"
proof -
  let ?n = "min (length p) (length (contents b))"
  have i: "i32 (int ?n) = int ?n" "length (contents b) < 2 ^ 31"
    using assms(1) by (auto elim!: buf_okE simp: contents_def)
  show ?thesis
  proof (cases "length p < length (contents b)")
    case True
    then have "i32 (bstart b + int (length p)) = bstart b + int (length p)"
      using assms(1) contents_length [OF assms(1)] by (intro i32_id) (auto simp: buf_ok_def)
    then show ?thesis
      using True assms i contents_cut [OF assms(1), of "length p"]
      by (auto simp: Read_def Let_def min_def)
  next
    case False
    then show ?thesis using assms i by (auto simp: Read_def Let_def min_def)
  qed
qed

lemma Read_empty: "buf_ok b \<Longrightarrow> contents b = [] \<Longrightarrow> Read b p = Some (p, 0, Some EOF, b)"
  by (simp add: Read_def)

text \<open>\<^verbatim>\<open>Buffer\<close> as an \<^verbatim>\<open>io.Reader\<close>: on buffers that satisfy the invariant \<^verbatim>\<open>Read\<close> does not panic.\<close>

definition Buffer_reader :: "Buffer reader" where
  "Buffer_reader b p = the (Read b p)"

interpretation Buffer_src: byte_source Buffer_reader contents buf_ok
proof
  fix r :: Buffer and p :: bytes
  assume ok: "buf_ok r" and p: "p \<noteq> []"
  show "\<exists>n r'. 0 < n \<and> n \<le> length p \<and> n \<le> length (contents r) \<and> buf_ok r' \<and> contents r' = drop n (contents r) \<and>
      Buffer_reader r p = (take n (contents r) @ drop n p, n, None, r')" if c: "contents r \<noteq> []"
  proof -
    obtain b' where b': "Read r p = Some (overwrite p 0 (contents r), min (length p) (length (contents r)), None, b')"
      "buf_ok b'" "contents b' = drop (length p) (contents r)"
      using Read_ok [OF ok c] by blast
    then show ?thesis
      using c p by (intro exI [of _ "min (length p) (length (contents r))"] exI [of _ b'])
        (auto simp: Buffer_reader_def overwrite_def min_def)
  qed
  show "\<exists>r'. buf_ok r' \<and> contents r' = [] \<and> Buffer_reader r p = (p, 0, Some EOF, r')" if "contents r = []"
    using that ok by (auto simp: Buffer_reader_def Read_empty)
qed

text \<open>Reading into a buffer from a reader that delivers a byte string.\<close>

context byte_source
begin

lemma ReadFullFrom_spec:
  assumes r: "good r" and b: "buf_ok b" and n: "n \<le> room_of b" "n \<le> fuel"
  shows "\<exists>b' r'. ReadFullFrom fuel rd r b (int n) = Some (min n (length (content r)),
      (if n \<le> length (content r) then None else if content r = [] then Some EOF else Some ErrUnexpectedEOF), b', r') \<and>
    good r' \<and> content r' = drop n (content r) \<and>
    buf_ok b' \<and> contents b' = contents b @ take n (content r) \<and> room_of b' = room_of b - min n (length (content r)) \<and>
    UDP b' = UDP b"
proof -
  obtain s e where be: "bstart b = int s" "bend b = int e" "s \<le> e" "e \<le> length (bv b)"
    "length (bv b) + length (spare b) < 2147483648" "length (bv b) < 2147483648"
    using b by (rule buf_okE)
  have en: "e + n \<le> length (bv b)" using n be by (simp add: room_of_def)
  let ?room = "drop e (take (e + n) (bv b))"
  have room: "go_slice (whole b) (int e) (int (e + n)) = Some ?room" "length ?room = n"
    using en go_slice_whole [of "e + n" b e] by auto
  obtain r' where r': "good r'" "content r' = drop n (content r)"
    "ReadFull fuel rd r ?room = Some (take n (content r) @ drop (length (content r)) ?room, min n (length (content r)),
      (if n \<le> length (content r) then None else if content r = [] then Some EOF else Some ErrUnexpectedEOF), r')"
    using ReadFull_spec [OF r, of ?room fuel] room(2) n(2) by auto
  let ?p = "take n (content r) @ drop (length (content r)) ?room" and ?k = "min n (length (content r))"
  have p: "length ?p = n" "take ?k ?p = take n (content r)" using room(2) by (auto simp: min_def)
  have "set_whole (overwrite (whole b) e ?p) b = store e ?p b" using p(1) en by (intro set_whole_overwrite) simp
  then have "ReadFullFrom fuel rd r b (int n) = Some (?k,
      (if n \<le> length (content r) then None else if content r = [] then Some EOF else Some ErrUnexpectedEOF),
      (store (nat (bend b)) ?p b)\<lparr>bend := i32 (bend b + int ?k)\<rparr>, r')"
    using room r'(3) be en by (simp add: ReadFullFrom_def Let_def vlen_def)
  then show ?thesis
    using append_at_end [OF b, of ?k ?p] n(1) p r' by auto
qed

lemma ReadFrom_spec:
  assumes r: "good r" "content r \<noteq> []" and b: "buf_ok b" "0 < room_of b"
  shows "\<exists>n b' r'. 0 < n \<and> n \<le> room_of b \<and> n \<le> length (content r) \<and>
    ReadFrom rd r b = Some (n, None, b', r') \<and> good r' \<and> content r' = drop n (content r) \<and>
    buf_ok b' \<and> contents b' = contents b @ take n (content r) \<and> room_of b' = room_of b - n"
proof -
  obtain s e where be: "bstart b = int s" "bend b = int e" "s \<le> e" "e \<le> length (bv b)"
    using b(1) by (rule buf_okE)
  let ?room = "drop e (bv b)"
  have room: "go_slice (bv b) (int e) (int (length (bv b))) = Some ?room" using be by (simp add: go_slice_def)
  have ne: "?room \<noteq> []" "length ?room = room_of b" using b(2) be by (simp_all add: room_of_def)
  obtain n r' where n: "0 < n" "n \<le> length ?room" "n \<le> length (content r)" "good r'" "content r' = drop n (content r)"
    "rd r ?room = (take n (content r) @ drop n ?room, n, None, r')"
    using deliver [OF r ne(1)] by blast
  then have "ReadFrom rd r b = Some (n, None,
      (store (nat (bend b)) (take n (content r) @ drop n ?room) b)\<lparr>bend := i32 (bend b + int n)\<rparr>, r')"
    using room be by (simp add: ReadFrom_def)
  then show ?thesis
    using append_at_end [OF b(1), of n "take n (content r) @ drop n ?room"] n ne by auto
qed

end

section \<open>No byte of an earlier user is visible\<close>

text \<open>The methods that change a buffer or read from it, as one step with its output.\<close>

datatype buf_op = OpClear | OpExtend int | OpResize int int | OpAdvance int | OpWrite bytes | OpWriteByte u8
  | OpReadByte | OpReadBytes int | OpRead nat | OpBytes

definition run_op :: "buf_op \<Rightarrow> Buffer \<Rightarrow> (bytes \<times> Buffer) option" where
  "run_op op b =
     (case op of
        OpClear \<Rightarrow> Some ([], Clear b)
      | OpExtend n \<Rightarrow> map_option (\<lambda>(_, b'). ([], b')) (Extend b n)
      | OpResize i j \<Rightarrow> map_option (\<lambda>b'. ([], b')) (Resize b i j)
      | OpAdvance i \<Rightarrow> Some ([], Advance b i)
      | OpWrite d \<Rightarrow> map_option (\<lambda>(_, _, b'). ([], b')) (Write b d)
      | OpWriteByte c \<Rightarrow> map_option (\<lambda>(_, b'). ([], b')) (WriteByte b c)
      | OpReadByte \<Rightarrow> map_option (\<lambda>((c, _), b'). ([c], b')) (ReadByte b)
      | OpReadBytes n \<Rightarrow> map_option (\<lambda>((d, _), b'). (d, b')) (ReadBytes b (i32 n))
      | OpRead n \<Rightarrow> map_option (\<lambda>(p, k, _, b'). (take k p, b')) (Read b (replicate n 0))
      | OpBytes \<Rightarrow> map_option (\<lambda>d. (d, b)) (Bytes b))"

fun run_ops :: "buf_op list \<Rightarrow> Buffer \<Rightarrow> bytes option" where
  "run_ops [] b = Some []"
| "run_ops (op # ops) b = do { (out, b') \<leftarrow> run_op op b; rest \<leftarrow> run_ops ops b'; Some (out @ rest) }"

text \<open>Two buffers that differ only beyond \<^verbatim>\<open>end\<close>.\<close>

definition sim_buf :: "Buffer \<Rightarrow> Buffer \<Rightarrow> bool" where
  "sim_buf a b \<longleftrightarrow> bstart a = bstart b \<and> bend a = bend b \<and> length (bv a) = length (bv b) \<and>
     length (spare a) = length (spare b) \<and> length (whole a) < 2 ^ 31 \<and>
     0 \<le> bstart a \<and> bstart a \<le> bend a \<and> 0 \<le> bend a \<and> bend a \<le> int (length (whole a)) \<and>
     take (nat (bend a)) (whole a) = take (nat (bend a)) (whole b)"

lemma sim_slice:
  assumes "sim_buf a b" "hi \<le> bend a"
  shows "go_slice (whole a) lo hi = go_slice (whole b) lo hi"
proof -
  have "take (nat hi) (whole a) = take (nat hi) (whole b)"
    using assms nat_mono [OF assms(2)] unfolding sim_buf_def by (metis min.absorb1 take_take)
  moreover have "length (whole a) = length (whole b)" using assms by (simp add: sim_buf_def whole_def)
  moreover have "take (nat hi - nat lo) (drop (nat lo) w) = drop (nat lo) (take (nat hi) w)" for w :: bytes
    by (simp add: drop_take)
  ultimately show ?thesis by (simp add: go_slice_def)
qed

lemma sim_lengths:
  assumes "sim_buf a b"
  shows "vlen a = vlen b" "length (whole a) = length (whole b)" "Len a = Len b" "from_end a = from_end b"
    "bstart a = bstart b" "bend a = bend b" "length (bv a) = length (bv b)" "length (spare a) = length (spare b)"
    "IsFull a = IsFull b"
  using assms by (auto simp: sim_buf_def vlen_def whole_def Len_def from_end_def IsFull_def)

lemma whole_set: "length w = length (whole b) \<Longrightarrow> whole (set_whole w b) = w"
  by (simp add: set_whole_def whole_def)

lemma set_whole_fields [simp]:
  "bstart (set_whole w b) = bstart b" "bend (set_whole w b) = bend b"
  by (simp_all add: set_whole_def)

lemma whole_upd [simp]: "whole (b\<lparr>bend := e\<rparr>) = whole b" "whole (b\<lparr>bstart := s\<rparr>) = whole b"
  by (simp_all add: whole_def)

lemma store_whole:
  "length d \<le> length (bv b) - lo \<Longrightarrow> lo \<le> length (bv b) \<Longrightarrow> store lo d b = set_whole (overwrite (whole b) lo d) b"
  using set_whole_overwrite [of lo d b] by simp

text \<open>Appending the same bytes at \<^verbatim>\<open>end\<close> keeps two buffers alike.\<close>

lemma sim_append:
  assumes "sim_buf a b" and e: "nat (bend a) + length d \<le> length (whole a)"
  shows "sim_buf ((set_whole (overwrite (whole a) (nat (bend a)) d) a)\<lparr>bend := bend a + int (length d)\<rparr>)
    ((set_whole (overwrite (whole b) (nat (bend b)) d) b)\<lparr>bend := bend b + int (length d)\<rparr>)"
proof -
  let ?e = "nat (bend a)"
  have l: "length (whole a) = length (whole b)" "bend a = bend b" "bstart a = bstart b" "0 \<le> bend a"
    and eq: "take ?e (whole a) = take ?e (whole b)"
    using assms by (auto simp: sim_buf_def whole_def)
  have "take (?e + length d) (overwrite w ?e d) = take ?e w @ d" if "length w = length (whole a)" for w :: bytes
  proof -
    have "take (length w - ?e) d = d" "length (take ?e w) = ?e" using e that by auto
    then show ?thesis by (simp add: overwrite_def)
  qed
  then have "take (nat (bend a + int (length d))) (overwrite (whole a) ?e d) =
      take (nat (bend a + int (length d))) (overwrite (whole b) ?e d)"
    using l eq by (simp add: nat_add_distrib)
  moreover have "length (overwrite w ?e d) = length w" if "length w = length (whole a)" for w :: bytes
    using e that by simp
  ultimately show ?thesis
    using assms l e by (simp add: sim_buf_def whole_set) (auto simp: set_whole_def whole_def)
qed

text \<open>Two results of a step are alike when both panic, or both give the same bytes and like buffers.\<close>

definition sim_out :: "(bytes \<times> Buffer) option \<Rightarrow> (bytes \<times> Buffer) option \<Rightarrow> bool" where
  "sim_out x y \<longleftrightarrow> (x = None \<and> y = None) \<or> (\<exists>d a b. x = Some (d, a) \<and> y = Some (d, b) \<and> sim_buf a b)"

lemma sim_start: "sim_buf a b \<Longrightarrow> 0 \<le> s \<Longrightarrow> s \<le> bend a \<Longrightarrow> sim_buf (a\<lparr>bstart := s\<rparr>) (b\<lparr>bstart := s\<rparr>)"
  unfolding sim_buf_def by auto

lemma sim_shrink:
  assumes "sim_buf a b" "0 \<le> e" "e \<le> bend a" "0 \<le> s" "s \<le> e"
  shows "sim_buf (a\<lparr>bend := e, bstart := s\<rparr>) (b\<lparr>bend := e, bstart := s\<rparr>)"
proof -
  have "take (nat e) (whole a) = take (nat e) (whole b)"
    using assms(1,3) nat_mono [OF assms(3)] unfolding sim_buf_def by (metis min.absorb1 take_take)
  then show ?thesis using assms by (simp add: sim_buf_def)
qed

lemma sim_clear_range:
  assumes "sim_buf a b" "bend a \<le> e" "e \<le> int (length (whole a))"
  shows "sim_buf ((clear_range (nat (bend a)) (nat e) a)\<lparr>bend := e\<rparr>) ((clear_range (nat (bend b)) (nat e) b)\<lparr>bend := e\<rparr>)"
proof -
  have "0 \<le> bend a" "bend a = bend b" using assms(1) by (auto simp: sim_buf_def)
  then show ?thesis
    using sim_append [OF assms(1), of "replicate (nat e - nat (bend a)) 0"] assms(2,3)
    by (simp add: clear_range_def of_nat_diff)
qed

lemma sim_Extend: "sim_buf a b \<Longrightarrow> sim_out (run_op (OpExtend n) a) (run_op (OpExtend n) b)"
  using sim_clear_range [of a b "i32 (bend a + n)"] sim_lengths [of a b]
  by (auto simp: run_op_def Extend_def sim_out_def Let_def go_slice_def)

lemma Check_upd: "Check (b\<lparr>bend := e, bstart := s\<rparr>) = b\<lparr>bend := max 0 e, bstart := min (max 0 s) (max 0 e)\<rparr>"
  by (simp add: Check_def Let_def min_def max_def)

lemma clear_range_upd: "clear_range lo hi (b\<lparr>bend := e, bstart := s\<rparr>) = (clear_range lo hi b)\<lparr>bend := e, bstart := s\<rparr>"
  by (simp add: clear_range_def set_whole_def)

lemma sim_Resize:
  assumes "sim_buf a b"
  shows "sim_out (run_op (OpResize i j) a) (run_op (OpResize i j) b)"
proof -
  note l = sim_lengths [OF assms]
  define s where "s = i32 (bstart a + from_end a i)"
  define e where "e = i32 (bstart a + from_end a j)"
  define e' where "e' = max 0 e"
  define s' where "s' = min (max 0 s) e'"
  have R: "Resize x i j = (if from_end a j < from_end a i then None
      else if e' > bend a then do {
        _ \<leftarrow> go_slice (whole x) (bend a) e';
        Some ((clear_range (nat (bend a)) (nat e') x)\<lparr>bend := e', bstart := s'\<rparr>) }
      else Some (x\<lparr>bend := e', bstart := s'\<rparr>))" if "x = a \<or> x = b" for x
  proof -
    have x: "bstart x = bstart a" "bend x = bend a" "from_end x = from_end a" using that l by auto
    show ?thesis
      unfolding Resize_def Let_def Check_upd x s_def [symmetric] e_def [symmetric] e'_def [symmetric] s'_def [symmetric]
      by (simp add: clear_range_upd)
  qed
  have 0: "0 \<le> bend a" "0 \<le> e'" "0 \<le> s'" "s' \<le> e'" using assms by (auto simp: sim_buf_def e'_def s'_def)
  show ?thesis
  proof (cases "e' > bend a")
    case True
    have "sim_buf ((clear_range (nat (bend a)) (nat e') a)\<lparr>bend := e', bstart := s'\<rparr>)
        ((clear_range (nat (bend a)) (nat e') b)\<lparr>bend := e', bstart := s'\<rparr>)" if "e' \<le> int (length (whole a))"
      using sim_start [OF sim_clear_range [OF assms _ that], of s'] True l 0 by simp
    then show ?thesis using R True l 0 by (auto simp: run_op_def sim_out_def go_slice_def)
  next
    case False
    then show ?thesis using R sim_shrink [OF assms 0(2) _ 0(3,4)] by (auto simp: run_op_def sim_out_def)
  qed
qed

lemma store_take:
  assumes "lo \<le> length (bv x)"
  shows "store lo d x = set_whole (overwrite (whole x) lo (take (length (bv x) - lo) d)) x"
proof -
  let ?d = "take (length (bv x) - lo) d"
  have "overwrite (bv x) lo d = overwrite (bv x) lo ?d" using assms by (simp add: overwrite_def min_def)
  then have "store lo d x = store lo ?d x" by (simp add: store_def)
  then show ?thesis using assms set_whole_overwrite [of lo ?d x] by simp
qed

lemma sim_append_store:
  assumes s: "sim_buf a b" and e: "bend a \<le> int (length (bv a))"
  shows "sim_buf ((store (nat (bend a)) d a)\<lparr>bend := i32 (bend a + int (min (length (bv a) - nat (bend a)) (length d)))\<rparr>)
    ((store (nat (bend a)) d b)\<lparr>bend := i32 (bend a + int (min (length (bv a) - nat (bend a)) (length d)))\<rparr>)"
proof -
  note l = sim_lengths [OF s]
  let ?d = "take (length (bv a) - nat (bend a)) d"
  have b: "0 \<le> bend a" "length (whole a) < 2 ^ 31" using s by (auto simp: sim_buf_def)
  have n: "int (min (length (bv a) - nat (bend a)) (length d)) = int (length ?d)" "nat (bend a) + length ?d \<le> length (bv a)"
    using e b(1) by (auto simp: min_def)
  have "i32 (bend a + int (length ?d)) = bend a + int (length ?d)"
    using b n(2) by (intro i32_id) (auto simp: whole_def)
  moreover have "store (nat (bend a)) d a = set_whole (overwrite (whole a) (nat (bend a)) ?d) a"
    "store (nat (bend a)) d b = set_whole (overwrite (whole b) (nat (bend a)) ?d) b"
    using store_take [of "nat (bend a)" a d] store_take [of "nat (bend a)" b d] e l by auto
  moreover have "nat (bend a) + length ?d \<le> length (whole a)" using n(2) by (simp add: whole_def)
  ultimately show ?thesis using sim_append [OF s, of ?d] unfolding n(1) l(6) [symmetric] by metis
qed

lemma sim_Write: "sim_buf a b \<Longrightarrow> sim_out (run_op (OpWrite d) a) (run_op (OpWrite d) b)"
proof (cases "bend a \<le> int (length (bv a))")
  case True
  assume s: "sim_buf a b"
  have "0 \<le> bend a" using s by (simp add: sim_buf_def)
  then show ?thesis
    using sim_append_store [OF s True, of d] True sim_lengths [OF s]
    by (auto simp: run_op_def Write_def sim_out_def go_slice_def Let_def)
qed (auto simp: run_op_def Write_def sim_out_def go_slice_def sim_buf_def)

lemma sim_WriteByte: "sim_buf a b \<Longrightarrow> sim_out (run_op (OpWriteByte c) a) (run_op (OpWriteByte c) b)"
proof (cases "bend a < int (length (bv a))")
  case True
  assume s: "sim_buf a b"
  note l = sim_lengths [OF s]
  have e: "0 \<le> bend a" "nat (bend a) < length (bv a)" using s True by (auto simp: sim_buf_def)
  then have "min (length (bv a) - nat (bend a)) (length [c]) = 1" by simp
  then have "sim_buf (a\<lparr>bv := (bv a)[nat (bend a) := c], bend := i32 (bend a + 1)\<rparr>)
      (b\<lparr>bv := (bv b)[nat (bend a) := c], bend := i32 (bend a + 1)\<rparr>)"
    using sim_append_store [OF s, of "[c]"] e l True by (simp add: store_def overwrite_single)
  then show ?thesis using s e l by (auto simp: run_op_def WriteByte_def sim_out_def go_index_def)
qed (auto simp: run_op_def WriteByte_def sim_out_def go_index_def sim_buf_def IsFull_def vlen_def)

lemma sim_ReadBytes:
  assumes s: "sim_buf a b"
  shows "sim_out (run_op (OpReadBytes m) a) (run_op (OpReadBytes m) b)"
proof (cases "Len a < i32 m")
  case True
  then show ?thesis using sim_lengths [OF s] s by (auto simp: run_op_def ReadBytes_def sim_out_def Len_def)
next
  case False
  note l = sim_lengths [OF s]
  define n where "n = i32 m"
  have b: "0 \<le> bstart a" "bstart a \<le> bend a" "bend a < 2 ^ 31" "- (2 ^ 31) \<le> n"
    using s i32_range [of m] by (auto simp: sim_buf_def n_def)
  then have n: "n \<le> bend a - bstart a" using False by (simp add: Len_def n_def)
  then have i: "i32 (bstart a + n) = bstart a + n" using b by (intro i32_id) auto
  show ?thesis
  proof (cases "0 \<le> n")
    case True
    then show ?thesis
      using i False l sim_slice [OF s, of "bstart a + n" "bstart a"] sim_start [OF s, of "bstart a + n"] n b
      by (auto simp: run_op_def ReadBytes_def sim_out_def Len_def go_slice_def simp flip: n_def)
  next
    case neg: False
    then show ?thesis using i False l by (auto simp: run_op_def ReadBytes_def sim_out_def Len_def go_slice_def simp flip: n_def)
  qed
qed

lemma sim_Bytes: "sim_buf a b \<Longrightarrow> Bytes a = Bytes b"
  using sim_slice [of a b "bend a" "bstart a"] sim_lengths [of a b] by (simp add: Bytes_def)

lemma sim_Clear: "sim_buf a b \<Longrightarrow> sim_buf (Clear a) (Clear b)"
  unfolding sim_buf_def Clear_def whole_def by simp

lemma sim_Read:
  assumes s: "sim_buf a b"
  shows "sim_out (run_op (OpRead k) a) (run_op (OpRead k) b)"
proof (cases "Len a = 0")
  case True
  then show ?thesis using sim_lengths [OF s] s by (auto simp: run_op_def Read_def sim_out_def)
next
  case False
  note l = sim_lengths [OF s]
  have b: "0 \<le> bstart a" "bstart a \<le> bend a" "bend a \<le> int (length (whole a))" "length (whole a) < 2 ^ 31"
    using s by (auto simp: sim_buf_def)
  then obtain src where src: "Bytes a = Some src" "Bytes b = Some src" "int (length src) = bend a - bstart a"
    using sim_Bytes [OF s] by (auto simp: Bytes_def go_slice_def)
  let ?n = "min k (length src)"
  have i: "i32 (int ?n) = int ?n" "i32 (bstart a + int ?n) = bstart a + int ?n" using src(3) b by simp_all
  have "sim_buf (a\<lparr>bstart := bstart a + int ?n\<rparr>) (b\<lparr>bstart := bstart a + int ?n\<rparr>)"
    using sim_start [OF s, of "bstart a + int ?n"] src(3) b by simp
  then show ?thesis
    using False src(1,2) i l sim_Clear [OF s]
    by (auto simp: run_op_def Read_def sim_out_def Let_def)
qed

lemma sim_ReadByte:
  assumes s: "sim_buf a b"
  shows "sim_out (run_op OpReadByte a) (run_op OpReadByte b)"
proof (cases "bstart a = bend a")
  case True
  then show ?thesis using sim_lengths [OF s] s by (auto simp: run_op_def ReadByte_def sim_out_def)
next
  case False
  note l = sim_lengths [OF s]
  have b: "0 \<le> bstart a" "bstart a < bend a" "bend a < 2 ^ 31" "take (nat (bend a)) (whole a) = take (nat (bend a)) (whole b)"
    using s False by (auto simp: sim_buf_def)
  have "whole a ! nat (bstart a) = whole b ! nat (bstart a)"
    using b nth_take [of "nat (bstart a)" "nat (bend a)"] by (metis nat_less_eq_zless)
  then have "go_index (bv a) (bstart a) = go_index (bv b) (bstart a)"
    using b l by (auto simp: go_index_def whole_def nth_append split: if_splits)
  moreover have "sim_buf (a\<lparr>bstart := bstart a + 1\<rparr>) (b\<lparr>bstart := bstart a + 1\<rparr>)"
    using sim_start [OF s, of "bstart a + 1"] b by simp
  ultimately show ?thesis
    using False b l by (cases "go_index (bv b) (bstart a)") (auto simp: run_op_def ReadByte_def sim_out_def)
qed

lemma sim_Advance:
  assumes s: "sim_buf a b"
  shows "sim_buf (Advance a k) (Advance b k)"
proof -
  note l = sim_lengths [OF s]
  have "0 \<le> bend a" using s by (simp add: sim_buf_def)
  then have "Advance x k = x\<lparr>bend := bend a, bstart := min (max 0 (i32 (bstart a + from_end a k))) (bend a)\<rparr>" if "x = a \<or> x = b" for x
    using that l by (auto simp: Advance_def Check_def Let_def min_def max_def)
  then show ?thesis using sim_shrink [OF s \<open>0 \<le> bend a\<close>, of "min (max 0 (i32 (bstart a + from_end a k))) (bend a)"] \<open>0 \<le> bend a\<close> by simp
qed

lemma sim_run_op: "sim_buf a b \<Longrightarrow> sim_out (run_op op a) (run_op op b)"
proof (cases op)
  case OpBytes
  assume "sim_buf a b"
  then show ?thesis using OpBytes sim_Bytes [of a b] by (cases "Bytes b") (auto simp: run_op_def sim_out_def)
next
  case OpClear
  assume "sim_buf a b"
  then show ?thesis using OpClear sim_Clear by (auto simp: run_op_def sim_out_def)
next
  case OpAdvance
  assume "sim_buf a b"
  then show ?thesis using OpAdvance sim_Advance by (auto simp: run_op_def sim_out_def)
qed (simp_all add: sim_Extend sim_Resize sim_Write sim_WriteByte sim_ReadBytes sim_Read sim_ReadByte)

lemma sim_run_ops: "sim_buf a b \<Longrightarrow> run_ops ops a = run_ops ops b"
proof (induction ops arbitrary: a b)
  case (Cons op ops)
  consider "run_op op a = None" "run_op op b = None"
    | d a' b' where "run_op op a = Some (d, a')" "run_op op b = Some (d, b')" "sim_buf a' b'"
    using sim_run_op [OF Cons.prems, of op] by (auto simp: sim_out_def)
  then show ?case by cases (auto simp: Cons.IH)
qed simp

lemma sim_New: "length x = length y \<Longrightarrow> length x < 2 ^ 31 \<Longrightarrow> sim_buf (New x) (New y)"
  by (simp add: sim_buf_def New_def whole_def Size_def)

section \<open>Properties\<close>



text \<open>
  Buffers as streams: reading \<open>n\<close> bytes with \<^verbatim>\<open>ReadFullFrom\<close> from one buffer into another moves
  exactly the first \<open>n\<close> bytes when they are there, in order; otherwise it moves what there is and reports
  \<^verbatim>\<open>EOF\<close> (nothing read) or \<^verbatim>\<open>ErrUnexpectedEOF\<close>. It always returns.
\<close>

lemma ReadFullFrom_Buffer:
  assumes "buf_ok src" "buf_ok dst" "n \<le> room_of dst"
  shows "\<exists>dst' src'. ReadFullFrom n Buffer_reader src dst (int n) = Some (min n (length (contents src)),
      (if n \<le> length (contents src) then None else if contents src = [] then Some EOF else Some ErrUnexpectedEOF), dst', src') \<and>
    buf_ok src' \<and> contents src' = drop n (contents src) \<and>
    buf_ok dst' \<and> contents dst' = contents dst @ take n (contents src)"
  using Buffer_src.ReadFullFrom_spec [OF assms, of n] by blast

end
