(* ===== verification/Xray_MultiBuffer.thy ===== *)
theory Xray_MultiBuffer
  imports Xray_Buffer
begin

text \<open>
  Lists of buffers (\<^verbatim>\<open>xray-core/common/buf/multi_buffer.go\<close>). A \<open>MultiBuffer\<close> is a list of buffers;
  it stands for the concatenation of their contents, and every operation is specified by what it does
  to that byte string. Operations that take buffers from the pool have the pool's arrays, in the order
  they are handed out, as the argument \<open>pool\<close>. A nil \<^verbatim>\<open>MultiBuffer\<close> and an empty one are the same list.
\<close>

section \<open>Operations\<close>

type_synonym MultiBuffer = "Buffer list"

definition MergeMulti :: "MultiBuffer \<Rightarrow> MultiBuffer \<Rightarrow> MultiBuffer \<times> MultiBuffer" where
  "MergeMulti dest src = (dest @ src, [])"

lemma Write_New_count: "Write (New arr) d = Some (n, e, b) \<Longrightarrow> n = min 8192 (length d)"
  by (auto simp: Write_def New_def go_slice_def Size_def Let_def)

text \<open>The loop of \<^verbatim>\<open>MergeBytes\<close> over the bytes that did not fit: each round fills a new buffer.\<close>

function merge_loop :: "(nat \<Rightarrow> bytes) \<Rightarrow> bytes \<Rightarrow> MultiBuffer option" where
  "merge_loop pool src =
     (if src = [] then Some []
      else do {
        (nBytes, _, b) \<leftarrow> Write (New (pool 0)) src;
        rest \<leftarrow> merge_loop (\<lambda>i. pool (Suc i)) (drop nBytes src);
        Some (b # rest) })"
  by pat_completeness auto
termination
  by (relation "measure (\<lambda>(pool, src). length src)") (auto dest: Write_New_count)

declare merge_loop.simps [simp del]

definition MergeBytes :: "(nat \<Rightarrow> bytes) \<Rightarrow> MultiBuffer \<Rightarrow> bytes \<Rightarrow> MultiBuffer option" where
  "MergeBytes pool dest src =
     (if dest \<noteq> [] \<and> \<not> IsFull (last dest) then do {
        (nBytes, _, b) \<leftarrow> Write (last dest) src;
        rest \<leftarrow> merge_loop pool (drop nBytes src);
        Some (butlast dest @ [b] @ rest) }
      else do { rest \<leftarrow> merge_loop pool src; Some (dest @ rest) })"

text \<open>\<^verbatim>\<open>ReleaseMulti\<close>: the arrays it returns to the pools and the empty list.\<close>

definition ReleaseMulti :: "MultiBuffer \<Rightarrow> bytes list \<times> MultiBuffer" where
  "ReleaseMulti mb = (List.map_filter (\<lambda>b. snd (Release b)) mb, [])"

text \<open>\<^verbatim>\<open>Copy\<close> into a slice: the count and the slice's new content.\<close>

fun Copy :: "MultiBuffer \<Rightarrow> bytes \<Rightarrow> (nat \<times> bytes) option" where
  "Copy [] p = Some (0, p)"
| "Copy (bb # mb) p = do {
     src \<leftarrow> Bytes bb;
     let nBytes = min (length p) (length src);
     let p' = overwrite p 0 src;
     if i32 (int nBytes) < Len bb then Some (nBytes, p')
     else do { (n, rest) \<leftarrow> Copy mb (drop nBytes p'); Some (nBytes + n, take nBytes p' @ rest) } }"

text \<open>
  \<^verbatim>\<open>ReadFrom\<close> fills new buffers until the reader reports an error; the first fuel bounds the number of
  buffers, the second the calls of one \<^verbatim>\<open>ReadFull\<close>.
\<close>

fun ReadFrom_loop :: "nat \<Rightarrow> nat \<Rightarrow> (nat \<Rightarrow> bytes) \<Rightarrow> 'r reader \<Rightarrow> 'r \<Rightarrow> (MultiBuffer \<times> err \<times> 'r) option" where
  "ReadFrom_loop 0 fuel pool rd r = None"
| "ReadFrom_loop (Suc k) fuel pool rd r = do {
     (n, e, b, r') \<leftarrow> ReadFullFrom fuel rd r (New (pool 0)) (int Size);
     let mb = (if IsEmpty b then [] else [b]);
     case e of
       Some er \<Rightarrow> Some (mb, (if er = EOF \<or> er = ErrUnexpectedEOF then None else Some er), r')
     | None \<Rightarrow> do {
         (mb', e', r'') \<leftarrow> ReadFrom_loop k fuel (\<lambda>i. pool (Suc i)) rd r';
         Some (mb @ mb', e', r'') } }"

definition MultiBuffer_ReadFrom :: "nat \<Rightarrow> nat \<Rightarrow> (nat \<Rightarrow> bytes) \<Rightarrow> 'r reader \<Rightarrow> 'r \<Rightarrow> (MultiBuffer \<times> err \<times> 'r) option" where
  "MultiBuffer_ReadFrom k fuel pool rd r = ReadFrom_loop k fuel pool rd r"

text \<open>\<^verbatim>\<open>SplitBytes\<close> into a slice: what is left, the count and the slice's new content.\<close>

fun SplitBytes :: "MultiBuffer \<Rightarrow> bytes \<Rightarrow> (MultiBuffer \<times> nat \<times> bytes) option" where
  "SplitBytes [] p = Some ([], 0, p)"
| "SplitBytes (pBuffer # mb) p = do {
     (p', nBytes, _, b) \<leftarrow> Read pBuffer p;
     if \<not> IsEmpty b then Some (b # mb, nBytes, p')
     else do {
       (mb', n, rest) \<leftarrow> SplitBytes mb (drop nBytes p');
       Some (mb', nBytes + n, take nBytes p' @ rest) } }"

definition SplitFirst :: "MultiBuffer \<Rightarrow> MultiBuffer \<times> Buffer option" where
  "SplitFirst mb = (case mb of [] \<Rightarrow> ([], None) | b # mb' \<Rightarrow> (mb', Some b))"

definition SplitFirstBytes :: "MultiBuffer \<Rightarrow> bytes \<Rightarrow> (MultiBuffer \<times> nat \<times> bytes) option" where
  "SplitFirstBytes mb p =
     (case SplitFirst mb of
        (mb', None) \<Rightarrow> Some (mb', 0, p)
      | (mb', Some b) \<Rightarrow> do {
          src \<leftarrow> Bytes b;
          Some (mb', min (length p) (length src), overwrite p 0 src) })"

text \<open>\<^verbatim>\<open>Compact\<close>; \<^verbatim>\<open>common.Must2\<close> turns an error of \<^verbatim>\<open>ReadFrom\<close> into a panic.\<close>

fun compact_loop :: "Buffer \<Rightarrow> MultiBuffer \<Rightarrow> MultiBuffer option" where
  "compact_loop last_b [] = Some [last_b]"
| "compact_loop last_b (cur # mb) =
     (if Len cur > Available last_b then do {
        mb2 \<leftarrow> compact_loop cur mb;
        Some (last_b # mb2) }
      else do {
        (n, e, b, c) \<leftarrow> ReadFrom Buffer_reader cur last_b;
        if e \<noteq> None then None else compact_loop b mb })"

definition Compact :: "MultiBuffer \<Rightarrow> MultiBuffer option" where
  "Compact mb = (case mb of [] \<Rightarrow> Some [] | b # mb' \<Rightarrow> compact_loop b mb')"

fun split_size_loop :: "int \<Rightarrow> int \<Rightarrow> MultiBuffer \<Rightarrow> MultiBuffer \<times> MultiBuffer" where
  "split_size_loop tot sz [] = ([], [])"
| "split_size_loop tot sz (b # mb) =
     (if i32 (tot + Len b) > sz then (b # mb, [])
      else let (rest, r) = split_size_loop (i32 (tot + Len b)) sz mb in (rest, b # r))"

definition SplitSize :: "bytes \<Rightarrow> MultiBuffer \<Rightarrow> int \<Rightarrow> (MultiBuffer \<times> MultiBuffer) option" where
  "SplitSize arr mb sz =
     (case mb of
        [] \<Rightarrow> Some ([], [])
      | b0 # mb' \<Rightarrow>
          if Len b0 > sz then do {
            ((lo, hi), b) \<leftarrow> Extend (New arr) sz;
            src \<leftarrow> BytesTo b0 sz;
            Some (Advance b0 sz # mb', [store lo (take (hi - lo) src) b]) }
          else Some (split_size_loop 0 sz mb))"

definition SplitMulti :: "MultiBuffer \<Rightarrow> int \<Rightarrow> MultiBuffer \<times> MultiBuffer" where
  "SplitMulti mb i =
     (if i < int (length mb) \<and> i \<ge> 0 then (take (nat i) mb, drop (nat i) mb) else (mb, []))"

text \<open>\<^verbatim>\<open>WriteMultiBuffer\<close>: a writer takes bytes and returns an error and its new state.\<close>

fun WriteMultiBuffer :: "('w \<Rightarrow> bytes \<Rightarrow> err \<times> 'w) \<Rightarrow> 'w \<Rightarrow> MultiBuffer \<Rightarrow> (MultiBuffer \<times> err \<times> 'w) option" where
  "WriteMultiBuffer wr w [] = Some ([], None, w)"
| "WriteMultiBuffer wr w (b # mb) = do {
     d \<leftarrow> Bytes b;
     let (e, w') = wr w d;
     if e \<noteq> None then Some (mb, e, w') else WriteMultiBuffer wr w' mb }"

fun mb_len :: "int \<Rightarrow> MultiBuffer \<Rightarrow> int" where
  "mb_len sz [] = sz"
| "mb_len sz (b # mb) = mb_len (i32 (sz + Len b)) mb"

definition MultiBuffer_Len :: "MultiBuffer \<Rightarrow> int" where "MultiBuffer_Len mb = mb_len 0 mb"

fun MultiBuffer_IsEmpty :: "MultiBuffer \<Rightarrow> bool" where
  "MultiBuffer_IsEmpty [] = True"
| "MultiBuffer_IsEmpty (b # mb) = (if \<not> IsEmpty b then False else MultiBuffer_IsEmpty mb)"

fun MultiBuffer_String :: "MultiBuffer \<Rightarrow> bytes option" where
  "MultiBuffer_String [] = Some []"
| "MultiBuffer_String (b # mb) = do { d \<leftarrow> Bytes b; s \<leftarrow> MultiBuffer_String mb; Some (d @ s) }"

definition ReadAllToBytes :: "nat \<Rightarrow> nat \<Rightarrow> (nat \<Rightarrow> bytes) \<Rightarrow> 'r reader \<Rightarrow> 'r \<Rightarrow> (bytes \<times> err \<times> 'r) option" where
  "ReadAllToBytes k fuel pool rd r = do {
     (mb, e, r') \<leftarrow> MultiBuffer_ReadFrom k fuel pool rd r;
     if e \<noteq> None then Some ([], e, r')
     else if MultiBuffer_Len mb = 0 then Some ([], None, r')
     else if MultiBuffer_Len mb < 0 then None
     else do {
       (mb', n, b) \<leftarrow> SplitBytes mb (replicate (nat (MultiBuffer_Len mb)) 0);
       Some (b, None, r') } }"

section \<open>MultiBufferContainer\<close>

record MultiBufferContainer =
  mbc :: MultiBuffer

definition Container_Read :: "MultiBufferContainer \<Rightarrow> bytes \<Rightarrow> (bytes \<times> nat \<times> err \<times> MultiBufferContainer) option" where
  "Container_Read c p =
     (if MultiBuffer_IsEmpty (mbc c) then Some (p, 0, Some EOF, c)
      else do {
        (mb, nBytes, p') \<leftarrow> SplitBytes (mbc c) p;
        Some (p', nBytes, None, c\<lparr>mbc := mb\<rparr>) })"

definition Container_ReadMultiBuffer :: "MultiBufferContainer \<Rightarrow> MultiBuffer \<times> err \<times> MultiBufferContainer" where
  "Container_ReadMultiBuffer c = (mbc c, None, c\<lparr>mbc := []\<rparr>)"

definition Container_Write :: "(nat \<Rightarrow> bytes) \<Rightarrow> MultiBufferContainer \<Rightarrow> bytes \<Rightarrow> (nat \<times> err \<times> MultiBufferContainer) option" where
  "Container_Write pool c b = do {
     mb \<leftarrow> MergeBytes pool (mbc c) b;
     Some (length b, None, c\<lparr>mbc := mb\<rparr>) }"

definition Container_WriteMultiBuffer :: "MultiBufferContainer \<Rightarrow> MultiBuffer \<Rightarrow> err \<times> MultiBufferContainer" where
  "Container_WriteMultiBuffer c b = (None, c\<lparr>mbc := fst (MergeMulti (mbc c) b)\<rparr>)"

definition Container_Close :: "MultiBufferContainer \<Rightarrow> err \<times> MultiBufferContainer" where
  "Container_Close c = (None, c\<lparr>mbc := snd (ReleaseMulti (mbc c))\<rparr>)"

section \<open>The byte string a list of buffers stands for\<close>

definition mb_ok :: "MultiBuffer \<Rightarrow> bool" where
  "mb_ok mb \<longleftrightarrow> (\<forall>b\<in>set mb. buf_ok b)"

definition mb_contents :: "MultiBuffer \<Rightarrow> bytes" where
  "mb_contents mb = concat (map contents mb)"

lemma mb_ok_simps [simp]: "mb_ok []" "mb_ok (b # mb) \<longleftrightarrow> buf_ok b \<and> mb_ok mb" "mb_ok (mb @ mb') \<longleftrightarrow> mb_ok mb \<and> mb_ok mb'"
  by (auto simp: mb_ok_def)

lemma mb_contents_simps [simp]:
  "mb_contents [] = []" "mb_contents (b # mb) = contents b @ mb_contents mb"
  "mb_contents (mb @ mb') = mb_contents mb @ mb_contents mb'"
  by (auto simp: mb_contents_def)

abbreviation pool_ok :: "(nat \<Rightarrow> bytes) \<Rightarrow> bool" where
  "pool_ok pool \<equiv> \<forall>i. length (pool i) < 2 ^ 31"

lemma MultiBuffer_IsEmpty_eq [simp]: "mb_ok mb \<Longrightarrow> MultiBuffer_IsEmpty mb \<longleftrightarrow> mb_contents mb = []"
  by (induction mb) auto

lemma MultiBuffer_String_eq: "mb_ok mb \<Longrightarrow> MultiBuffer_String mb = Some (mb_contents mb)"
  by (induction mb) auto

lemma mb_len_eq:
  "mb_ok mb \<Longrightarrow> k + length (mb_contents mb) < 2 ^ 31 \<Longrightarrow> mb_len (int k) mb = int (k + length (mb_contents mb))"
proof (induction mb arbitrary: k)
  case (Cons b mb)
  then have "i32 (int k + Len b) = int (k + length (contents b))" by simp
  then show ?case using Cons.IH [of "k + length (contents b)"] Cons.prems by (simp add: add.assoc)
qed simp

lemma MultiBuffer_Len_eq:
  "mb_ok mb \<Longrightarrow> length (mb_contents mb) < 2 ^ 31 \<Longrightarrow> MultiBuffer_Len mb = int (length (mb_contents mb))"
  using mb_len_eq [of mb 0] by (simp add: MultiBuffer_Len_def)

section \<open>Functional behaviour\<close>

lemma merge_loop_spec:
  "pool_ok pool \<Longrightarrow> \<exists>mb. merge_loop pool src = Some mb \<and> mb_ok mb \<and> mb_contents mb = src"
proof (induction "length src" arbitrary: pool src rule: less_induct)
  case less
  show ?case
  proof (cases "src = []")
    case True
    then show ?thesis by (simp add: merge_loop.simps)
  next
    case False
    obtain b where b: "Write (New (pool 0)) src = Some (min 8192 (length src),
        (if 8192 < length src then Some ErrBufferFull else None), b)"
      "buf_ok b" "contents b = take 8192 src"
      using Write_ok [of "New (pool 0)" src] less.prems by auto
    have "length (drop (min 8192 (length src)) src) < length src" using False by simp
    then obtain mb where "merge_loop (\<lambda>i. pool (Suc i)) (drop (min 8192 (length src)) src) = Some mb" "mb_ok mb"
      "mb_contents mb = drop (min 8192 (length src)) src"
      using less.hyps [of "drop (min 8192 (length src)) src" "\<lambda>i. pool (Suc i)"] less.prems by auto
    then show ?thesis using b False by (subst merge_loop.simps) (auto simp: min_def)
  qed
qed

lemma MergeBytes_ok:
  assumes "pool_ok pool" "mb_ok dest"
  shows "\<exists>mb. MergeBytes pool dest src = Some mb \<and> mb_ok mb \<and> mb_contents mb = mb_contents dest @ src"
proof (cases "dest \<noteq> [] \<and> \<not> IsFull (last dest)")
  case True
  then obtain d l where d: "dest = d @ [l]" "mb_ok d" "buf_ok l" using assms(2) by (cases dest rule: rev_cases) auto
  obtain b where b: "Write l src = Some (min (room_of l) (length src),
      (if room_of l < length src then Some ErrBufferFull else None), b)"
    "buf_ok b" "contents b = contents l @ take (room_of l) src"
    using Write_ok [OF d(3), of src] by blast
  obtain mb where "merge_loop pool (drop (min (room_of l) (length src)) src) = Some mb" "mb_ok mb"
    "mb_contents mb = drop (min (room_of l) (length src)) src"
    using merge_loop_spec [OF assms(1)] by blast
  then show ?thesis using True b d by (auto simp: MergeBytes_def min_def)
next
  case False
  then show ?thesis using merge_loop_spec [OF assms(1), of src] assms(2) by (auto simp: MergeBytes_def)
qed

lemma overwrite_append:
  "overwrite p 0 (a @ b) = take (min (length p) (length a)) (overwrite p 0 a) @
     overwrite (drop (min (length p) (length a)) (overwrite p 0 a)) 0 b"
  by (auto simp: overwrite_def min_def add.commute)

lemma contents_i32 [simp]: "buf_ok b \<Longrightarrow> i32 (int (length (contents b))) = int (length (contents b))"
  by (erule buf_okE) (simp add: contents_def)

lemma New_fields [simp]: "bstart (New arr) = 0" "bend (New arr) = 0" "UDP (New arr) = None"
  by (simp_all add: New_def)

lemma SplitBytes_ok:
  assumes "mb_ok mb"
  shows "\<exists>mb'. SplitBytes mb p = Some (mb', min (length p) (length (mb_contents mb)), overwrite p 0 (mb_contents mb)) \<and>
    mb_ok mb' \<and> mb_contents mb' = drop (length p) (mb_contents mb) \<and> length mb' \<le> length mb"
  using assms
proof (induction mb arbitrary: p)
  case Nil
  then show ?case by (simp add: overwrite_def)
next
  case (Cons b mb)
  then have b: "buf_ok b" and mb: "mb_ok mb" by auto
  let ?n = "min (length p) (length (contents b))" and ?p = "overwrite p 0 (contents b)"
  obtain e b' where r: "Read b p = Some (?p, ?n, e, b')" "buf_ok b'" "contents b' = drop (length p) (contents b)"
  proof (cases "contents b = []")
    case True
    show thesis by (rule that [of "Some EOF" b]) (use True b in \<open>simp_all add: Read_empty overwrite_def\<close>)
  next
    case False
    then show thesis using Read_ok [OF b, of p] that by blast
  qed
  show ?case
  proof (cases "length p < length (contents b)")
    case True
    then show ?thesis using r mb by (auto simp: overwrite_def)
  next
    case False
    then have n: "?n = length (contents b)" by simp
    have l: "length ?p = length p" by simp
    obtain mb' where "SplitBytes mb (drop ?n ?p) = Some (mb', min (length p - ?n) (length (mb_contents mb)),
        overwrite (drop ?n ?p) 0 (mb_contents mb))"
      "mb_ok mb'" "mb_contents mb' = drop (length p - ?n) (mb_contents mb)" "length mb' \<le> length mb"
      using Cons.IH [OF mb, of "drop ?n ?p"] l by auto
    then show ?thesis
      using r False n overwrite_append [of p "contents b" "mb_contents mb"] by (auto simp: min_def)
  qed
qed

lemma split_size_loop_spec:
  assumes "mb_ok mb" "k + length (mb_contents mb) < 2 ^ 31"
  shows "case split_size_loop (int k) (int n) mb of (rest, r) \<Rightarrow>
    mb = r @ rest \<and> (int k \<le> int n \<longrightarrow> k + length (mb_contents r) \<le> n) \<and>
    (rest \<noteq> [] \<longrightarrow> n < k + length (mb_contents r) + length (contents (hd rest)))"
  using assms
proof (induction mb arbitrary: k)
  case (Cons b mb)
  then have i: "i32 (int k + Len b) = int (k + length (contents b))" by simp
  show ?case
    using Cons.IH [of "k + length (contents b)"] Cons.prems i by (auto simp: Let_def split: prod.splits)
qed auto

lemma SplitSize_ok:
  assumes mb: "mb_ok mb" "length (mb_contents mb) < 2 ^ 31" and n: "n \<le> 8192" and arr: "length arr < 2 ^ 31"
  shows "\<exists>mb' r. SplitSize arr mb (int n) = Some (mb', r) \<and> mb_ok mb' \<and> mb_ok r \<and>
    mb_contents r @ mb_contents mb' = mb_contents mb \<and> length (mb_contents r) \<le> n \<and>
    (mb \<noteq> [] \<longrightarrow> r \<noteq> [])"
proof (cases mb)
  case Nil
  then show ?thesis by (simp add: SplitSize_def)
next
  case (Cons b0 mb0)
  then have b0: "buf_ok b0" "mb_ok mb0" using mb by auto
  show ?thesis
  proof (cases "n < length (contents b0)")
    case True
    obtain b where b: "Extend (New arr) (int n) = Some ((0, n), b)" "buf_ok b" "contents b = replicate n 0" "bstart b = 0"
      using Extend_ok [of "New arr" n] n arr by auto
    have st: "buf_ok (store 0 (take n (contents b0)) b)" "contents (store 0 (take n (contents b0)) b) = take n (contents b0)"
      using contents_take_drop [OF b(2), of 0 0 "take n (contents b0)"] b True by (auto simp: overwrite_def)
    have "SplitSize arr mb (int n) = Some (Advance b0 (int n) # mb0, [store 0 (take n (contents b0)) b])"
      using True b BytesTo_ok [OF b0(1), of n] Cons b0 by (simp add: SplitSize_def)
    then show ?thesis using st Advance_ok [OF b0(1), of n] True b0 Cons by auto
  next
    case False
    obtain rest r where l: "split_size_loop 0 (int n) mb = (rest, r)" by fastforce
    then have "r \<noteq> []" using False b0 Cons by (auto simp: Let_def split: prod.splits)
    moreover have "SplitSize arr mb (int n) = Some (rest, r)" using l False b0 Cons by (simp add: SplitSize_def)
    moreover have "mb = r @ rest" "length (mb_contents r) \<le> n"
      using split_size_loop_spec [OF mb(1), of 0 n] mb(2) l by auto
    ultimately show ?thesis using mb(1) by auto
  qed
qed

lemma SplitMulti_ok:
  "SplitMulti mb i = (a, b) \<Longrightarrow> a @ b = mb"
  by (auto simp: SplitMulti_def split: if_splits)

lemma compact_loop_spec:
  assumes "buf_ok b" "mb_ok mb" "\<forall>c\<in>set mb. contents c \<noteq> []"
  shows "\<exists>mb'. compact_loop b mb = Some mb' \<and> mb_ok mb' \<and> mb_contents mb' = contents b @ mb_contents mb \<and>
    length mb' \<le> Suc (length mb)"
  using assms
proof (induction mb arbitrary: b)
  case (Cons c mb)
  then have c: "buf_ok c" "contents c \<noteq> []" by auto
  show ?case
  proof (cases "room_of b < length (contents c)")
    case True
    then show ?thesis using Cons.IH [of c] Cons.prems by auto
  next
    case False
    then have room: "0 < room_of b" using c(2) by (cases "contents c") auto
    obtain n b' c' where b': "ReadFrom Buffer_reader c b = Some (n, None, b', c')" "buf_ok b'"
      "contents b' = contents b @ take n (contents c)" "n \<le> length (contents c)" "contents c' = drop n (contents c)"
      "n = length (contents c)"
    proof -
      obtain e s where be: "bstart b = int s" "bend b = int e" "s \<le> e" "e \<le> length (bv b)"
        using Cons.prems(1) by (rule buf_okE)
      have r: "go_slice (bv b) (int e) (int (length (bv b))) = Some (drop e (bv b))" "length (drop e (bv b)) = room_of b"
        using be by (simp_all add: go_slice_def room_of_def)
      obtain c' where c': "Read c (drop e (bv b)) = Some (overwrite (drop e (bv b)) 0 (contents c), length (contents c), None, c')"
        using Read_ok [OF c, of "drop e (bv b)"] r(2) False by (auto simp: min_def)
      obtain n b' c'' where n: "ReadFrom Buffer_reader c b = Some (n, None, b', c'')" "buf_ok b'"
        "contents b' = contents b @ take n (contents c)" "n \<le> length (contents c)" "contents c'' = drop n (contents c)"
        using Buffer_src.ReadFrom_spec [OF c Cons.prems(1) room] by blast
      moreover have "n = length (contents c)"
        using n(1) r c' be by (simp add: ReadFrom_def Buffer_reader_def)
      ultimately show thesis by (rule that)
    qed
    then show ?thesis using False Cons.IH [of b'] Cons.prems by auto
  qed
qed simp

lemma Compact_ok:
  assumes "mb_ok mb" "\<forall>c\<in>set (tl mb). contents c \<noteq> []"
  shows "\<exists>mb'. Compact mb = Some mb' \<and> mb_ok mb' \<and> mb_contents mb' = mb_contents mb \<and> length mb' \<le> length mb"
  using compact_loop_spec [of "hd mb" "tl mb"] assms by (cases mb) (auto simp: Compact_def)

lemma WriteMultiBuffer_ok:
  assumes "mb_ok mb" "\<And>w d. fst (wr w d) = None"
  shows "WriteMultiBuffer wr w mb = Some ([], None, fold (\<lambda>b w. snd (wr w (contents b))) mb w)"
  using assms(1) by (induction mb arbitrary: w) (auto simp: split_def Let_def assms(2))

text \<open>\<^verbatim>\<open>MultiBufferContainer\<close> as an \<^verbatim>\<open>io.Reader\<close>.\<close>

definition Container_reader :: "MultiBufferContainer reader" where
  "Container_reader c p = the (Container_Read c p)"

interpretation Container_src: byte_source Container_reader "\<lambda>c. mb_contents (mbc c)" "\<lambda>c. mb_ok (mbc c)"
proof
  fix c :: MultiBufferContainer and p :: bytes
  assume ok: "mb_ok (mbc c)" and p: "p \<noteq> []"
  let ?s = "mb_contents (mbc c)"
  show "\<exists>n c'. 0 < n \<and> n \<le> length p \<and> n \<le> length ?s \<and> mb_ok (mbc c') \<and> mb_contents (mbc c') = drop n ?s \<and>
      Container_reader c p = (take n ?s @ drop n p, n, None, c')" if s: "?s \<noteq> []"
  proof -
    obtain mb' where mb': "SplitBytes (mbc c) p = Some (mb', min (length p) (length ?s), overwrite p 0 ?s)"
      "mb_ok mb'" "mb_contents mb' = drop (length p) ?s"
      using SplitBytes_ok [OF ok, of p] by blast
    then have "Container_reader c p = (overwrite p 0 ?s, min (length p) (length ?s), None, c\<lparr>mbc := mb'\<rparr>)"
      using s ok by (simp add: Container_reader_def Container_Read_def)
    then show ?thesis
      using mb' s p by (intro exI [of _ "min (length p) (length ?s)"] exI [of _ "c\<lparr>mbc := mb'\<rparr>"])
        (auto simp: overwrite_def min_def)
  qed
  show "\<exists>c'. mb_ok (mbc c') \<and> mb_contents (mbc c') = [] \<and> Container_reader c p = (p, 0, Some EOF, c')" if "?s = []"
    using that ok by (auto simp: Container_reader_def Container_Read_def)
qed

text \<open>\<^verbatim>\<open>ReadFrom\<close> reads everything a byte source holds.\<close>

context byte_source
begin

lemma ReadFrom_loop_spec:
  assumes "good r" "pool_ok pool" "length (content r) < 8192 * k" "8192 \<le> fuel"
  shows "\<exists>mb r'. ReadFrom_loop k fuel pool rd r = Some (mb, None, r') \<and> mb_ok mb \<and> mb_contents mb = content r \<and>
    (\<forall>b\<in>set mb. contents b \<noteq> []) \<and> good r' \<and> content r' = []"
  using assms
proof (induction k arbitrary: r pool)
  case (Suc k)
  obtain b r' where b: "ReadFullFrom fuel rd r (New (pool 0)) (int 8192) = Some (min 8192 (length (content r)),
      (if 8192 \<le> length (content r) then None else if content r = [] then Some EOF else Some ErrUnexpectedEOF), b, r')"
    "good r'" "content r' = drop 8192 (content r)" "buf_ok b" "contents b = take 8192 (content r)"
    using ReadFullFrom_spec [OF Suc.prems(1), of "New (pool 0)" 8192 fuel] Suc.prems by auto
  show ?case
  proof (cases "8192 \<le> length (content r)")
    case True
    then have "length (content r') < 8192 * k" using Suc.prems(3) b(3) by simp
    then obtain mb r'' where "ReadFrom_loop k fuel (\<lambda>i. pool (Suc i)) rd r' = Some (mb, None, r'')" "mb_ok mb"
      "mb_contents mb = content r'" "\<forall>b\<in>set mb. contents b \<noteq> []" "good r''" "content r'' = []"
      using Suc.IH [OF b(2), of "\<lambda>i. pool (Suc i)"] Suc.prems by auto
    then show ?thesis using b True by (auto simp: Size_def)
  next
    case False
    then show ?thesis using b by (auto simp: Size_def)
  qed
qed simp

end

section \<open>Properties\<close>

text \<open>
  \<^verbatim>\<open>SplitBytes\<close> consumes exactly the bytes it copies: it fills the slice with the longest prefix of
  the content that fits, reports its length, and what is left is exactly the rest of the content. It
  never panics.
\<close>

lemma SplitBytes_spec:
  assumes "mb_ok mb"
  shows "\<exists>mb'. SplitBytes mb p = Some (mb', min (length p) (length (mb_contents mb)), overwrite p 0 (mb_contents mb)) \<and>
    mb_ok mb' \<and> mb_contents mb' = drop (length p) (mb_contents mb)"
  using SplitBytes_ok [OF assms] by blast



text \<open>
  C15. \<^verbatim>\<open>Compact\<close> keeps the content and never grows the list, provided no buffer after the first is
  empty; an empty one makes \<^verbatim>\<open>common.Must2\<close> panic.
\<close>

theorem Compact_spec:
  "(mb_ok mb \<and> (\<forall>c\<in>set (tl mb). contents c \<noteq> []) \<longrightarrow>
     (\<exists>mb'. Compact mb = Some mb' \<and> mb_ok mb' \<and> mb_contents mb' = mb_contents mb \<and> length mb' \<le> length mb)) \<and>
   (buf_ok b \<and> buf_ok c \<and> contents c = [] \<longrightarrow> Compact (b # c # mb2) = None)"
proof -
  have "Compact (b # c # mb2) = None" if "buf_ok b" "buf_ok c" "contents c = []"
  proof -
    have "\<not> Available b < 0" using that by simp
    then show ?thesis
      using that by (elim buf_okE [of b]) (simp add: Compact_def ReadFrom_def Buffer_reader_def Read_empty go_slice_def)
  qed
  then show ?thesis using Compact_ok [of mb] by blast
qed

theorem Compact_spec_witness:
  "(\<exists>mb'. Compact [FromBytes [1] [], FromBytes [2] []] = Some mb' \<and> mb_contents mb' = [1, 2]) \<and>
   Compact [New [], New []] = None"
  using Compact_spec [of "[FromBytes [1] [], FromBytes [2] []]" "New []" "New []" "[]"] by auto

end
