(* ===== verification/Kcp_Segment.thy ===== *)
theory Kcp_Segment
  imports Xray_MultiBuffer
begin

text \<open>
  The wire format of the mKCP transport (\<^verbatim>\<open>xray-core/transport/internet/kcp\<close>: \<^verbatim>\<open>segment.go\<close>,
  \<^verbatim>\<open>io.go\<close>, \<^verbatim>\<open>output.go\<close>). The three segment structs are records, the \<^verbatim>\<open>Segment\<close> interface is the
  datatype \<open>Segment\<close>. \<open>wire\<close> is what a segment says to the peer; serialising and parsing keep it. The
  locale \<open>segment_codec\<close> lifts the round trip of one segment to packets of several.
\<close>

section \<open>Segments\<close>

type_synonym Command = u8
type_synonym SegmentOption = u8

definition CommandACK :: Command where "CommandACK = 0"
definition CommandData :: Command where "CommandData = 1"
definition CommandTerminate :: Command where "CommandTerminate = 2"
definition CommandPing :: Command where "CommandPing = 3"
definition SegmentOptionClose :: SegmentOption where "SegmentOptionClose = 1"

lemmas command_defs = CommandACK_def CommandData_def CommandTerminate_def CommandPing_def SegmentOptionClose_def

record DataSegment =
  d_Conv :: u16
  d_Option :: SegmentOption
  d_Timestamp :: u32
  d_Number :: u32
  d_SendingNext :: u32
  d_payload :: "Buffer option"
  d_timeout :: u32
  d_transmit :: u32

record AckSegment =
  a_Conv :: u16
  a_Option :: SegmentOption
  a_ReceivingWindow :: u32
  a_ReceivingNext :: u32
  a_Timestamp :: u32
  a_NumberList :: "u32 list"
  a_Limit :: int

record CmdOnlySegment =
  c_Conv :: u16
  c_Cmd :: Command
  c_Option :: SegmentOption
  c_SendingNext :: u32
  c_ReceivingNext :: u32
  c_PeerRTO :: u32

datatype Segment = SegData DataSegment | SegAck AckSegment | SegCmd CmdOnlySegment

definition NewDataSegment :: DataSegment where
  "NewDataSegment = \<lparr>d_Conv = 0, d_Option = 0, d_Timestamp = 0, d_Number = 0, d_SendingNext = 0,
     d_payload = None, d_timeout = 0, d_transmit = 0\<rparr>"

definition ackNumberLimit :: int where "ackNumberLimit = 128"

definition NewAckSegment :: "int \<Rightarrow> AckSegment" where
  "NewAckSegment limit0 =
     (let limit1 = (if limit0 \<le> 0 then 1 else limit0);
          limit = (if limit1 > ackNumberLimit then ackNumberLimit else limit1)
      in \<lparr>a_Conv = 0, a_Option = 0, a_ReceivingWindow = 0, a_ReceivingNext = 0, a_Timestamp = 0,
          a_NumberList = [], a_Limit = limit\<rparr>)"

definition NewCmdOnlySegment :: CmdOnlySegment where
  "NewCmdOnlySegment = \<lparr>c_Conv = 0, c_Cmd = 0, c_Option = 0, c_SendingNext = 0, c_ReceivingNext = 0, c_PeerRTO = 0\<rparr>"

text \<open>\<^verbatim>\<open>Data()\<close> creates the payload buffer when there is none.\<close>

definition Data :: "bytes \<Rightarrow> DataSegment \<Rightarrow> Buffer" where
  "Data arr s = (case d_payload s of None \<Rightarrow> New arr | Some b \<Rightarrow> b)"

definition Detach :: "DataSegment \<Rightarrow> Buffer option \<times> DataSegment" where
  "Detach s = (d_payload s, s\<lparr>d_payload := None\<rparr>)"

definition DataSegment_Release :: "DataSegment \<Rightarrow> DataSegment" where
  "DataSegment_Release s = s\<lparr>d_payload := None\<rparr>"

definition PutTimestamp :: "u32 \<Rightarrow> AckSegment \<Rightarrow> AckSegment" where
  "PutTimestamp timestamp s = (if timestamp - a_Timestamp s < 0x7FFFFFFF then s\<lparr>a_Timestamp := timestamp\<rparr> else s)"

definition PutNumber :: "u32 \<Rightarrow> AckSegment \<Rightarrow> AckSegment" where
  "PutNumber number s = s\<lparr>a_NumberList := a_NumberList s @ [number]\<rparr>"

definition Ack_IsFull :: "AckSegment \<Rightarrow> bool" where
  "Ack_IsFull s \<longleftrightarrow> int (length (a_NumberList s)) = a_Limit s"

definition Ack_IsEmpty :: "AckSegment \<Rightarrow> bool" where
  "Ack_IsEmpty s \<longleftrightarrow> a_NumberList s = []"

section \<open>Parsing\<close>

text \<open>
  The \<^verbatim>\<open>parse\<close> methods; \<open>None\<close> is the invalid result. The guards on the length make every access
  in range. A payload longer than a buffer is cut to the buffer's size.
\<close>

definition parse_data :: "bytes \<Rightarrow> u16 \<Rightarrow> SegmentOption \<Rightarrow> bytes \<Rightarrow> (DataSegment \<times> bytes) option" where
  "parse_data arr conv opt b =
     (if length b < 15 then None
      else do {
        timestamp \<leftarrow> be_uint32 b;
        number \<leftarrow> be_uint32 (drop 4 b);
        sendingNext \<leftarrow> be_uint32 (drop 8 b);
        len \<leftarrow> be_uint16 (drop 12 b);
        let dataLen = unat len;
        let b' = drop 14 b;
        if length b' < dataLen then None
        else do {
          (n, e, p) \<leftarrow> Write (Clear (New arr)) (take dataLen b');
          Some (\<lparr>d_Conv = conv, d_Option = opt, d_Timestamp = timestamp, d_Number = number,
             d_SendingNext = sendingNext, d_payload = Some p, d_timeout = 0, d_transmit = 0\<rparr>, drop dataLen b') } })"

fun parse_numbers :: "nat \<Rightarrow> bytes \<Rightarrow> AckSegment \<Rightarrow> (AckSegment \<times> bytes) option" where
  "parse_numbers 0 b s = Some (s, b)"
| "parse_numbers (Suc n) b s = do { x \<leftarrow> be_uint32 b; parse_numbers n (drop 4 b) (PutNumber x s) }"

definition parse_ack :: "u16 \<Rightarrow> SegmentOption \<Rightarrow> bytes \<Rightarrow> (AckSegment \<times> bytes) option" where
  "parse_ack conv opt b =
     (if length b < 13 then None
      else do {
        window \<leftarrow> be_uint32 b;
        next \<leftarrow> be_uint32 (drop 4 b);
        timestamp \<leftarrow> be_uint32 (drop 8 b);
        cnt \<leftarrow> go_index b 12;
        let b' = drop 13 b;
        if length b' < unat cnt * 4 then None
        else parse_numbers (unat cnt) b'
          ((NewAckSegment 128)\<lparr>a_Conv := conv, a_Option := opt, a_ReceivingWindow := window,
             a_ReceivingNext := next, a_Timestamp := timestamp\<rparr>) })"

definition parse_cmd :: "u16 \<Rightarrow> Command \<Rightarrow> SegmentOption \<Rightarrow> bytes \<Rightarrow> (CmdOnlySegment \<times> bytes) option" where
  "parse_cmd conv cmd opt b =
     (if length b < 12 then None
      else do {
        sn \<leftarrow> be_uint32 b;
        rn \<leftarrow> be_uint32 (drop 4 b);
        rto \<leftarrow> be_uint32 (drop 8 b);
        Some (\<lparr>c_Conv = conv, c_Cmd = cmd, c_Option = opt, c_SendingNext = sn, c_ReceivingNext = rn, c_PeerRTO = rto\<rparr>, drop 12 b) })"

definition ReadSegment :: "bytes \<Rightarrow> bytes \<Rightarrow> (Segment \<times> bytes) option" where
  "ReadSegment arr b =
     (if length b < 4 then None
      else do {
        conv \<leftarrow> be_uint16 b;
        cmd \<leftarrow> go_index b 2;
        opt \<leftarrow> go_index b 3;
        let b' = drop 4 b;
        if cmd = CommandData then map_option (\<lambda>(s, r). (SegData s, r)) (parse_data arr conv opt b')
        else if cmd = CommandACK then map_option (\<lambda>(s, r). (SegAck s, r)) (parse_ack conv opt b')
        else map_option (\<lambda>(s, r). (SegCmd s, r)) (parse_cmd conv cmd opt b') })"

lemma parse_numbers_shorter: "parse_numbers n b s = Some (s', r) \<Longrightarrow> length r \<le> length b"
  by (induction n b s rule: parse_numbers.induct) (auto split: Option.bind_splits)

lemma ReadSegment_shorter: "ReadSegment arr b = Some (s, r) \<Longrightarrow> length r < length b"
  by (auto simp: ReadSegment_def parse_data_def parse_ack_def parse_cmd_def Let_def
      dest!: parse_numbers_shorter split: if_splits Option.bind_splits)

text \<open>\<^verbatim>\<open>KCPPacketReader.Read\<close>: segments until the packet is used up or one is invalid.\<close>

function PacketReader_Read :: "(nat \<Rightarrow> bytes) \<Rightarrow> bytes \<Rightarrow> Segment list" where
  "PacketReader_Read pool b =
     (if b = [] then []
      else case ReadSegment (pool 0) b of
        None \<Rightarrow> []
      | Some (seg, x) \<Rightarrow> seg # PacketReader_Read (\<lambda>i. pool (Suc i)) x)"
  by pat_completeness auto
termination
  by (relation "measure (\<lambda>(pool, b). length b)") (auto dest: ReadSegment_shorter)

declare PacketReader_Read.simps [simp del]

section \<open>Serialising\<close>

fun Conversation :: "Segment \<Rightarrow> u16" where
  "Conversation (SegData s) = d_Conv s"
| "Conversation (SegAck s) = a_Conv s"
| "Conversation (SegCmd s) = c_Conv s"

fun Command_of :: "Segment \<Rightarrow> Command" where
  "Command_of (SegData s) = CommandData"
| "Command_of (SegAck s) = CommandACK"
| "Command_of (SegCmd s) = c_Cmd s"

definition payload_len :: "DataSegment \<Rightarrow> int" where
  "payload_len s = (case d_payload s of None \<Rightarrow> 0 | Some b \<Rightarrow> Len b)"

fun ByteSize :: "Segment \<Rightarrow> int" where
  "ByteSize (SegData s) = i32 (18 + payload_len s)"
| "ByteSize (SegAck s) = i32 (17 + i32 (int (length (a_NumberList s) * 4)))"
| "ByteSize (SegCmd s) = 16"

text \<open>\<^verbatim>\<open>Serialize\<close> writes into the given slice; it panics when the header does not fit, the payload is cut.\<close>

fun Serialize :: "Segment \<Rightarrow> bytes \<Rightarrow> bytes option" where
  "Serialize (SegData s) b =
     (if length b < 18 then None
      else do {
        p \<leftarrow> d_payload s;
        d \<leftarrow> Bytes p;
        Some (overwrite b 0 (put16 (d_Conv s) @ [CommandData, d_Option s] @ put32 (d_Timestamp s) @
          put32 (d_Number s) @ put32 (d_SendingNext s) @ put16 (word_of_int (Len p)) @ d)) })"
| "Serialize (SegAck s) b =
     (if length b < 17 + 4 * length (a_NumberList s) then None
      else Some (overwrite b 0 (put16 (a_Conv s) @ [CommandACK, a_Option s] @ put32 (a_ReceivingWindow s) @
        put32 (a_ReceivingNext s) @ put32 (a_Timestamp s) @ [of_nat (length (a_NumberList s))] @
        concat (map put32 (a_NumberList s)))))"
| "Serialize (SegCmd s) b =
     (if length b < 16 then None
      else Some (overwrite b 0 (put16 (c_Conv s) @ [c_Cmd s, c_Option s] @ put32 (c_SendingNext s) @
        put32 (c_ReceivingNext s) @ put32 (c_PeerRTO s))))"

text \<open>
  \<^verbatim>\<open>SimpleSegmentWriter.Write\<close>: the packet given to the underlying writer and the writer's buffer.
\<close>

definition SegmentWriter_Write :: "Buffer \<Rightarrow> Segment \<Rightarrow> (bytes \<times> Buffer) option" where
  "SegmentWriter_Write buffer seg = do {
     ((lo, hi), b) \<leftarrow> Extend (Clear buffer) (ByteSize seg);
     raw \<leftarrow> go_slice (bv b) (int lo) (int hi);
     raw' \<leftarrow> Serialize seg raw;
     let b' = store lo raw' b;
     out \<leftarrow> Bytes b';
     Some (out, b') }"

section \<open>What a segment says\<close>

datatype wire_segment =
    WData u16 SegmentOption u32 u32 u32 bytes
  | WAck u16 SegmentOption u32 u32 u32 "u32 list"
  | WCmd u16 Command SegmentOption u32 u32 u32

definition payload_bytes :: "DataSegment \<Rightarrow> bytes" where
  "payload_bytes s = (case d_payload s of None \<Rightarrow> [] | Some b \<Rightarrow> contents b)"

fun wire :: "Segment \<Rightarrow> wire_segment" where
  "wire (SegData s) = WData (d_Conv s) (d_Option s) (d_Timestamp s) (d_Number s) (d_SendingNext s) (payload_bytes s)"
| "wire (SegAck s) = WAck (a_Conv s) (a_Option s) (a_ReceivingWindow s) (a_ReceivingNext s) (a_Timestamp s) (a_NumberList s)"
| "wire (SegCmd s) = WCmd (c_Conv s) (c_Cmd s) (c_Option s) (c_SendingNext s) (c_ReceivingNext s) (c_PeerRTO s)"

text \<open>Segments the protocol builds: a payload of one buffer, at most 128 numbers, a command of its own.\<close>

fun seg_ok :: "Segment \<Rightarrow> bool" where
  "seg_ok (SegData s) \<longleftrightarrow> (\<exists>b. d_payload s = Some b \<and> buf_ok b \<and> 0 < length (contents b) \<and> length (contents b) \<le> 8192)"
| "seg_ok (SegAck s) \<longleftrightarrow> length (a_NumberList s) \<le> 128"
| "seg_ok (SegCmd s) \<longleftrightarrow> c_Cmd s \<noteq> CommandData \<and> c_Cmd s \<noteq> CommandACK"

definition encode :: "Segment \<Rightarrow> bytes" where
  "encode s = the (Serialize s (replicate (nat (ByteSize s)) 0))"

section \<open>Round trip of one segment\<close>

lemma be_skip [simp]:
  "drop 4 (put32 x @ r) = r" "drop 2 (put16 w @ r) = r"
  by (simp_all add: put32_def put16_def)

lemma overwrite_fill: "overwrite (replicate (length ys) x) 0 ys = ys"
  by (simp add: overwrite_def)

lemma encode_data:
  assumes "d_payload s = Some b" "buf_ok b" "length (contents b) \<le> 8192"
  shows "Serialize (SegData s) (replicate (nat (ByteSize (SegData s))) 0) = Some (put16 (d_Conv s) @ [CommandData, d_Option s] @
    put32 (d_Timestamp s) @ put32 (d_Number s) @ put32 (d_SendingNext s) @ put16 (of_nat (length (contents b))) @ contents b)"
proof -
  have n: "nat (ByteSize (SegData s)) = 18 + length (contents b)"
    using assms by (simp add: payload_len_def nat_add_distrib)
  let ?ys = "put16 (d_Conv s) @ [CommandData, d_Option s] @
    put32 (d_Timestamp s) @ put32 (d_Number s) @ put32 (d_SendingNext s) @ put16 (of_nat (length (contents b))) @ contents b"
  have "length ?ys = 18 + length (contents b)" by simp
  then have "overwrite (replicate (18 + length (contents b)) 0) 0 ?ys = ?ys" using overwrite_fill by metis
  then show ?thesis using assms n by simp
qed

lemma encode_ack:
  assumes "length (a_NumberList s) \<le> 128"
  shows "Serialize (SegAck s) (replicate (nat (ByteSize (SegAck s))) 0) = Some (put16 (a_Conv s) @ [CommandACK, a_Option s] @
    put32 (a_ReceivingWindow s) @ put32 (a_ReceivingNext s) @ put32 (a_Timestamp s) @
    [of_nat (length (a_NumberList s))] @ concat (map put32 (a_NumberList s)))"
proof -
  have n: "nat (ByteSize (SegAck s)) = 17 + 4 * length (a_NumberList s)"
    using assms by simp
  have c: "length (concat (map put32 xs)) = 4 * length xs" for xs by (induction xs) auto
  let ?ys = "put16 (a_Conv s) @ [CommandACK, a_Option s] @
    put32 (a_ReceivingWindow s) @ put32 (a_ReceivingNext s) @ put32 (a_Timestamp s) @
    [of_nat (length (a_NumberList s))] @ concat (map put32 (a_NumberList s))"
  have "length ?ys = 17 + 4 * length (a_NumberList s)" using c by simp
  then have "overwrite (replicate (17 + 4 * length (a_NumberList s)) 0) 0 ?ys = ?ys" using overwrite_fill by metis
  then show ?thesis using n by simp
qed

lemma encode_cmd:
  "Serialize (SegCmd s) (replicate (nat (ByteSize (SegCmd s))) 0) = Some (put16 (c_Conv s) @ [c_Cmd s, c_Option s] @
    put32 (c_SendingNext s) @ put32 (c_ReceivingNext s) @ put32 (c_PeerRTO s))" (is "_ = Some ?ys")
proof -
  have "length ?ys = 16" by simp
  then have "overwrite (replicate 16 0) 0 ?ys = ?ys" using overwrite_fill by metis
  then show ?thesis by simp
qed

lemma ReadSegment_header:
  "ReadSegment arr (put16 conv @ [cmd, opt] @ r) =
     (if cmd = CommandData then map_option (\<lambda>(s, r). (SegData s, r)) (parse_data arr conv opt r)
      else if cmd = CommandACK then map_option (\<lambda>(s, r). (SegAck s, r)) (parse_ack conv opt r)
      else map_option (\<lambda>(s, r). (SegCmd s, r)) (parse_cmd conv cmd opt r))"
  by (simp add: ReadSegment_def go_index_def nth_append)

lemma drop_puts [simp]: "drop 8 (put32 x @ r) = drop 4 r" "drop 12 (put32 x @ r) = drop 8 r"
  "drop 13 (put32 x @ r) = drop 9 r" "drop 14 (put32 x @ r) = drop 10 r"
  "drop 9 (put32 x @ r) = drop 5 r" "drop 10 (put32 x @ r) = drop 6 r" "drop 5 (put32 x @ r) = drop 1 r"
  "drop 6 (put32 x @ r) = drop 2 r"
  by (simp_all add: put32_def)

lemma parse_data_encode:
  assumes "length d \<le> 8192" "length arr < 2 ^ 31" "d @ rest \<noteq> []"
  shows "\<exists>p. parse_data arr conv opt (put32 ts @ put32 num @ put32 sn @ put16 (of_nat (length d)) @ d @ rest) =
    Some (\<lparr>d_Conv = conv, d_Option = opt, d_Timestamp = ts, d_Number = num, d_SendingNext = sn,
      d_payload = Some p, d_timeout = 0, d_transmit = 0\<rparr>, rest) \<and> buf_ok p \<and> contents p = d"
proof -
  have c: "buf_ok (Clear (New arr))" "room_of (Clear (New arr)) = 8192"
    using assms(2) New_ok [of arr] by (simp, simp add: Clear_def room_of_def New_def Size_def)
  obtain p where "Write (Clear (New arr)) d = Some (length d, None, p)" "buf_ok p" "contents p = d"
    using Write_fits [OF c(1), of d] c(2) assms(1) by auto
  moreover have "unat (of_nat (length d) :: u16) = length d"
    using assms(1) by (simp add: unat_of_nat)
  moreover have "\<not> length (put32 ts @ put32 num @ put32 sn @ put16 (of_nat (length d)) @ d @ rest) < 15"
    using assms(3) by (cases "d @ rest") (auto simp: Suc_le_eq)
  ultimately show ?thesis by (simp add: parse_data_def)
qed

lemma parse_numbers_encode:
  "parse_numbers (length xs) (concat (map put32 xs) @ rest) s = Some (s\<lparr>a_NumberList := a_NumberList s @ xs\<rparr>, rest)"
  by (induction xs arbitrary: s) (simp_all add: PutNumber_def)

lemma parse_ack_encode:
  assumes "length xs \<le> 128"
  shows "parse_ack conv opt (put32 w @ put32 n @ put32 ts @ [of_nat (length xs)] @ concat (map put32 xs) @ rest) =
    Some (\<lparr>a_Conv = conv, a_Option = opt, a_ReceivingWindow = w, a_ReceivingNext = n, a_Timestamp = ts,
      a_NumberList = xs, a_Limit = 128\<rparr>, rest)"
proof -
  have u: "unat (of_nat (length xs) :: u8) = length xs" using assms by (simp add: unat_of_nat)
  have c: "length (concat (map put32 ys)) = 4 * length ys" for ys by (induction ys) auto
  have i: "go_index (put32 w @ put32 n @ put32 ts @ [of_nat (length xs)] @ concat (map put32 xs) @ rest) 12 =
      Some (of_nat (length xs))" by (simp add: go_index_def nth_append)
  show ?thesis
    using u i parse_numbers_encode [of xs rest] c [of xs]
    by (simp add: parse_ack_def NewAckSegment_def ackNumberLimit_def)
qed

lemma parse_cmd_encode:
  "parse_cmd conv cmd opt (put32 sn @ put32 rn @ put32 rto @ rest) =
    Some (\<lparr>c_Conv = conv, c_Cmd = cmd, c_Option = opt, c_SendingNext = sn, c_ReceivingNext = rn, c_PeerRTO = rto\<rparr>, rest)"
  by (simp add: parse_cmd_def)

lemma ReadSegment_encode:
  assumes "seg_ok s" "length arr < 2 ^ 31"
  shows "\<exists>s'. ReadSegment arr (encode s @ rest) = Some (s', rest) \<and> wire s' = wire s"
proof (cases s)
  case (SegData d)
  then obtain b where b: "d_payload d = Some b" "buf_ok b" "contents b \<noteq> []" "length (contents b) \<le> 8192"
    using assms(1) by auto
  have "encode s = put16 (d_Conv d) @ [CommandData, d_Option d] @ put32 (d_Timestamp d) @ put32 (d_Number d) @
      put32 (d_SendingNext d) @ put16 (of_nat (length (contents b))) @ contents b"
    unfolding encode_def SegData using encode_data [OF b(1,2,4)] by simp
  then show ?thesis
    using parse_data_encode [OF b(4) assms(2), of rest "d_Conv d" "d_Option d" "d_Timestamp d" "d_Number d" "d_SendingNext d"] b SegData
      ReadSegment_header [of arr "d_Conv d" CommandData "d_Option d"]
    by (auto simp: payload_bytes_def)
next
  case (SegAck a)
  then have n: "length (a_NumberList a) \<le> 128" using assms(1) by simp
  then show ?thesis
    unfolding encode_def SegAck encode_ack [OF n]
    using parse_ack_encode [OF n] ReadSegment_header [of arr "a_Conv a" CommandACK "a_Option a"]
    by (simp add: command_defs)
next
  case (SegCmd c)
  then show ?thesis
    using assms(1) unfolding encode_def SegCmd encode_cmd
    using parse_cmd_encode ReadSegment_header [of arr "c_Conv c" "c_Cmd c" "c_Option c"] by simp
qed

lemma encode_nonempty: "seg_ok s \<Longrightarrow> encode s \<noteq> []"
  using ReadSegment_encode [of s "[]" "[]"] by (auto simp: ReadSegment_def)

section \<open>Packets of several segments\<close>

text \<open>
  A codec whose decoder reads one item off the front of a byte string, and the reader that applies it
  until nothing is left. \<open>meaning\<close> is what an item says, which is all that decoding gives back.
\<close>

locale segment_codec =
  fixes enc :: "'s \<Rightarrow> bytes"
    and dec :: "'a \<Rightarrow> bytes \<Rightarrow> ('s \<times> bytes) option"
    and read_all :: "(nat \<Rightarrow> 'a) \<Rightarrow> bytes \<Rightarrow> 's list"
    and meaning :: "'s \<Rightarrow> 'm"
    and item_ok :: "'s \<Rightarrow> bool"
    and arg_ok :: "'a \<Rightarrow> bool"
  assumes dec_enc: "item_ok s \<Longrightarrow> arg_ok x \<Longrightarrow> \<exists>s'. dec x (enc s @ rest) = Some (s', rest) \<and> meaning s' = meaning s"
    and enc_nonempty: "item_ok s \<Longrightarrow> enc s \<noteq> []"
    and read_all_step: "read_all pool b = (if b = [] then [] else case dec (pool 0) b of None \<Rightarrow> []
      | Some (s, r) \<Rightarrow> s # read_all (\<lambda>i. pool (Suc i)) r)"
begin

lemma read_all_enc:
  "\<forall>s\<in>set ss. item_ok s \<Longrightarrow> \<forall>i. arg_ok (pool i) \<Longrightarrow> map meaning (read_all pool (concat (map enc ss))) = map meaning ss"
proof (induction ss arbitrary: pool)
  case Nil
  then show ?case by (subst read_all_step) simp
next
  case (Cons s ss)
  then obtain s' where "dec (pool 0) (enc s @ concat (map enc ss)) = Some (s', concat (map enc ss))" "meaning s' = meaning s"
    using dec_enc [of s "pool 0" "concat (map enc ss)"] by auto
  then show ?case using Cons.IH [of "\<lambda>i. pool (Suc i)"] Cons.prems enc_nonempty [of s] read_all_step [of pool "concat (map enc (s # ss))"]
    by auto
qed

text \<open>Whatever follows, the items at the front of a packet are read.\<close>

lemma read_all_front:
  "\<forall>s\<in>set ss. item_ok s \<Longrightarrow> \<forall>i. arg_ok (pool i) \<Longrightarrow>
   \<exists>more. map meaning (read_all pool (concat (map enc ss) @ junk)) = map meaning ss @ more"
proof (induction ss arbitrary: pool)
  case (Cons s ss)
  then obtain s' where "dec (pool 0) (enc s @ concat (map enc ss) @ junk) = Some (s', concat (map enc ss) @ junk)" "meaning s' = meaning s"
    using dec_enc [of s "pool 0" "concat (map enc ss) @ junk"] by auto
  then show ?case using Cons.IH [of "\<lambda>i. pool (Suc i)"] Cons.prems enc_nonempty [of s]
      read_all_step [of pool "concat (map enc (s # ss)) @ junk"] by auto
qed simp

end

interpretation kcp_codec: segment_codec encode ReadSegment PacketReader_Read wire seg_ok "\<lambda>arr. length arr < 2 ^ 31"
  by unfold_locales (use ReadSegment_encode encode_nonempty PacketReader_Read.simps in auto)

lemma length_concat_put32 [simp]: "length (concat (map put32 xs)) = 4 * length xs"
  by (induction xs) auto

text \<open>\<^verbatim>\<open>Serialize\<close> into any slice of \<^verbatim>\<open>ByteSize\<close> bytes gives the same bytes, whatever the slice held.\<close>

lemma Serialize_encode:
  assumes "seg_ok s" "int (length raw) = ByteSize s"
  shows "Serialize s raw = Some (encode s) \<and> length (encode s) = length raw"
proof -
  have *: "Serialize s raw = Some (encode s) \<and> length (encode s) = length raw"
    if ys: "\<And>r. length r = length ys \<Longrightarrow> Serialize s r = Some (overwrite r 0 ys)" "ByteSize s = int (length ys)" for ys
  proof -
    have "overwrite r 0 ys = ys" if "length r = length ys" for r using that by (simp add: overwrite_def)
    then have "Serialize s r = Some ys" if "length r = length ys" for r using ys(1) that by simp
    moreover have "length raw = length ys" using assms(2) ys(2) by simp
    ultimately show ?thesis using ys(2) by (simp add: encode_def)
  qed
  show ?thesis
  proof (cases s)
    case (SegData d)
    then obtain b where b: "d_payload d = Some b" "buf_ok b" "length (contents b) \<le> 8192" using assms(1) by auto
    show ?thesis
      by (rule * [of "put16 (d_Conv d) @ [CommandData, d_Option d] @ put32 (d_Timestamp d) @ put32 (d_Number d) @
          put32 (d_SendingNext d) @ put16 (word_of_int (Len b)) @ contents b"])
        (use SegData b in \<open>auto simp: payload_len_def\<close>)
  next
    case (SegAck a)
    show ?thesis
      by (rule * [of "put16 (a_Conv a) @ [CommandACK, a_Option a] @ put32 (a_ReceivingWindow a) @
          put32 (a_ReceivingNext a) @ put32 (a_Timestamp a) @ [of_nat (length (a_NumberList a))] @
          concat (map put32 (a_NumberList a))"])
        (use SegAck assms(1) in auto)
  next
    case (SegCmd c)
    show ?thesis
      by (rule * [of "put16 (c_Conv c) @ [c_Cmd c, c_Option c] @ put32 (c_SendingNext c) @
          put32 (c_ReceivingNext c) @ put32 (c_PeerRTO c)"])
        (use SegCmd in auto)
  qed
qed

section \<open>Properties\<close>

text \<open>
  C16. The packet a peer parses is what was sent: for every list of segments the protocol builds, the
  packet reader applied to the concatenation of their serialisations gives back segments with the same
  meaning, in order, none missing and none added.
\<close>

theorem PacketReader_roundtrip:
  assumes "\<forall>s\<in>set ss. seg_ok s" "\<forall>i. length (pool i) < 2 ^ 31"
  shows "map wire (PacketReader_Read pool (concat (map encode ss))) = map wire ss"
  using kcp_codec.read_all_enc [OF assms] .

theorem PacketReader_roundtrip_witness:
  "map wire (PacketReader_Read (\<lambda>_. []) (concat (map encode [SegCmd (NewCmdOnlySegment\<lparr>c_Cmd := CommandPing\<rparr>),
       SegAck (NewAckSegment 4)]))) =
   map wire [SegCmd (NewCmdOnlySegment\<lparr>c_Cmd := CommandPing\<rparr>), SegAck (NewAckSegment 4)]"
  by (rule PacketReader_roundtrip) (simp_all add: NewCmdOnlySegment_def NewAckSegment_def command_defs)

text \<open>
  \<^verbatim>\<open>SimpleSegmentWriter.Write\<close> does not panic on a segment the protocol builds; the packet it hands
  to the socket is exactly the segment's serialisation, whatever the reused buffer held before, and the
  segment a peer reads from the packet has the same meaning.
\<close>

lemma SegmentWriter_Write_spec:
  assumes "seg_ok s" "ByteSize s \<le> 8192" "buf_ok buffer" "8192 \<le> length (bv buffer)" "length arr < 2 ^ 31"
  shows "\<exists>b' s'. SegmentWriter_Write buffer s = Some (encode s, b') \<and> buf_ok b' \<and>
    length (bv b') = length (bv buffer) \<and> ReadSegment arr (encode s) = Some (s', []) \<and> wire s' = wire s"
proof -
  have n: "0 \<le> ByteSize s" using Serialize_encode [OF assms(1), of "replicate (nat (ByteSize s)) 0"]
    assms(1) by (cases s) (auto simp: payload_len_def)
  then obtain k where k: "ByteSize s = int k" by (metis nonneg_int_cases)
  have c: "buf_ok (Clear buffer)" "room_of (Clear buffer) = length (bv buffer)" "bstart (Clear buffer) = 0" "bend (Clear buffer) = 0"
    using assms(3) by (simp_all add: Clear_def room_of_def buf_ok_def)
  obtain b where b: "Extend (Clear buffer) (int k) = Some ((0, k), b)" "buf_ok b" "contents b = replicate k 0"
    "bstart b = 0" "bend b = int k" "length (bv b) = length (bv buffer)"
    using Extend_ok [OF c(1), of k] assms(2,4) k c Clear_ok(2) [of buffer] by (auto simp: Clear_def)
  let ?raw = "take k (bv b)"
  have raw: "go_slice (bv b) 0 (int k) = Some ?raw" "length ?raw = k"
    using assms(2,4) k b(6) by (auto simp: go_slice_def)
  have s: "Serialize s ?raw = Some (encode s)" "length (encode s) = k"
    using Serialize_encode [OF assms(1), of ?raw] raw k by auto
  have "buf_ok (store 0 (encode s) b)" "contents (store 0 (encode s) b) = encode s"
    using contents_take_drop [OF b(2), of 0 0 "encode s"] b(3,4) s(2) by (auto simp: overwrite_def)
  then have "SegmentWriter_Write buffer s = Some (encode s, store 0 (encode s) b)" "buf_ok (store 0 (encode s) b)"
    using b k raw s by (simp_all add: SegmentWriter_Write_def)
  moreover obtain s' where "ReadSegment arr (encode s) = Some (s', [])" "wire s' = wire s"
    using ReadSegment_encode [OF assms(1,5), of "[]"] by auto
  ultimately show ?thesis using b(6) s(2) assms(2,4) by (intro exI [of _ "store 0 (encode s) b"] exI [of _ s']) simp
qed

text \<open>
  The parser's minimum of fifteen bytes after the four-byte prefix is one more than the header: a
  data segment with an empty payload that ends its packet is not parsed, although \<^verbatim>\<open>Serialize\<close> produces it.
\<close>

lemma empty_data_segment_not_parsed:
  assumes "d_payload s = Some b" "buf_ok b" "contents b = []"
  shows "ReadSegment arr (encode (SegData s)) = None"
proof -
  have "encode (SegData s) = put16 (d_Conv s) @ [CommandData, d_Option s] @ put32 (d_Timestamp s) @ put32 (d_Number s) @
      put32 (d_SendingNext s) @ put16 0"
    using encode_data [OF assms(1,2)] assms(3) by (simp add: encode_def del: Serialize.simps ByteSize.simps)
  then show ?thesis
    using ReadSegment_header [of arr "d_Conv s" CommandData "d_Option s"] by (simp add: parse_data_def)
qed

end
