(* ===== verification/Kcp_Receiving.thy ===== *)
theory Kcp_Receiving
  imports Kcp_Segment
begin

text \<open>
  The receiving side of the mKCP transport (\<^verbatim>\<open>xray-core/transport/internet/kcp/receiving.go\<close>): the
  window of segments that arrived out of order, the list of numbers to acknowledge, and the worker that
  turns segments into a byte stream. The window is a map from sequence numbers to segments. What the
  worker reads from its connection (the conversation number, whether the connection is ready to close,
  the retransmission timeout) are arguments; what it writes to it are the acknowledgements it returns.
  The main theorem is in-order delivery: for every order of arrival, with losses and repetitions, the
  bytes read are a prefix of the bytes sent.
\<close>

section \<open>ReceivingWindow\<close>

type_synonym ReceivingWindow = "u32 \<rightharpoonup> DataSegment"

definition Window_Set :: "u32 \<Rightarrow> DataSegment \<Rightarrow> ReceivingWindow \<Rightarrow> bool \<times> ReceivingWindow" where
  "Window_Set i seg w = (if w i \<noteq> None then (False, w) else (True, w(i \<mapsto> seg)))"

definition Window_Has :: "u32 \<Rightarrow> ReceivingWindow \<Rightarrow> bool" where
  "Window_Has i w \<longleftrightarrow> w i \<noteq> None"

definition Window_Remove :: "u32 \<Rightarrow> ReceivingWindow \<Rightarrow> DataSegment option \<times> ReceivingWindow" where
  "Window_Remove i w = (case w i of None \<Rightarrow> (None, w) | Some seg \<Rightarrow> (Some seg, w(i := None)))"

section \<open>AckList\<close>

record AckList =
  al_timestamps :: "u32 list"
  al_numbers :: "u32 list"
  al_nextFlush :: "u32 list"
  al_flushCandidates :: "u32 list"
  al_dirty :: bool
  al_mss :: u32

definition NewAckList :: "u32 \<Rightarrow> AckList" where
  "NewAckList mss = \<lparr>al_timestamps = [], al_numbers = [], al_nextFlush = [], al_flushCandidates = [], al_dirty = False, al_mss = mss\<rparr>"

definition AckList_Add :: "u32 \<Rightarrow> u32 \<Rightarrow> AckList \<Rightarrow> AckList" where
  "AckList_Add number timestamp l =
     l\<lparr>al_timestamps := al_timestamps l @ [timestamp], al_numbers := al_numbers l @ [number],
       al_nextFlush := al_nextFlush l @ [0], al_dirty := True\<rparr>"

text \<open>
  The loop of \<^verbatim>\<open>Clear\<close>: \<open>k\<close> elements from index \<open>i\<close> on are still to be looked at and \<open>cnt\<close> have been kept,
  moved to the front in place. Numbers are compared as plain unsigned integers.
\<close>

fun ack_clear_loop :: "u32 \<Rightarrow> nat \<Rightarrow> nat \<Rightarrow> nat \<Rightarrow> AckList \<Rightarrow> nat \<times> AckList" where
  "ack_clear_loop una 0 i cnt l = (cnt, l)"
| "ack_clear_loop una (Suc k) i cnt l =
     (if al_numbers l ! i < una then ack_clear_loop una k (Suc i) cnt l
      else
        let l' = (if i \<noteq> cnt
                  then l\<lparr>al_numbers := (al_numbers l)[cnt := al_numbers l ! i],
                         al_timestamps := (al_timestamps l)[cnt := al_timestamps l ! i],
                         al_nextFlush := (al_nextFlush l)[cnt := al_nextFlush l ! i]\<rparr>
                  else l)
        in ack_clear_loop una k (Suc i) (Suc cnt) l')"

definition AckList_Clear :: "u32 \<Rightarrow> AckList \<Rightarrow> AckList" where
  "AckList_Clear una l =
     (let n = length (al_numbers l); (cnt, l') = ack_clear_loop una n 0 0 l in
      if cnt < n
      then l'\<lparr>al_numbers := take cnt (al_numbers l'), al_timestamps := take cnt (al_timestamps l'),
              al_nextFlush := take cnt (al_nextFlush l'), al_dirty := True\<rparr>
      else l')"

text \<open>
  The loop of \<^verbatim>\<open>Flush\<close> over the number, timestamp and next flush time of each entry: the new flush
  times, the segment being filled, the candidates, the dirty flag and the segments given to the writer.
  The slice of candidates keeps its capacity of 128.
\<close>

fun ack_flush_loop :: "u32 \<Rightarrow> u32 \<Rightarrow> int \<Rightarrow> (u32 \<times> u32 \<times> u32) list \<Rightarrow> AckSegment \<Rightarrow> u32 list \<Rightarrow> bool \<Rightarrow>
    u32 list \<times> AckSegment \<times> u32 list \<times> bool \<times> AckSegment list" where
  "ack_flush_loop cur rto limit [] seg cands dirty = ([], seg, cands, dirty, [])"
| "ack_flush_loop cur rto limit ((number, timestamp, nxt) # es) seg cands dirty =
     (if nxt > cur then
        let cands' = (if length cands < 128 then cands @ [number] else cands);
            (ns, r) = ack_flush_loop cur rto limit es seg cands' dirty
        in (nxt # ns, r)
      else
        let seg1 = PutTimestamp timestamp (PutNumber number seg);
            timeout = (if rto div 2 < 20 then 20 else rto div 2) in
        if Ack_IsFull seg1 then
          let (ns, s, c, d, out) = ack_flush_loop cur rto limit es (NewAckSegment limit) cands False
          in ((cur + timeout) # ns, s, c, d, seg1 # out)
        else
          let (ns, r) = ack_flush_loop cur rto limit es seg1 cands dirty
          in ((cur + timeout) # ns, r))"

fun add_candidates :: "u32 list \<Rightarrow> AckSegment \<Rightarrow> AckSegment" where
  "add_candidates [] seg = seg"
| "add_candidates (n # ns) seg = (if Ack_IsFull seg then seg else add_candidates ns (PutNumber n seg))"

definition ack_limit :: "AckList \<Rightarrow> int" where
  "ack_limit l = (int (unat (al_mss l)) - 17) div 4"

definition AckList_Flush :: "u32 \<Rightarrow> u32 \<Rightarrow> AckList \<Rightarrow> AckSegment list \<times> AckList" where
  "AckList_Flush cur rto l =
     (let (ns, seg, cands, dirty, out) =
            ack_flush_loop cur rto (ack_limit l) (zip (al_numbers l) (zip (al_timestamps l) (al_nextFlush l)))
              (NewAckSegment (ack_limit l)) [] (al_dirty l);
          l' = l\<lparr>al_nextFlush := ns, al_flushCandidates := cands\<rparr> in
      if dirty \<or> \<not> Ack_IsEmpty seg
      then (out @ [add_candidates cands seg], l'\<lparr>al_dirty := False\<rparr>)
      else (out, l'\<lparr>al_dirty := dirty\<rparr>))"

section \<open>ReceivingWorker\<close>

record ReceivingWorker =
  rw_leftOver :: "MultiBuffer option"
  rw_window :: ReceivingWindow
  rw_acklist :: AckList
  rw_nextNumber :: u32
  rw_windowSize :: u32

definition DataSegmentOverhead :: u32 where "DataSegmentOverhead = 18"

definition NewReceivingWorker :: "u32 \<Rightarrow> u32 \<Rightarrow> ReceivingWorker" where
  "NewReceivingWorker inFlightSize mss =
     \<lparr>rw_leftOver = None, rw_window = Map.empty, rw_acklist = NewAckList (mss + DataSegmentOverhead),
      rw_nextNumber = 0, rw_windowSize = inFlightSize\<rparr>"

definition ReceivingWorker_Release :: "ReceivingWorker \<Rightarrow> ReceivingWorker" where
  "ReceivingWorker_Release w = w\<lparr>rw_leftOver := None\<rparr>"

definition ProcessSendingNext :: "u32 \<Rightarrow> ReceivingWorker \<Rightarrow> ReceivingWorker" where
  "ProcessSendingNext number w = w\<lparr>rw_acklist := AckList_Clear number (rw_acklist w)\<rparr>"

definition Receiving_ProcessSegment :: "DataSegment \<Rightarrow> ReceivingWorker \<Rightarrow> ReceivingWorker" where
  "Receiving_ProcessSegment seg w =
     (let number = d_Number seg; idx = number - rw_nextNumber w in
      if idx \<ge> rw_windowSize w then w
      else w\<lparr>rw_acklist := AckList_Add number (d_Timestamp seg) (AckList_Clear (d_SendingNext seg) (rw_acklist w)),
             rw_window := snd (Window_Set (d_Number seg) seg (rw_window w))\<rparr>)"

text \<open>
  The loop of \<^verbatim>\<open>ReadMultiBuffer\<close>: it removes consecutive segments from the window, so it ends. \<open>None\<close>
  stands for a segment without payload, whose nil buffer the model does not represent.
\<close>

function read_window :: "ReceivingWindow \<Rightarrow> u32 \<Rightarrow> (MultiBuffer \<times> ReceivingWindow \<times> u32) option" where
  "read_window win nxt =
     (case win nxt of
        None \<Rightarrow> Some ([], win, nxt)
      | Some seg \<Rightarrow>
          (case d_payload seg of
             None \<Rightarrow> None
           | Some b \<Rightarrow> do {
               (mb, win', nxt') \<leftarrow> read_window (snd (Window_Remove nxt win)) (nxt + 1);
               Some (b # mb, win', nxt') }))"
  by pat_completeness auto
termination
proof (relation "measure (\<lambda>(win, nxt). card (dom win))")
  fix win :: ReceivingWindow and nxt :: u32 and seg
  assume "win nxt = Some seg"
  then have "nxt \<in> dom win" "dom (win(nxt := None)) = dom win - {nxt}" by auto
  then have "card (dom (win(nxt := None))) < card (dom win)"
    using card_Diff1_less [of "dom win" nxt] by simp
  then show "((snd (Window_Remove nxt win), nxt + 1), win, nxt) \<in> measure (\<lambda>(win, nxt). card (dom win))"
    using \<open>win nxt = Some seg\<close> by (simp add: Window_Remove_def)
qed simp

declare read_window.simps [simp del]

definition Receiving_ReadMultiBuffer :: "ReceivingWorker \<Rightarrow> (MultiBuffer \<times> ReceivingWorker) option" where
  "Receiving_ReadMultiBuffer w =
     (case rw_leftOver w of
        Some mb \<Rightarrow> Some (mb, w\<lparr>rw_leftOver := None\<rparr>)
      | None \<Rightarrow> do {
          (mb, win, nxt) \<leftarrow> read_window (rw_window w) (rw_nextNumber w);
          Some (mb, w\<lparr>rw_window := win, rw_nextNumber := nxt\<rparr>) })"

definition Receiving_Read :: "bytes \<Rightarrow> ReceivingWorker \<Rightarrow> (nat \<times> bytes \<times> ReceivingWorker) option" where
  "Receiving_Read p w = do {
     (mb, w1) \<leftarrow> Receiving_ReadMultiBuffer w;
     if MultiBuffer_IsEmpty mb then Some (0, p, w1)
     else do {
       (mb', nBytes, p') \<leftarrow> SplitBytes mb p;
       Some (nBytes, p', (if \<not> MultiBuffer_IsEmpty mb' then w1\<lparr>rw_leftOver := Some mb'\<rparr> else w1)) } }"

definition IsDataAvailable :: "ReceivingWorker \<Rightarrow> bool" where
  "IsDataAvailable w = Window_Has (rw_nextNumber w) (rw_window w)"

text \<open>\<^verbatim>\<open>Write\<close> completes an acknowledgement before it goes to the connection's output.\<close>

definition Receiving_Write :: "u16 \<Rightarrow> bool \<Rightarrow> ReceivingWorker \<Rightarrow> AckSegment \<Rightarrow> AckSegment" where
  "Receiving_Write conv readyToClose w seg =
     seg\<lparr>a_Conv := conv, a_ReceivingNext := rw_nextNumber w,
         a_ReceivingWindow := rw_nextNumber w + rw_windowSize w,
         a_Option := (if readyToClose then SegmentOptionClose else 0)\<rparr>"

definition Receiving_Flush :: "u16 \<Rightarrow> bool \<Rightarrow> u32 \<Rightarrow> u32 \<Rightarrow> ReceivingWorker \<Rightarrow> AckSegment list \<times> ReceivingWorker" where
  "Receiving_Flush conv readyToClose cur rto w =
     (let (out, l) = AckList_Flush cur rto (rw_acklist w)
      in (map (Receiving_Write conv readyToClose w) out, w\<lparr>rw_acklist := l\<rparr>))"

definition Receiving_UpdateNecessary :: "ReceivingWorker \<Rightarrow> bool" where
  "Receiving_UpdateNecessary w \<longleftrightarrow> 0 < length (al_numbers (rw_acklist w))"

section \<open>The list of acknowledgements\<close>

definition al_ok :: "AckList \<Rightarrow> bool" where
  "al_ok l \<longleftrightarrow> length (al_timestamps l) = length (al_numbers l) \<and> length (al_nextFlush l) = length (al_numbers l)"

definition entries :: "AckList \<Rightarrow> (u32 \<times> u32 \<times> u32) list" where
  "entries l = zip (al_numbers l) (zip (al_timestamps l) (al_nextFlush l))"

lemma entries_length [simp]: "al_ok l \<Longrightarrow> length (entries l) = length (al_numbers l)"
  by (simp add: al_ok_def entries_def)

text \<open>Compaction in place, on one list.\<close>

fun compact_loop1 :: "('a \<Rightarrow> bool) \<Rightarrow> nat \<Rightarrow> nat \<Rightarrow> nat \<Rightarrow> 'a list \<Rightarrow> nat \<times> 'a list" where
  "compact_loop1 P 0 i cnt xs = (cnt, xs)"
| "compact_loop1 P (Suc k) i cnt xs =
     (if P (xs ! i) then compact_loop1 P k (Suc i) cnt xs
      else compact_loop1 P k (Suc i) (Suc cnt) (xs[cnt := xs ! i]))"

lemma compact_loop1_spec:
  assumes "i + k = length xs" "cnt \<le> i"
  shows "case compact_loop1 P k i cnt xs of (c, ys) \<Rightarrow>
    length ys = length xs \<and> c \<le> length xs \<and> take c ys = take cnt xs @ filter (\<lambda>x. \<not> P x) (drop i xs) \<and>
    (c = length xs \<longrightarrow> cnt = i)"
  using assms
proof (induction k arbitrary: i cnt xs)
  case (Suc k)
  have d: "drop i xs = xs ! i # drop (Suc i) xs" using Suc.prems by (simp add: Cons_nth_drop_Suc)
  show ?case
  proof (cases "P (xs ! i)")
    case True
    then show ?thesis using Suc.IH [of "Suc i" xs cnt] Suc.prems d by (auto split: prod.splits)
  next
    case False
    let ?xs = "xs[cnt := xs ! i]"
    have "take (Suc cnt) ?xs = take cnt xs @ [xs ! i]" using Suc.prems by (simp add: take_Suc_conv_app_nth)
    moreover have "drop (Suc i) ?xs = drop (Suc i) xs" using Suc.prems by simp
    ultimately show ?thesis
      using False Suc.IH [of "Suc i" ?xs "Suc cnt"] Suc.prems d by (auto split: prod.splits)
  qed
qed simp

lemma ack_clear_loop_entries:
  assumes "al_ok l" "i + k = length (al_numbers l)" "cnt \<le> i"
  shows "case ack_clear_loop una k i cnt l of (c, l') \<Rightarrow> al_ok l' \<and> al_mss l' = al_mss l \<and>
    compact_loop1 (\<lambda>(n, _). n < una) k i cnt (entries l) = (c, entries l')"
  using assms
proof (induction k arbitrary: i cnt l)
  case (Suc k)
  have i: "i < length (al_numbers l)" using Suc.prems by simp
  then have e: "entries l ! i = (al_numbers l ! i, al_timestamps l ! i, al_nextFlush l ! i)"
    using Suc.prems(1) by (simp add: entries_def al_ok_def)
  let ?l = "l\<lparr>al_numbers := (al_numbers l)[cnt := al_numbers l ! i],
    al_timestamps := (al_timestamps l)[cnt := al_timestamps l ! i],
    al_nextFlush := (al_nextFlush l)[cnt := al_nextFlush l ! i]\<rparr>"
  have l: "al_ok ?l" "entries ?l = (entries l)[cnt := entries l ! i]" "length (al_numbers ?l) = length (al_numbers l)"
    using Suc.prems(1) e by (simp_all add: al_ok_def entries_def zip_update)
  have same: "i = cnt \<Longrightarrow> (entries l)[cnt := entries l ! i] = entries l" by simp
  show ?case
  proof (cases "al_numbers l ! i < una")
    case True
    then show ?thesis using Suc.IH [of l "Suc i" cnt] Suc.prems e by (auto split: prod.splits)
  next
    case False
    then show ?thesis
      using Suc.IH [of l "Suc i" "Suc cnt"] Suc.IH [of ?l "Suc i" "Suc cnt"] Suc.prems e l same
      by (cases "i = cnt") (auto simp: Let_def split: prod.splits)
  qed
qed (simp split: prod.splits)

lemma AckList_Clear_entries:
  assumes "al_ok l"
  shows "al_ok (AckList_Clear una l)" "entries (AckList_Clear una l) = filter (\<lambda>(n, _). \<not> n < una) (entries l)"
    "al_mss (AckList_Clear una l) = al_mss l"
proof -
  obtain c l' where r: "ack_clear_loop una (length (al_numbers l)) 0 0 l = (c, l')" by fastforce
  have l': "al_ok l'" "al_mss l' = al_mss l" "length (al_numbers l') = length (al_numbers l)"
    and t: "take c (entries l') = filter (\<lambda>(n, _). \<not> n < una) (entries l)" "c \<le> length (al_numbers l)"
    using ack_clear_loop_entries [OF assms, of 0 "length (al_numbers l)" 0 una] r
      compact_loop1_spec [of 0 "length (al_numbers l)" "entries l" 0 "\<lambda>(n, _). n < una"] assms
    by (auto simp: split_def)
  have "entries (l'\<lparr>al_numbers := take c (al_numbers l'), al_timestamps := take c (al_timestamps l'),
      al_nextFlush := take c (al_nextFlush l'), al_dirty := True\<rparr>) = take c (entries l')"
    by (simp add: entries_def take_zip)
  then show "al_ok (AckList_Clear una l)" "entries (AckList_Clear una l) = filter (\<lambda>(n, _). \<not> n < una) (entries l)"
    "al_mss (AckList_Clear una l) = al_mss l"
    using r l' t assms by (auto simp: AckList_Clear_def al_ok_def)
qed

lemma AckList_Add_ok [simp]: "al_ok l \<Longrightarrow> al_ok (AckList_Add n ts l)"
  by (simp add: al_ok_def AckList_Add_def)

text \<open>
  A segment under construction stays below its limit, and every due number ends in a segment that is
  written or still under construction.
\<close>

lemma limit_range: "1 \<le> a_Limit (NewAckSegment k)" "a_Limit (NewAckSegment k) \<le> 128"
  "1 \<le> k \<Longrightarrow> a_Limit (NewAckSegment k) \<le> k" "a_NumberList (NewAckSegment k) = []"
  by (auto simp: NewAckSegment_def ackNumberLimit_def Let_def)

lemma Put_fields [simp]:
  "a_NumberList (PutNumber n s) = a_NumberList s @ [n]" "a_Limit (PutNumber n s) = a_Limit s"
  "a_NumberList (PutTimestamp t s) = a_NumberList s" "a_Limit (PutTimestamp t s) = a_Limit s"
  by (auto simp: PutNumber_def PutTimestamp_def)

definition filling :: "int \<Rightarrow> AckSegment \<Rightarrow> bool" where
  "filling k s \<longleftrightarrow> a_Limit s = a_Limit (NewAckSegment k) \<and> int (length (a_NumberList s)) < a_Limit s"

definition written :: "int \<Rightarrow> AckSegment \<Rightarrow> bool" where
  "written k s \<longleftrightarrow> a_Limit s = a_Limit (NewAckSegment k) \<and> int (length (a_NumberList s)) \<le> a_Limit s"

lemma filling_New: "filling k (NewAckSegment k)"
  using limit_range [of k] by (simp add: filling_def)

lemma ack_flush_loop_spec:
  assumes "filling k seg" "ack_flush_loop cur rto k es seg cands dirty = (ns, seg', cands', dirty', out)"
  shows "length ns = length es \<and> filling k seg' \<and> (\<forall>s\<in>set out. written k s) \<and>
    {n. \<exists>t f. (n, t, f) \<in> set es \<and> f \<le> cur} \<union> set (a_NumberList seg) \<subseteq>
      set (a_NumberList seg') \<union> (\<Union>s\<in>set out. set (a_NumberList s))"
  using assms
proof (induction es arbitrary: seg cands dirty ns out)
  case (Cons e es)
  obtain number timestamp nx where e: "e = (number, timestamp, nx)" by (cases e)
  let ?seg1 = "PutTimestamp timestamp (PutNumber number seg)"
  have w: "written k ?seg1" using Cons.prems(1) by (auto simp: filling_def written_def)
  have f: "\<not> Ack_IsFull ?seg1 \<Longrightarrow> filling k ?seg1" using w by (auto simp: filling_def written_def Ack_IsFull_def)
  consider "nx > cur" | "\<not> nx > cur" "Ack_IsFull ?seg1" | "\<not> nx > cur" "\<not> Ack_IsFull ?seg1" by blast
  then show ?case
  proof cases
    case 1
    then obtain ns1 c where ns: "ns = nx # ns1" "ack_flush_loop cur rto k es seg c dirty = (ns1, seg', cands', dirty', out)"
      using Cons.prems(2) e by (auto simp: Let_def split: prod.splits)
    have "{n. \<exists>t f. (n, t, f) \<in> set (e # es) \<and> f \<le> cur} = {n. \<exists>t f. (n, t, f) \<in> set es \<and> f \<le> cur}"
      using 1 e by auto
    then show ?thesis using Cons.IH [OF Cons.prems(1) ns(2)] ns(1) by simp
  next
    case 2
    then obtain n1 ns1 out1 where ns: "ns = n1 # ns1" "out = ?seg1 # out1"
      "ack_flush_loop cur rto k es (NewAckSegment k) cands False = (ns1, seg', cands', dirty', out1)"
      using Cons.prems(2) e by (auto simp: Let_def split: prod.splits)
    have "{n. \<exists>t f. (n, t, f) \<in> set (e # es) \<and> f \<le> cur} \<subseteq> insert number {n. \<exists>t f. (n, t, f) \<in> set es \<and> f \<le> cur}"
      using e by auto
    then show ?thesis using Cons.IH [OF filling_New ns(3)] ns(1,2) w by (simp add: Un_assoc) blast
  next
    case 3
    then obtain n1 ns1 where ns: "ns = n1 # ns1" "ack_flush_loop cur rto k es ?seg1 cands dirty = (ns1, seg', cands', dirty', out)"
      using Cons.prems(2) e by (auto simp: Let_def split: prod.splits)
    have "{n. \<exists>t f. (n, t, f) \<in> set (e # es) \<and> f \<le> cur} \<subseteq> insert number {n. \<exists>t f. (n, t, f) \<in> set es \<and> f \<le> cur}"
      using e by auto
    then show ?thesis using Cons.IH [OF f [OF 3(2)] ns(2)] ns(1) by simp blast
  qed
qed simp

lemma add_candidates_spec:
  assumes "written k s"
  shows "written k (add_candidates ns s) \<and> set (a_NumberList s) \<subseteq> set (a_NumberList (add_candidates ns s))"
  using assms
proof (induction ns arbitrary: s)
  case (Cons n ns)
  show ?case
  proof (cases "Ack_IsFull s")
    case False
    then have "written k (PutNumber n s)" using Cons.prems by (auto simp: written_def Ack_IsFull_def)
    then show ?thesis using Cons.IH [of "PutNumber n s"] False by auto
  qed (use Cons.prems in simp)
qed simp

lemma AckList_Flush_spec:
  assumes "al_ok l" "AckList_Flush cur rto l = (out, l')"
  shows "al_ok l' \<and> al_numbers l' = al_numbers l \<and> al_mss l' = al_mss l \<and> (\<forall>s\<in>set out. written (ack_limit l) s) \<and>
    (\<forall>(n, t, f)\<in>set (entries l). f \<le> cur \<longrightarrow> (\<exists>s\<in>set out. n \<in> set (a_NumberList s)))"
proof -
  obtain ns seg cands dirty o1 where r: "ack_flush_loop cur rto (ack_limit l) (entries l) (NewAckSegment (ack_limit l)) [] (al_dirty l) =
      (ns, seg, cands, dirty, o1)" by (metis prod_cases5)
  note spec = ack_flush_loop_spec [OF filling_New r]
  have w: "written (ack_limit l) seg" using spec by (auto simp: filling_def written_def)
  have len: "length ns = length (al_numbers l)" and o1: "\<forall>s\<in>set o1. written (ack_limit l) s" using spec assms(1) by auto
  have due: "n \<in> set (a_NumberList seg) \<or> (\<exists>s\<in>set o1. n \<in> set (a_NumberList s))"
    if "(n, t, f) \<in> set (entries l)" "f \<le> cur" for n t f
    using spec that by blast
  show ?thesis
  proof (cases "dirty \<or> \<not> Ack_IsEmpty seg")
    case True
    then have "out = o1 @ [add_candidates cands seg]"
      "l' = l\<lparr>al_nextFlush := ns, al_flushCandidates := cands, al_dirty := False\<rparr>"
      using assms(2) r by (auto simp: AckList_Flush_def entries_def Let_def)
    then show ?thesis
      using len o1 due add_candidates_spec [OF w, of cands] assms(1) by (auto simp: al_ok_def) blast
  next
    case False
    then have "out = o1" "l' = l\<lparr>al_nextFlush := ns, al_flushCandidates := cands, al_dirty := dirty\<rparr>" "a_NumberList seg = []"
      using assms(2) r by (auto simp: AckList_Flush_def entries_def Let_def Ack_IsEmpty_def)
    then show ?thesis
      using len o1 due assms(1) by (auto simp: al_ok_def)
  qed
qed

section \<open>In-order delivery\<close>

text \<open>Only numbers of the list are acknowledged.\<close>

lemma ack_flush_loop_only:
  assumes "ack_flush_loop cur rto k es seg cands dirty = (ns, seg', cands', dirty', out)"
    and "set (a_NumberList seg) \<subseteq> N" "set cands \<subseteq> N" "fst ` set es \<subseteq> N"
  shows "set (a_NumberList seg') \<subseteq> N \<and> set cands' \<subseteq> N \<and> (\<forall>s\<in>set out. set (a_NumberList s) \<subseteq> N)"
  using assms
proof (induction cur rto k es seg cands dirty arbitrary: ns out rule: ack_flush_loop.induct)
  case (2 cur rto k number timestamp nxt es seg cands dirty)
  let ?seg1 = "PutTimestamp timestamp (PutNumber number seg)"
  let ?cands = "if length cands < 128 then cands @ [number] else cands"
  consider "nxt > cur" | "\<not> nxt > cur" "Ack_IsFull ?seg1" | "\<not> nxt > cur" "\<not> Ack_IsFull ?seg1" by blast
  then show ?case
  proof cases
    case 1
    then obtain ns' where "ack_flush_loop cur rto k es seg ?cands dirty = (ns', seg', cands', dirty', out)"
      using 2(4) by (auto simp: Let_def split: prod.splits)
    then show ?thesis using 2(1) [OF 1 refl] 2(5-7) by auto
  next
    case 2
    then obtain ns' out' where "ack_flush_loop cur rto k es (NewAckSegment k) cands False = (ns', seg', cands', dirty', out')" "out = ?seg1 # out'"
      using "2.prems"(1) by (auto simp: Let_def split: prod.splits)
    then show ?thesis using "2.IH"(2) [OF 2(1) refl refl 2(2)] "2.prems"(2-4) by (auto simp: limit_range)
  next
    case 3
    then obtain ns' where "ack_flush_loop cur rto k es ?seg1 cands dirty = (ns', seg', cands', dirty', out)"
      using 2(4) by (auto simp: Let_def split: prod.splits)
    then show ?thesis using 2(3) [OF 3(1) refl refl 3(2)] 2(5-7) by auto
  qed
qed simp

lemma add_candidates_only: "set (a_NumberList (add_candidates ns s)) \<subseteq> set ns \<union> set (a_NumberList s)"
  by (induction ns s rule: add_candidates.induct) auto

lemma AckList_Flush_only:
  assumes "AckList_Flush cur rto l = (out, l')" "s \<in> set out"
  shows "set (a_NumberList s) \<subseteq> set (al_numbers l)"
proof -
  obtain ns seg cands dirty o1 where r: "ack_flush_loop cur rto (ack_limit l) (entries l) (NewAckSegment (ack_limit l)) [] (al_dirty l) =
      (ns, seg, cands, dirty, o1)" by (metis prod_cases5)
  have "fst ` set (entries l) \<subseteq> set (al_numbers l)" by (auto simp: entries_def dest: set_zip_leftD)
  then have "set (a_NumberList seg) \<subseteq> set (al_numbers l)" "set cands \<subseteq> set (al_numbers l)"
    "\<forall>s\<in>set o1. set (a_NumberList s) \<subseteq> set (al_numbers l)"
    using ack_flush_loop_only [OF r, of "set (al_numbers l)"] by (auto simp: limit_range)
  moreover have "s \<in> set o1 \<or> s = add_candidates cands seg" using assms r by (auto simp: AckList_Flush_def entries_def Let_def split: if_splits)
  ultimately show ?thesis using add_candidates_only [of cands seg] by blast
qed

text \<open>
  \<open>D n\<close> is the payload the sender gave the number \<open>n\<close>. Every segment in the window carries the payload
  of its number.
\<close>

definition carries :: "(u32 \<Rightarrow> bytes) \<Rightarrow> DataSegment \<Rightarrow> bool" where
  "carries D seg \<longleftrightarrow> (\<exists>b. d_payload seg = Some b \<and> buf_ok b \<and> contents b = D (d_Number seg))"

definition win_ok :: "(u32 \<Rightarrow> bytes) \<Rightarrow> ReceivingWindow \<Rightarrow> bool" where
  "win_ok D win \<longleftrightarrow> (\<forall>n seg. win n = Some seg \<longrightarrow> d_Number seg = n \<and> carries D seg)"

text \<open>Reading takes \<open>k\<close> segments, numbered \<open>n\<close> and following, out of the window and leaves the others.\<close>

definition taken :: "nat \<Rightarrow> u32 \<Rightarrow> ReceivingWindow \<Rightarrow> ReceivingWindow \<Rightarrow> bool" where
  "taken k n win win' \<longleftrightarrow> (\<forall>i<k. win (n + of_nat i) \<noteq> None) \<and> (\<forall>m. win' m = (if \<exists>i<k. m = n + of_nat i then None else win m))"

lemma taken_0 [simp]: "taken 0 n win win"
  by (simp add: taken_def)

lemma taken_Suc:
  assumes "win n \<noteq> None" "taken k (n + 1) (win(n := None)) win'"
  shows "taken (Suc k) n win win'"
proof -
  have eq: "(\<exists>i<Suc k. m = n + of_nat i) \<longleftrightarrow> m = n \<or> (\<exists>i<k. m = n + 1 + of_nat i)" for m
    by (simp add: Ex_less_Suc2 add.assoc)
  have "win (n + of_nat i) \<noteq> None" if "i < Suc k" for i
  proof (cases i)
    case (Suc j)
    then have "(win(n := None)) (n + 1 + of_nat j) \<noteq> None" using assms(2) that by (simp add: taken_def)
    then show ?thesis using Suc by (auto simp: add.assoc split: if_splits)
  qed (use assms(1) in simp)
  moreover have "win' m = (if \<exists>i<Suc k. m = n + of_nat i then None else win m)" for m
    using assms(2) unfolding taken_def eq by auto
  ultimately show ?thesis unfolding taken_def by blast
qed

lemma read_window_spec:
  assumes "win_ok D win"
  shows "\<exists>mb win' k. read_window win n = Some (mb, win', n + of_nat k) \<and> mb_ok mb \<and> win_ok D win' \<and>
    mb_contents mb = concat (map (\<lambda>i. D (n + of_nat i)) [0..<k]) \<and> win' (n + of_nat k) = None \<and>
    taken k n win win'"
  using assms
proof (induction win n rule: read_window.induct)
  case (1 win n)
  show ?case
  proof (cases "win n")
    case None
    then show ?thesis using 1(2) by (intro exI [of _ "[]"] exI [of _ win] exI [of _ 0]) (simp add: read_window.simps)
  next
    case (Some seg)
    then obtain b where b: "d_payload seg = Some b" "buf_ok b" "contents b = D n"
      using 1(2) by (auto simp: win_ok_def carries_def)
    let ?win = "snd (Window_Remove n win)"
    have ok: "win_ok D ?win" and rm: "?win = win(n := None)"
      using 1(2) Some by (auto simp: Window_Remove_def win_ok_def split: if_splits)
    obtain mb win' k where r: "read_window ?win (n + 1) = Some (mb, win', n + 1 + of_nat k)" "mb_ok mb" "win_ok D win'"
      "mb_contents mb = concat (map (\<lambda>i. D (n + 1 + of_nat i)) [0..<k])" "win' (n + 1 + of_nat k) = None"
      "taken k (n + 1) ?win win'"
      using 1(1) [OF Some b(1) ok] by blast
    have "taken (Suc k) n win win'" using taken_Suc [of win n k win'] r(6) Some unfolding rm by simp
    moreover have "concat (map (\<lambda>i. D (n + of_nat i)) [0..<Suc k]) = D n @ concat (map (\<lambda>i. D (n + 1 + of_nat i)) [0..<k])"
      by (simp only: upt_conv_Cons [of 0 "Suc k"] map_Suc_upt [symmetric]) (simp add: comp_def add.assoc)
    ultimately show ?thesis
      using r b Some by (intro exI [of _ "b # mb"] exI [of _ win'] exI [of _ "Suc k"])
        (auto simp: read_window.simps add.assoc)
  qed
qed

text \<open>What can happen to a worker, as events with the bytes they deliver.\<close>

datatype rcv_event = Arrive DataSegment | SendingNext u32 | DoRead nat | DoReadMultiBuffer | DoFlush u32 u32

definition rcv_step :: "rcv_event \<Rightarrow> ReceivingWorker \<Rightarrow> (bytes \<times> ReceivingWorker) option" where
  "rcv_step ev w =
     (case ev of
        Arrive seg \<Rightarrow> Some ([], Receiving_ProcessSegment seg w)
      | SendingNext n \<Rightarrow> Some ([], ProcessSendingNext n w)
      | DoRead n \<Rightarrow> map_option (\<lambda>(k, p, w'). (take k p, w')) (Receiving_Read (replicate n 0) w)
      | DoReadMultiBuffer \<Rightarrow> do { (mb, w') \<leftarrow> Receiving_ReadMultiBuffer w; s \<leftarrow> MultiBuffer_String mb; Some (s, w') }
      | DoFlush cur rto \<Rightarrow> Some ([], snd (Receiving_Flush 0 False cur rto w)))"

fun rcv_run :: "rcv_event list \<Rightarrow> ReceivingWorker \<Rightarrow> (bytes \<times> ReceivingWorker) option" where
  "rcv_run [] w = Some ([], w)"
| "rcv_run (ev # evs) w = do { (out, w1) \<leftarrow> rcv_step ev w; (rest, w2) \<leftarrow> rcv_run evs w1; Some (out @ rest, w2) }"

definition left_over :: "ReceivingWorker \<Rightarrow> MultiBuffer" where
  "left_over w = (case rw_leftOver w of None \<Rightarrow> [] | Some mb \<Rightarrow> mb)"

definition rcv_inv :: "(u32 \<Rightarrow> bytes) \<Rightarrow> ReceivingWorker \<Rightarrow> bool" where
  "rcv_inv D w \<longleftrightarrow> win_ok D (rw_window w) \<and> mb_ok (left_over w) \<and> al_ok (rw_acklist w)"

text \<open>Each event delivers the next bytes of the stream: \<open>k\<close> more payloads, less what stays left over.\<close>

lemma ReadMultiBuffer_spec:
  assumes "rcv_inv D w"
  shows "\<exists>mb w' k. Receiving_ReadMultiBuffer w = Some (mb, w') \<and> mb_ok mb \<and> rcv_inv D w' \<and> rw_leftOver w' = None \<and>
    rw_nextNumber w' = rw_nextNumber w + of_nat k \<and>
    mb_contents mb = mb_contents (left_over w) @ concat (map (\<lambda>i. D (rw_nextNumber w + of_nat i)) [0..<k]) \<and>
    (rw_leftOver w = None \<longrightarrow> \<not> IsDataAvailable w') \<and> taken k (rw_nextNumber w) (rw_window w) (rw_window w') \<and>
    rw_acklist w' = rw_acklist w"
proof (cases "rw_leftOver w")
  case (Some mb)
  then show ?thesis
    using assms by (intro exI [of _ mb] exI [of _ "w\<lparr>rw_leftOver := None\<rparr>"] exI [of _ 0])
      (auto simp: Receiving_ReadMultiBuffer_def rcv_inv_def left_over_def)
next
  case None
  obtain mb win k where "read_window (rw_window w) (rw_nextNumber w) = Some (mb, win, rw_nextNumber w + of_nat k)" "mb_ok mb" "win_ok D win"
    "mb_contents mb = concat (map (\<lambda>i. D (rw_nextNumber w + of_nat i)) [0..<k])" "win (rw_nextNumber w + of_nat k) = None"
    "taken k (rw_nextNumber w) (rw_window w) win"
    using read_window_spec [of D "rw_window w" "rw_nextNumber w"] assms by (auto simp: rcv_inv_def)
  then show ?thesis
    using assms None by (intro exI [of _ mb] exI [of _ "w\<lparr>rw_window := win, rw_nextNumber := rw_nextNumber w + of_nat k\<rparr>"] exI [of _ k])
      (auto simp: Receiving_ReadMultiBuffer_def rcv_inv_def left_over_def IsDataAvailable_def Window_Has_def)
qed

lemma stream_append:
  "concat (map (\<lambda>i. D (of_nat k + of_nat i :: u32)) [0..<j]) = concat (map (\<lambda>i. D (of_nat i)) [k..<k + j])"
  by (induction j) simp_all

definition stream :: "(u32 \<Rightarrow> bytes) \<Rightarrow> nat \<Rightarrow> bytes" where
  "stream D k = concat (map (\<lambda>i. D (of_nat i)) [0..<k])"

lemma stream_add: "stream D k @ concat (map (\<lambda>i. D (of_nat k + of_nat i)) [0..<j]) = stream D (k + j)"
  unfolding stream_def stream_append using upt_add_eq_append [of 0 k j] by simp

lemma Receiving_Read_spec:
  assumes "rcv_inv D w"
  shows "\<exists>n p w' k. Receiving_Read q w = Some (n, p, w') \<and> n \<le> length q \<and> length p = length q \<and> rcv_inv D w' \<and>
    rw_nextNumber w' = rw_nextNumber w + of_nat k \<and>
    take n p @ mb_contents (left_over w') =
      mb_contents (left_over w) @ concat (map (\<lambda>i. D (rw_nextNumber w + of_nat i)) [0..<k]) \<and>
    taken k (rw_nextNumber w) (rw_window w) (rw_window w') \<and> rw_acklist w' = rw_acklist w"
proof -
  obtain mb w1 k where w1: "Receiving_ReadMultiBuffer w = Some (mb, w1)" "mb_ok mb" "rcv_inv D w1" "rw_leftOver w1 = None"
    "rw_nextNumber w1 = rw_nextNumber w + of_nat k"
    "mb_contents mb = mb_contents (left_over w) @ concat (map (\<lambda>i. D (rw_nextNumber w + of_nat i)) [0..<k])"
    "taken k (rw_nextNumber w) (rw_window w) (rw_window w1)" "rw_acklist w1 = rw_acklist w"
    using ReadMultiBuffer_spec [OF assms] by blast
  show ?thesis
  proof (cases "mb_contents mb = []")
    case True
    then have "Receiving_Read q w = Some (0, q, w1)" "take 0 q @ mb_contents (left_over w1) = mb_contents mb"
      using w1(1,2,4) by (simp_all add: Receiving_Read_def left_over_def)
    then show ?thesis using w1(3,5-8) by (intro exI [of _ 0] exI [of _ q] exI [of _ w1] exI [of _ k]) simp
  next
    case False
    obtain mb' where mb': "SplitBytes mb q = Some (mb', min (length q) (length (mb_contents mb)), overwrite q 0 (mb_contents mb))"
      "mb_ok mb'" "mb_contents mb' = drop (length q) (mb_contents mb)"
      using SplitBytes_ok [OF w1(2), of q] by blast
    let ?w = "if mb_contents mb' \<noteq> [] then w1\<lparr>rw_leftOver := Some mb'\<rparr> else w1"
    let ?n = "min (length q) (length (mb_contents mb))" and ?p = "overwrite q 0 (mb_contents mb)"
    have "Receiving_Read q w = Some (?n, ?p, ?w)" using w1(1,2) mb'(1,2) False by (simp add: Receiving_Read_def)
    moreover have w: "mb_contents (left_over ?w) = drop (length q) (mb_contents mb)" "rcv_inv D ?w"
      using w1 mb' by (auto simp: left_over_def rcv_inv_def)
    moreover have p: "take ?n ?p = take (length q) (mb_contents mb)" by (simp add: overwrite_def min_def)
    moreover have "take ?n ?p @ mb_contents (left_over ?w) =
        mb_contents (left_over w) @ concat (map (\<lambda>i. D (rw_nextNumber w + of_nat i)) [0..<k])"
      unfolding p w(1) append_take_drop_id by (rule w1(6))
    moreover have "rw_nextNumber ?w = rw_nextNumber w + of_nat k" "taken k (rw_nextNumber w) (rw_window w) (rw_window ?w)"
      "rw_acklist ?w = rw_acklist w" using w1(5,7,8) by simp_all
    moreover have "?n \<le> length q" "length ?p = length q" by simp_all
    ultimately show ?thesis by blast
  qed
qed

lemma rcv_step_spec:
  assumes inv: "rcv_inv D w" and ev: "\<And>seg. ev = Arrive seg \<Longrightarrow> carries D seg"
  shows "\<exists>out w' k. rcv_step ev w = Some (out, w') \<and> rcv_inv D w' \<and> rw_nextNumber w' = rw_nextNumber w + of_nat k \<and>
    out @ mb_contents (left_over w') = mb_contents (left_over w) @ concat (map (\<lambda>i. D (rw_nextNumber w + of_nat i)) [0..<k])"
proof (cases ev)
  case (Arrive seg)
  let ?w = "Receiving_ProcessSegment seg w"
  have "rcv_inv D ?w" "rw_nextNumber ?w = rw_nextNumber w" "left_over ?w = left_over w"
    using inv ev [OF Arrive] AckList_Clear_entries(1) [of "rw_acklist w"]
    by (auto simp: Receiving_ProcessSegment_def rcv_inv_def left_over_def Let_def Window_Set_def win_ok_def)
  then show ?thesis using Arrive by (intro exI [of _ "[]"] exI [of _ ?w] exI [of _ 0]) (simp add: rcv_step_def)
next
  case (SendingNext n)
  let ?w = "ProcessSendingNext n w"
  have "rcv_inv D ?w" "rw_nextNumber ?w = rw_nextNumber w" "left_over ?w = left_over w"
    using inv AckList_Clear_entries(1) [of "rw_acklist w"] by (auto simp: ProcessSendingNext_def rcv_inv_def left_over_def)
  then show ?thesis using SendingNext by (intro exI [of _ "[]"] exI [of _ ?w] exI [of _ 0]) (simp add: rcv_step_def)
next
  case (DoFlush cur rto)
  obtain out l where l: "AckList_Flush cur rto (rw_acklist w) = (out, l)" by fastforce
  let ?w = "snd (Receiving_Flush 0 False cur rto w)"
  have "rcv_inv D ?w" "rw_nextNumber ?w = rw_nextNumber w" "left_over ?w = left_over w"
    using inv AckList_Flush_spec [OF _ l] l by (auto simp: Receiving_Flush_def rcv_inv_def left_over_def)
  then show ?thesis using DoFlush by (intro exI [of _ "[]"] exI [of _ ?w] exI [of _ 0]) (simp add: rcv_step_def)
next
  case (DoRead n)
  obtain m p w' k where "Receiving_Read (replicate n 0) w = Some (m, p, w')" "rcv_inv D w'"
    "rw_nextNumber w' = rw_nextNumber w + of_nat k" "take m p @ mb_contents (left_over w') =
      mb_contents (left_over w) @ concat (map (\<lambda>i. D (rw_nextNumber w + of_nat i)) [0..<k])"
    using Receiving_Read_spec [OF inv, of "replicate n 0"] by blast
  then show ?thesis
    using DoRead by (intro exI [of _ "take m p"] exI [of _ w'] exI [of _ k]) (simp add: rcv_step_def)
next
  case DoReadMultiBuffer
  obtain mb w' k where "Receiving_ReadMultiBuffer w = Some (mb, w')" "mb_ok mb" "rcv_inv D w'" "rw_leftOver w' = None"
    "rw_nextNumber w' = rw_nextNumber w + of_nat k"
    "mb_contents mb = mb_contents (left_over w) @ concat (map (\<lambda>i. D (rw_nextNumber w + of_nat i)) [0..<k])"
    using ReadMultiBuffer_spec [OF inv] by blast
  then show ?thesis
    using DoReadMultiBuffer MultiBuffer_String_eq [of mb]
    by (intro exI [of _ "mb_contents mb"] exI [of _ w'] exI [of _ k]) (simp add: rcv_step_def left_over_def)
qed

lemma rcv_run_spec:
  assumes "rcv_inv D w" "\<forall>seg. Arrive seg \<in> set evs \<longrightarrow> carries D seg" "rw_nextNumber w = of_nat k"
  shows "\<exists>out w' j. rcv_run evs w = Some (out, w') \<and> rcv_inv D w' \<and> rw_nextNumber w' = of_nat (k + j) \<and>
    out @ mb_contents (left_over w') = mb_contents (left_over w) @ concat (map (\<lambda>i. D (of_nat k + of_nat i)) [0..<j])"
  using assms
proof (induction evs arbitrary: w k)
  case Nil
  then show ?case by (intro exI [of _ "[]"] exI [of _ w] exI [of _ 0]) simp
next
  case (Cons ev evs)
  obtain out w1 j where 1: "rcv_step ev w = Some (out, w1)" "rcv_inv D w1" "rw_nextNumber w1 = of_nat (k + j)"
    "out @ mb_contents (left_over w1) = mb_contents (left_over w) @ concat (map (\<lambda>i. D (of_nat k + of_nat i)) [0..<j])"
    using rcv_step_spec [OF Cons.prems(1), of ev] Cons.prems by auto
  obtain rest w2 j' where 2: "rcv_run evs w1 = Some (rest, w2)" "rcv_inv D w2" "rw_nextNumber w2 = of_nat (k + j + j')"
    "rest @ mb_contents (left_over w2) = mb_contents (left_over w1) @ concat (map (\<lambda>i. D (of_nat (k + j) + of_nat i)) [0..<j'])"
    using Cons.IH [OF 1(2) _ 1(3)] Cons.prems(2) by auto
  have "concat (map (\<lambda>i. D (of_nat k + of_nat i)) [0..<j + j']) =
      concat (map (\<lambda>i. D (of_nat k + of_nat i)) [0..<j]) @ concat (map (\<lambda>i. D (of_nat (k + j) + of_nat i)) [0..<j'])"
    unfolding stream_append using upt_add_eq_append [of k "k + j" j'] by (simp add: add.assoc)
  then have "(out @ rest) @ mb_contents (left_over w2) =
      mb_contents (left_over w) @ concat (map (\<lambda>i. D (of_nat k + of_nat i)) [0..<j + j'])"
    using 1(4) 2(4) by (metis append.assoc)
  then show ?case using 1 2 by (intro exI [of _ "out @ rest"] exI [of _ w2] exI [of _ "j + j'"]) (simp add: add.assoc)
qed

lemma rcv_inv_New: "rcv_inv D (NewReceivingWorker sz mss)"
  by (simp add: rcv_inv_def NewReceivingWorker_def win_ok_def left_over_def al_ok_def NewAckList_def)

section \<open>Properties\<close>

text \<open>
  C19. In-order, exactly-once delivery. Whatever segments arrive, in whatever order, lost, delayed or
  repeated, and however reads of any size, acknowledgements and flushes are interleaved with them: if
  each segment carries the payload the sender gave its number, nothing panics and the bytes read so far
  are a prefix of the sender's stream, the payloads of the numbers 0, 1, 2 and so on. What is missing
  from that prefix is what the worker holds left over.
\<close>

theorem in_order_delivery:
  assumes "\<forall>seg. Arrive seg \<in> set evs \<longrightarrow> carries D seg"
  shows "\<exists>out w k. rcv_run evs (NewReceivingWorker sz mss) = Some (out, w) \<and> rw_nextNumber w = of_nat k \<and>
    out @ mb_contents (left_over w) = stream D k"
  using rcv_run_spec [OF rcv_inv_New assms, of sz mss 0]
  by (auto simp: NewReceivingWorker_def left_over_def stream_def)

theorem in_order_delivery_witness:
  "\<exists>out w k. rcv_run [Arrive (NewDataSegment\<lparr>d_Number := 1, d_payload := Some (FromBytes [7] [])\<rparr>), DoRead 4]
      (NewReceivingWorker 8 100) = Some (out, w) \<and> rw_nextNumber w = of_nat k \<and>
    out @ mb_contents (left_over w) = stream (\<lambda>_. [7]) k"
  by (rule in_order_delivery) (simp add: carries_def)

text \<open>
  C20. \<^verbatim>\<open>AckList.Clear\<close>, which moves the kept entries to the front of three parallel arrays in place, is
  the filter that keeps the entries whose number is not below \<open>una\<close>, in order; the arrays stay parallel.
\<close>

theorem AckList_Clear_filter:
  assumes "al_ok l"
  shows "al_ok (AckList_Clear una l) \<and> entries (AckList_Clear una l) = filter (\<lambda>(n, _). \<not> n < una) (entries l)"
  using AckList_Clear_entries [OF assms] by blast

theorem AckList_Clear_filter_witness:
  "entries (AckList_Clear 3 (AckList_Add 5 1 (AckList_Add 2 1 (NewAckList 100)))) = [(5, 1, 0)]"
proof -
  have "al_ok (AckList_Add 5 1 (AckList_Add 2 1 (NewAckList 100)))"
    by (simp add: al_ok_def AckList_Add_def NewAckList_def)
  from AckList_Clear_filter [OF this, of 3] show ?thesis
    by (simp add: entries_def AckList_Add_def NewAckList_def)
qed

text \<open>
  C21. \<^verbatim>\<open>AckList.Flush\<close> acknowledges every entry that is due, and no acknowledgement it writes is larger
  than the maximum segment size (when that leaves room for one number) or holds more than 128 numbers.
\<close>

theorem AckList_Flush_complete:
  assumes "al_ok l" "21 \<le> unat (al_mss l)" "AckList_Flush cur rto l = (out, l')"
  shows "(\<forall>(n, t, f)\<in>set (entries l). f \<le> cur \<longrightarrow> (\<exists>s\<in>set out. n \<in> set (a_NumberList s))) \<and>
    (\<forall>s\<in>set out. ByteSize (SegAck s) \<le> int (unat (al_mss l)) \<and> seg_ok (SegAck s))"
proof -
  have "ByteSize (SegAck s) \<le> int (unat (al_mss l)) \<and> seg_ok (SegAck s)" if "written (ack_limit l) s" for s
  proof -
    have m: "21 \<le> int (unat (al_mss l))" using assms(2) by linarith
    then have k: "1 \<le> ack_limit l" unfolding ack_limit_def by linarith
    then have n: "int (length (a_NumberList s)) \<le> ack_limit l" "length (a_NumberList s) \<le> 128"
      using that limit_range [of "ack_limit l"] by (auto simp: written_def)
    then have "int (length (a_NumberList s)) * 4 \<le> int (unat (al_mss l)) - 17"
      using m unfolding ack_limit_def by linarith
    then show ?thesis using n(2) by simp
  qed
  then show ?thesis using AckList_Flush_spec [OF assms(1,3)] by auto
qed

theorem AckList_Flush_complete_witness:
  "\<exists>s\<in>set (fst (AckList_Flush 100 50 (AckList_Add 5 1 (NewAckList 100)))). 5 \<in> set (a_NumberList s)"
proof -
  have "al_ok (AckList_Add 5 1 (NewAckList 100))" "21 \<le> unat (al_mss (AckList_Add 5 1 (NewAckList 100)))"
    by (simp_all add: al_ok_def AckList_Add_def NewAckList_def)
  from AckList_Flush_complete [OF this, of 100 50 "fst (AckList_Flush 100 50 (AckList_Add 5 1 (NewAckList 100)))"
      "snd (AckList_Flush 100 50 (AckList_Add 5 1 (NewAckList 100)))"]
  show ?thesis by (simp add: AckList_Add_def NewAckList_def entries_def)
qed

end
