(* ===== verification/Kcp_Sending.thy ===== *)
theory Kcp_Sending
  imports Kcp_Segment
begin

text \<open>
  The sending side of the mKCP transport (\<^verbatim>\<open>xray-core/transport/internet/kcp\<close>: \<^verbatim>\<open>sending.go\<close>, the
  sizes of \<^verbatim>\<open>config.go\<close> and the round-trip estimator of \<^verbatim>\<open>connection.go\<close>). The cache of
  unacknowledged segments is a list in the order of the linked list. What the worker reads from its
  connection is an argument; the segments it sends are returned. The lemmas show that a segment leaves
  the cache only when the peer acknowledged it, and that flushing neither loses nor changes one.
\<close>

section \<open>Configuration and round-trip times\<close>

record Config =
  Mtu :: u32
  Tti :: u32
  UplinkCapacity :: u32
  DownlinkCapacity :: u32
  CwndMultiplier :: u32
  MaxSendingWindow :: u32

text \<open>The configuration a connection has when none is given.\<close>

definition default_config :: Config where
  "default_config = \<lparr>Mtu = 1350, Tti = 50, UplinkCapacity = 5, DownlinkCapacity = 20, CwndMultiplier = 1, MaxSendingWindow = 2 * 1024 * 1024\<rparr>"

text \<open>\<^verbatim>\<open>uint32\<close> division; \<open>None\<close> is the panic of a division by zero.\<close>

definition go_udiv :: "u32 \<Rightarrow> u32 \<Rightarrow> u32 option" where
  "go_udiv a b = (if b = 0 then None else Some (a div b))"

definition in_flight :: "u32 \<Rightarrow> Config \<Rightarrow> u32 option" where
  "in_flight capacity c = do {
     q \<leftarrow> go_udiv (capacity * 1024 * 1024) (Mtu c);
     t \<leftarrow> go_udiv 1000 (Tti c);
     sz \<leftarrow> go_udiv q t;
     Some (if sz < 8 then 8 else sz) }"

definition GetSendingInFlightSize :: "Config \<Rightarrow> u32 option" where
  "GetSendingInFlightSize c = in_flight (UplinkCapacity c) c"

definition GetReceivingInFlightSize :: "Config \<Rightarrow> u32 option" where
  "GetReceivingInFlightSize c = in_flight (DownlinkCapacity c) c"

definition GetSendingBufferSize :: "Config \<Rightarrow> u32 option" where
  "GetSendingBufferSize c = go_udiv (MaxSendingWindow c) (Mtu c)"

record RoundTripInfo =
  rt_variation :: u32
  rt_srtt :: u32
  rt_rto :: u32
  rt_minRtt :: u32
  rt_updatedTimestamp :: u32

definition UpdatePeerRTO :: "u32 \<Rightarrow> u32 \<Rightarrow> RoundTripInfo \<Rightarrow> RoundTripInfo" where
  "UpdatePeerRTO rto cur info =
     (if cur - rt_updatedTimestamp info < 3000 then info
      else info\<lparr>rt_updatedTimestamp := cur, rt_rto := rto\<rparr>)"

definition RoundTrip_Update :: "u32 \<Rightarrow> u32 \<Rightarrow> RoundTripInfo \<Rightarrow> RoundTripInfo" where
  "RoundTrip_Update rtt cur info =
     (if rtt > 0x7FFFFFFF then info
      else
        let info1 = (if rt_srtt info = 0 then info\<lparr>rt_srtt := rtt, rt_variation := rtt div 2\<rparr>
              else
                let delta = (if rt_srtt info > rtt then rt_srtt info - rtt else rtt - rt_srtt info);
                    srtt = (7 * rt_srtt info + rtt) div 8
                in info\<lparr>rt_variation := (3 * rt_variation info + delta) div 4,
                        rt_srtt := (if srtt < rt_minRtt info then rt_minRtt info else srtt)\<rparr>);
            rto = (if rt_minRtt info1 < 4 * rt_variation info1 then rt_srtt info1 + 4 * rt_variation info1
                   else rt_srtt info1 + rt_variation info1);
            rto1 = (if rto > 10000 then 10000 else rto)
        in info1\<lparr>rt_rto := rto1 * 5 div 4, rt_updatedTimestamp := cur\<rparr>)"

section \<open>SendingWindow\<close>

record SendingWindow =
  sw_cache :: "DataSegment list"
  sw_totalInFlightSize :: u32

definition NewSendingWindow :: SendingWindow where
  "NewSendingWindow = \<lparr>sw_cache = [], sw_totalInFlightSize = 0\<rparr>"

definition SWindow_Release :: "SendingWindow \<Rightarrow> SendingWindow" where
  "SWindow_Release sw = sw\<lparr>sw_cache := []\<rparr>"

definition SWindow_Len :: "SendingWindow \<Rightarrow> u32" where
  "SWindow_Len sw = of_nat (length (sw_cache sw))"

definition SWindow_IsEmpty :: "SendingWindow \<Rightarrow> bool" where
  "SWindow_IsEmpty sw \<longleftrightarrow> length (sw_cache sw) = 0"

definition SWindow_Push :: "u32 \<Rightarrow> Buffer \<Rightarrow> SendingWindow \<Rightarrow> SendingWindow" where
  "SWindow_Push number b sw =
     sw\<lparr>sw_cache := sw_cache sw @ [NewDataSegment\<lparr>d_Number := number, d_payload := Some b\<rparr>]\<rparr>"

definition FirstNumber :: "SendingWindow \<Rightarrow> u32 option" where
  "FirstNumber sw = (case sw_cache sw of [] \<Rightarrow> None | seg # _ \<Rightarrow> Some (d_Number seg))"

fun clear_front :: "u32 \<Rightarrow> DataSegment list \<Rightarrow> DataSegment list" where
  "clear_front una [] = []"
| "clear_front una (seg # cache) = (if d_Number seg \<ge> una then seg # cache else clear_front una cache)"

definition SWindow_Clear :: "u32 \<Rightarrow> SendingWindow \<Rightarrow> SendingWindow" where
  "SWindow_Clear una sw = sw\<lparr>sw_cache := clear_front una (sw_cache sw)\<rparr>"

text \<open>\<^verbatim>\<open>Visit\<close>: the visitor may change the segment and a state, and stops the walk by answering false.\<close>

fun Visit :: "(DataSegment \<Rightarrow> 's \<Rightarrow> bool \<times> DataSegment \<times> 's) \<Rightarrow> DataSegment list \<Rightarrow> 's \<Rightarrow> DataSegment list \<times> 's" where
  "Visit f [] s = ([], s)"
| "Visit f (seg # cache) s =
     (let (go, seg', s') = f seg s in
      if go then (let (rest, s'') = Visit f cache s' in (seg' # rest, s'')) else (seg' # cache, s'))"

definition HandleFastAck :: "u32 \<Rightarrow> u32 \<Rightarrow> SendingWindow \<Rightarrow> SendingWindow" where
  "HandleFastAck number rto sw =
     (if SWindow_IsEmpty sw then sw
      else sw\<lparr>sw_cache := fst (Visit (\<lambda>seg s.
        if number = d_Number seg \<or> number - d_Number seg > 0x7FFFFFFF then (False, seg, s)
        else (True, (if d_transmit seg > 0 \<and> d_timeout seg > rto div 3
                     then seg\<lparr>d_timeout := d_timeout seg - rto div 3\<rparr> else seg), s)) (sw_cache sw) ())\<rparr>)"

text \<open>
  The visitor of \<^verbatim>\<open>Flush\<close>; its state is the total in flight, the lost and the sent of this round, and the
  segments sent. \<open>wr\<close> is what the writer does to a segment before it sends it.
\<close>

definition flush_visitor :: "(DataSegment \<Rightarrow> DataSegment) \<Rightarrow> u32 \<Rightarrow> u32 \<Rightarrow> u32 \<Rightarrow> DataSegment \<Rightarrow>
    (u32 \<times> u32 \<times> u32 \<times> DataSegment list) \<Rightarrow> bool \<times> DataSegment \<times> (u32 \<times> u32 \<times> u32 \<times> DataSegment list)" where
  "flush_visitor wr cur rto maxInFlight seg s =
     (let (tot, lost, inFlight, out) = s in
      if cur - d_timeout seg \<ge> 0x7FFFFFFF then (True, seg, s)
      else
        let tot' = (if d_transmit seg = 0 then tot + 1 else tot);
            lost' = (if d_transmit seg = 0 then lost else lost + 1);
            seg' = wr (seg\<lparr>d_timeout := cur + rto, d_Timestamp := cur, d_transmit := d_transmit seg + 1\<rparr>)
        in (inFlight + 1 < maxInFlight, seg', (tot', lost', inFlight + 1, out @ [seg'])))"

text \<open>\<^verbatim>\<open>Flush\<close>: the segments sent, the loss rate reported (if any) and the window.\<close>

definition SWindow_Flush :: "(DataSegment \<Rightarrow> DataSegment) \<Rightarrow> u32 \<Rightarrow> u32 \<Rightarrow> u32 \<Rightarrow> SendingWindow \<Rightarrow>
    DataSegment list \<times> u32 option \<times> SendingWindow" where
  "SWindow_Flush wr cur rto maxInFlight sw =
     (if SWindow_IsEmpty sw then ([], None, sw)
      else
        let (cache, tot, lost, inFlight, out) =
              Visit (flush_visitor wr cur rto maxInFlight) (sw_cache sw) (sw_totalInFlightSize sw, 0, 0, [])
        in (out, (if inFlight > 0 \<and> tot \<noteq> 0 then Some (lost * 100 div tot) else None),
            sw\<lparr>sw_cache := cache, sw_totalInFlightSize := tot\<rparr>))"

fun remove_number :: "u32 \<Rightarrow> DataSegment list \<Rightarrow> bool \<times> DataSegment list" where
  "remove_number number [] = (False, [])"
| "remove_number number (seg # cache) =
     (if d_Number seg > number then (False, seg # cache)
      else if d_Number seg = number then (True, cache)
      else let (r, rest) = remove_number number cache in (r, seg # rest))"

definition SWindow_Remove :: "u32 \<Rightarrow> SendingWindow \<Rightarrow> bool \<times> SendingWindow" where
  "SWindow_Remove number sw =
     (let (r, cache) = remove_number number (sw_cache sw) in
      (r, sw\<lparr>sw_cache := cache,
             sw_totalInFlightSize := (if r \<and> sw_totalInFlightSize sw > 0 then sw_totalInFlightSize sw - 1
                                      else sw_totalInFlightSize sw)\<rparr>))"

section \<open>SendingWorker\<close>

record SendingWorker =
  sd_window :: SendingWindow
  sd_firstUnacknowledged :: u32
  sd_nextNumber :: u32
  sd_remoteNextNumber :: u32
  sd_controlWindow :: u32
  sd_fastResend :: u32
  sd_windowSize :: u32
  sd_firstUnacknowledgedUpdated :: bool
  sd_closed :: bool

definition NewSendingWorker :: "u32 \<Rightarrow> u32 \<Rightarrow> SendingWorker" where
  "NewSendingWorker inFlightSize bufferSize =
     \<lparr>sd_window = NewSendingWindow, sd_firstUnacknowledged = 0, sd_nextNumber = 0, sd_remoteNextNumber = 32,
      sd_controlWindow = inFlightSize, sd_fastResend = 2, sd_windowSize = bufferSize,
      sd_firstUnacknowledgedUpdated = False, sd_closed = False\<rparr>"

definition SendingWorker_Release :: "SendingWorker \<Rightarrow> SendingWorker" where
  "SendingWorker_Release w = w\<lparr>sd_window := SWindow_Release (sd_window w), sd_closed := True\<rparr>"

definition FindFirstUnacknowledged :: "SendingWorker \<Rightarrow> SendingWorker" where
  "FindFirstUnacknowledged w =
     (let first = sd_firstUnacknowledged w;
          w1 = w\<lparr>sd_firstUnacknowledged := (case FirstNumber (sd_window w) of Some n \<Rightarrow> n | None \<Rightarrow> sd_nextNumber w)\<rparr>
      in if first \<noteq> sd_firstUnacknowledged w1 then w1\<lparr>sd_firstUnacknowledgedUpdated := True\<rparr> else w1)"

definition ProcessReceivingNext :: "u32 \<Rightarrow> SendingWorker \<Rightarrow> SendingWorker" where
  "ProcessReceivingNext nextNumber w =
     FindFirstUnacknowledged (w\<lparr>sd_window := SWindow_Clear nextNumber (sd_window w)\<rparr>)"

definition processAck :: "u32 \<Rightarrow> SendingWorker \<Rightarrow> bool \<times> SendingWorker" where
  "processAck number w =
     (if number - sd_firstUnacknowledged w > 0x7FFFFFFF \<or> number - sd_nextNumber w < 0x7FFFFFFF then (False, w)
      else
        let (removed, sw) = SWindow_Remove number (sd_window w); w1 = w\<lparr>sd_window := sw\<rparr>
        in (removed, if removed then FindFirstUnacknowledged w1 else w1))"

fun process_acks :: "u32 list \<Rightarrow> u32 \<Rightarrow> bool \<Rightarrow> SendingWorker \<Rightarrow> u32 \<times> bool \<times> SendingWorker" where
  "process_acks [] maxack maxackRemoved w = (maxack, maxackRemoved, w)"
| "process_acks (number # ns) maxack maxackRemoved w =
     (let (removed, w1) = processAck number w in
      if maxack < number then process_acks ns number removed w1
      else process_acks ns maxack maxackRemoved w1)"

definition Sending_ProcessSegment ::
  "u32 \<Rightarrow> AckSegment \<Rightarrow> u32 \<Rightarrow> SendingWorker \<Rightarrow> RoundTripInfo \<Rightarrow> SendingWorker \<times> RoundTripInfo" where
  "Sending_ProcessSegment cur seg rto w rt =
     (if sd_closed w then (w, rt)
      else
        let w1 = (if sd_remoteNextNumber w < a_ReceivingWindow seg
                  then w\<lparr>sd_remoteNextNumber := a_ReceivingWindow seg\<rparr> else w);
            w2 = ProcessReceivingNext (a_ReceivingNext seg) w1 in
        if Ack_IsEmpty seg then (w2, rt)
        else
          let (maxack, maxackRemoved, w3) = process_acks (a_NumberList seg) 0 False w2 in
          if maxackRemoved
          then (w3\<lparr>sd_window := HandleFastAck maxack rto (sd_window w3)\<rparr>,
                (if cur - a_Timestamp seg < 10000 then RoundTrip_Update (cur - a_Timestamp seg) cur rt else rt))
          else (w3, rt))"

definition Sending_Push :: "Buffer \<Rightarrow> SendingWorker \<Rightarrow> bool \<times> SendingWorker" where
  "Sending_Push b w =
     (if sd_closed w then (False, w)
      else if SWindow_Len (sd_window w) > sd_windowSize w then (False, w)
      else (True, w\<lparr>sd_window := SWindow_Push (sd_nextNumber w) b (sd_window w), sd_nextNumber := sd_nextNumber w + 1\<rparr>))"

definition Sending_Write :: "u16 \<Rightarrow> bool \<Rightarrow> SendingWorker \<Rightarrow> DataSegment \<Rightarrow> DataSegment" where
  "Sending_Write conv readyToClose w seg =
     seg\<lparr>d_Conv := conv, d_SendingNext := sd_firstUnacknowledged w,
         d_Option := (if readyToClose then SegmentOptionClose else 0)\<rparr>"

definition OnPacketLoss :: "u32 \<Rightarrow> u32 \<Rightarrow> u32 \<Rightarrow> SendingWorker \<Rightarrow> SendingWorker" where
  "OnPacketLoss timeout inFlightSize lossRate w =
     (if timeout = 0 then w
      else
        let c1 = (if lossRate \<ge> 15 then 3 * sd_controlWindow w div 4 else sd_controlWindow w);
            c2 = (if lossRate \<le> 5 then c1 + c1 div 4 else c1);
            c3 = (if c2 < 16 then 16 else c2);
            c4 = (if c3 > inFlightSize then inFlightSize else c3)
        in w\<lparr>sd_controlWindow := c4\<rparr>)"

text \<open>\<^verbatim>\<open>Flush\<close>: the segments sent, whether it pings, and the worker.\<close>

definition Sending_Flush :: "u16 \<Rightarrow> bool \<Rightarrow> u32 \<Rightarrow> u32 \<Rightarrow> u32 \<Rightarrow> u32 \<Rightarrow> SendingWorker \<Rightarrow> DataSegment list \<times> bool \<times> SendingWorker" where
  "Sending_Flush conv readyToClose inFlightSize multiplier timeout cur w =
     (if sd_closed w then ([], False, w)
      else
        let room = sd_remoteNextNumber w - sd_firstUnacknowledged w;
            c1 = (if inFlightSize > room then room else inFlightSize);
            c2 = (if c1 > sd_controlWindow w then sd_controlWindow w else c1);
            cwnd = c2 * multiplier;
            (out, w1) = (if \<not> SWindow_IsEmpty (sd_window w) then
               (let (out, loss, sw) = SWindow_Flush (Sending_Write conv readyToClose w) cur timeout cwnd (sd_window w);
                    wa = w\<lparr>sd_window := sw\<rparr>;
                    wb = (case loss of None \<Rightarrow> wa | Some rate \<Rightarrow> OnPacketLoss timeout inFlightSize rate wa)
                in (out, wb\<lparr>sd_firstUnacknowledgedUpdated := False\<rparr>))
               else ([], w))
        in (out, sd_firstUnacknowledgedUpdated w1, w1\<lparr>sd_firstUnacknowledgedUpdated := False\<rparr>))"

definition CloseWrite :: "SendingWorker \<Rightarrow> SendingWorker" where
  "CloseWrite w = w\<lparr>sd_window := SWindow_Clear 0xFFFFFFFF (sd_window w)\<rparr>"

definition Sending_IsEmpty :: "SendingWorker \<Rightarrow> bool" where
  "Sending_IsEmpty w = SWindow_IsEmpty (sd_window w)"

section \<open>The cache\<close>

text \<open>What identifies an unacknowledged segment: its number and its payload.\<close>

definition key :: "DataSegment \<Rightarrow> u32 \<times> Buffer option" where
  "key seg = (d_Number seg, d_payload seg)"

definition keys :: "SendingWorker \<Rightarrow> (u32 \<times> Buffer option) list" where
  "keys w = map key (sw_cache (sd_window w))"

text \<open>
  The invariant of the worker while its numbers have not wrapped around: the cached numbers ascend
  strictly, below the next number, and the first unacknowledged number is the first of them.
\<close>

fun first_key :: "u32 \<Rightarrow> (u32 \<times> Buffer option) list \<Rightarrow> u32" where
  "first_key n [] = n"
| "first_key n ((m, _) # _) = m"

definition snd_inv :: "SendingWorker \<Rightarrow> bool" where
  "snd_inv w \<longleftrightarrow> sorted_wrt (<) (map fst (keys w)) \<and> (\<forall>n\<in>set (map fst (keys w)). n < sd_nextNumber w) \<and>
     sd_firstUnacknowledged w = first_key (sd_nextNumber w) (keys w)"

lemma keys_upd [simp]:
  "keys (w\<lparr>sd_remoteNextNumber := a\<rparr>) = keys w" "keys (w\<lparr>sd_firstUnacknowledged := a\<rparr>) = keys w"
  "keys (w\<lparr>sd_firstUnacknowledgedUpdated := u\<rparr>) = keys w" "keys (w\<lparr>sd_controlWindow := c\<rparr>) = keys w"
  "keys (w\<lparr>sd_nextNumber := a\<rparr>) = keys w"
  "keys (w\<lparr>sd_window := sw\<rparr>) = map key (sw_cache sw)"
  by (simp_all add: keys_def)

lemma clear_front_filter:
  "sorted_wrt (<) (map d_Number cache) \<Longrightarrow> clear_front una cache = filter (\<lambda>s. una \<le> d_Number s) cache"
proof (induction cache)
  case (Cons s cache)
  then have "\<And>x. x \<in> set cache \<Longrightarrow> d_Number s < d_Number x" by auto
  then have "una \<le> d_Number s \<Longrightarrow> filter (\<lambda>s. una \<le> d_Number s) cache = cache"
    by (intro filter_True) (auto intro: order.trans less_imp_le)
  then show ?case using Cons by auto
qed simp

lemma remove_number_filter:
  "sorted_wrt (<) (map d_Number cache) \<Longrightarrow>
   remove_number number cache = (number \<in> set (map d_Number cache), filter (\<lambda>s. d_Number s \<noteq> number) cache)"
proof (induction cache)
  case (Cons s cache)
  then have "\<And>x. x \<in> set cache \<Longrightarrow> d_Number s < d_Number x" by auto
  then have "number < d_Number s \<Longrightarrow> number \<notin> set (map d_Number cache)" "number = d_Number s \<Longrightarrow> number \<notin> set (map d_Number cache)"
    by (auto dest: order.strict_trans) (metis order.irrefl)
  moreover have "number \<notin> set (map d_Number cache) \<Longrightarrow> filter (\<lambda>s. d_Number s \<noteq> number) cache = cache"
    by (intro filter_True) auto
  ultimately show ?case using Cons by auto
qed simp

lemma Find_keys [simp]:
  "keys (FindFirstUnacknowledged w) = keys w" "sd_nextNumber (FindFirstUnacknowledged w) = sd_nextNumber w"
  "sd_closed (FindFirstUnacknowledged w) = sd_closed w" "sd_window (FindFirstUnacknowledged w) = sd_window w"
  "sd_firstUnacknowledged (FindFirstUnacknowledged w) = first_key (sd_nextNumber w) (keys w)"
  by (auto simp: FindFirstUnacknowledged_def Let_def keys_def FirstNumber_def key_def split: list.splits)

lemma snd_inv_filter:
  assumes "snd_inv w" "map key (sw_cache sw) = filter P (keys w)"
  shows "snd_inv (FindFirstUnacknowledged (w\<lparr>sd_window := sw\<rparr>))"
proof -
  have "sorted_wrt (<) (map fst (filter P (keys w)))"
    using assms(1) by (simp add: snd_inv_def sorted_wrt_map sorted_wrt_filter)
  then show ?thesis using assms by (auto simp: snd_inv_def)
qed

lemma numbers_keys: "map d_Number (sw_cache (sd_window w)) = map fst (keys w)"
  by (simp add: keys_def key_def)

lemma filter_key: "map key (filter (\<lambda>s. Q (d_Number s)) cache) = filter (\<lambda>(n, _). Q n) (map key cache)"
  by (simp add: filter_map comp_def key_def)

lemma ProcessReceivingNext_keys:
  assumes "snd_inv w"
  shows "keys (ProcessReceivingNext una w) = filter (\<lambda>(n, _). una \<le> n) (keys w)" "snd_inv (ProcessReceivingNext una w)"
    "sd_nextNumber (ProcessReceivingNext una w) = sd_nextNumber w"
proof -
  have "sorted_wrt (<) (map d_Number (sw_cache (sd_window w)))" using assms by (simp add: snd_inv_def numbers_keys)
  then have k: "map key (sw_cache (SWindow_Clear una (sd_window w))) = filter (\<lambda>(n, _). una \<le> n) (keys w)"
    using filter_key [of "\<lambda>n. una \<le> n"] by (simp add: SWindow_Clear_def clear_front_filter keys_def)
  then show "keys (ProcessReceivingNext una w) = filter (\<lambda>(n, _). una \<le> n) (keys w)"
    "sd_nextNumber (ProcessReceivingNext una w) = sd_nextNumber w"
    by (simp_all add: ProcessReceivingNext_def)
  show "snd_inv (ProcessReceivingNext una w)"
    unfolding ProcessReceivingNext_def using snd_inv_filter [OF assms k] .
qed

text \<open>
  While fewer than \<open>2 ^ 31\<close> segments have been sent, the guard of \<^verbatim>\<open>processAck\<close> lets every cached number
  through.
\<close>

lemma ack_guard:
  assumes "snd_inv w" "unat (sd_nextNumber w) < 2 ^ 31" "n \<in> set (map fst (keys w))"
  shows "\<not> (n - sd_firstUnacknowledged w > 0x7FFFFFFF \<or> n - sd_nextNumber w < 0x7FFFFFFF)"
proof -
  have n: "n < sd_nextNumber w" using assms(1,3) by (auto simp: snd_inv_def)
  have "sd_firstUnacknowledged w \<le> n"
  proof (cases "keys w")
    case (Cons k ks)
    then show ?thesis using assms(1,3) by (cases k) (force simp: snd_inv_def intro: less_imp_le)
  qed (use assms(3) in simp)
  note n = n this
  have "unat (n - sd_firstUnacknowledged w) = unat n - unat (sd_firstUnacknowledged w)"
    using n(2) by (simp add: unat_sub)
  moreover have "unat (n - sd_nextNumber w) = 2 ^ 32 - (unat (sd_nextNumber w) - unat n)"
    using n(1) unat_sub_if' [of n "sd_nextNumber w"] by (simp add: word_le_nat_alt word_less_nat_alt)
  ultimately show ?thesis
    using n assms(2) by (simp add: word_less_nat_alt not_less) linarith
qed

lemma processAck_keys:
  assumes inv: "snd_inv w" and small: "unat (sd_nextNumber w) < 2 ^ 31"
  shows "keys (snd (processAck n w)) = filter (\<lambda>(m, _). m \<noteq> n) (keys w)" "snd_inv (snd (processAck n w))"
    "sd_nextNumber (snd (processAck n w)) = sd_nextNumber w"
    "fst (processAck n w) \<longleftrightarrow> n \<in> set (map fst (keys w))"
proof -
  have s: "sorted_wrt (<) (map d_Number (sw_cache (sd_window w)))" using inv by (simp add: snd_inv_def numbers_keys)
  obtain r sw where R: "SWindow_Remove n (sd_window w) = (r, sw)" by fastforce
  then have r: "r \<longleftrightarrow> n \<in> set (map fst (keys w))" and sw: "map key (sw_cache sw) = filter (\<lambda>(m, _). m \<noteq> n) (keys w)"
    using remove_number_filter [OF s, of n] filter_key [of "\<lambda>m. m \<noteq> n"] unfolding numbers_keys [symmetric]
    by (auto simp: SWindow_Remove_def Let_def keys_def)
  have absent: "n \<notin> fst ` set (keys w) \<Longrightarrow> filter (\<lambda>(m, _). m \<noteq> n) (keys w) = keys w"
    by (intro filter_True) force
  show "keys (snd (processAck n w)) = filter (\<lambda>(m, _). m \<noteq> n) (keys w)"
    "sd_nextNumber (snd (processAck n w)) = sd_nextNumber w"
    "fst (processAck n w) \<longleftrightarrow> n \<in> set (map fst (keys w))"
    using ack_guard [OF inv small, of n] R r sw absent by (auto simp: processAck_def Let_def)
  show "snd_inv (snd (processAck n w))"
  proof (cases "n \<in> set (map fst (keys w))")
    case True
    then show ?thesis using ack_guard [OF inv small] R r snd_inv_filter [OF inv sw] by (simp add: processAck_def)
  next
    case False
    then have "filter (\<lambda>(m, _). m \<noteq> n) (keys w) = keys w" using absent by simp
    then have "snd_inv (w\<lparr>sd_window := sw\<rparr>)" using inv sw by (simp add: snd_inv_def)
    then show ?thesis using inv False R r by (auto simp: processAck_def)
  qed
qed

lemma process_acks_keys:
  assumes "snd_inv w" "unat (sd_nextNumber w) < 2 ^ 31"
  shows "case process_acks ns m r w of (_, _, w') \<Rightarrow>
    keys w' = filter (\<lambda>(n, _). n \<notin> set ns) (keys w) \<and> snd_inv w' \<and> sd_nextNumber w' = sd_nextNumber w"
  using assms
proof (induction ns arbitrary: m r w)
  case (Cons n ns)
  obtain removed w1 where w1: "processAck n w = (removed, w1)" by fastforce
  have k: "keys w1 = filter (\<lambda>(m, _). m \<noteq> n) (keys w)" "snd_inv w1" "sd_nextNumber w1 = sd_nextNumber w"
    using processAck_keys [OF Cons.prems, of n] w1 by auto
  have "filter (\<lambda>(x, _). x \<notin> set ns) (filter (\<lambda>(x, _). x \<noteq> n) (keys w)) = filter (\<lambda>(x, _). x \<notin> set (n # ns)) (keys w)"
    by (auto intro: filter_cong)
  then show ?case
    using Cons.IH [OF k(2)] k Cons.prems(2) w1 by (auto simp: Let_def split: prod.splits)
qed simp

text \<open>A visitor that keeps the key of every segment keeps the keys of the cache.\<close>

lemma Visit_key:
  assumes "\<And>seg s. key (fst (snd (f seg s))) = key seg"
  shows "map key (fst (Visit f cache s)) = map key cache"
proof (induction cache arbitrary: s)
  case (Cons seg cache)
  obtain go seg' s' where f: "f seg s = (go, seg', s')" by (metis prod_cases3)
  obtain rest s'' where r: "Visit f cache s' = (rest, s'')" by fastforce
  show ?case using assms [of seg s] Cons [of s'] f r by (simp add: Let_def)
qed simp

lemma HandleFastAck_keys: "map key (sw_cache (HandleFastAck n rto sw)) = map key (sw_cache sw)"
proof (cases "SWindow_IsEmpty sw")
  case False
  then show ?thesis unfolding HandleFastAck_def by (simp, intro Visit_key) (simp add: key_def)
qed (simp add: HandleFastAck_def)

lemma Sending_ProcessSegment_keys:
  assumes inv: "snd_inv w" and small: "unat (sd_nextNumber w) < 2 ^ 31" and open_w: "\<not> sd_closed w"
  shows "keys (fst (Sending_ProcessSegment cur seg rto w rt)) =
      filter (\<lambda>(n, _). a_ReceivingNext seg \<le> n \<and> n \<notin> set (a_NumberList seg)) (keys w)"
    "snd_inv (fst (Sending_ProcessSegment cur seg rto w rt))"
    "sd_nextNumber (fst (Sending_ProcessSegment cur seg rto w rt)) = sd_nextNumber w"
proof -
  let ?w1 = "if sd_remoteNextNumber w < a_ReceivingWindow seg then w\<lparr>sd_remoteNextNumber := a_ReceivingWindow seg\<rparr> else w"
  let ?w2 = "ProcessReceivingNext (a_ReceivingNext seg) ?w1"
  have 1: "snd_inv ?w1" "keys ?w1 = keys w" "sd_nextNumber ?w1 = sd_nextNumber w" using inv by (auto simp: snd_inv_def)
  have 2: "keys ?w2 = filter (\<lambda>(n, _). a_ReceivingNext seg \<le> n) (keys w)" "snd_inv ?w2" "sd_nextNumber ?w2 = sd_nextNumber w"
    using ProcessReceivingNext_keys [OF 1(1), of "a_ReceivingNext seg"] unfolding 1(2,3) by blast+
  obtain m r w3 where w3: "process_acks (a_NumberList seg) 0 False ?w2 = (m, r, w3)" by (metis prod_cases3)
  have 3: "keys w3 = filter (\<lambda>(n, _). n \<notin> set (a_NumberList seg)) (keys ?w2)" "snd_inv w3" "sd_nextNumber w3 = sd_nextNumber w"
    using process_acks_keys [OF 2(2), of "a_NumberList seg" 0 False] w3 small 2(3) by auto
  let ?w4 = "w3\<lparr>sd_window := HandleFastAck m rto (sd_window w3)\<rparr>"
  have k4: "keys ?w4 = keys w3" by (simp add: HandleFastAck_keys) (simp add: keys_def)
  then have 4: "snd_inv ?w4" using 3(2) unfolding snd_inv_def by simp
  have f: "keys w3 = filter (\<lambda>(n, _). a_ReceivingNext seg \<le> n \<and> n \<notin> set (a_NumberList seg)) (keys w)"
    unfolding 3(1) 2(1) by (auto intro: filter_cong)
  have res: "fst (Sending_ProcessSegment cur seg rto w rt) = (if Ack_IsEmpty seg then ?w2 else if r then ?w4 else w3)"
    using open_w w3 unfolding Sending_ProcessSegment_def Let_def by simp
  show "keys (fst (Sending_ProcessSegment cur seg rto w rt)) =
      filter (\<lambda>(n, _). a_ReceivingNext seg \<le> n \<and> n \<notin> set (a_NumberList seg)) (keys w)"
    unfolding res using 2(1) f k4 by (auto simp: Ack_IsEmpty_def)
  show "snd_inv (fst (Sending_ProcessSegment cur seg rto w rt))"
    "sd_nextNumber (fst (Sending_ProcessSegment cur seg rto w rt)) = sd_nextNumber w"
    unfolding res using 2(2,3) 3(2,3) 4 by auto
qed

section \<open>Flushing\<close>

text \<open>A segment of a cache whose timer has run out, as it is sent.\<close>

definition sent_from :: "u32 \<Rightarrow> DataSegment list \<Rightarrow> DataSegment \<Rightarrow> bool" where
  "sent_from cur cache s \<longleftrightarrow> (\<exists>seg\<in>set cache. key s = key seg \<and> d_Timestamp s = cur \<and> \<not> cur - d_timeout seg \<ge> 0x7FFFFFFF)"

lemma sent_from_mono: "sent_from cur cache s \<Longrightarrow> sent_from cur (seg # cache) s"
  by (auto simp: sent_from_def)

lemma flush_visit_spec:
  assumes wr: "\<And>s. key (wr s) = key s" "\<And>s. d_Timestamp (wr s) = d_Timestamp s"
    and v: "Visit (flush_visitor wr cur rto maxF) cache (tot, lost, inF, out) = (cache', tot', lost', inF', out')"
    and small: "unat inF + length cache < 2 ^ 32"
  shows "\<exists>new. out' = out @ new \<and> (\<forall>s\<in>set new. sent_from cur cache s) \<and> unat inF' = unat inF + length new \<and>
    (new = [] \<or> length new = 1 \<or> unat inF + length new \<le> unat maxF)"
  using v small
proof (induction cache arbitrary: tot lost inF out cache')
  case Nil
  then show ?case by simp
next
  case (Cons seg cache)
  let ?v = "flush_visitor wr cur rto maxF"
  show ?case
  proof (cases "cur - d_timeout seg \<ge> 0x7FFFFFFF")
    case True
    then have f: "?v seg (tot, lost, inF, out) = (True, seg, tot, lost, inF, out)" by (simp add: flush_visitor_def)
    obtain rest where "Visit ?v cache (tot, lost, inF, out) = (rest, tot', lost', inF', out')"
      using Cons.prems(1) f by (auto simp: Let_def split: prod.splits)
    from Cons.IH [OF this] Cons.prems(2) show ?thesis using sent_from_mono by fastforce
  next
    case False
    define seg' where "seg' = wr (seg\<lparr>d_timeout := cur + rto, d_Timestamp := cur, d_transmit := d_transmit seg + 1\<rparr>)"
    obtain t l where f: "?v seg (tot, lost, inF, out) = (inF + 1 < maxF, seg', t, l, inF + 1, out @ [seg'])"
      using False by (auto simp: flush_visitor_def seg'_def Let_def)
    have s: "sent_from cur (seg # cache) seg'"
      using False wr by (auto simp: sent_from_def seg'_def key_def)
    have inF: "unat (inF + 1) = unat inF + 1" using Cons.prems(2) by (simp add: unat_plus_if')
    show ?thesis
    proof (cases "inF + 1 < maxF")
      case go: True
      obtain rest where "Visit ?v cache (t, l, inF + 1, out @ [seg']) = (rest, tot', lost', inF', out')"
        using Cons.prems(1) f go by (auto simp: Let_def split: prod.splits)
      from Cons.IH [OF this] Cons.prems(2) inF obtain new where new: "out' = (out @ [seg']) @ new"
        "\<forall>s\<in>set new. sent_from cur cache s" "unat inF' = unat (inF + 1) + length new"
        "new = [] \<or> length new = 1 \<or> unat (inF + 1) + length new \<le> unat maxF"
        by fastforce
      have lt: "unat (inF + 1) < unat maxF" using go by (simp add: word_less_nat_alt)
      show ?thesis
        using new s inF lt sent_from_mono by (intro exI [of _ "seg' # new"]) auto
    next
      case stop: False
      then have "out' = out @ [seg']" "inF' = inF + 1" using Cons.prems(1) f by (auto simp: Let_def)
      then show ?thesis using s inF by (intro exI [of _ "[seg']"]) simp
    qed
  qed
qed

lemma flush_visit_keys:
  assumes wr: "\<And>s. key (wr s) = key s"
  shows "map key (fst (Visit (flush_visitor wr cur rto maxF) cache s)) = map key cache"
proof (rule Visit_key)
  have *: "key (seg\<lparr>d_timeout := a, d_Timestamp := b, d_transmit := c\<rparr>) = key seg" for seg :: DataSegment and a b c by (simp add: key_def)
  show "key (fst (snd (flush_visitor wr cur rto maxF seg s))) = key seg" for seg s
    by (simp add: flush_visitor_def Let_def wr * split: prod.split)
qed

lemma SWindow_Flush_spec:
  assumes wr: "\<And>s. key (wr s) = key s" "\<And>s. d_Timestamp (wr s) = d_Timestamp s"
    and f: "SWindow_Flush wr cur rto maxF sw = (out, loss, sw')" and small: "length (sw_cache sw) < 2 ^ 32"
  shows "map key (sw_cache sw') = map key (sw_cache sw) \<and> (\<forall>s\<in>set out. sent_from cur (sw_cache sw) s) \<and>
    length out \<le> max 1 (unat maxF)"
proof (cases "SWindow_IsEmpty sw")
  case True
  then show ?thesis using f by (simp add: SWindow_Flush_def)
next
  case False
  obtain cache tot lost inF o1 where v: "Visit (flush_visitor wr cur rto maxF) (sw_cache sw) (sw_totalInFlightSize sw, 0, 0, []) =
      (cache, tot, lost, inF, o1)" by (metis prod_cases5)
  have o: "out = o1" "sw_cache sw' = cache" using f False v by (auto simp: SWindow_Flush_def)
  obtain new where new: "o1 = [] @ new" "\<forall>s\<in>set new. sent_from cur (sw_cache sw) s"
    "new = [] \<or> length new = 1 \<or> unat (0 :: u32) + length new \<le> unat maxF"
    using flush_visit_spec [OF wr v] small by auto
  have "map key cache = map key (sw_cache sw)"
    using flush_visit_keys [OF wr(1), of cur rto maxF "sw_cache sw" "(sw_totalInFlightSize sw, 0, 0, [])"] v by simp
  moreover have "length o1 \<le> max 1 (unat maxF)" using new by auto
  ultimately show ?thesis using o new by simp
qed

lemma Sending_Write_key [simp]: "key (Sending_Write conv rc w s) = key s" "d_Timestamp (Sending_Write conv rc w s) = d_Timestamp s"
  by (simp_all add: Sending_Write_def key_def)

lemma OnPacketLoss_keys [simp]: "keys (OnPacketLoss t i r w) = keys w"
  "sd_nextNumber (OnPacketLoss t i r w) = sd_nextNumber w"
  "sd_firstUnacknowledged (OnPacketLoss t i r w) = sd_firstUnacknowledged w"
  "sd_closed (OnPacketLoss t i r w) = sd_closed w"
  by (auto simp: OnPacketLoss_def Let_def)

lemma Sending_Flush_spec:
  assumes f: "Sending_Flush conv rc inFlight mult timeout cur w = (out, ping, w')"
    and small: "length (keys w) < 2 ^ 32"
  shows "keys w' = keys w \<and> sd_nextNumber w' = sd_nextNumber w \<and> sd_firstUnacknowledged w' = sd_firstUnacknowledged w \<and>
    sd_closed w' = sd_closed w \<and> (\<forall>s\<in>set out. sent_from cur (sw_cache (sd_window w)) s) \<and>
    length out \<le> max 1 (unat (mult * min (min inFlight (sd_remoteNextNumber w - sd_firstUnacknowledged w)) (sd_controlWindow w)))"
proof (cases "sd_closed w \<or> SWindow_IsEmpty (sd_window w)")
  case True
  then show ?thesis using f by (auto simp: Sending_Flush_def Let_def split: if_splits)
next
  case False
  define cwnd where "cwnd = (let room = sd_remoteNextNumber w - sd_firstUnacknowledged w;
      c1 = (if inFlight > room then room else inFlight);
      c2 = (if c1 > sd_controlWindow w then sd_controlWindow w else c1) in c2 * mult)"
  have cwnd: "cwnd = mult * min (min inFlight (sd_remoteNextNumber w - sd_firstUnacknowledged w)) (sd_controlWindow w)"
    by (auto simp: cwnd_def Let_def min_def mult.commute not_less)
  obtain o1 loss sw where s: "SWindow_Flush (Sending_Write conv rc w) cur timeout cwnd (sd_window w) = (o1, loss, sw)"
    by (metis prod_cases3)
  have spec: "map key (sw_cache sw) = keys w" "\<forall>s\<in>set o1. sent_from cur (sw_cache (sd_window w)) s" "length o1 \<le> max 1 (unat cwnd)"
    using SWindow_Flush_spec [OF _ _ s] small by (simp_all add: keys_def)
  have "out = o1 \<and> w' = (case loss of None \<Rightarrow> w\<lparr>sd_window := sw\<rparr> | Some rate \<Rightarrow> OnPacketLoss timeout inFlight rate (w\<lparr>sd_window := sw\<rparr>))
      \<lparr>sd_firstUnacknowledgedUpdated := False\<rparr>"
    using f False s unfolding Sending_Flush_def cwnd_def Let_def by auto
  then show ?thesis using spec cwnd by (auto split: option.splits)
qed

section \<open>Properties\<close>

text \<open>
  C22. An acknowledgement removes exactly what it acknowledges. While fewer than \<open>2 ^ 31\<close> segments have been
  sent, processing an acknowledgement keeps, in order and with their payloads, exactly the segments that
  are neither below its \<^verbatim>\<open>ReceivingNext\<close> nor in its number list: nothing unacknowledged is dropped and
  nothing acknowledged is sent again. The worker's invariant is kept.
\<close>

theorem ack_removes_exactly:
  assumes "snd_inv w" "unat (sd_nextNumber w) < 2 ^ 31" "\<not> sd_closed w"
  shows "keys (fst (Sending_ProcessSegment cur seg rto w rt)) =
      filter (\<lambda>(n, _). a_ReceivingNext seg \<le> n \<and> n \<notin> set (a_NumberList seg)) (keys w) \<and>
    snd_inv (fst (Sending_ProcessSegment cur seg rto w rt))"
  using Sending_ProcessSegment_keys [OF assms] by blast

lemma snd_inv_New: "snd_inv (NewSendingWorker a b)"
  by (simp add: snd_inv_def NewSendingWorker_def NewSendingWindow_def keys_def)

lemma Push_keys:
  assumes "snd_inv w" "unat (sd_nextNumber w) + 1 < 2 ^ 32"
  shows "snd_inv (snd (Sending_Push b w))"
    "keys (snd (Sending_Push b w)) = (if fst (Sending_Push b w) then keys w @ [(sd_nextNumber w, Some b)] else keys w)"
    "sd_nextNumber (snd (Sending_Push b w)) = (if fst (Sending_Push b w) then sd_nextNumber w + 1 else sd_nextNumber w)"
proof -
  show k: "keys (snd (Sending_Push b w)) = (if fst (Sending_Push b w) then keys w @ [(sd_nextNumber w, Some b)] else keys w)"
    "sd_nextNumber (snd (Sending_Push b w)) = (if fst (Sending_Push b w) then sd_nextNumber w + 1 else sd_nextNumber w)"
    by (auto simp: Sending_Push_def SWindow_Push_def keys_def key_def)
  have lt: "sd_nextNumber w < sd_nextNumber w + 1"
    using assms(2) by (simp add: word_less_nat_alt unat_plus_if')
  have first: "first_key (sd_nextNumber w + 1) (keys w @ [(sd_nextNumber w, Some b)]) = first_key (sd_nextNumber w) (keys w)"
    by (cases "keys w") auto
  show "snd_inv (snd (Sending_Push b w))"
  proof (cases "fst (Sending_Push b w)")
    case True
    then have "sd_firstUnacknowledged (snd (Sending_Push b w)) = sd_firstUnacknowledged w"
      by (auto simp: Sending_Push_def split: if_splits)
    then show ?thesis
      using True k assms(1) lt first by (auto simp: snd_inv_def sorted_wrt_append intro: order.strict_trans)
  next
    case False
    then have "snd (Sending_Push b w) = w" by (auto simp: Sending_Push_def split: if_splits)
    then show ?thesis using assms(1) by simp
  qed
qed

theorem ack_removes_exactly_witness:
  "let w = snd (Sending_Push (New []) (snd (Sending_Push (New []) (NewSendingWorker 32 100)))) in
   keys w = [(0, Some (New [])), (1, Some (New []))] \<and>
   keys (fst (Sending_ProcessSegment 0 ((NewAckSegment 4)\<lparr>a_NumberList := [1]\<rparr>) 0 w
     \<lparr>rt_variation = 0, rt_srtt = 0, rt_rto = 100, rt_minRtt = 50, rt_updatedTimestamp = 0\<rparr>)) = [(0, Some (New []))]"
proof -
  let ?w0 = "NewSendingWorker 32 100" let ?w1 = "snd (Sending_Push (New []) ?w0)" let ?w2 = "snd (Sending_Push (New []) ?w1)"
  have f: "fst (Sending_Push (New []) ?w0)" "fst (Sending_Push (New []) ?w1)"
    by (simp_all add: Sending_Push_def NewSendingWorker_def NewSendingWindow_def SWindow_Len_def SWindow_Push_def)
  have n0: "sd_nextNumber ?w0 = 0" "keys ?w0 = []" by (simp_all add: NewSendingWorker_def NewSendingWindow_def keys_def)
  note p0 = Push_keys [OF snd_inv_New, of 32 100 "New []"]
  have 1: "snd_inv ?w1" "keys ?w1 = [(0, Some (New []))]" "sd_nextNumber ?w1 = 1" using p0 f n0 by auto
  have 2: "snd_inv ?w2" "keys ?w2 = [(0, Some (New [])), (1, Some (New []))]" "sd_nextNumber ?w2 = 2"
    using Push_keys [OF 1(1), of "New []"] f 1 by auto
  have "\<not> sd_closed ?w2" by (simp add: Sending_Push_def NewSendingWorker_def)
  from ack_removes_exactly [OF 2(1) _ this, of 0 "(NewAckSegment 4)\<lparr>a_NumberList := [1]\<rparr>" 0
      "\<lparr>rt_variation = 0, rt_srtt = 0, rt_rto = 100, rt_minRtt = 50, rt_updatedTimestamp = 0\<rparr>"]
  show ?thesis using 2(2,3) by (simp add: NewAckSegment_def Let_def)
qed





definition rt_ok :: "RoundTripInfo \<Rightarrow> bool" where
  "rt_ok rt \<longleftrightarrow> rt_srtt rt < 10000 \<and> rt_variation rt < 10000 \<and> rt_minRtt rt < 10000"

lemma rt_small_step:
  fixes s v r d :: u32
  assumes "s < 10000" "v < 10000" "r < 10000" "d < 10000"
  shows "(7 * s + r) div 8 < 10000" "(3 * v + d) div 4 < 10000" "r div 2 < 10000"
proof -
  have u: "unat s < 10000" "unat v < 10000" "unat r < 10000" "unat d < 10000"
    using assms by (simp_all add: word_less_nat_alt)
  have "unat (7 * s + r) = 7 * unat s + unat r" "unat (3 * v + d) = 3 * unat v + unat d"
    using u by (simp_all add: unat_word_ariths)
  then show "(7 * s + r) div 8 < 10000" "(3 * v + d) div 4 < 10000" "r div 2 < 10000"
    using u by (simp_all add: word_less_nat_alt unat_div)
qed

lemma rto_bound: "(x :: u32) \<le> 10000 \<Longrightarrow> x * 5 div 4 \<le> 12500"
proof -
  assume "x \<le> 10000"
  then have "unat x \<le> 10000" by (simp add: word_le_nat_alt)
  then have "unat (x * 5) = unat x * 5" by (simp add: unat_word_ariths)
  then show ?thesis using \<open>unat x \<le> 10000\<close> by (simp add: word_le_nat_alt unat_div)
qed

text \<open>
  C25. The round-trip estimator cannot overflow: a measured time below ten seconds (which is what
  acknowledgements feed it) keeps the smoothed time and the variation below ten seconds, for a configured minimum
  below that, and gives a retransmission timeout of at most 12.5 seconds.
\<close>

theorem RoundTrip_Update_bounds:
  assumes "rt_ok rt" "rtt < 10000"
  shows "rt_ok (RoundTrip_Update rtt cur rt) \<and> rt_rto (RoundTrip_Update rtt cur rt) \<le> 12500"
proof -
  have r: "\<not> rtt > 0x7FFFFFFF" using assms(2) by (simp add: word_less_nat_alt)
  have d: "rt_srtt rt - rtt < 10000 \<or> \<not> rt_srtt rt > rtt" "rtt - rt_srtt rt < 10000 \<or> rt_srtt rt > rtt"
    using assms by (auto simp: rt_ok_def word_less_nat_alt unat_sub word_le_nat_alt not_less)
  have "rt_ok (RoundTrip_Update rtt cur rt)"
    using assms r d rt_small_step by (auto simp: RoundTrip_Update_def rt_ok_def Let_def)
  moreover have "rt_rto (RoundTrip_Update rtt cur rt) \<le> 12500"
    using r by (simp add: RoundTrip_Update_def Let_def rto_bound)
  ultimately show ?thesis by blast
qed

theorem RoundTrip_Update_bounds_witness:
  "rt_rto (RoundTrip_Update 80 5 \<lparr>rt_variation = 0, rt_srtt = 0, rt_rto = 100, rt_minRtt = 50, rt_updatedTimestamp = 0\<rparr>) \<le> 12500"
  using RoundTrip_Update_bounds [of "\<lparr>rt_variation = 0, rt_srtt = 0, rt_rto = 100, rt_minRtt = 50, rt_updatedTimestamp = 0\<rparr>" 80 5]
  by (simp add: rt_ok_def)

text \<open>
  The cumulative acknowledgement compares sequence numbers as plain integers, while \<^verbatim>\<open>processAck\<close> compares
  them modulo \<open>2 ^ 32\<close>. After the numbers wrap around, a cumulative acknowledgement of 1 no longer clears the
  segments just before the wrap.
\<close>

lemma Clear_ignores_wrap:
  "clear_front 1 [NewDataSegment\<lparr>d_Number := 0xFFFFFFFF\<rparr>, NewDataSegment\<lparr>d_Number := 0\<rparr>] =
   [NewDataSegment\<lparr>d_Number := 0xFFFFFFFF\<rparr>, NewDataSegment\<lparr>d_Number := 0\<rparr>]"
  by (simp add: NewDataSegment_def)

end
