(* ===== verification/Kcp_Connection.thy ===== *)
theory Kcp_Connection
  imports Kcp_Receiving Kcp_Sending
begin

text \<open>
  The mKCP connection (\<^verbatim>\<open>xray-core/transport/internet/kcp/connection.go\<close>): the record \<open>Connection\<close> holds
  the state of the close handshake, the two workers, the round-trip estimator, the notifiers and the
  updaters. The segments it writes to its output are appended to \<open>cn_out\<close>. A method that Go runs under
  locks is one step; the clock is read once per step, as the argument \<open>cur\<close> (milliseconds since the
  connection began). A blocking method is given the list of what its waits let happen: each element is
  what the other goroutines did to the connection and the error the wait returned. The goroutine that
  \<^verbatim>\<open>SetState\<close> starts to release the connection is the flag \<open>cn_terminate\<close> and the method \<open>Terminate\<close>.
\<close>

section \<open>The structure\<close>

datatype State = StateActive | StateReadyToClose | StatePeerClosed | StateTerminating | StatePeerTerminating | StateTerminated

definition State_Is :: "State \<Rightarrow> State list \<Rightarrow> bool" where
  "State_Is s states \<longleftrightarrow> s \<in> set states"

text \<open>
  An updater: its interval and whether its semaphore holds a permit, that is, no goroutine of it is running.
\<close>

record Updater =
  u_interval :: int
  u_permit :: bool

definition NewUpdater :: "u32 \<Rightarrow> Updater" where
  "NewUpdater interval = \<lparr>u_interval = int (unat interval) * 1000000, u_permit = True\<rparr>"

definition WakeUp :: "Updater \<Rightarrow> Updater" where
  "WakeUp u = (if u_permit u then u\<lparr>u_permit := False\<rparr> else u)"

definition SetInterval :: "int \<Rightarrow> Updater \<Rightarrow> Updater" where
  "SetInterval d u = u\<lparr>u_interval := d\<rparr>"

definition second :: int where "second = 1000000000"

record Connection =
  cn_conv :: u16
  cn_rd :: "int option"
  cn_wd :: "int option"
  cn_dataInput :: bool
  cn_dataOutput :: bool
  cn_Config :: Config
  cn_state :: State
  cn_stateBeginTime :: u32
  cn_lastIncomingTime :: u32
  cn_lastPingTime :: u32
  cn_mss :: u32
  cn_roundTrip :: RoundTripInfo
  cn_receivingWorker :: ReceivingWorker
  cn_sendingWorker :: SendingWorker
  cn_out :: "Segment list"
  cn_dataUpdater :: Updater
  cn_pingUpdater :: Updater
  cn_terminate :: bool
  cn_closed :: bool

definition NewConnection :: "u16 \<Rightarrow> Config \<Rightarrow> Connection option" where
  "NewConnection conv config = do {
     rcv \<leftarrow> GetReceivingInFlightSize config;
     inFlight \<leftarrow> GetSendingInFlightSize config;
     bufSize \<leftarrow> GetSendingBufferSize config;
     let mss = Mtu config - DataSegmentOverhead;
     Some \<lparr>cn_conv = conv, cn_rd = None, cn_wd = None, cn_dataInput = False, cn_dataOutput = False, cn_Config = config,
       cn_state = StateActive, cn_stateBeginTime = 0, cn_lastIncomingTime = 0, cn_lastPingTime = 0, cn_mss = mss,
       cn_roundTrip = \<lparr>rt_variation = 0, rt_srtt = 0, rt_rto = 100, rt_minRtt = Tti config, rt_updatedTimestamp = 0\<rparr>,
       cn_receivingWorker = NewReceivingWorker rcv mss, cn_sendingWorker = NewSendingWorker inFlight bufSize,
       cn_out = [], cn_dataUpdater = NewUpdater (Tti config), cn_pingUpdater = WakeUp (NewUpdater 5000),
       cn_terminate = False, cn_closed = False\<rparr> }"

abbreviation wake_data :: "Connection \<Rightarrow> Connection" where
  "wake_data c \<equiv> c\<lparr>cn_dataUpdater := WakeUp (cn_dataUpdater c)\<rparr>"

abbreviation signal_both :: "Connection \<Rightarrow> Connection" where
  "signal_both c \<equiv> c\<lparr>cn_dataInput := True, cn_dataOutput := True\<rparr>"

section \<open>The close handshake\<close>

definition close_write :: "Connection \<Rightarrow> Connection" where
  "close_write c = c\<lparr>cn_sendingWorker := CloseWrite (cn_sendingWorker c)\<rparr>"

definition ping_every_second :: "Connection \<Rightarrow> Connection" where
  "ping_every_second c = c\<lparr>cn_pingUpdater := SetInterval second (cn_pingUpdater c)\<rparr>"

definition SetState :: "u32 \<Rightarrow> State \<Rightarrow> Connection \<Rightarrow> Connection" where
  "SetState cur st c =
     (let c1 = c\<lparr>cn_state := st, cn_stateBeginTime := cur\<rparr> in
      case st of
        StatePeerClosed \<Rightarrow> close_write c1
      | StateTerminating \<Rightarrow> ping_every_second (close_write c1)
      | StatePeerTerminating \<Rightarrow> ping_every_second (close_write c1)
      | StateTerminated \<Rightarrow>
          (let c2 = wake_data (ping_every_second (close_write c1))
           in c2\<lparr>cn_pingUpdater := WakeUp (cn_pingUpdater c2), cn_terminate := True\<rparr>)
      | _ \<Rightarrow> c1)"

definition Connection_Close :: "u32 \<Rightarrow> Connection \<Rightarrow> err \<times> Connection" where
  "Connection_Close cur c0 =
     (let c = signal_both c0 in
      case cn_state c of
        StateActive \<Rightarrow> (None, SetState cur StateReadyToClose c)
      | StatePeerClosed \<Rightarrow> (None, SetState cur StateTerminating c)
      | StatePeerTerminating \<Rightarrow> (None, SetState cur StateTerminated c)
      | _ \<Rightarrow> (Some (NewError ''Connection closed.''), c))"

definition OnPeerClosed :: "u32 \<Rightarrow> Connection \<Rightarrow> Connection" where
  "OnPeerClosed cur c =
     (case cn_state c of
        StateReadyToClose \<Rightarrow> SetState cur StateTerminating c
      | StateActive \<Rightarrow> SetState cur StatePeerClosed c
      | _ \<Rightarrow> c)"

definition HandleOption :: "u32 \<Rightarrow> SegmentOption \<Rightarrow> Connection \<Rightarrow> Connection" where
  "HandleOption cur opt c = (if opt AND SegmentOptionClose = SegmentOptionClose then OnPeerClosed cur c else c)"

definition Terminate :: "Connection \<Rightarrow> Connection" where
  "Terminate c0 =
     (let c = signal_both c0 in
      c\<lparr>cn_closed := True, cn_sendingWorker := SendingWorker_Release (cn_sendingWorker c),
        cn_receivingWorker := ReceivingWorker_Release (cn_receivingWorker c), cn_terminate := False\<rparr>)"

definition SetReadDeadline :: "int option \<Rightarrow> Connection \<Rightarrow> err \<times> Connection" where
  "SetReadDeadline t c = (if cn_state c \<noteq> StateActive then (Some (NewError ''Connection closed.''), c) else (None, c\<lparr>cn_rd := t\<rparr>))"

definition SetWriteDeadline :: "int option \<Rightarrow> Connection \<Rightarrow> err \<times> Connection" where
  "SetWriteDeadline t c = (if cn_state c \<noteq> StateActive then (Some (NewError ''Connection closed.''), c) else (None, c\<lparr>cn_wd := t\<rparr>))"

definition SetDeadline :: "int option \<Rightarrow> Connection \<Rightarrow> err \<times> Connection" where
  "SetDeadline t c = (let (e, c1) = SetReadDeadline t c in if e \<noteq> None then (e, c1) else SetWriteDeadline t c1)"

section \<open>Segments in and out\<close>

definition Input_data :: "u32 \<Rightarrow> DataSegment \<Rightarrow> Connection \<Rightarrow> Connection" where
  "Input_data cur seg c =
     (let c1 = HandleOption cur (d_Option seg) c;
          c2 = c1\<lparr>cn_receivingWorker := Receiving_ProcessSegment seg (cn_receivingWorker c1)\<rparr>;
          c3 = (if IsDataAvailable (cn_receivingWorker c2) then c2\<lparr>cn_dataInput := True\<rparr> else c2)
      in wake_data c3)"

definition Input_ack :: "u32 \<Rightarrow> AckSegment \<Rightarrow> Connection \<Rightarrow> Connection" where
  "Input_ack cur seg c =
     (let c1 = HandleOption cur (a_Option seg) c;
          (w, rt) = Sending_ProcessSegment cur seg (rt_rto (cn_roundTrip c1)) (cn_sendingWorker c1) (cn_roundTrip c1)
      in wake_data (c1\<lparr>cn_sendingWorker := w, cn_roundTrip := rt, cn_dataOutput := True\<rparr>))"

definition Input_cmd :: "u32 \<Rightarrow> CmdOnlySegment \<Rightarrow> Connection \<Rightarrow> Connection" where
  "Input_cmd cur seg c =
     (let c1 = HandleOption cur (c_Option seg) c;
          c2 = (if c_Cmd seg = CommandTerminate then
                  (case cn_state c1 of
                     StateActive \<Rightarrow> SetState cur StatePeerTerminating c1
                   | StatePeerClosed \<Rightarrow> SetState cur StatePeerTerminating c1
                   | StateReadyToClose \<Rightarrow> SetState cur StateTerminating c1
                   | StateTerminating \<Rightarrow> SetState cur StateTerminated c1
                   | _ \<Rightarrow> c1)
                else c1);
          c3 = (if c_Option seg = SegmentOptionClose \<or> c_Cmd seg = CommandTerminate then signal_both c2 else c2)
      in c3\<lparr>cn_sendingWorker := ProcessReceivingNext (c_ReceivingNext seg) (cn_sendingWorker c3),
            cn_receivingWorker := ProcessSendingNext (c_SendingNext seg) (cn_receivingWorker c3),
            cn_roundTrip := UpdatePeerRTO (c_PeerRTO seg) cur (cn_roundTrip c3)\<rparr>)"

fun input_loop :: "u32 \<Rightarrow> Segment list \<Rightarrow> Connection \<Rightarrow> Connection" where
  "input_loop cur [] c = c"
| "input_loop cur (seg # segs) c =
     (if Conversation seg \<noteq> cn_conv c then c
      else input_loop cur segs
        (case seg of SegData s \<Rightarrow> Input_data cur s c | SegAck s \<Rightarrow> Input_ack cur s c | SegCmd s \<Rightarrow> Input_cmd cur s c))"

definition Input :: "u32 \<Rightarrow> Segment list \<Rightarrow> Connection \<Rightarrow> Connection" where
  "Input cur segs c = input_loop cur segs (c\<lparr>cn_lastIncomingTime := cur\<rparr>)"

definition Ping :: "u32 \<Rightarrow> Command \<Rightarrow> Connection \<Rightarrow> Connection" where
  "Ping cur cmd c =
     (let seg = NewCmdOnlySegment\<lparr>c_Conv := cn_conv c, c_Cmd := cmd, c_ReceivingNext := rw_nextNumber (cn_receivingWorker c),
            c_SendingNext := sd_firstUnacknowledged (cn_sendingWorker c), c_PeerRTO := rt_rto (cn_roundTrip c),
            c_Option := (if cn_state c = StateReadyToClose then SegmentOptionClose else 0)\<rparr>
      in c\<lparr>cn_out := cn_out c @ [SegCmd seg], cn_lastPingTime := cur\<rparr>)"

text \<open>The two \<^verbatim>\<open>Flush\<close> calls of the connection.\<close>

definition flush_receiving :: "u32 \<Rightarrow> Connection \<Rightarrow> Connection" where
  "flush_receiving cur c =
     (let (acks, w) = Receiving_Flush (cn_conv c) (cn_state c = StateReadyToClose) cur (rt_rto (cn_roundTrip c)) (cn_receivingWorker c)
      in c\<lparr>cn_receivingWorker := w, cn_out := cn_out c @ map SegAck acks\<rparr>)"

definition flush_sending :: "u32 \<Rightarrow> Connection \<Rightarrow> Connection option" where
  "flush_sending cur c = do {
     inFlight \<leftarrow> GetSendingInFlightSize (cn_Config c);
     let (segs, ping, w) = Sending_Flush (cn_conv c) (cn_state c = StateReadyToClose) inFlight (CwndMultiplier (cn_Config c))
           (rt_rto (cn_roundTrip c)) cur (cn_sendingWorker c);
     let c1 = c\<lparr>cn_sendingWorker := w, cn_out := cn_out c @ map SegData segs\<rparr>;
     Some (if ping then Ping cur CommandPing c1 else c1) }"

definition flush :: "u32 \<Rightarrow> Connection \<Rightarrow> Connection option" where
  "flush cur c0 =
     (if cn_state c0 = StateTerminated then Some c0
      else
        let c1 = (if cn_state c0 = StateActive \<and> cur - cn_lastIncomingTime c0 \<ge> 30000 then snd (Connection_Close cur c0) else c0);
            c2 = (if cn_state c1 = StateReadyToClose \<and> Sending_IsEmpty (cn_sendingWorker c1)
                  then SetState cur StateTerminating c1 else c1) in
        if cn_state c2 = StateTerminating then
          let c3 = Ping cur CommandTerminate c2
          in Some (if cur - cn_stateBeginTime c3 > 8000 then SetState cur StateTerminated c3 else c3)
        else
          let c4 = (if cn_state c2 = StatePeerTerminating \<and> cur - cn_stateBeginTime c2 > 4000
                    then SetState cur StateTerminating c2 else c2);
              c5 = (if cn_state c4 = StateReadyToClose \<and> cur - cn_stateBeginTime c4 > 15000
                    then SetState cur StateTerminating c4 else c4)
          in do {
            c6 \<leftarrow> flush_sending cur (flush_receiving cur c5);
            Some (if cur - cn_lastPingTime c6 \<ge> 3000 then Ping cur CommandPing c6 else c6) })"

text \<open>One round of an updater's goroutine: it ends, returning its permit, or it flushes.\<close>

definition data_tick :: "u32 \<Rightarrow> Connection \<Rightarrow> Connection option" where
  "data_tick cur c =
     (if \<not> State_Is (cn_state c) [StateTerminating, StateTerminated] \<and>
         (\<not> Sending_IsEmpty (cn_sendingWorker c) \<or> Receiving_UpdateNecessary (cn_receivingWorker c))
      then flush cur c
      else Some (c\<lparr>cn_dataUpdater := (cn_dataUpdater c)\<lparr>u_permit := True\<rparr>\<rparr>))"

definition ping_tick :: "u32 \<Rightarrow> Connection \<Rightarrow> Connection option" where
  "ping_tick cur c =
     (if cn_state c \<noteq> StateTerminated then flush cur c
      else Some (c\<lparr>cn_pingUpdater := (cn_pingUpdater c)\<lparr>u_permit := True\<rparr>\<rparr>))"

section \<open>Reading and writing\<close>

type_synonym waits = "(Connection \<Rightarrow> Connection \<times> err) list"

text \<open>
  \<^verbatim>\<open>waitForDataInput\<close> and \<^verbatim>\<open>waitForDataOutput\<close>, by what the runtime does: a signal while spinning, the time
  left to the deadline, whether the timer fired first and the deadline has passed then.
\<close>

definition wait_for :: "int option \<Rightarrow> bool \<Rightarrow> int \<Rightarrow> bool \<Rightarrow> bool \<Rightarrow> err" where
  "wait_for deadline early until timer_first passed =
     (if early then None
      else if deadline \<noteq> None \<and> until < 0 then Some (NewError ''Read/Write timeout'')
      else if timer_first \<and> deadline \<noteq> None \<and> passed then Some (NewError ''Read/Write timeout'')
      else None)"

fun Connection_ReadMultiBuffer :: "waits \<Rightarrow> Connection \<Rightarrow> (MultiBuffer \<times> err \<times> Connection) option" where
  "Connection_ReadMultiBuffer ws c =
     (if State_Is (cn_state c) [StateReadyToClose, StateTerminating, StateTerminated] then Some ([], Some EOF, c)
      else do {
        (mb, w) \<leftarrow> Receiving_ReadMultiBuffer (cn_receivingWorker c);
        let c1 = c\<lparr>cn_receivingWorker := w\<rparr>;
        if \<not> MultiBuffer_IsEmpty mb then Some (mb, None, wake_data c1)
        else if cn_state c1 = StatePeerTerminating then Some ([], Some EOF, c1)
        else case ws of
          [] \<Rightarrow> None
        | wait # ws' \<Rightarrow> (let (c2, e) = wait c1 in if e \<noteq> None then Some ([], e, c2) else Connection_ReadMultiBuffer ws' c2) })"

fun Connection_Read :: "waits \<Rightarrow> bytes \<Rightarrow> Connection \<Rightarrow> (nat \<times> bytes \<times> err \<times> Connection) option" where
  "Connection_Read ws p c =
     (if State_Is (cn_state c) [StateReadyToClose, StateTerminating, StateTerminated] then Some (0, p, Some EOF, c)
      else do {
        (n, p', w) \<leftarrow> Receiving_Read p (cn_receivingWorker c);
        let c1 = c\<lparr>cn_receivingWorker := w\<rparr>;
        if n > 0 then Some (n, p', None, wake_data c1)
        else case ws of
          [] \<Rightarrow> None
        | wait # ws' \<Rightarrow> (let (c2, e) = wait c1 in if e \<noteq> None then Some (0, p', e, c2) else Connection_Read ws' p' c2) })"

text \<open>\<^verbatim>\<open>io.LimitReader\<close>: a fresh one for each segment, so its limit is the maximum segment size.\<close>

definition limit_reader :: "nat \<Rightarrow> 'r reader \<Rightarrow> 'r reader" where
  "limit_reader m rd r p =
     (if m = 0 then (p, 0, Some EOF, r)
      else let (q, n, e, r') = rd r (take m p) in (q @ drop m p, n, e, r'))"

text \<open>
  \<^verbatim>\<open>writeMultiBufferInternal\<close>: \<open>b\<close> is the buffer that waits to be pushed and \<open>pending\<close> the flag
  \<^verbatim>\<open>updatePending\<close>, whose deferred wake-up happens on return. The fuel bounds the number of rounds.
\<close>

fun write_loop :: "nat \<Rightarrow> waits \<Rightarrow> (nat \<Rightarrow> bytes) \<Rightarrow> 'r reader \<Rightarrow> 'r \<Rightarrow> Buffer option \<Rightarrow> bool \<Rightarrow> Connection \<Rightarrow>
    (err \<times> Connection \<times> 'r) option" where
  "write_loop 0 ws pool rd r b pending c = None"
| "write_loop (Suc fuel) ws pool rd r b pending c =
     (let finish = (\<lambda>e r. Some (e, (if pending then wake_data c else c), r)) in
      if cn_state c \<noteq> StateActive then finish (Some ErrClosedPipe) r
      else do {
        (e, b1, r1) \<leftarrow> (case b of
           Some b0 \<Rightarrow> Some (None, b0, r)
         | None \<Rightarrow> do {
             (n, e, b0, r1) \<leftarrow> ReadFrom (limit_reader (unat (cn_mss c)) rd) r (New (pool fuel));
             Some (e, b0, r1) });
        if e \<noteq> None then finish None r1
        else
          let (ok, w) = Sending_Push b1 (cn_sendingWorker c); c1 = c\<lparr>cn_sendingWorker := w\<rparr> in
          if ok then write_loop fuel ws pool rd r1 None True c1
          else
            let c2 = (if pending then wake_data c1 else c1) in
            case ws of
              [] \<Rightarrow> None
            | wait # ws' \<Rightarrow>
                (let (c3, we) = wait c2 in
                 if we \<noteq> None then Some (we, c3, r1) else write_loop fuel ws' pool rd r1 (Some b1) False c3) })"

definition Connection_Write :: "nat \<Rightarrow> waits \<Rightarrow> (nat \<Rightarrow> bytes) \<Rightarrow> bytes \<Rightarrow> Connection \<Rightarrow> (nat \<times> err \<times> Connection) option" where
  "Connection_Write fuel ws pool b c = do {
     (e, c', r) \<leftarrow> write_loop fuel ws pool bytes_reader b None False c;
     Some (if e \<noteq> None then (0, e, c') else (length b, None, c')) }"

definition Connection_WriteMultiBuffer :: "nat \<Rightarrow> waits \<Rightarrow> (nat \<Rightarrow> bytes) \<Rightarrow> MultiBuffer \<Rightarrow> Connection \<Rightarrow> (err \<times> Connection) option" where
  "Connection_WriteMultiBuffer fuel ws pool mb c = do {
     (e, c', r) \<leftarrow> write_loop fuel ws pool Container_reader \<lparr>mbc = mb\<rparr> None False c;
     Some (e, c') }"

section \<open>The states a connection goes through\<close>

text \<open>The edges of the close handshake.\<close>

inductive state_edge :: "State \<Rightarrow> State \<Rightarrow> bool" where
  local_close: "state_edge StateActive StateReadyToClose"
| peer_close: "state_edge StateActive StatePeerClosed"
| peer_terminate: "state_edge StateActive StatePeerTerminating"
| ready_terminate: "state_edge StateReadyToClose StateTerminating"
| peer_closed_close: "state_edge StatePeerClosed StateTerminating"
| peer_closed_terminate: "state_edge StatePeerClosed StatePeerTerminating"
| peer_timeout: "state_edge StatePeerTerminating StateTerminating"
| peer_terminating_close: "state_edge StatePeerTerminating StateTerminated"
| finish: "state_edge StateTerminating StateTerminated"

inductive_cases terminated_edgeE [elim!]: "state_edge StateTerminated s"

text \<open>
  Released exactly when terminated, once: the state is \<^verbatim>\<open>StateTerminated\<close> exactly when the release of the
  connection is scheduled or has happened, and it is not scheduled again after it has happened.
\<close>

definition conn_inv :: "Connection \<Rightarrow> bool" where
  "conn_inv c \<longleftrightarrow> (cn_state c = StateTerminated \<longleftrightarrow> cn_terminate c \<or> cn_closed c) \<and> \<not> (cn_terminate c \<and> cn_closed c)"

text \<open>What every method does to the state: it follows edges of the handshake and keeps the invariant.\<close>

definition evolves :: "Connection \<Rightarrow> Connection \<Rightarrow> bool" where
  "evolves c c' \<longleftrightarrow> state_edge\<^sup>*\<^sup>* (cn_state c) (cn_state c') \<and> (conn_inv c \<longrightarrow> conn_inv c') \<and>
     cn_conv c' = cn_conv c \<and> cn_Config c' = cn_Config c"

lemma evolves_trans: "evolves a b \<Longrightarrow> evolves b c \<Longrightarrow> evolves a c"
  by (auto simp: evolves_def)

lemma evolves_same:
  "cn_state c' = cn_state c \<Longrightarrow> cn_terminate c' = cn_terminate c \<Longrightarrow> cn_closed c' = cn_closed c \<Longrightarrow>
   cn_conv c' = cn_conv c \<Longrightarrow> cn_Config c' = cn_Config c \<Longrightarrow> evolves c c'"
  by (simp add: evolves_def conn_inv_def)

lemma evolves_refl [simp]: "evolves c c"
  by (rule evolves_same) simp_all

lemma SetState_fields [simp]:
  "cn_state (SetState cur st c) = st" "cn_stateBeginTime (SetState cur st c) = cur"
  "cn_closed (SetState cur st c) = cn_closed c" "cn_conv (SetState cur st c) = cn_conv c"
  "cn_Config (SetState cur st c) = cn_Config c"
  "cn_terminate (SetState cur st c) \<longleftrightarrow> cn_terminate c \<or> st = StateTerminated"
  by (auto simp: SetState_def close_write_def ping_every_second_def Let_def split: State.splits)

lemma evolves_SetState: "state_edge (cn_state c) st \<Longrightarrow> evolves c (SetState cur st c)"
  by (auto simp: evolves_def conn_inv_def)

lemma evolves_signal: "state_edge (cn_state c) st \<Longrightarrow> evolves c (SetState cur st (signal_both c))"
  by (rule evolves_trans [OF evolves_same evolves_SetState]) simp_all

lemma evolves_Close: "evolves c (snd (Connection_Close cur c))"
  by (cases "cn_state c") (auto simp: Connection_Close_def intro!: evolves_signal evolves_same intro: state_edge.intros)

lemma evolves_HandleOption: "evolves c (HandleOption cur opt c)"
  by (cases "cn_state c") (auto simp: HandleOption_def OnPeerClosed_def intro!: evolves_SetState state_edge.intros)

lemma evolves_Input_data: "evolves c (Input_data cur seg c)"
  by (rule evolves_trans [OF evolves_HandleOption [of c cur "d_Option seg"]], rule evolves_same)
    (simp_all add: Input_data_def Let_def)

lemma evolves_Input_ack: "evolves c (Input_ack cur seg c)"
  by (rule evolves_trans [OF evolves_HandleOption [of c cur "a_Option seg"]], rule evolves_same)
    (simp_all add: Input_ack_def Let_def split: prod.splits)

lemma evolves_Input_cmd: "evolves c (Input_cmd cur seg c)"
proof -
  let ?c1 = "HandleOption cur (c_Option seg) c"
  let ?c2 = "if c_Cmd seg = CommandTerminate then
      (case cn_state ?c1 of
         StateActive \<Rightarrow> SetState cur StatePeerTerminating ?c1
       | StatePeerClosed \<Rightarrow> SetState cur StatePeerTerminating ?c1
       | StateReadyToClose \<Rightarrow> SetState cur StateTerminating ?c1
       | StateTerminating \<Rightarrow> SetState cur StateTerminated ?c1
       | _ \<Rightarrow> ?c1) else ?c1"
  have "evolves ?c1 ?c2"
    by (cases "cn_state ?c1") (auto intro!: evolves_SetState state_edge.intros)
  moreover have "evolves ?c2 (Input_cmd cur seg c)"
    unfolding Input_cmd_def Let_def by (rule evolves_same) simp_all
  ultimately show ?thesis using evolves_HandleOption evolves_trans by blast
qed

lemma evolves_input_loop: "evolves c (input_loop cur segs c)"
proof (induction segs arbitrary: c)
  case (Cons seg segs)
  show ?case
  proof (cases seg)
    case (SegData s)
    then show ?thesis using evolves_trans [OF evolves_Input_data Cons] by simp
  next
    case (SegAck s)
    then show ?thesis using evolves_trans [OF evolves_Input_ack Cons] by simp
  next
    case (SegCmd s)
    then show ?thesis using evolves_trans [OF evolves_Input_cmd Cons] by simp
  qed
qed simp

lemma evolves_Input: "evolves c (Input cur segs c)"
  unfolding Input_def
  by (rule evolves_trans [OF evolves_same evolves_input_loop]) simp_all

lemma Ping_fields [simp]:
  "cn_state (Ping cur cmd c) = cn_state c" "cn_stateBeginTime (Ping cur cmd c) = cn_stateBeginTime c"
  "cn_terminate (Ping cur cmd c) = cn_terminate c" "cn_closed (Ping cur cmd c) = cn_closed c"
  "cn_conv (Ping cur cmd c) = cn_conv c" "cn_Config (Ping cur cmd c) = cn_Config c"
  by (simp_all add: Ping_def)

lemma flush_receiving_fields [simp]:
  "cn_state (flush_receiving cur c) = cn_state c" "cn_stateBeginTime (flush_receiving cur c) = cn_stateBeginTime c"
  "cn_terminate (flush_receiving cur c) = cn_terminate c" "cn_closed (flush_receiving cur c) = cn_closed c"
  "cn_conv (flush_receiving cur c) = cn_conv c" "cn_Config (flush_receiving cur c) = cn_Config c"
  by (simp_all add: flush_receiving_def split_def Let_def)

lemma flush_sending_fields:
  assumes "flush_sending cur c = Some c'"
  shows "cn_state c' = cn_state c" "cn_stateBeginTime c' = cn_stateBeginTime c"
    "cn_terminate c' = cn_terminate c" "cn_closed c' = cn_closed c" "cn_conv c' = cn_conv c" "cn_Config c' = cn_Config c"
  using assms by (auto simp: flush_sending_def Let_def split: bind_splits prod.splits if_splits)

text \<open>The first part of \<^verbatim>\<open>flush\<close>: closing an idle connection, and a closed one that has nothing left to send.\<close>

definition flush_idle :: "u32 \<Rightarrow> Connection \<Rightarrow> Connection" where
  "flush_idle cur c0 =
     (let c1 = (if cn_state c0 = StateActive \<and> cur - cn_lastIncomingTime c0 \<ge> 30000 then snd (Connection_Close cur c0) else c0)
      in if cn_state c1 = StateReadyToClose \<and> Sending_IsEmpty (cn_sendingWorker c1) then SetState cur StateTerminating c1 else c1)"

definition flush_timeout :: "u32 \<Rightarrow> Connection \<Rightarrow> Connection" where
  "flush_timeout cur c2 =
     (let c4 = (if cn_state c2 = StatePeerTerminating \<and> cur - cn_stateBeginTime c2 > 4000 then SetState cur StateTerminating c2 else c2)
      in if cn_state c4 = StateReadyToClose \<and> cur - cn_stateBeginTime c4 > 15000 then SetState cur StateTerminating c4 else c4)"

lemma flush_eq:
  "flush cur c0 =
     (if cn_state c0 = StateTerminated then Some c0
      else if cn_state (flush_idle cur c0) = StateTerminating then
        let c3 = Ping cur CommandTerminate (flush_idle cur c0)
        in Some (if cur - cn_stateBeginTime c3 > 8000 then SetState cur StateTerminated c3 else c3)
      else do {
        c6 \<leftarrow> flush_sending cur (flush_receiving cur (flush_timeout cur (flush_idle cur c0)));
        Some (if cur - cn_lastPingTime c6 \<ge> 3000 then Ping cur CommandPing c6 else c6) })"
  unfolding flush_def flush_idle_def flush_timeout_def Let_def by (rule refl)

lemma evolves_flush_idle: "evolves c (flush_idle cur c)"
proof -
  have "evolves c (if cn_state c = StateActive \<and> cur - cn_lastIncomingTime c \<ge> 30000 then snd (Connection_Close cur c) else c)"
    using evolves_Close by auto
  moreover have "evolves d (if cn_state d = StateReadyToClose \<and> Sending_IsEmpty (cn_sendingWorker d) then SetState cur StateTerminating d else d)" for d
    by (auto intro!: evolves_SetState intro: state_edge.intros)
  ultimately show ?thesis unfolding flush_idle_def Let_def using evolves_trans by blast
qed

lemma evolves_flush_timeout: "evolves c (flush_timeout cur c)"
proof -
  have "evolves c (if cn_state c = StatePeerTerminating \<and> cur - cn_stateBeginTime c > 4000 then SetState cur StateTerminating c else c)"
    by (auto intro!: evolves_SetState intro: state_edge.intros)
  moreover have "evolves d (if cn_state d = StateReadyToClose \<and> cur - cn_stateBeginTime d > 15000 then SetState cur StateTerminating d else d)" for d
    by (auto intro!: evolves_SetState intro: state_edge.intros)
  ultimately show ?thesis unfolding flush_timeout_def Let_def using evolves_trans by blast
qed

lemma evolves_flush:
  assumes "flush cur c = Some c'"
  shows "evolves c c'"
proof (cases "cn_state c = StateTerminated")
  case True
  then show ?thesis using assms by (simp add: flush_eq)
next
  case running: False
  define c2 where "c2 = flush_idle cur c"
  have c2: "evolves c c2" using evolves_flush_idle by (simp add: c2_def)
  show ?thesis
  proof (cases "cn_state c2 = StateTerminating")
    case True
    have "evolves c2 (Ping cur CommandTerminate c2)" by (rule evolves_same) simp_all
    moreover have "evolves (Ping cur CommandTerminate c2) c'"
      using True running assms
      by (auto simp: flush_eq Let_def c2_def [symmetric] split: if_splits intro!: evolves_SetState intro: state_edge.intros)
    ultimately show ?thesis using c2 evolves_trans by blast
  next
    case False
    then obtain c6 where c6: "flush_sending cur (flush_receiving cur (flush_timeout cur c2)) = Some c6"
        "c' = (if cur - cn_lastPingTime c6 \<ge> 3000 then Ping cur CommandPing c6 else c6)"
      using running assms by (auto simp: flush_eq c2_def [symmetric] bind_eq_Some_conv)
    then have "evolves (flush_timeout cur c2) c'"
      using flush_sending_fields [OF c6(1)] by (intro evolves_same) auto
    then show ?thesis using c2 evolves_flush_timeout evolves_trans by blast
  qed
qed

lemma evolves_ticks:
  "data_tick cur c = Some c' \<Longrightarrow> evolves c c'" "ping_tick cur c = Some c' \<Longrightarrow> evolves c c'"
  by (auto simp: data_tick_def ping_tick_def split: if_splits intro: evolves_flush evolves_same)

text \<open>
  What the goroutines of a connection do to it, in any interleaving: the user closes it or sets a deadline, a
  packet comes in, an updater fires, the scheduled release runs, a reader takes bytes, a writer pushes a
  segment or wakes the updater.
\<close>

inductive conn_step :: "Connection \<Rightarrow> Connection \<Rightarrow> bool" where
  step_close: "conn_step c (snd (Connection_Close cur c))"
| step_deadline: "conn_step c (snd (SetDeadline t c))"
| step_read_deadline: "conn_step c (snd (SetReadDeadline t c))"
| step_write_deadline: "conn_step c (snd (SetWriteDeadline t c))"
| step_input: "conn_step c (Input cur segs c)"
| step_flush: "flush cur c = Some c' \<Longrightarrow> conn_step c c'"
| step_data_tick: "data_tick cur c = Some c' \<Longrightarrow> conn_step c c'"
| step_ping_tick: "ping_tick cur c = Some c' \<Longrightarrow> conn_step c c'"
| step_terminate: "cn_terminate c \<Longrightarrow> conn_step c (Terminate c)"
| step_read: "Receiving_Read p (cn_receivingWorker c) = Some (n, p', w) \<Longrightarrow> conn_step c (c\<lparr>cn_receivingWorker := w\<rparr>)"
| step_read_multi: "Receiving_ReadMultiBuffer (cn_receivingWorker c) = Some (mb, w) \<Longrightarrow> conn_step c (c\<lparr>cn_receivingWorker := w\<rparr>)"
| step_push: "Sending_Push b (cn_sendingWorker c) = (ok, w) \<Longrightarrow> conn_step c (c\<lparr>cn_sendingWorker := w\<rparr>)"
| step_wake: "conn_step c (wake_data c)"

lemma conn_step_evolves: "conn_step c c' \<Longrightarrow> evolves c c'"
proof (induction rule: conn_step.induct)
  case (step_terminate c)
  then show ?case by (auto simp: evolves_def conn_inv_def Terminate_def Let_def)
qed (auto intro: evolves_Close evolves_Input evolves_flush evolves_ticks evolves_same
  simp: SetDeadline_def SetReadDeadline_def SetWriteDeadline_def split: prod.splits)

lemma conn_steps_evolve: "conn_step\<^sup>*\<^sup>* c c' \<Longrightarrow> evolves c c'"
  by (induction rule: rtranclp_induct) (auto intro: evolves_trans conn_step_evolves)

lemma conn_inv_New: "NewConnection conv config = Some c \<Longrightarrow> conn_inv c"
  by (auto simp: NewConnection_def conn_inv_def Let_def bind_eq_Some_conv)

text \<open>A blocking call is such an interleaving when its waits are.\<close>

definition steps_of :: "waits \<Rightarrow> bool" where
  "steps_of ws \<longleftrightarrow> (\<forall>wait\<in>set ws. \<forall>d. conn_step\<^sup>*\<^sup>* d (fst (wait d)))"

lemma steps_of_Cons: "steps_of (wait # ws) \<Longrightarrow> conn_step\<^sup>*\<^sup>* d (fst (wait d))" "steps_of (wait # ws) \<Longrightarrow> steps_of ws"
  by (simp_all add: steps_of_def)

lemma wake_after: "conn_step c c1 \<Longrightarrow> c' = wake_data c1 \<Longrightarrow> conn_step\<^sup>*\<^sup>* c c'"
  by (auto intro: converse_rtranclp_into_rtranclp conn_step.step_wake)

lemma ReadMultiBuffer_steps:
  "Connection_ReadMultiBuffer ws c = Some (mb, e, c') \<Longrightarrow> steps_of ws \<Longrightarrow> conn_step\<^sup>*\<^sup>* c c'"
proof (induction ws arbitrary: c)
  case Nil
  then show ?case
    by (auto simp: bind_eq_Some_conv Let_def split: if_splits prod.splits
        intro: conn_step.step_read_multi wake_after [OF conn_step.step_read_multi])
next
  case (Cons wait ws)
  show ?case
  proof (cases "State_Is (cn_state c) [StateReadyToClose, StateTerminating, StateTerminated]")
    case False
    then obtain mb1 w where w: "Receiving_ReadMultiBuffer (cn_receivingWorker c) = Some (mb1, w)"
      using Cons.prems by (auto simp: bind_eq_Some_conv)
    let ?c1 = "c\<lparr>cn_receivingWorker := w\<rparr>"
    have s: "conn_step c ?c1" using w by (rule conn_step.step_read_multi)
    have wake: "conn_step\<^sup>*\<^sup>* ?c1 (wake_data ?c1)" by (intro r_into_rtranclp conn_step.step_wake)
    obtain c2 we where w2: "wait ?c1 = (c2, we)" by (cases "wait ?c1") auto
    then have "conn_step\<^sup>*\<^sup>* ?c1 c2" using steps_of_Cons(1) [OF Cons.prems(2), of ?c1] by simp
    then have "conn_step\<^sup>*\<^sup>* ?c1 c'"
      using Cons.prems w w2 False Cons.IH [of c2] steps_of_Cons(2) [OF Cons.prems(2)] wake
      by (auto split: if_splits intro: rtranclp_trans simp del: Connection_ReadMultiBuffer.simps
          simp: Let_def Connection_ReadMultiBuffer.simps [of "wait # ws"])
    then show ?thesis using s by (rule converse_rtranclp_into_rtranclp [rotated])
  qed (use Cons.prems in simp)
qed

lemma Read_steps:
  "Connection_Read ws p c = Some (n, p', e, c') \<Longrightarrow> steps_of ws \<Longrightarrow> conn_step\<^sup>*\<^sup>* c c'"
proof (induction ws arbitrary: c p)
  case Nil
  then show ?case
    by (auto simp: bind_eq_Some_conv Let_def split: if_splits prod.splits
        intro: wake_after [OF conn_step.step_read])
next
  case (Cons wait ws)
  show ?case
  proof (cases "State_Is (cn_state c) [StateReadyToClose, StateTerminating, StateTerminated]")
    case False
    then obtain n1 p1 w where w: "Receiving_Read p (cn_receivingWorker c) = Some (n1, p1, w)"
      using Cons.prems by (auto simp: bind_eq_Some_conv)
    let ?c1 = "c\<lparr>cn_receivingWorker := w\<rparr>"
    have s: "conn_step c ?c1" using w by (rule conn_step.step_read)
    have wake: "conn_step\<^sup>*\<^sup>* ?c1 (wake_data ?c1)" by (intro r_into_rtranclp conn_step.step_wake)
    obtain c2 we where w2: "wait ?c1 = (c2, we)" by (cases "wait ?c1") auto
    then have "conn_step\<^sup>*\<^sup>* ?c1 c2" using steps_of_Cons(1) [OF Cons.prems(2), of ?c1] by simp
    then have "conn_step\<^sup>*\<^sup>* ?c1 c'"
      using Cons.prems w w2 False Cons.IH [of p1 c2] steps_of_Cons(2) [OF Cons.prems(2)] wake
      by (auto split: if_splits intro: rtranclp_trans simp del: Connection_Read.simps
          simp: Let_def Connection_Read.simps [of "wait # ws"])
    then show ?thesis using s by (rule converse_rtranclp_into_rtranclp [rotated])
  qed (use Cons.prems in simp)
qed

lemma pending_steps: "conn_step\<^sup>*\<^sup>* c (if pending then wake_data c else c)"
  by (auto intro: conn_step.step_wake)

lemma write_loop_steps:
  "write_loop fuel ws pool rd r b pending c = Some (e, c', r') \<Longrightarrow> steps_of ws \<Longrightarrow> conn_step\<^sup>*\<^sup>* c c'"
proof (induction fuel arbitrary: ws r b pending c)
  case (Suc fuel)
  show ?case
  proof (cases "cn_state c = StateActive")
    case True
    then obtain re b1 r1 where b1: "(case b of Some b0 \<Rightarrow> Some (None, b0, r)
         | None \<Rightarrow> do {
             (n, e, b0, r1) \<leftarrow> ReadFrom (limit_reader (unat (cn_mss c)) rd) r (New (pool fuel));
             Some (e, b0, r1) }) = Some (re, b1, r1)"
      using Suc.prems(1) by (auto simp: bind_eq_Some_conv simp del: split_paired_Ex)
    obtain ok w where w: "Sending_Push b1 (cn_sendingWorker c) = (ok, w)" by (cases "Sending_Push b1 (cn_sendingWorker c)") auto
    let ?c1 = "c\<lparr>cn_sendingWorker := w\<rparr>"
    have s: "conn_step c ?c1" using w by (rule conn_step.step_push)
    have eq: "write_loop (Suc fuel) ws pool rd r b pending c =
        (if re \<noteq> None then Some (None, (if pending then wake_data c else c), r1)
         else if ok then write_loop fuel ws pool rd r1 None True ?c1
         else case ws of [] \<Rightarrow> None
            | wait # ws' \<Rightarrow>
                (let (c3, we) = wait (if pending then wake_data ?c1 else ?c1) in
                 if we \<noteq> None then Some (we, c3, r1) else write_loop fuel ws' pool rd r1 (Some b1) False c3))"
      using True b1 w by (simp add: Let_def)
    consider "re \<noteq> None" | "re = None" ok | "re = None" "\<not> ok" by blast
    then show ?thesis
    proof cases
      case 1
      then show ?thesis using Suc.prems(1) eq pending_steps [of c pending] by auto
    next
      case 2
      then have "conn_step\<^sup>*\<^sup>* ?c1 c'" using Suc.prems eq Suc.IH by simp
      then show ?thesis using s by (rule converse_rtranclp_into_rtranclp [rotated])
    next
      case 3
      then obtain wait ws' where ws: "ws = wait # ws'" using Suc.prems(1) eq by (cases ws) auto
      let ?c2 = "if pending then wake_data ?c1 else ?c1"
      obtain c3 we where w3: "wait ?c2 = (c3, we)" by (cases "wait ?c2") auto
      have "conn_step\<^sup>*\<^sup>* ?c2 c3" using steps_of_Cons(1) [of wait ws' ?c2] Suc.prems(2) w3 ws by simp
      moreover have "conn_step\<^sup>*\<^sup>* c3 c'"
        using Suc.prems(1) eq 3 ws w3 Suc.IH [of ws' r1 "Some b1" False c3] steps_of_Cons(2) [of wait ws'] Suc.prems(2)
        by (auto simp: Let_def split: if_splits)
      ultimately show ?thesis using s pending_steps [of ?c1 pending] by (meson converse_rtranclp_into_rtranclp rtranclp_trans)
    qed
  qed (use Suc.prems(1) pending_steps [of c pending] in \<open>auto simp: Let_def\<close>)
qed simp



section \<open>An unresponsive peer\<close>

lemma flush_sending_total:
  "GetSendingInFlightSize (cn_Config c) = Some f \<Longrightarrow> \<exists>c'. flush_sending cur c = Some c'"
  by (simp add: flush_sending_def split_def Let_def)

lemma flush_total:
  assumes "GetSendingInFlightSize (cn_Config c) = Some f"
  shows "\<exists>c'. flush cur c = Some c'"
proof -
  have "cn_Config (flush_receiving cur (flush_timeout cur (flush_idle cur c))) = cn_Config c"
    using evolves_flush_idle [of c cur] evolves_flush_timeout [of "flush_idle cur c" cur] by (simp add: evolves_def)
  then obtain c6 where "flush_sending cur (flush_receiving cur (flush_timeout cur (flush_idle cur c))) = Some c6"
    using flush_sending_total [of "flush_receiving cur (flush_timeout cur (flush_idle cur c))" f cur] assms by auto
  then show ?thesis unfolding flush_eq by (simp add: Let_def)
qed

text \<open>Closing since \<open>t\<close>: closed on this side or terminating since time \<open>t\<close>, or already terminated.\<close>

definition closing :: "u32 \<Rightarrow> Connection \<Rightarrow> bool" where
  "closing t c \<longleftrightarrow> cn_state c = StateTerminated \<or>
     (cn_state c = StateReadyToClose \<or> cn_state c = StateTerminating) \<and> cn_stateBeginTime c = t"

lemma flush_terminating:
  "cn_state c = StateTerminating \<Longrightarrow> flush cur c =
     Some (if cur - cn_stateBeginTime c > 8000 then SetState cur StateTerminated (Ping cur CommandTerminate c)
           else Ping cur CommandTerminate c)"
  by (simp add: flush_eq flush_idle_def Let_def)

lemma flush_terminated: "cn_state c = StateTerminated \<Longrightarrow> flush cur c = Some c"
  by (simp add: flush_eq)

lemma flush_ready_empty:
  "cn_state c = StateReadyToClose \<Longrightarrow> Sending_IsEmpty (cn_sendingWorker c) \<Longrightarrow>
   flush cur c = Some (Ping cur CommandTerminate (SetState cur StateTerminating c))"
  by (simp add: flush_eq flush_idle_def Let_def)

lemma flush_ready:
  assumes "cn_state c = StateReadyToClose" "\<not> Sending_IsEmpty (cn_sendingWorker c)" "flush cur c = Some c'"
  shows "if cur - cn_stateBeginTime c > 15000 then cn_state c' = StateTerminating \<and> cn_stateBeginTime c' = cur
    else cn_state c' = StateReadyToClose \<and> cn_stateBeginTime c' = cn_stateBeginTime c"
proof -
  have "flush_idle cur c = c" using assms(1,2) by (simp add: flush_idle_def Let_def)
  moreover have "flush_timeout cur c = (if cur - cn_stateBeginTime c > 15000 then SetState cur StateTerminating c else c)"
    using assms(1) by (simp add: flush_timeout_def Let_def)
  ultimately obtain c6 where "flush_sending cur (flush_receiving cur (if cur - cn_stateBeginTime c > 15000
        then SetState cur StateTerminating c else c)) = Some c6"
      "c' = (if cur - cn_lastPingTime c6 \<ge> 3000 then Ping cur CommandPing c6 else c6)"
    using assms(1,3) by (auto simp: flush_eq bind_eq_Some_conv)
  then show ?thesis using assms(1) by (auto dest: flush_sending_fields)
qed

lemma flush_closing:
  assumes "closing t c" "cur - t > 15000" "flush cur c = Some c'"
  shows "cn_state c' = StateTerminated \<or> cn_state c' = StateTerminating \<and> cn_stateBeginTime c' = cur"
proof -
  have big: "cur - t > 8000" using assms(2) by (simp add: word_less_nat_alt)
  consider "cn_state c = StateTerminated" | "cn_state c = StateTerminating" "cn_stateBeginTime c = t"
    | "cn_state c = StateReadyToClose" "cn_stateBeginTime c = t" using assms(1) by (auto simp: closing_def)
  then show ?thesis
  proof cases
    case 3
    then show ?thesis
      using assms(2,3) flush_ready [OF _ _ assms(3)] flush_ready_empty [of c cur]
      by (cases "Sending_IsEmpty (cn_sendingWorker c)") auto
  qed (use assms(3) big in \<open>auto simp: flush_terminating flush_terminated\<close>)
qed

lemma closing_terminates:
  assumes "GetSendingInFlightSize (cn_Config c) = Some f" "closing t0 c" "t1 - t0 > 15000" "t2 - t1 > 8000"
  shows "\<exists>c1 c2. flush t1 c = Some c1 \<and> flush t2 c1 = Some c2 \<and> cn_state c2 = StateTerminated"
proof -
  obtain c1 where c1: "flush t1 c = Some c1" using flush_total [OF assms(1)] by blast
  then have "cn_state c1 = StateTerminated \<or> cn_state c1 = StateTerminating \<and> cn_stateBeginTime c1 = t1"
    using flush_closing [OF assms(2,3)] by blast
  then have "\<exists>c2. flush t2 c1 = Some c2 \<and> cn_state c2 = StateTerminated"
    using assms(4) by (auto simp: flush_terminating flush_terminated)
  then show ?thesis using c1 by blast
qed

lemma Close_closing:
  "cn_state c = StateActive \<or> cn_state c = StatePeerClosed \<or> cn_state c = StatePeerTerminating \<Longrightarrow> closing t (snd (Connection_Close t c))"
  by (auto simp: Connection_Close_def closing_def)

lemma flush_idle_closing:
  assumes "cn_state c = StateActive" "t - cn_lastIncomingTime c \<ge> 30000" "flush t c = Some c'"
  shows "closing t c'"
proof -
  define c1 where "c1 = snd (Connection_Close t c)"
  have c1: "cn_state c1 = StateReadyToClose" "cn_stateBeginTime c1 = t" using assms(1) by (simp_all add: c1_def Connection_Close_def)
  have "flush_idle t c = flush_idle t c1" using assms(1,2) c1 by (simp add: flush_idle_def Let_def c1_def [symmetric])
  then have "flush t c = flush t c1" using assms(1) c1 by (simp add: flush_eq)
  then show ?thesis
    using c1 assms(3) flush_ready [of c1 t c'] flush_ready_empty [of c1 t]
    by (cases "Sending_IsEmpty (cn_sendingWorker c1)") (auto simp: closing_def)
qed



section \<open>Cutting a write into segments\<close>

text \<open>A byte source that fills the slice it is given as far as its content goes.\<close>

locale full_source = byte_source +
  assumes fill: "good r \<Longrightarrow> content r \<noteq> [] \<Longrightarrow> p \<noteq> [] \<Longrightarrow>
    \<exists>r'. good r' \<and> content r' = drop (length p) (content r) \<and>
      rd r p = (overwrite p 0 (content r), min (length p) (length (content r)), None, r')"
begin

lemma ReadFrom_limited:
  assumes r: "good r" "content r \<noteq> []" and b: "buf_ok b" "0 < room_of b" and m: "0 < m"
  defines "k \<equiv> min (min m (room_of b)) (length (content r))"
  shows "\<exists>b' r'. ReadFrom (limit_reader m rd) r b = Some (k, None, b', r') \<and> good r' \<and> content r' = drop k (content r) \<and>
    buf_ok b' \<and> contents b' = contents b @ take k (content r)"
proof -
  obtain s e where be: "bstart b = int s" "bend b = int e" "s \<le> e" "e \<le> length (bv b)"
    using b(1) by (rule buf_okE)
  let ?room = "drop e (bv b)"
  have room: "go_slice (bv b) (int e) (int (length (bv b))) = Some ?room" using be by (simp add: go_slice_def)
  have ne: "take m ?room \<noteq> []" "length ?room = room_of b" using b(2) be m by (simp_all add: room_of_def)
  let ?q = "overwrite (take m ?room) 0 (content r) @ drop m ?room"
  obtain r' where r': "good r'" "content r' = drop (length (take m ?room)) (content r)"
    "rd r (take m ?room) = (overwrite (take m ?room) 0 (content r), k, None, r')"
    using fill [OF r ne(1)] ne(2) unfolding k_def by (auto simp: min.commute)
  have "ReadFrom (limit_reader m rd) r b = Some (k, None, (store (nat (bend b)) ?q b)\<lparr>bend := i32 (bend b + int k)\<rparr>, r')"
    using room be r' m by (simp add: ReadFrom_def limit_reader_def)
  moreover have "take k ?q = take k (content r)" "k \<le> room_of b" "k \<le> length ?q"
    using ne(2) by (auto simp: k_def overwrite_def min_def)
  moreover have "content r' = drop k (content r)"
    using r'(2) ne(2) by (auto simp: k_def min_def)
  ultimately show ?thesis using append_at_end [OF b(1), of k ?q] r'(1) by auto
qed

lemma ReadFrom_limited_end:
  assumes r: "good r" "content r = []" and b: "buf_ok b" "0 < room_of b" and m: "0 < m"
  shows "\<exists>b' r'. ReadFrom (limit_reader m rd) r b = Some (0, Some EOF, b', r') \<and> good r' \<and> content r' = []"
proof -
  obtain s e where be: "bstart b = int s" "bend b = int e" "s \<le> e" "e \<le> length (bv b)"
    using b(1) by (rule buf_okE)
  have room: "go_slice (bv b) (int e) (int (length (bv b))) = Some (drop e (bv b))" using be by (simp add: go_slice_def)
  have "take m (drop e (bv b)) \<noteq> []" using b(2) be m by (simp add: room_of_def)
  from at_end [OF r this] show ?thesis
    using room be m by (auto simp: ReadFrom_def limit_reader_def)
qed

end

interpretation bytes_full: full_source bytes_reader "\<lambda>s. s" "\<lambda>_. True"
  by unfold_locales (auto simp: bytes_reader_def)

interpretation Container_full: full_source Container_reader "\<lambda>c. mb_contents (mbc c)" "\<lambda>c. mb_ok (mbc c)"
proof
  fix c :: MultiBufferContainer and p :: bytes
  let ?s = "mb_contents (mbc c)"
  assume ok: "mb_ok (mbc c)" and s: "?s \<noteq> []" and "p \<noteq> []"
  obtain mb' where mb': "SplitBytes (mbc c) p = Some (mb', min (length p) (length ?s), overwrite p 0 ?s)"
    "mb_ok mb'" "mb_contents mb' = drop (length p) ?s"
    using SplitBytes_ok [OF ok, of p] by blast
  then have "Container_reader c p = (overwrite p 0 ?s, min (length p) (length ?s), None, c\<lparr>mbc := mb'\<rparr>)"
    using s ok by (simp add: Container_reader_def Container_Read_def)
  then show "\<exists>r'. mb_ok (mbc r') \<and> mb_contents (mbc r') = drop (length p) ?s \<and>
      Container_reader c p = (overwrite p 0 ?s, min (length p) (length ?s), None, r')"
    using mb' by (intro exI [of _ "c\<lparr>mbc := mb'\<rparr>"]) simp
qed

text \<open>The cache entries of payloads numbered from \<open>n\<close> on.\<close>

fun numbered :: "u32 \<Rightarrow> Buffer list \<Rightarrow> (u32 \<times> Buffer option) list" where
  "numbered n [] = []"
| "numbered n (b # bs) = (n, Some b) # numbered (n + 1) bs"

lemma Sending_Push_room:
  assumes "\<not> sd_closed w" "length (keys w) \<le> unat (sd_windowSize w)"
  shows "\<exists>w'. Sending_Push b w = (True, w') \<and> keys w' = keys w @ [(sd_nextNumber w, Some b)] \<and>
    sd_nextNumber w' = sd_nextNumber w + 1 \<and> sd_closed w' = sd_closed w \<and> sd_windowSize w' = sd_windowSize w"
proof -
  have "unat (sd_windowSize w) < 2 ^ LENGTH(32)" by (rule unsigned_less)
  then have l: "length (keys w) < 2 ^ 32" using assms(2) by simp
  have "unat (SWindow_Len (sd_window w)) = length (keys w)"
    using l by (simp add: SWindow_Len_def keys_def unat_of_nat take_bit_nat_eq_self)
  then have "\<not> SWindow_Len (sd_window w) > sd_windowSize w" using assms(2) by (simp add: word_less_nat_alt)
  then show ?thesis using assms(1) by (simp add: Sending_Push_def SWindow_Push_def keys_def key_def)
qed

text \<open>What the segments of a write have to be: non-empty buffers of at most \<open>m\<close> bytes that make up the data.\<close>

definition chunks :: "nat \<Rightarrow> Buffer list \<Rightarrow> bytes \<Rightarrow> bool" where
  "chunks m bs d \<longleftrightarrow> (\<forall>b\<in>set bs. buf_ok b \<and> contents b \<noteq> [] \<and> length (contents b) \<le> m) \<and> concat (map contents bs) = d"

context full_source
begin

lemma write_loop_chunks:
  assumes "good r" "cn_state c = StateActive" "\<not> sd_closed (cn_sendingWorker c)" "0 < unat (cn_mss c)"
    "\<forall>i. length (pool i) < 2 ^ 31" "length (content r) < fuel"
    "content r = [] \<or> length (keys (cn_sendingWorker c)) + length (content r) div min (unat (cn_mss c)) 8192
       \<le> unat (sd_windowSize (cn_sendingWorker c))"
  shows "\<exists>bs c' r'. write_loop fuel ws pool rd r None pending c = Some (None, c', r') \<and>
    chunks (min (unat (cn_mss c)) 8192) bs (content r) \<and> cn_state c' = StateActive \<and>
    keys (cn_sendingWorker c') = keys (cn_sendingWorker c) @ numbered (sd_nextNumber (cn_sendingWorker c)) bs"
  using assms
proof (induction fuel arbitrary: r c pending)
  case (Suc fuel)
  let ?m = "min (unat (cn_mss c)) 8192" and ?w = "cn_sendingWorker c" and ?l = "length (content r)"
  have nb: "buf_ok (New (pool fuel))" "0 < room_of (New (pool fuel))" using Suc.prems(5) by simp_all
  show ?case
  proof (cases "content r = []")
    case True
    obtain b' r' where "ReadFrom (limit_reader (unat (cn_mss c)) rd) r (New (pool fuel)) = Some (0, Some EOF, b', r')"
      using ReadFrom_limited_end [OF Suc.prems(1) True nb Suc.prems(4)] by blast
    then show ?thesis
      using Suc.prems(2) True by (intro exI [of _ "[]"]) (auto simp: chunks_def Let_def)
  next
    case False
    let ?k = "min ?m ?l"
    have k: "0 < ?k" using False Suc.prems(4) by simp
    obtain b r1 where b: "ReadFrom (limit_reader (unat (cn_mss c)) rd) r (New (pool fuel)) = Some (?k, None, b, r1)"
        "good r1" "content r1 = drop ?k (content r)" "buf_ok b" "contents b = take ?k (content r)"
      using ReadFrom_limited [OF Suc.prems(1) False nb Suc.prems(4)] by auto
    have room: "length (keys ?w) + ?l div ?m \<le> unat (sd_windowSize ?w)" using Suc.prems(7) False by blast
    then obtain w1 where w1: "Sending_Push b ?w = (True, w1)" "keys w1 = keys ?w @ [(sd_nextNumber ?w, Some b)]"
        "sd_nextNumber w1 = sd_nextNumber ?w + 1" "\<not> sd_closed w1" "sd_windowSize w1 = sd_windowSize ?w"
      using Sending_Push_room [OF Suc.prems(3), of b] Suc.prems(3) by auto
    let ?c1 = "c\<lparr>cn_sendingWorker := w1\<rparr>"
    have step: "write_loop (Suc fuel) ws pool rd r None pending c = write_loop fuel ws pool rd r1 None True ?c1"
      using Suc.prems(2) b(1) w1(1) by (simp add: Let_def)
    have fuel: "length (content r1) < fuel" using k Suc.prems(6) unfolding b(3) length_drop by linarith
    have "content r1 = [] \<or> length (keys w1) + length (content r1) div ?m \<le> unat (sd_windowSize w1)"
    proof (cases "?l \<le> ?m")
      case False
      then have "length (content r1) = ?l - ?m" using b(3) by simp
      moreover have m: "0 < ?m" "?m \<le> ?l" using False Suc.prems(4) by linarith+
      ultimately have "length (content r1) div ?m = ?l div ?m - 1" by (metis le_div_geq diff_Suc_1)
      moreover have "0 < ?l div ?m" using m by (auto simp only: div_greater_zero_iff)
      ultimately show ?thesis using room w1(2,5) by simp
    qed (use b(3) in simp)
    then obtain bs c' r' where *: "write_loop fuel ws pool rd r1 None True ?c1 = Some (None, c', r')"
        "chunks ?m bs (content r1)" "cn_state c' = StateActive" "keys (cn_sendingWorker c') = keys w1 @ numbered (sd_nextNumber w1) bs"
      using Suc.IH [of r1 ?c1 True] Suc.prems(2,4,5) b(2) w1(4) fuel by auto
    have "chunks ?m (b # bs) (content r)"
      using *(2) b(3-5) k False by (auto simp: chunks_def)
    moreover have "keys (cn_sendingWorker c') = keys ?w @ numbered (sd_nextNumber ?w) (b # bs)"
      using *(4) w1(2,3) by simp
    ultimately show ?thesis using *(1,3) step by metis
  qed
qed simp

end

text \<open>
  \<^verbatim>\<open>Write\<close> cuts its bytes into segments. On an active connection whose window has room for them, it returns
  (within as many rounds as there are bytes, and one), reports every byte written, and what it appended to
  the retransmission cache, numbered consecutively, are non-empty payloads of at most the maximum segment size
  (and of at most the 8192 bytes of a buffer) whose concatenation is the data; \<^verbatim>\<open>WriteMultiBuffer\<close> does
  the same with the bytes of its buffers.
\<close>

lemma Connection_Write_chunks:
  assumes "cn_state c = StateActive" "\<not> sd_closed (cn_sendingWorker c)" "0 < unat (cn_mss c)"
    "\<forall>i. length (pool i) < 2 ^ 31" "mb_ok mb" "length (mb_contents mb) < fuel"
    "length (keys (cn_sendingWorker c)) + length (mb_contents mb) div min (unat (cn_mss c)) 8192
       \<le> unat (sd_windowSize (cn_sendingWorker c))"
  shows "(\<exists>bs c'. Connection_Write fuel ws pool (mb_contents mb) c = Some (length (mb_contents mb), None, c') \<and>
      chunks (min (unat (cn_mss c)) 8192) bs (mb_contents mb) \<and>
      keys (cn_sendingWorker c') = keys (cn_sendingWorker c) @ numbered (sd_nextNumber (cn_sendingWorker c)) bs) \<and>
    (\<exists>bs c'. Connection_WriteMultiBuffer fuel ws pool mb c = Some (None, c') \<and>
      chunks (min (unat (cn_mss c)) 8192) bs (mb_contents mb) \<and>
      keys (cn_sendingWorker c') = keys (cn_sendingWorker c) @ numbered (sd_nextNumber (cn_sendingWorker c)) bs)"
  using bytes_full.write_loop_chunks [OF _ assms(1-4,6), of ws False] assms(7)
    Container_full.write_loop_chunks [of "\<lparr>mbc = mb\<rparr>", OF _ assms(1-4), of fuel ws False] assms(5,6)
  by (auto simp: Connection_Write_def Connection_WriteMultiBuffer_def)

end
