(* ===== verification/Kcp_Transfer.thy ===== *)
theory Kcp_Transfer
  imports Kcp_Connection
begin

text \<open>
  One direction of a KCP connection end to end: the sending worker of one side, the receiving worker of the
  other and the datagrams between them. A datagram on its way stays there, so it may be delivered late, out of
  order, several times or never. Every segment is serialised when it is sent and parsed when it is delivered.
  The part of \<^verbatim>\<open>Connection.Input\<close> that touches the two workers is \<open>input_receiver\<close> and \<open>input_sender\<close>.
\<close>

section \<open>The two ends and the network\<close>

fun input_receiver :: "Segment \<Rightarrow> ReceivingWorker \<Rightarrow> ReceivingWorker" where
  "input_receiver (SegData s) w = Receiving_ProcessSegment s w"
| "input_receiver (SegAck s) w = w"
| "input_receiver (SegCmd s) w = ProcessSendingNext (c_SendingNext s) w"

fun input_sender :: "u32 \<Rightarrow> Segment \<Rightarrow> SendingWorker \<times> RoundTripInfo \<Rightarrow> SendingWorker \<times> RoundTripInfo" where
  "input_sender cur (SegData s) (w, rt) = (w, rt)"
| "input_sender cur (SegAck s) (w, rt) = Sending_ProcessSegment cur s (rt_rto rt) w rt"
| "input_sender cur (SegCmd s) (w, rt) = (ProcessReceivingNext (c_ReceivingNext s) w, UpdatePeerRTO (c_PeerRTO s) cur rt)"

text \<open>They are what \<^verbatim>\<open>Input\<close> does to the workers of a connection (the sender's, while it is not being closed).\<close>

lemma SetState_receivingWorker [simp]: "cn_receivingWorker (SetState cur st c) = cn_receivingWorker c"
  by (cases st) (simp_all add: SetState_def close_write_def ping_every_second_def Let_def)

lemma HandleOption_receivingWorker [simp]: "cn_receivingWorker (HandleOption cur opt c) = cn_receivingWorker c"
  by (simp add: HandleOption_def OnPeerClosed_def split: State.splits)

lemma Input_receive:
  assumes "Conversation seg = cn_conv c"
  shows "cn_receivingWorker (Input cur [seg] c) = input_receiver seg (cn_receivingWorker c)"
  using assms by (cases seg) (auto simp: Input_def Input_data_def Input_ack_def Input_cmd_def Let_def split: prod.split State.split)

lemma Input_acknowledge:
  assumes "Conversation seg = cn_conv c"
    and "case seg of SegData s \<Rightarrow> d_Option s = 0 | SegAck s \<Rightarrow> a_Option s = 0 | SegCmd s \<Rightarrow> c_Option s = 0 \<and> c_Cmd s \<noteq> CommandTerminate"
  shows "(cn_sendingWorker (Input cur [seg] c), cn_roundTrip (Input cur [seg] c)) = input_sender cur seg (cn_sendingWorker c, cn_roundTrip c)"
  using assms
  by (cases seg) (auto simp: Input_def Input_data_def Input_ack_def Input_cmd_def HandleOption_def SegmentOptionClose_def Let_def split: prod.split)

record transfer =
  tr_snd :: SendingWorker
  tr_rt :: RoundTripInfo
  tr_rcv :: ReceivingWorker
  tr_there :: "bytes set"
  tr_back :: "bytes set"
  tr_pushed :: "bytes list"
  tr_got :: bytes

definition new_transfer :: "u32 \<Rightarrow> u32 \<Rightarrow> RoundTripInfo \<Rightarrow> u32 \<Rightarrow> u32 \<Rightarrow> transfer" where
  "new_transfer inFlightSize bufferSize rt windowSize mss =
     \<lparr>tr_snd = NewSendingWorker inFlightSize bufferSize, tr_rt = rt, tr_rcv = NewReceivingWorker windowSize mss,
      tr_there = {}, tr_back = {}, tr_pushed = [], tr_got = []\<rparr>"

text \<open>
  The steps: the application pushes a payload, the sender flushes or pings, a datagram reaches the receiver, the
  receiver flushes its acknowledgements or pings, a datagram reaches the sender, the application reads. Numbers
  are taken not to wrap: fewer than \<open>2\<^sup>3\<^sup>1\<close> payloads are pushed.
\<close>

inductive transfer_step :: "transfer \<Rightarrow> transfer \<Rightarrow> bool" where
  push: "Sending_Push b (tr_snd t) = (True, w) \<Longrightarrow> buf_ok b \<Longrightarrow> contents b \<noteq> [] \<Longrightarrow> length (contents b) \<le> 8192 \<Longrightarrow>
    Suc (length (tr_pushed t)) < 2 ^ 31 \<Longrightarrow>
    transfer_step t (t\<lparr>tr_snd := w, tr_pushed := tr_pushed t @ [contents b]\<rparr>)"
| snd_flush: "Sending_Flush conv rc inFlight mult timeout cur (tr_snd t) = (out, ping, w) \<Longrightarrow>
    transfer_step t (t\<lparr>tr_snd := w, tr_there := tr_there t \<union> (\<lambda>s. encode (SegData s)) ` set out\<rparr>)"
| snd_ping: "seg_ok (SegCmd c) \<Longrightarrow> c_SendingNext c = sd_firstUnacknowledged (tr_snd t) \<Longrightarrow>
    transfer_step t (t\<lparr>tr_there := insert (encode (SegCmd c)) (tr_there t)\<rparr>)"
| deliver_there: "p \<in> tr_there t \<Longrightarrow> \<forall>i. length (pool i) < 2 ^ 31 \<Longrightarrow>
    transfer_step t (t\<lparr>tr_rcv := fold input_receiver (PacketReader_Read pool p) (tr_rcv t)\<rparr>)"
| rcv_flush: "Receiving_Flush conv rc cur rto (tr_rcv t) = (out, w) \<Longrightarrow>
    transfer_step t (t\<lparr>tr_rcv := w, tr_back := tr_back t \<union> (\<lambda>s. encode (SegAck s)) ` set out\<rparr>)"
| rcv_ping: "seg_ok (SegCmd c) \<Longrightarrow> c_ReceivingNext c = rw_nextNumber (tr_rcv t) \<Longrightarrow>
    transfer_step t (t\<lparr>tr_back := insert (encode (SegCmd c)) (tr_back t)\<rparr>)"
| deliver_back: "p \<in> tr_back t \<Longrightarrow> \<forall>i. length (pool i) < 2 ^ 31 \<Longrightarrow>
    fold (input_sender cur) (PacketReader_Read pool p) (tr_snd t, tr_rt t) = (w, rt) \<Longrightarrow>
    transfer_step t (t\<lparr>tr_snd := w, tr_rt := rt\<rparr>)"
| read: "Receiving_Read q (tr_rcv t) = Some (n, p, w) \<Longrightarrow>
    transfer_step t (t\<lparr>tr_rcv := w, tr_got := tr_got t @ take n p\<rparr>)"
| read_multi: "Receiving_ReadMultiBuffer (tr_rcv t) = Some (mb, w) \<Longrightarrow>
    transfer_step t (t\<lparr>tr_rcv := w, tr_got := tr_got t @ mb_contents mb\<rparr>)"

section \<open>One datagram\<close>

lemma parse_data_payload:
  assumes "parse_data arr conv opt b = Some (d, r)" "length arr < 2 ^ 31"
  shows "\<exists>p. d_payload d = Some p \<and> buf_ok p"
proof -
  have "buf_ok (Clear (New arr))" using assms(2) by simp
  then show ?thesis using assms(1) Write_ok [of "Clear (New arr)"]
    by (auto simp: parse_data_def Let_def split: if_splits Option.bind_splits) (metis option.inject prod.inject)
qed

lemma ReadSegment_payload:
  assumes "ReadSegment arr b = Some (SegData d, r)" "length arr < 2 ^ 31"
  shows "\<exists>p. d_payload d = Some p \<and> buf_ok p"
  using assms parse_data_payload [OF _ assms(2)]
  by (auto simp: ReadSegment_def Let_def split: if_splits Option.bind_splits)

lemma parsed_single:
  assumes "seg_ok s" "\<forall>i. length (pool i) < 2 ^ 31"
  shows "\<exists>s'. PacketReader_Read pool (encode s) = [s'] \<and> wire s' = wire s \<and>
    (\<forall>d. s' = SegData d \<longrightarrow> (\<exists>p. d_payload d = Some p \<and> buf_ok p))"
proof -
  have arr: "length (pool 0) < 2 ^ 31" using assms(2) by blast
  obtain s' where s': "ReadSegment (pool 0) (encode s) = Some (s', [])" "wire s' = wire s"
    using ReadSegment_encode [OF assms(1) arr, of "[]"] by auto
  then have "PacketReader_Read pool (encode s) = [s']"
    using encode_nonempty [OF assms(1)] by (simp add: PacketReader_Read.simps [of pool "encode s"] PacketReader_Read.simps [of _ "[]"])
  then show ?thesis using s' ReadSegment_payload [OF _ arr] by blast
qed

lemma wire_cases:
  "wire s' = wire (SegData d) \<Longrightarrow> \<exists>d'. s' = SegData d' \<and> d_Number d' = d_Number d \<and> payload_bytes d' = payload_bytes d"
  "wire s' = wire (SegAck a) \<Longrightarrow> \<exists>a'. s' = SegAck a' \<and> a_ReceivingNext a' = a_ReceivingNext a \<and> a_NumberList a' = a_NumberList a"
  "wire s' = wire (SegCmd c) \<Longrightarrow> \<exists>c'. s' = SegCmd c' \<and> c_SendingNext c' = c_SendingNext c \<and> c_ReceivingNext c' = c_ReceivingNext c"
  by (cases s'; simp)+

section \<open>What each end knows\<close>

definition data :: "bytes list \<Rightarrow> u32 \<Rightarrow> bytes" where
  "data P n = P ! unat n"

text \<open>The receiver has a number when it has been read past it or holds it in its window.\<close>

definition has :: "ReceivingWorker \<Rightarrow> u32 \<Rightarrow> bool" where
  "has w n \<longleftrightarrow> n < rw_nextNumber w \<or> rw_window w n \<noteq> None"

definition rcv_ok :: "bytes list \<Rightarrow> bytes \<Rightarrow> ReceivingWorker \<Rightarrow> bool" where
  "rcv_ok P got w \<longleftrightarrow> rcv_inv (data P) w \<and> (\<forall>n. rw_window w n \<noteq> None \<longrightarrow> unat n < length P) \<and>
     (\<forall>n\<in>set (al_numbers (rw_acklist w)). has w n) \<and>
     (\<exists>k\<le>length P. rw_nextNumber w = of_nat k \<and> got @ mb_contents (left_over w) = concat (take k P))"

definition payload_ok :: "bytes list \<Rightarrow> u32 \<Rightarrow> Buffer option \<Rightarrow> bool" where
  "payload_ok P n x \<longleftrightarrow> unat n < length P \<and> (\<exists>b. x = Some b \<and> buf_ok b \<and> contents b = P ! unat n \<and> contents b \<noteq> [] \<and> length (contents b) \<le> 8192)"

definition snd_ok :: "bytes list \<Rightarrow> SendingWorker \<Rightarrow> bool" where
  "snd_ok P w \<longleftrightarrow> snd_inv w \<and> \<not> sd_closed w \<and> sd_nextNumber w = of_nat (length P) \<and> (\<forall>(n, x)\<in>set (keys w). payload_ok P n x)"

fun there_ok :: "bytes list \<Rightarrow> Segment \<Rightarrow> bool" where
  "there_ok P (SegData d) \<longleftrightarrow> payload_ok P (d_Number d) (d_payload d)"
| "there_ok P (SegAck a) \<longleftrightarrow> False"
| "there_ok P (SegCmd c) \<longleftrightarrow> seg_ok (SegCmd c)"

fun back_ok :: "ReceivingWorker \<Rightarrow> Segment \<Rightarrow> bool" where
  "back_ok w (SegData d) \<longleftrightarrow> False"
| "back_ok w (SegAck a) \<longleftrightarrow> seg_ok (SegAck a) \<and> a_ReceivingNext a \<le> rw_nextNumber w \<and> (\<forall>n\<in>set (a_NumberList a). has w n)"
| "back_ok w (SegCmd c) \<longleftrightarrow> seg_ok (SegCmd c) \<and> c_ReceivingNext c \<le> rw_nextNumber w"

text \<open>No payload is lost: the sender still holds it or the receiver has it.\<close>

definition kept :: "bytes list \<Rightarrow> SendingWorker \<Rightarrow> ReceivingWorker \<Rightarrow> bool" where
  "kept P s r \<longleftrightarrow> (\<forall>i<length P. of_nat i \<in> fst ` set (keys s) \<or> has r (of_nat i))"

definition transfer_inv :: "transfer \<Rightarrow> bool" where
  "transfer_inv t \<longleftrightarrow> length (tr_pushed t) < 2 ^ 31 \<and> snd_ok (tr_pushed t) (tr_snd t) \<and> rcv_ok (tr_pushed t) (tr_got t) (tr_rcv t) \<and>
     kept (tr_pushed t) (tr_snd t) (tr_rcv t) \<and>
     (\<forall>p\<in>tr_there t. \<exists>s. p = encode s \<and> there_ok (tr_pushed t) s) \<and>
     (\<forall>p\<in>tr_back t. \<exists>s. p = encode s \<and> back_ok (tr_rcv t) s)"

text \<open>The receiver only learns more.\<close>

definition grows :: "ReceivingWorker \<Rightarrow> ReceivingWorker \<Rightarrow> bool" where
  "grows w w' \<longleftrightarrow> rw_nextNumber w \<le> rw_nextNumber w' \<and> (\<forall>n. has w n \<longrightarrow> has w' n)"

section \<open>The receiver\<close>

lemma unat_small: "k < 2 ^ 31 \<Longrightarrow> unat (of_nat k :: u32) = k"
  by (simp add: unat_of_nat)

lemma grows_refl [simp]: "grows w w"
  by (simp add: grows_def)

lemma back_ok_grows: "back_ok w s \<Longrightarrow> grows w w' \<Longrightarrow> back_ok w' s"
  by (cases s) (auto simp: grows_def)

lemma kept_grows: "kept P s r \<Longrightarrow> grows r r' \<Longrightarrow> kept P s r'"
  by (auto simp: kept_def grows_def)

lemma receive_ack_list:
  assumes "al_ok l"
  shows "set (al_numbers (AckList_Clear n l)) \<subseteq> set (al_numbers l)"
proof -
  have "al_numbers k = map fst (entries k)" if "al_ok k" for k
    using that by (simp add: entries_def al_ok_def)
  then show ?thesis using AckList_Clear_entries [OF assms, of n] assms by auto
qed

lemma rcv_ok_ack_list:
  assumes "rcv_ok P got w" "al_ok l" "set (al_numbers l) \<subseteq> set (al_numbers (rw_acklist w))"
  shows "rcv_ok P got (w\<lparr>rw_acklist := l\<rparr>) \<and> grows w (w\<lparr>rw_acklist := l\<rparr>)"
  using assms by (auto simp: rcv_ok_def grows_def has_def rcv_inv_def left_over_def)

lemma receive_data:
  assumes ok: "rcv_ok P got w" and s: "payload_ok P (d_Number s) (d_payload s)"
  shows "rcv_ok P got (Receiving_ProcessSegment s w) \<and> grows w (Receiving_ProcessSegment s w)"
proof (cases "d_Number s - rw_nextNumber w \<ge> rw_windowSize w")
  case True
  then show ?thesis using ok by (simp add: Receiving_ProcessSegment_def)
next
  case False
  let ?win = "snd (Window_Set (d_Number s) s (rw_window w))"
  let ?l = "AckList_Clear (d_SendingNext s) (rw_acklist w)"
  let ?w = "w\<lparr>rw_acklist := AckList_Add (d_Number s) (d_Timestamp s) ?l, rw_window := ?win\<rparr>"
  have al: "al_ok (rw_acklist w)" "al_ok ?l" using ok AckList_Clear_entries(1) by (auto simp: rcv_ok_def rcv_inv_def)
  have win: "?win (d_Number s) \<noteq> None" "\<And>n. n \<noteq> d_Number s \<Longrightarrow> ?win n = rw_window w n" "\<And>n. rw_window w n \<noteq> None \<Longrightarrow> ?win n \<noteq> None"
    by (auto simp: Window_Set_def)
  have g: "grows w ?w" using win(3) by (auto simp: grows_def has_def)
  have "carries (data P) s" using s by (auto simp: carries_def data_def payload_ok_def)
  then have "win_ok (data P) ?win" using ok by (auto simp: rcv_ok_def rcv_inv_def win_ok_def Window_Set_def)
  then have inv: "rcv_inv (data P) ?w" using ok al by (simp add: rcv_ok_def rcv_inv_def left_over_def)
  have sub: "unat n < length P" if "?win n \<noteq> None" for n
    using that ok s win(2) [of n] by (cases "n = d_Number s") (auto simp: payload_ok_def rcv_ok_def)
  have "has ?w n" if "n \<in> set (al_numbers (rw_acklist ?w))" for n
  proof -
    have "n = d_Number s \<or> n \<in> set (al_numbers (rw_acklist w))"
      using that receive_ack_list [OF al(1)] by (auto simp: AckList_Add_def)
    then show ?thesis
    proof
      assume "n \<in> set (al_numbers (rw_acklist w))"
      then have "has w n" using ok unfolding rcv_ok_def by blast
      then show ?thesis using g unfolding grows_def by blast
    qed (use win(1) in \<open>simp add: has_def\<close>)
  qed
  moreover have "\<exists>k\<le>length P. rw_nextNumber ?w = of_nat k \<and> got @ mb_contents (left_over ?w) = concat (take k P)"
    using ok by (simp add: rcv_ok_def left_over_def)
  ultimately have "rcv_ok P got ?w" using inv sub unfolding rcv_ok_def by simp
  then show ?thesis using g False by (simp add: Receiving_ProcessSegment_def Let_def)
qed

lemma receive_next:
  assumes "rcv_ok P got w"
  shows "rcv_ok P got (ProcessSendingNext n w) \<and> grows w (ProcessSendingNext n w)"
proof -
  have "al_ok (rw_acklist w)" using assms by (simp add: rcv_ok_def rcv_inv_def)
  then show ?thesis unfolding ProcessSendingNext_def
    by (intro rcv_ok_ack_list [OF assms] AckList_Clear_entries(1) receive_ack_list)
qed

lemma input_receiver_ok:
  assumes "rcv_ok P got w" "there_ok P s" "\<forall>i. length (pool i) < 2 ^ 31"
  shows "rcv_ok P got (fold input_receiver (PacketReader_Read pool (encode s)) w) \<and> grows w (fold input_receiver (PacketReader_Read pool (encode s)) w)"
proof (cases s)
  case (SegData d)
  then have d: "payload_ok P (d_Number d) (d_payload d)" using assms(2) by simp
  then have "seg_ok s" using SegData by (auto simp: payload_ok_def)
  then obtain d' where r: "PacketReader_Read pool (encode s) = [SegData d']" "d_Number d' = d_Number d" "payload_bytes d' = payload_bytes d"
    "\<exists>p. d_payload d' = Some p \<and> buf_ok p"
    using parsed_single [OF _ assms(3), of s] wire_cases(1) SegData by metis
  then have "payload_ok P (d_Number d') (d_payload d')" using d by (auto simp: payload_ok_def payload_bytes_def)
  then show ?thesis using r(1) receive_data [OF assms(1)] by simp
next
  case (SegCmd c)
  then obtain c' where "PacketReader_Read pool (encode s) = [SegCmd c']"
    using parsed_single [OF _ assms(3), of s] wire_cases(3) assms(2) by fastforce
  then show ?thesis using receive_next [OF assms(1)] by simp
qed (use assms(2) in simp)

text \<open>Reading moves the next number over segments of the window only, so it never passes what was pushed.\<close>

lemma taken_bound:
  assumes "taken j (of_nat k) win win'" "\<forall>n. win n \<noteq> None \<longrightarrow> unat n < length P" "k \<le> length P" "length P < 2 ^ 31"
  shows "k + j \<le> length P"
  using assms(1)
proof (induction j arbitrary: win')
  case (Suc j)
  have "\<forall>i<j. win (of_nat k + of_nat i) \<noteq> None" and s: "win (of_nat k + of_nat j) \<noteq> None"
    using Suc.prems by (auto simp: taken_def)
  then have "taken j (of_nat k) win (\<lambda>m. if \<exists>i<j. m = of_nat k + of_nat i then None else win m)" by (simp add: taken_def)
  then have "k + j \<le> length P" by (rule Suc.IH)
  then have "unat (of_nat (k + j) :: u32) = k + j" using assms(4) by (intro unat_small) simp
  moreover have "unat (of_nat (k + j) :: u32) < length P" using s assms(2) by simp
  ultimately show ?case by simp
qed (use assms(3) in simp)

lemma concat_data:
  assumes "k + j \<le> length P" "length P < 2 ^ 31"
  shows "concat (take k P) @ concat (map (\<lambda>i. data P (of_nat k + of_nat i)) [0..<j]) = concat (take (k + j) P)"
  using assms(1)
proof (induction j)
  case (Suc j)
  have "unat (of_nat (k + j) :: u32) = k + j" using assms(2) Suc.prems by (intro unat_small) simp
  then have "data P (of_nat k + of_nat j) = P ! (k + j)" unfolding data_def by simp
  then show ?case using Suc by (simp add: take_Suc_conv_app_nth)
qed simp

lemma read_ok:
  assumes ok: "rcv_ok P got w" "length P < 2 ^ 31"
    and w': "rcv_inv (data P) w'" "rw_nextNumber w' = rw_nextNumber w + of_nat j" "rw_acklist w' = rw_acklist w"
      "taken j (rw_nextNumber w) (rw_window w) (rw_window w')"
      "out @ mb_contents (left_over w') = mb_contents (left_over w) @ concat (map (\<lambda>i. data P (rw_nextNumber w + of_nat i)) [0..<j])"
  shows "rcv_ok P (got @ out) w' \<and> grows w w'"
proof -
  obtain k where k: "k \<le> length P" "rw_nextNumber w = of_nat k" "got @ mb_contents (left_over w) = concat (take k P)"
    using ok(1) by (auto simp: rcv_ok_def)
  have sub: "\<forall>n. rw_window w n \<noteq> None \<longrightarrow> unat n < length P" using ok(1) by (simp add: rcv_ok_def)
  have kj: "k + j \<le> length P" using taken_bound [OF w'(4) [unfolded k(2)] sub k(1) ok(2)] .
  have u: "unat (of_nat (k + i) :: u32) = k + i" if "i \<le> j" for i using kj that ok(2) by (intro unat_small) simp
  have lt: "of_nat k + of_nat i < (of_nat k + of_nat j :: u32)" if "i < j" for i
    using u [of i] u [of j] that by (simp add: word_less_nat_alt)
  have le: "of_nat k \<le> (of_nat k + of_nat j :: u32)" using u [of 0] u [of j] by (simp add: word_le_nat_alt)
  have win: "rw_window w' m = (if \<exists>i<j. m = of_nat k + of_nat i then None else rw_window w m)" for m
    using w'(4) unfolding taken_def k(2) by blast
  have g: "has w' n" if "has w n" for n
    using that lt le unfolding has_def win w'(2) k(2) by (auto dest: order.strict_trans2)
  have "(got @ out) @ mb_contents (left_over w') = concat (take (k + j) P)"
    using w'(5) k(2,3) concat_data [OF kj ok(2)] by (metis append.assoc)
  moreover have "\<forall>n. rw_window w' n \<noteq> None \<longrightarrow> unat n < length P" using sub win by auto
  moreover have "\<forall>n\<in>set (al_numbers (rw_acklist w')). has w' n" using ok(1) g w'(3) by (simp add: rcv_ok_def)
  moreover have "rw_nextNumber w' = of_nat (k + j)" using w'(2) k(2) by simp
  ultimately have "rcv_ok P (got @ out) w'" unfolding rcv_ok_def using w'(1) kj by blast
  then show ?thesis using g le w'(2) k(2) by (simp add: grows_def)
qed

lemma rcv_flush_ok:
  assumes ok: "rcv_ok P got w" and f: "Receiving_Flush conv rc cur rto w = (out, w')"
  shows "rcv_ok P got w' \<and> grows w w' \<and> (\<forall>a\<in>set out. back_ok w' (SegAck a))"
proof -
  obtain o1 l where l: "AckList_Flush cur rto (rw_acklist w) = (o1, l)" by fastforce
  have o: "out = map (Receiving_Write conv rc w) o1" "w' = w\<lparr>rw_acklist := l\<rparr>" using f l by (simp_all add: Receiving_Flush_def)
  have spec: "al_ok l" "al_numbers l = al_numbers (rw_acklist w)" "\<forall>s\<in>set o1. written (ack_limit (rw_acklist w)) s"
    using AckList_Flush_spec [OF _ l] ok by (auto simp: rcv_ok_def rcv_inv_def)
  have w': "rcv_ok P got w'" "grows w w'" using rcv_ok_ack_list [OF ok spec(1)] spec(2) o(2) by auto
  have "back_ok w' (SegAck (Receiving_Write conv rc w s))" if "s \<in> set o1" for s
  proof -
    have "length (a_NumberList s) \<le> 128" using spec(3) that limit_range(2) [of "ack_limit (rw_acklist w)"] by (auto simp: written_def)
    moreover have "has w n" if "n \<in> set (a_NumberList s)" for n
      using AckList_Flush_only [OF l \<open>s \<in> set o1\<close>] that ok by (auto simp: rcv_ok_def)
    ultimately show ?thesis using w'(2) o(2) by (simp add: Receiving_Write_def grows_def)
  qed
  then show ?thesis using w' o(1) by auto
qed

section \<open>The sender\<close>

lemma payload_ok_append: "payload_ok P n x \<Longrightarrow> payload_ok (P @ [y]) n x"
  by (auto simp: payload_ok_def nth_append)

lemma there_ok_append: "there_ok P s \<Longrightarrow> there_ok (P @ [y]) s"
  by (cases s) (auto simp: payload_ok_append)

text \<open>A new payload changes nothing for the numbers the receiver has.\<close>

lemma rcv_ok_append:
  assumes "rcv_ok P got w"
  shows "rcv_ok (P @ [y]) got w"
proof -
  have sub: "\<forall>n. rw_window w n \<noteq> None \<longrightarrow> unat n < length P" using assms by (simp add: rcv_ok_def)
  have "d_Number seg = n \<and> carries (data (P @ [y])) seg" if "rw_window w n = Some seg" for n seg
  proof -
    have n: "d_Number seg = n" "carries (data P) seg" using assms that by (simp_all add: rcv_ok_def rcv_inv_def win_ok_def)
    moreover have "unat n < length P" using sub that by simp
    ultimately show ?thesis by (simp add: carries_def data_def nth_append)
  qed
  then have "rcv_inv (data (P @ [y])) w" using assms by (simp add: rcv_ok_def rcv_inv_def win_ok_def)
  moreover obtain k where "k \<le> length P" "rw_nextNumber w = of_nat k" "got @ mb_contents (left_over w) = concat (take k P)"
    using assms by (auto simp: rcv_ok_def)
  then have "\<exists>k\<le>length (P @ [y]). rw_nextNumber w = of_nat k \<and> got @ mb_contents (left_over w) = concat (take k (P @ [y]))"
    by (intro exI [of _ k]) simp
  ultimately show ?thesis using assms sub unfolding rcv_ok_def by auto
qed

lemma push_ok:
  assumes ok: "snd_ok P w" and p: "Sending_Push b w = (True, w')" and small: "Suc (length P) < 2 ^ 31"
    and b: "buf_ok b" "contents b \<noteq> []" "length (contents b) \<le> 8192"
  shows "snd_ok (P @ [contents b]) w'" "keys w' = keys w @ [(of_nat (length P), Some b)]"
proof -
  have n: "unat (of_nat (length P) :: u32) = length P" using small by (intro unat_small) simp
  have w: "snd_inv w" "unat (sd_nextNumber w) + 1 < 2 ^ 32" "sd_nextNumber w = of_nat (length P)"
    using ok n small by (simp_all add: snd_ok_def)
  show k: "keys w' = keys w @ [(of_nat (length P), Some b)]" using Push_keys(2) [OF w(1,2), of b] p w(3) by simp
  have "sd_nextNumber w' = of_nat (length (P @ [contents b]))" "snd_inv w'"
    using Push_keys(1,3) [OF w(1,2), of b] p w(3) by simp_all
  moreover have "\<not> sd_closed w'" using p ok by (auto simp: Sending_Push_def snd_ok_def split: if_splits)
  moreover have "\<forall>(m, x)\<in>set (keys w'). payload_ok (P @ [contents b]) m x"
    using ok b n unfolding k by (auto simp: snd_ok_def payload_ok_append) (simp add: payload_ok_def)
  ultimately show "snd_ok (P @ [contents b]) w'" by (simp add: snd_ok_def)
qed

lemma keys_few:
  assumes "snd_ok P w" "length P < 2 ^ 31"
  shows "length (keys w) < 2 ^ 32"
proof -
  have d: "distinct (map fst (keys w))" using assms(1) by (auto simp: snd_ok_def snd_inv_def strict_sorted_iff)
  have "unat ` set (map fst (keys w)) \<subseteq> {..<length P}" using assms(1) by (auto simp: snd_ok_def payload_ok_def)
  then have "card (unat ` set (map fst (keys w))) \<le> length P" using card_mono [of "{..<length P}"] by fastforce
  moreover have "card (unat ` set (map fst (keys w))) = length (keys w)"
    using distinct_card [OF d] by (subst card_image) (auto simp: inj_on_def intro: word_unat_eq_iff [THEN iffD2])
  ultimately show ?thesis using assms(2) by simp
qed

lemma snd_flush_ok:
  assumes ok: "snd_ok P w" and small: "length P < 2 ^ 31" and f: "Sending_Flush conv rc inFlight mult timeout cur w = (out, ping, w')"
  shows "snd_ok P w' \<and> keys w' = keys w \<and> (\<forall>s\<in>set out. there_ok P (SegData s))"
proof -
  note spec = Sending_Flush_spec [OF f keys_few [OF ok small]]
  have "payload_ok P (d_Number s) (d_payload s)" if s: "s \<in> set out" for s
  proof -
    obtain seg where "seg \<in> set (sw_cache (sd_window w))" "key s = key seg" using spec s by (auto simp: sent_from_def)
    then have "(d_Number s, d_payload s) \<in> set (keys w)" by (auto simp: keys_def key_def image_iff)
    then show ?thesis using ok by (auto simp: snd_ok_def)
  qed
  then show ?thesis using spec ok by (auto simp: snd_ok_def snd_inv_def)
qed

text \<open>An acknowledgement that is true of the receiver removes only what the receiver has.\<close>

lemma snd_ok_filter:
  assumes "snd_ok P w" "keys w' = filter Q (keys w)" "snd_inv w'" "sd_nextNumber w' = sd_nextNumber w" "sd_closed w' = sd_closed w"
  shows "snd_ok P w'"
  using assms by (auto simp: snd_ok_def)

lemma kept_filter:
  assumes "kept P w r" "keys w' = filter (\<lambda>(n, _). Q n) (keys w)" "\<And>n. \<not> Q n \<Longrightarrow> has r n"
  shows "kept P w' r"
  using assms unfolding kept_def by (force simp: image_iff)

lemma closed_fields [simp]:
  "sd_closed (FindFirstUnacknowledged w) = sd_closed w" "sd_closed (ProcessReceivingNext n w) = sd_closed w"
  by (simp_all add: FindFirstUnacknowledged_def ProcessReceivingNext_def Let_def)

lemma closed_processAck [simp]: "sd_closed (snd (processAck n w)) = sd_closed w"
  by (auto simp: processAck_def Let_def split: prod.splits)

lemma closed_process_acks: "process_acks ns m r w = (m', r', w') \<Longrightarrow> sd_closed w' = sd_closed w"
proof (induction ns m r w rule: process_acks.induct)
  case (2 n ns m r w)
  obtain rem w1 where a: "processAck n w = (rem, w1)" by fastforce
  then have "sd_closed w1 = sd_closed w" using closed_processAck [of n w] by simp
  then show ?case using 2 a by (auto simp: Let_def split: if_splits)
qed simp

lemma closed_ProcessSegment: "sd_closed (fst (Sending_ProcessSegment cur a rto w rt)) = sd_closed w"
  by (auto simp: Sending_ProcessSegment_def Let_def dest!: closed_process_acks split: prod.splits)

lemma not_has: "\<not> has r n \<Longrightarrow> a \<le> rw_nextNumber r \<Longrightarrow> a \<le> n"
  by (auto simp: has_def)

lemma acknowledge_ack:
  assumes ok: "snd_ok P w" "length P < 2 ^ 31" and k: "kept P w r" and a: "back_ok r (SegAck a)"
  shows "snd_ok P (fst (input_sender cur (SegAck a) (w, rt))) \<and> kept P (fst (input_sender cur (SegAck a) (w, rt))) r"
proof -
  let ?w = "fst (Sending_ProcessSegment cur a (rt_rto rt) w rt)"
  have w: "snd_inv w" "unat (sd_nextNumber w) < 2 ^ 31" "\<not> sd_closed w"
    using ok unat_small [OF ok(2)] by (simp_all add: snd_ok_def)
  note keys = Sending_ProcessSegment_keys [OF w, of cur a "rt_rto rt" rt]
  have "has r n" if "\<not> (a_ReceivingNext a \<le> n \<and> n \<notin> set (a_NumberList a))" for n
    using that a not_has [of r n "a_ReceivingNext a"] by auto
  then have "kept P ?w r" by (rule kept_filter [OF k keys(1)])
  moreover have "snd_ok P ?w" by (rule snd_ok_filter [OF ok(1) keys]) (rule closed_ProcessSegment)
  ultimately show ?thesis by simp
qed

lemma acknowledge_cmd:
  assumes ok: "snd_ok P w" and k: "kept P w r" and c: "back_ok r (SegCmd c)"
  shows "snd_ok P (fst (input_sender cur (SegCmd c) (w, rt))) \<and> kept P (fst (input_sender cur (SegCmd c) (w, rt))) r"
proof -
  let ?w = "ProcessReceivingNext (c_ReceivingNext c) w"
  have w: "snd_inv w" using ok by (simp add: snd_ok_def)
  note keys = ProcessReceivingNext_keys [OF w, of "c_ReceivingNext c"]
  have "has r n" if "\<not> c_ReceivingNext c \<le> n" for n using that c not_has [of r n "c_ReceivingNext c"] by auto
  then have "kept P ?w r" by (rule kept_filter [OF k keys(1)])
  moreover have "snd_ok P ?w" by (rule snd_ok_filter [OF ok keys]) simp
  ultimately show ?thesis by simp
qed

lemma acknowledge_ok:
  assumes ok: "snd_ok P w" "length P < 2 ^ 31" and k: "kept P w r" and s: "back_ok r s" and pool: "\<forall>i. length (pool i) < 2 ^ 31"
    and f: "fold (input_sender cur) (PacketReader_Read pool (encode s)) (w, rt) = (w', rt')"
  shows "snd_ok P w' \<and> kept P w' r"
proof (cases s)
  case (SegAck a)
  then obtain a' where r: "PacketReader_Read pool (encode s) = [SegAck a']" "a_ReceivingNext a' = a_ReceivingNext a" "a_NumberList a' = a_NumberList a"
    using parsed_single [OF _ pool, of s] wire_cases(2) s by (metis back_ok.simps(2))
  then have "back_ok r (SegAck a')" using s SegAck by simp
  then show ?thesis using acknowledge_ack [OF ok k, of a' cur rt] r(1) f by simp
next
  case (SegCmd c)
  then have "seg_ok s" using s by simp
  then obtain s' where p: "PacketReader_Read pool (encode s) = [s']" "wire s' = wire (SegCmd c)"
    using parsed_single [OF _ pool, of s] SegCmd by blast
  then obtain c' where c': "s' = SegCmd c'" "c_ReceivingNext c' = c_ReceivingNext c" using wire_cases(3) by blast
  have "c_Cmd c' = c_Cmd c" using p(2) c'(1) by simp
  then have "back_ok r (SegCmd c')" using s SegCmd c' by simp
  then show ?thesis using acknowledge_cmd [OF ok(1) k, of c' cur rt] p(1) c'(1) f by simp
qed (use s in simp)

section \<open>The invariant\<close>

lemma transfer_invI:
  assumes "length (tr_pushed t) < 2 ^ 31" "snd_ok (tr_pushed t) (tr_snd t)" "rcv_ok (tr_pushed t) (tr_got t) (tr_rcv t)"
    "kept (tr_pushed t) (tr_snd t) (tr_rcv t)"
    "\<And>p. p \<in> tr_there t \<Longrightarrow> \<exists>s. p = encode s \<and> there_ok (tr_pushed t) s"
    "\<And>p. p \<in> tr_back t \<Longrightarrow> \<exists>s. p = encode s \<and> back_ok (tr_rcv t) s"
  shows "transfer_inv t"
  using assms by (simp add: transfer_inv_def)

lemma transfer_invD:
  assumes "transfer_inv t"
  shows "length (tr_pushed t) < 2 ^ 31" "snd_ok (tr_pushed t) (tr_snd t)" "rcv_ok (tr_pushed t) (tr_got t) (tr_rcv t)"
    "kept (tr_pushed t) (tr_snd t) (tr_rcv t)"
    "p \<in> tr_there t \<Longrightarrow> \<exists>s. p = encode s \<and> there_ok (tr_pushed t) s"
    "p \<in> tr_back t \<Longrightarrow> \<exists>s. p = encode s \<and> back_ok (tr_rcv t) s"
  using assms by (simp_all add: transfer_inv_def)

text \<open>A step of the receiver alone.\<close>

lemma transfer_inv_rcv:
  assumes inv: "transfer_inv t" and w: "rcv_ok (tr_pushed t) got w" "grows (tr_rcv t) w"
  shows "transfer_inv (t\<lparr>tr_rcv := w, tr_got := got\<rparr>)"
proof (rule transfer_invI)
  show "\<exists>s. p = encode s \<and> back_ok (tr_rcv (t\<lparr>tr_rcv := w, tr_got := got\<rparr>)) s" if "p \<in> tr_back (t\<lparr>tr_rcv := w, tr_got := got\<rparr>)" for p
    using transfer_invD(6) [OF inv, of p] that back_ok_grows [OF _ w(2)] by auto
qed (use transfer_invD [OF inv] w kept_grows [OF _ w(2)] in auto)

lemma rcv_ok_new: "rcv_ok [] [] (NewReceivingWorker c d)"
  using rcv_inv_New [of "data []" c d] unfolding rcv_ok_def
  by (simp add: NewReceivingWorker_def NewAckList_def left_over_def)

lemma transfer_inv_new: "transfer_inv (new_transfer a b rt c d)"
  by (rule transfer_invI)
    (auto simp: new_transfer_def snd_ok_def snd_inv_New kept_def rcv_ok_new keys_def NewSendingWorker_def NewSendingWindow_def snd_inv_def)

lemma transfer_inv_step:
  assumes "transfer_step t t'" "transfer_inv t"
  shows "transfer_inv t'"
  using assms
proof (induction rule: transfer_step.induct)
  case (push b t w)
  note inv = transfer_invD [OF push(6)]
  note p = push_ok [OF inv(2) push(1,5,2,3,4)]
  have "kept (tr_pushed t @ [contents b]) w (tr_rcv t)"
    using inv(4) unfolding kept_def p(2) by (auto simp: less_Suc_eq)
  moreover have "\<exists>s. q = encode s \<and> there_ok (tr_pushed t @ [contents b]) s" if "q \<in> tr_there t" for q
    using inv(5) [OF that] there_ok_append by blast
  ultimately show ?case using p(1) push(5) inv(6) rcv_ok_append [OF inv(3)] by (intro transfer_invI) auto
next
  case (snd_flush conv rc inFlight mult timeout cur t out ping w)
  note inv = transfer_invD [OF snd_flush(2)]
  note f = snd_flush_ok [OF inv(2,1) snd_flush(1)]
  then show ?case using inv by (intro transfer_invI) (auto simp: kept_def)
next
  case (snd_ping c t)
  note inv = transfer_invD [OF snd_ping(3)]
  show ?case using inv snd_ping(1) by (intro transfer_invI) (auto intro: there_ok.simps(3) [THEN iffD2])
next
  case (deliver_there p t pool)
  note inv = transfer_invD [OF deliver_there(3)]
  obtain s where s: "p = encode s" "there_ok (tr_pushed t) s" using inv(5) deliver_there(1) by blast
  show ?case using transfer_inv_rcv [OF deliver_there(3), of "tr_got t"] input_receiver_ok [OF inv(3) s(2) deliver_there(2)] s(1) by simp
next
  case (rcv_flush conv rc cur rto t out w)
  note inv = transfer_invD [OF rcv_flush(2)]
  note f = rcv_flush_ok [OF inv(3) rcv_flush(1)]
  then show ?case using inv kept_grows [OF inv(4)] back_ok_grows by (intro transfer_invI) fastforce+
next
  case (rcv_ping c t)
  note inv = transfer_invD [OF rcv_ping(3)]
  show ?case using inv rcv_ping(1,2) by (intro transfer_invI) (auto intro: back_ok.simps(3) [THEN iffD2])
next
  case (deliver_back p t pool cur w rt)
  note inv = transfer_invD [OF deliver_back(4)]
  obtain s where s: "p = encode s" "back_ok (tr_rcv t) s" using inv(6) deliver_back(1) by blast
  note a = acknowledge_ok [OF inv(2,1,4) s(2) deliver_back(2) deliver_back(3) [unfolded s(1)]]
  then show ?case using inv by (intro transfer_invI) auto
next
  case (read q t n p w)
  note inv = transfer_invD [OF read(2)]
  have "rcv_inv (data (tr_pushed t)) (tr_rcv t)" using inv(3) by (simp add: rcv_ok_def)
  then obtain k where "rcv_inv (data (tr_pushed t)) w" "rw_nextNumber w = rw_nextNumber (tr_rcv t) + of_nat k" "rw_acklist w = rw_acklist (tr_rcv t)"
    "taken k (rw_nextNumber (tr_rcv t)) (rw_window (tr_rcv t)) (rw_window w)"
    "take n p @ mb_contents (left_over w) = mb_contents (left_over (tr_rcv t)) @ concat (map (\<lambda>i. data (tr_pushed t) (rw_nextNumber (tr_rcv t) + of_nat i)) [0..<k])"
    using Receiving_Read_spec [of "data (tr_pushed t)" "tr_rcv t" q] read(1) by auto
  then show ?case using transfer_inv_rcv [OF read(2)] read_ok [OF inv(3,1)] by blast
next
  case (read_multi t mb w)
  note inv = transfer_invD [OF read_multi(2)]
  have "rcv_inv (data (tr_pushed t)) (tr_rcv t)" using inv(3) by (simp add: rcv_ok_def)
  then obtain k where "rcv_inv (data (tr_pushed t)) w" "rw_nextNumber w = rw_nextNumber (tr_rcv t) + of_nat k" "rw_acklist w = rw_acklist (tr_rcv t)"
    "taken k (rw_nextNumber (tr_rcv t)) (rw_window (tr_rcv t)) (rw_window w)"
    "mb_contents mb @ mb_contents (left_over w) = mb_contents (left_over (tr_rcv t)) @ concat (map (\<lambda>i. data (tr_pushed t) (rw_nextNumber (tr_rcv t) + of_nat i)) [0..<k])"
    using ReadMultiBuffer_spec [of "data (tr_pushed t)" "tr_rcv t"] read_multi(1) by (auto simp: left_over_def)
  then show ?case using transfer_inv_rcv [OF read_multi(2)] read_ok [OF inv(3,1)] by blast
qed

lemma transfer_inv_steps: "transfer_step\<^sup>*\<^sup>* (new_transfer a b rt c d) t \<Longrightarrow> transfer_inv t"
  by (induction rule: rtranclp_induct) (auto intro: transfer_inv_new transfer_inv_step)

lemma all_acknowledged:
  assumes inv: "transfer_inv t" and e: "Sending_IsEmpty (tr_snd t)" "rw_leftOver (tr_rcv t) = None"
  shows "\<exists>mb w. Receiving_ReadMultiBuffer (tr_rcv t) = Some (mb, w) \<and> tr_got t @ mb_contents mb = concat (tr_pushed t)"
proof -
  have "rcv_inv (data (tr_pushed t)) (tr_rcv t)" using transfer_invD(3) [OF inv] by (simp add: rcv_ok_def)
  then obtain mb w where r: "Receiving_ReadMultiBuffer (tr_rcv t) = Some (mb, w)" "rw_leftOver w = None" "\<not> IsDataAvailable w"
    using ReadMultiBuffer_spec [of "data (tr_pushed t)" "tr_rcv t"] e(2) by blast
  have inv': "transfer_inv (t\<lparr>tr_rcv := w, tr_got := tr_got t @ mb_contents mb\<rparr>)"
    by (rule transfer_inv_step [OF transfer_step.read_multi [OF r(1)] inv])
  obtain k where k: "k \<le> length (tr_pushed t)" "rw_nextNumber w = of_nat k" "tr_got t @ mb_contents mb = concat (take k (tr_pushed t))"
    using transfer_invD(3) [OF inv'] r(2) by (auto simp: rcv_ok_def left_over_def)
  have "keys (tr_snd t) = []" using e(1) by (simp add: Sending_IsEmpty_def SWindow_IsEmpty_def keys_def)
  moreover have "\<not> has w (of_nat k)" using r(3) k(2) by (simp add: has_def IsDataAvailable_def Window_Has_def)
  ultimately have "\<not> k < length (tr_pushed t)" using transfer_invD(4) [OF inv'] by (auto simp: kept_def)
  then show ?thesis using r(1) k(1,3) by simp
qed

section \<open>Property\<close>

text \<open>
  C40. Reliable transfer end to end. However pushes, flushes, pings, reads and the delivery of datagrams in
  either direction interleave, with datagrams lost, late, reordered and repeated, as long as fewer than
  \<open>2\<^sup>3\<^sup>1\<close> payloads are pushed: what the application has read is a prefix of what was pushed; a pushed payload
  that the receiver does not have yet is still in the sender's window, unchanged; and once the sender's window
  is empty, a read gives the application everything that was pushed.
\<close>

theorem reliable_transfer:
  assumes "transfer_step\<^sup>*\<^sup>* (new_transfer inFlightSize bufferSize rt windowSize mss) t"
  shows "prefix (tr_got t) (concat (tr_pushed t)) \<and>
    (\<forall>i<length (tr_pushed t). has (tr_rcv t) (of_nat i) \<or>
       (\<exists>b. (of_nat i, Some b) \<in> set (keys (tr_snd t)) \<and> contents b = tr_pushed t ! i)) \<and>
    (Sending_IsEmpty (tr_snd t) \<and> rw_leftOver (tr_rcv t) = None \<longrightarrow>
       (\<exists>mb w. Receiving_ReadMultiBuffer (tr_rcv t) = Some (mb, w) \<and> tr_got t @ mb_contents mb = concat (tr_pushed t)))"
proof (intro conjI allI impI)
  have inv: "transfer_inv t" by (rule transfer_inv_steps [OF assms])
  obtain k where "tr_got t @ mb_contents (left_over (tr_rcv t)) = concat (take k (tr_pushed t))"
    using transfer_invD(3) [OF inv] by (auto simp: rcv_ok_def)
  then have "prefix (tr_got t) (concat (take k (tr_pushed t)))" by (metis prefixI)
  moreover have "prefix (concat (take k (tr_pushed t))) (concat (tr_pushed t))"
    by (metis append_take_drop_id concat_append prefixI)
  ultimately show "prefix (tr_got t) (concat (tr_pushed t))" by (rule prefix_order.trans)
  show "has (tr_rcv t) (of_nat i) \<or> (\<exists>b. (of_nat i, Some b) \<in> set (keys (tr_snd t)) \<and> contents b = tr_pushed t ! i)"
    if i: "i < length (tr_pushed t)" for i
  proof (cases "has (tr_rcv t) (of_nat i)")
    case False
    then obtain x where x: "(of_nat i, x) \<in> set (keys (tr_snd t))" using transfer_invD(4) [OF inv] i by (force simp: kept_def)
    then have "payload_ok (tr_pushed t) (of_nat i) x" using transfer_invD(2) [OF inv] by (auto simp: snd_ok_def)
    moreover have "unat (of_nat i :: u32) = i" using transfer_invD(1) [OF inv] i by (intro unat_small) simp
    ultimately show ?thesis using x by (auto simp: payload_ok_def)
  qed blast
  show "\<exists>mb w. Receiving_ReadMultiBuffer (tr_rcv t) = Some (mb, w) \<and> tr_got t @ mb_contents mb = concat (tr_pushed t)"
    if "Sending_IsEmpty (tr_snd t) \<and> rw_leftOver (tr_rcv t) = None"
    using that by (intro all_acknowledged [OF inv]) simp_all
qed

definition first_push :: transfer where
  "first_push = (let t = new_transfer 32 100 \<lparr>rt_variation = 0, rt_srtt = 0, rt_rto = 100, rt_minRtt = 50, rt_updatedTimestamp = 0\<rparr> 32 1400
     in t\<lparr>tr_snd := snd (Sending_Push (FromBytes [7] []) (tr_snd t)), tr_pushed := [[7]]\<rparr>)"

lemma first_push_reached:
  "transfer_step\<^sup>*\<^sup>* (new_transfer 32 100 \<lparr>rt_variation = 0, rt_srtt = 0, rt_rto = 100, rt_minRtt = 50, rt_updatedTimestamp = 0\<rparr> 32 1400) first_push"
proof -
  let ?t = "new_transfer 32 100 \<lparr>rt_variation = 0, rt_srtt = 0, rt_rto = 100, rt_minRtt = 50, rt_updatedTimestamp = 0\<rparr> 32 1400"
  have "fst (Sending_Push (FromBytes [7] []) (tr_snd ?t))"
    by (simp add: new_transfer_def Sending_Push_def NewSendingWorker_def NewSendingWindow_def SWindow_Len_def)
  then have "Sending_Push (FromBytes [7] []) (tr_snd ?t) = (True, snd (Sending_Push (FromBytes [7] []) (tr_snd ?t)))" by (simp add: prod_eq_iff)
  from transfer_step.push [OF this] have "transfer_step ?t first_push" by (simp add: first_push_def Let_def new_transfer_def)
  then show ?thesis by blast
qed

theorem reliable_transfer_witness:
  "\<exists>b. prefix (tr_got first_push) [7] \<and> (has (tr_rcv first_push) 0 \<or> (0, Some b) \<in> set (keys (tr_snd first_push)) \<and> contents b = [7])"
  using reliable_transfer [OF first_push_reached] by (auto simp: first_push_def Let_def)

end
