(* ===== verification/Xray_Address.thy ===== *)
theory Xray_Address
  imports Xray_Buffer
begin

text \<open>
  Addresses and ports on the wire (\<^verbatim>\<open>xray-core/common/protocol/address.go\<close>, with \<^verbatim>\<open>isDomainTooLong\<close> of
  \<^verbatim>\<open>headers.go\<close> and \<^verbatim>\<open>common/serial\<close>): the configurable serialiser that the mux, VMess, VLESS, Trojan, Socks
  and Shadowsocks protocols share. An operation gives \<open>Inl\<close> of the error it returns or \<open>Inr\<close> of its
  results, with the state of the buffer and of the reader it leaves; the outer \<open>None\<close> is a panic. Writers
  are functions that take their state and the bytes. The locale \<open>byte_sink\<close> is the contract of a
  writer with room; it is interpreted on the buffers of \<^verbatim>\<open>common/buf\<close>.
\<close>

section \<open>Configuration\<close>

type_synonym 'w writer = "'w \<Rightarrow> bytes \<Rightarrow> err \<times> 'w"
type_synonym AddressTypeParser = "u8 \<Rightarrow> u8"

datatype AddressOption =
    PortThenAddress
  | AddressFamilyByte u8 AddressFamily
  | WithAddressTypeParser AddressTypeParser

definition afInvalid :: u8 where "afInvalid = 255"

record parser_option =
  po_addrTypeMap :: "AddressFamily list"
  po_addrByteMap :: "u8 list"
  po_portFirst :: bool
  po_typeParser :: "AddressTypeParser option"

record addressParser =
  ap_addrTypeMap :: "AddressFamily list"
  ap_addrByteMap :: "u8 list"
  ap_typeParser :: "AddressTypeParser option"

datatype AddressSerializer = portFirstAddressParser addressParser | portLastAddressParser addressParser

text \<open>Applying an option: a family byte of sixteen or more panics, as does a family out of the array.\<close>

fun apply_option :: "AddressOption \<Rightarrow> parser_option \<Rightarrow> parser_option option" where
  "apply_option PortThenAddress p = Some (p\<lparr>po_portFirst := True\<rparr>)"
| "apply_option (AddressFamilyByte b f) p =
     (if 16 \<le> b then None
      else if 16 \<le> f then None
      else Some (p\<lparr>po_addrTypeMap := (po_addrTypeMap p)[unat b := f], po_addrByteMap := (po_addrByteMap p)[unat f := b]\<rparr>))"
| "apply_option (WithAddressTypeParser atp) p = Some (p\<lparr>po_typeParser := Some atp\<rparr>)"

fun apply_options :: "AddressOption list \<Rightarrow> parser_option \<Rightarrow> parser_option option" where
  "apply_options [] p = Some p"
| "apply_options (opt # opts) p = do { p' \<leftarrow> apply_option opt p; apply_options opts p' }"

definition NewAddressParser :: "AddressOption list \<Rightarrow> AddressSerializer option" where
  "NewAddressParser options = do {
     o' \<leftarrow> apply_options options \<lparr>po_addrTypeMap = replicate 16 afInvalid, po_addrByteMap = replicate 16 afInvalid,
       po_portFirst = False, po_typeParser = None\<rparr>;
     let ap = \<lparr>ap_addrTypeMap = po_addrTypeMap o', ap_addrByteMap = po_addrByteMap o', ap_typeParser = po_typeParser o'\<rparr>;
     Some (if po_portFirst o' then portFirstAddressParser ap else portLastAddressParser ap) }"

text \<open>The serialisers the protocols configure: mux, XUDP, VMess and VLESS; Socks and Trojan; Shadowsocks.\<close>

definition mux_options :: "AddressOption list" where
  "mux_options = [AddressFamilyByte 1 AddressFamilyIPv4, AddressFamilyByte 2 AddressFamilyDomain,
     AddressFamilyByte 3 AddressFamilyIPv6, PortThenAddress]"

definition socks_options :: "AddressOption list" where
  "socks_options = [AddressFamilyByte 1 AddressFamilyIPv4, AddressFamilyByte 4 AddressFamilyIPv6, AddressFamilyByte 3 AddressFamilyDomain]"

definition shadowsocks_options :: "AddressOption list" where
  "shadowsocks_options = [AddressFamilyByte 1 AddressFamilyIPv4, AddressFamilyByte 4 AddressFamilyIPv6,
     AddressFamilyByte 3 AddressFamilyDomain, WithAddressTypeParser (\<lambda>b. b AND 0x0F)]"

section \<open>Reading\<close>

definition readPort :: "nat \<Rightarrow> 'r reader \<Rightarrow> 'r \<Rightarrow> Buffer \<Rightarrow> ((go_error + u16) \<times> Buffer \<times> 'r) option" where
  "readPort fuel rd r b = do {
     (n, e, b1, r1) \<leftarrow> ReadFullFrom fuel rd r b 2;
     case e of
       Some er \<Rightarrow> Some (Inl er, b1, r1)
     | None \<Rightarrow> do { bs \<leftarrow> BytesFrom b1 (- 2); p \<leftarrow> PortFromBytes bs; Some (Inr p, b1, r1) } }"

definition maybeIPPrefix :: "u8 \<Rightarrow> bool" where
  "maybeIPPrefix b \<longleftrightarrow> b = 91 \<or> (48 \<le> b \<and> b \<le> 57)"

text \<open>
  \<^verbatim>\<open>isValidDomain\<close> ranges over the runes of the string; a byte that is not ASCII belongs to a rune that is
  refused, so the check is one of the bytes.
\<close>

definition isValidDomain :: "bytes \<Rightarrow> bool" where
  "isValidDomain d \<longleftrightarrow> (\<forall>c\<in>set d. isAlphaNum c \<or> c = 45 \<or> c = 46 \<or> c = 95)"

text \<open>What \<^verbatim>\<open>readAddress\<close> makes of the bytes of a domain.\<close>

definition domain_result :: "bytes \<Rightarrow> (go_error + Address option) option" where
  "domain_result domain = do {
     c \<leftarrow> go_index domain 0;
     ip \<leftarrow> (if maybeIPPrefix c then do { addr \<leftarrow> ParseAddress domain; Some (if IsIP (Family addr) then Some addr else None) }
           else Some None);
     case ip of
       Some addr \<Rightarrow> Some (Inr (Some addr))
     | None \<Rightarrow>
         if \<not> isValidDomain domain then Some (Inl (NewError ''invalid domain name: ''))
         else Some (Inr (Some (domainAddress domain))) }"

definition readDomain :: "nat \<Rightarrow> 'r reader \<Rightarrow> 'r \<Rightarrow> Buffer \<Rightarrow> ((go_error + Address option) \<times> Buffer \<times> 'r) option" where
  "readDomain fuel rd r b = do {
     (n, e, b1, r1) \<leftarrow> ReadFullFrom fuel rd r b 1;
     case e of
       Some er \<Rightarrow> Some (Inl er, b1, r1)
     | None \<Rightarrow> do {
         len \<leftarrow> Byte b1 (Len b1 - 1);
         let domainLength = int (unat len);
         (n, e, b2, r2) \<leftarrow> ReadFullFrom fuel rd r1 b1 domainLength;
         case e of
           Some er \<Rightarrow> Some (Inl er, b2, r2)
         | None \<Rightarrow> do {
             domain \<leftarrow> BytesFrom b2 (- domainLength);
             res \<leftarrow> domain_result domain;
             Some (res, b2, r2) } } }"

definition readIP :: "nat \<Rightarrow> 'r reader \<Rightarrow> 'r \<Rightarrow> Buffer \<Rightarrow> int \<Rightarrow> ((go_error + Address option) \<times> Buffer \<times> 'r) option" where
  "readIP fuel rd r b len = do {
     (n, e, b1, r1) \<leftarrow> ReadFullFrom fuel rd r b len;
     case e of
       Some er \<Rightarrow> Some (Inl er, b1, r1)
     | None \<Rightarrow> do { ip \<leftarrow> BytesFrom b1 (- len); Some (Inr (IPAddress ip), b1, r1) } }"

text \<open>The address type of a byte read, and the family it stands for; \<open>None\<close> is an unknown type.\<close>

definition family_of :: "addressParser \<Rightarrow> u8 \<Rightarrow> AddressFamily option" where
  "family_of p t0 =
     (let t = (case ap_typeParser p of None \<Rightarrow> t0 | Some f \<Rightarrow> f t0) in
      if 16 \<le> t then None
      else let af = ap_addrTypeMap p ! unat t in if af = afInvalid then None else Some af)"

definition readAddress :: "nat \<Rightarrow> addressParser \<Rightarrow> 'r reader \<Rightarrow> 'r \<Rightarrow> Buffer \<Rightarrow> ((go_error + Address option) \<times> Buffer \<times> 'r) option" where
  "readAddress fuel p rd r b = do {
     (n, e, b1, r1) \<leftarrow> ReadFullFrom fuel rd r b 1;
     case e of
       Some er \<Rightarrow> Some (Inl er, b1, r1)
     | None \<Rightarrow> do {
         t \<leftarrow> Byte b1 (Len b1 - 1);
         case family_of p t of
           None \<Rightarrow> Some (Inl (NewError ''unknown address type: ''), b1, r1)
         | Some af \<Rightarrow>
             if af = AddressFamilyIPv4 then readIP fuel rd r1 b1 4
             else if af = AddressFamilyIPv6 then readIP fuel rd r1 b1 16
             else if af = AddressFamilyDomain then readDomain fuel rd r1 b1
             else None } }"

text \<open>\<^verbatim>\<open>ReadAddressPort\<close>; a nil buffer stands for a new one over the array \<open>arr\<close> of the pool.\<close>

definition ReadAddressPort :: "nat \<Rightarrow> bytes \<Rightarrow> AddressSerializer \<Rightarrow> Buffer option \<Rightarrow> 'r reader \<Rightarrow> 'r \<Rightarrow>
    ((go_error + Address option \<times> u16) \<times> Buffer \<times> 'r) option" where
  "ReadAddressPort fuel arr s bo rd r =
     (let b = (case bo of Some b \<Rightarrow> b | None \<Rightarrow> New arr) in
      case s of
        portFirstAddressParser p \<Rightarrow> do {
          (port, b1, r1) \<leftarrow> readPort fuel rd r b;
          case port of
            Inl er \<Rightarrow> Some (Inl er, b1, r1)
          | Inr port \<Rightarrow> do {
              (addr, b2, r2) \<leftarrow> readAddress fuel p rd r1 b1;
              case addr of Inl er \<Rightarrow> Some (Inl er, b2, r2) | Inr addr \<Rightarrow> Some (Inr (addr, port), b2, r2) } }
      | portLastAddressParser p \<Rightarrow> do {
          (addr, b1, r1) \<leftarrow> readAddress fuel p rd r b;
          case addr of
            Inl er \<Rightarrow> Some (Inl er, b1, r1)
          | Inr addr \<Rightarrow> do {
              (port, b2, r2) \<leftarrow> readPort fuel rd r1 b1;
              case port of Inl er \<Rightarrow> Some (Inl er, b2, r2) | Inr port \<Rightarrow> Some (Inr (addr, port), b2, r2) } })"

section \<open>Writing\<close>

definition WriteUint16 :: "'w writer \<Rightarrow> 'w \<Rightarrow> u16 \<Rightarrow> err \<times> 'w" where
  "WriteUint16 wr w v = wr w (put16 v)"

definition writePort :: "'w writer \<Rightarrow> 'w \<Rightarrow> u16 \<Rightarrow> err \<times> 'w" where
  "writePort wr w port = WriteUint16 wr w port"

definition isDomainTooLong :: "bytes \<Rightarrow> bool" where
  "isDomainTooLong d \<longleftrightarrow> 256 < length d"

text \<open>Two writes, the second after the first succeeded.\<close>

definition write2 :: "'w writer \<Rightarrow> 'w \<Rightarrow> bytes \<Rightarrow> bytes \<Rightarrow> err \<times> 'w" where
  "write2 wr w x y = (let (e, w1) = wr w x in if e \<noteq> None then (e, w1) else wr w1 y)"

definition writeAddress :: "addressParser \<Rightarrow> 'w writer \<Rightarrow> 'w \<Rightarrow> Address option \<Rightarrow> (err \<times> 'w) option" where
  "writeAddress p wr w address = do {
     addr \<leftarrow> address;
     tb \<leftarrow> go_index (ap_addrByteMap p) (int (unat (Family addr)));
     if tb = afInvalid then Some (Some (NewError ''unknown address family''), w)
     else case addr of
       ipv4Address ip \<Rightarrow> Some (write2 wr w [tb] ip)
     | ipv6Address ip \<Rightarrow> Some (write2 wr w [tb] ip)
     | domainAddress domain \<Rightarrow>
         if isDomainTooLong domain then Some (Some (NewError ''Super long domain is not supported: ''), w)
         else Some (write2 wr w [tb, of_nat (length domain)] domain) }"

definition WriteAddressPort :: "AddressSerializer \<Rightarrow> 'w writer \<Rightarrow> 'w \<Rightarrow> Address option \<Rightarrow> u16 \<Rightarrow> (err \<times> 'w) option" where
  "WriteAddressPort s wr w addr port =
     (case s of
        portFirstAddressParser p \<Rightarrow>
          (let (e, w1) = writePort wr w port in if e \<noteq> None then Some (e, w1) else writeAddress p wr w1 addr)
      | portLastAddressParser p \<Rightarrow> do {
          (e, w1) \<leftarrow> writeAddress p wr w addr;
          Some (if e \<noteq> None then (e, w1) else writePort wr w1 port) })"

text \<open>A buffer as a writer.\<close>

definition Buffer_writer :: "Buffer writer" where
  "Buffer_writer b d = (case the (Write b d) of (n, e, b') \<Rightarrow> (e, b'))"

section \<open>Writers with room\<close>

text \<open>\<open>held w\<close> is what the writer was given, \<open>free w\<close> how many bytes it still takes.\<close>

locale byte_sink =
  fixes wr :: "'w writer"
    and held :: "'w \<Rightarrow> bytes"
    and free :: "'w \<Rightarrow> nat"
    and sound :: "'w \<Rightarrow> bool"
  assumes accept: "sound w \<Longrightarrow> length d \<le> free w \<Longrightarrow>
    \<exists>w'. wr w d = (None, w') \<and> sound w' \<and> held w' = held w @ d \<and> free w' = free w - length d"
begin

lemma write2_ok:
  assumes "sound w" "length x + length y \<le> free w"
  shows "\<exists>w'. write2 wr w x y = (None, w') \<and> sound w' \<and> held w' = held w @ x @ y \<and> free w' = free w - (length x + length y)"
proof -
  obtain w1 where w1: "wr w x = (None, w1)" "sound w1" "held w1 = held w @ x" "free w1 = free w - length x"
    using accept [of w x] assms by auto
  then show ?thesis using accept [of w1 y] assms(2) by (auto simp: write2_def)
qed

end

lemma Write_bstart: "Write b d = Some (n, e, b') \<Longrightarrow> bstart b' = bstart b"
  by (auto simp: Write_def Let_def store_def split: bind_splits)

interpretation buffer_sink: byte_sink Buffer_writer contents room_of "\<lambda>b. buf_ok b \<and> UDP b = u \<and> bstart b = s \<and> length (bv b) = l"
  for u s l
proof
  fix w :: Buffer and d :: bytes assume "buf_ok w \<and> UDP w = u \<and> bstart w = s \<and> length (bv w) = l" "length d \<le> room_of w"
  then show "\<exists>w'. Buffer_writer w d = (None, w') \<and> (buf_ok w' \<and> UDP w' = u \<and> bstart w' = s \<and> length (bv w') = l) \<and>
      contents w' = contents w @ d \<and> room_of w' = room_of w - length d"
    using Write_fits [of w d] by (auto simp: Buffer_writer_def dest: Write_bstart)
qed

section \<open>The encoding\<close>

definition enc_address :: "addressParser \<Rightarrow> Address \<Rightarrow> bytes" where
  "enc_address p addr =
     ap_addrByteMap p ! unat (Family addr) #
     (case addr of ipv4Address ip \<Rightarrow> ip | ipv6Address ip \<Rightarrow> ip | domainAddress d \<Rightarrow> of_nat (length d) # d)"

fun enc_address_port :: "AddressSerializer \<Rightarrow> Address \<Rightarrow> u16 \<Rightarrow> bytes" where
  "enc_address_port (portFirstAddressParser p) addr port = put16 port @ enc_address p addr"
| "enc_address_port (portLastAddressParser p) addr port = enc_address p addr @ put16 port"

text \<open>
  The addresses a serialiser carries: their family has a byte, which it reads as the family again; an
  IPv6 address is not an IPv4 address in disguise; a domain has 1 to 255 valid characters and is not the text
  of an IP address.
\<close>

fun plain_address :: "Address \<Rightarrow> bool" where
  "plain_address (domainAddress d) \<longleftrightarrow> d \<noteq> [] \<and> length d \<le> 255 \<and> isValidDomain d \<and>
     (maybeIPPrefix (hd d) \<longrightarrow> (\<forall>a. ParseAddress d = Some a \<longrightarrow> \<not> IsIP (Family a)))"
| "plain_address a \<longleftrightarrow> wf_address a"

definition knows_family :: "addressParser \<Rightarrow> Address \<Rightarrow> bool" where
  "knows_family p addr \<longleftrightarrow> length (ap_addrByteMap p) = 16 \<and>
     ap_addrByteMap p ! unat (Family addr) \<noteq> afInvalid \<and>
     family_of p (ap_addrByteMap p ! unat (Family addr)) = Some (Family addr)"

fun parser_of :: "AddressSerializer \<Rightarrow> addressParser" where
  "parser_of (portFirstAddressParser p) = p"
| "parser_of (portLastAddressParser p) = p"

lemma length_enc_address: "plain_address a \<Longrightarrow> length (enc_address p a) \<le> 257"
  by (cases a) (auto simp: enc_address_def)

lemma length_enc_address_port: "plain_address a \<Longrightarrow> length (enc_address_port s a port) \<le> 259"
  using length_enc_address [of a] by (cases s) (simp_all add: add.commute)

lemma unat_Family [simp]: "unat (Family a) < 16"
  by (cases a) (simp_all add: family_consts)

lemma family_index: "int (unat (Family a)) < 16"
  using unat_Family [of a] by linarith

lemma byte_256: "(256 :: u8) = 0"
  by (simp add: word_uint_eq_iff)

lemma domain_result_plain: "plain_address (domainAddress d) \<Longrightarrow> domain_result d = Some (Inr (Some (domainAddress d)))"
  using ParseAddress_total [of d] by (auto simp: domain_result_def go_index_def hd_conv_nth)

context byte_sink
begin

lemma writeAddress_ok:
  assumes "sound w" "plain_address a" "knows_family p a" "length (enc_address p a) \<le> free w"
  shows "\<exists>w'. writeAddress p wr w (Some a) = Some (None, w') \<and> sound w' \<and> held w' = held w @ enc_address p a \<and>
    free w' = free w - length (enc_address p a)"
proof -
  have i: "go_index (ap_addrByteMap p) (int (unat (Family a))) = Some (ap_addrByteMap p ! unat (Family a))"
    using assms(3) family_index [of a] by (simp add: go_index_def knows_family_def)
  let ?tb = "ap_addrByteMap p ! unat (Family a)"
  have "?tb \<noteq> afInvalid" using assms(3) by (simp add: knows_family_def)
  then obtain x y where "writeAddress p wr w (Some a) = Some (write2 wr w x y)" "enc_address p a = x @ y"
    using i assms(2) by (cases a) (auto simp: writeAddress_def enc_address_def isDomainTooLong_def intro: that)
  then show ?thesis using write2_ok [OF assms(1), of x y] assms(4) by auto
qed

lemma write_domain_256:
  assumes "sound w" "length d = 256" "260 \<le> free w" "length (ap_addrByteMap (parser_of s)) = 16"
    "ap_addrByteMap (parser_of s) ! unat AddressFamilyDomain \<noteq> afInvalid"
  defines "tb \<equiv> ap_addrByteMap (parser_of s) ! unat AddressFamilyDomain"
  shows "\<exists>w'. WriteAddressPort s wr w (Some (domainAddress d)) port = Some (None, w') \<and> held w' = held w @
    (case s of portFirstAddressParser p \<Rightarrow> put16 port @ tb # 0 # d | portLastAddressParser p \<Rightarrow> tb # 0 # d @ put16 port)"
proof -
  have a: "writeAddress (parser_of s) wr v (Some (domainAddress d)) = Some (write2 wr v [tb, 0] d)" for v
    using assms(2,4,5) by (simp add: writeAddress_def go_index_def isDomainTooLong_def tb_def family_consts byte_256)
  show ?thesis
  proof (cases s)
    case (portFirstAddressParser p)
    obtain w1 where w1: "wr w (put16 port) = (None, w1)" "sound w1" "held w1 = held w @ put16 port" "free w1 = free w - 2"
      using accept [of w "put16 port"] assms(1,3) by auto
    moreover have "258 \<le> free w1" using w1(4) assms(3) by simp
    ultimately show ?thesis
      using a [of w1] write2_ok [of w1 "[tb, 0]" d] assms(2,3) portFirstAddressParser
      by (auto simp: WriteAddressPort_def writePort_def WriteUint16_def)
  next
    case (portLastAddressParser p)
    obtain w1 where w1: "write2 wr w [tb, 0] d = (None, w1)" "sound w1" "held w1 = held w @ [tb, 0] @ d" "free w1 = free w - 258"
      using write2_ok [of w "[tb, 0]" d] assms(1-3) by auto
    moreover have "2 \<le> free w1" using w1(4) assms(3) by simp
    ultimately show ?thesis
      using a [of w] accept [of w1 "put16 port"] assms(3) portLastAddressParser
      by (auto simp: WriteAddressPort_def writePort_def WriteUint16_def)
  qed
qed

lemma WriteAddressPort_ok:
  assumes "sound w" "plain_address a" "knows_family (parser_of s) a" "length (enc_address_port s a port) \<le> free w"
  shows "\<exists>w'. WriteAddressPort s wr w (Some a) port = Some (None, w') \<and> sound w' \<and>
    held w' = held w @ enc_address_port s a port \<and> free w' = free w - length (enc_address_port s a port)"
proof (cases s)
  case (portFirstAddressParser p)
  then obtain w1 where w1: "writePort wr w port = (None, w1)" "sound w1" "held w1 = held w @ put16 port" "free w1 = free w - 2"
    using accept [of w "put16 port"] assms(1,4) by (auto simp: writePort_def WriteUint16_def)
  then show ?thesis
    using writeAddress_ok [of w1 a p] assms portFirstAddressParser by (auto simp: WriteAddressPort_def)
next
  case (portLastAddressParser p)
  then obtain w1 where w1: "writeAddress p wr w (Some a) = Some (None, w1)" "sound w1" "held w1 = held w @ enc_address p a"
      "free w1 = free w - length (enc_address p a)"
    using writeAddress_ok [of w a p] assms by auto
  then show ?thesis
    using accept [of w1 "put16 port"] assms portLastAddressParser
    by (auto simp: WriteAddressPort_def writePort_def WriteUint16_def)
qed

end

lemma put16_byte: "put16 (push_bit 8 (ucast (c :: u8)) OR ucast (d :: u8)) = [c, d]"
  by (auto simp: put16_def bit_eq_iff bit_simps dest: bit_imp_le_length)

context byte_source
begin

text \<open>Reading exactly \<open>d\<close> into a buffer with room, and looking at it.\<close>

lemma read_exact:
  assumes "good r" "buf_ok b" "content r = d @ rest" "length d \<le> room_of b" "length d \<le> fuel"
  shows "\<exists>b' r'. ReadFullFrom fuel rd r b (int (length d)) = Some (length d, None, b', r') \<and> good r' \<and> content r' = rest \<and>
    buf_ok b' \<and> contents b' = contents b @ d \<and> room_of b' = room_of b - length d"
  using ReadFullFrom_spec [OF assms(1,2,4,5)] assms(3) by (auto simp: min_def)

lemma readPort_ok:
  assumes "good r" "buf_ok b" "content r = put16 p @ rest" "2 \<le> room_of b" "2 \<le> fuel"
  shows "\<exists>b' r'. readPort fuel rd r b = Some (Inr p, b', r') \<and> good r' \<and> content r' = rest \<and>
    buf_ok b' \<and> contents b' = contents b @ put16 p \<and> room_of b' = room_of b - 2"
proof -
  obtain b' r' where *: "ReadFullFrom fuel rd r b 2 = Some (2, None, b', r')" "good r'" "content r' = rest"
      "buf_ok b'" "contents b' = contents b @ put16 p" "room_of b' = room_of b - 2"
    using read_exact [OF assms(1-3), of fuel] assms(4,5) by auto
  then have "BytesFrom b' (- 2) = Some (put16 p)" using BytesFrom_ok(2) [of b' 0 2] by simp
  then show ?thesis
    using * be_uint16_put16 [of p "[]"] by (simp add: readPort_def PortFromBytes_def del: be_uint16_put16)
qed

lemma readIP_ok:
  assumes "good r" "buf_ok b" "content r = ip @ rest" "ip \<noteq> []" "length ip \<le> room_of b" "length ip \<le> fuel"
  shows "\<exists>b' r'. readIP fuel rd r b (int (length ip)) = Some (Inr (IPAddress ip), b', r') \<and> good r' \<and> content r' = rest \<and>
    buf_ok b' \<and> contents b' = contents b @ ip \<and> room_of b' = room_of b - length ip"
proof -
  obtain b' r' where *: "ReadFullFrom fuel rd r b (int (length ip)) = Some (length ip, None, b', r')" "good r'" "content r' = rest"
      "buf_ok b'" "contents b' = contents b @ ip" "room_of b' = room_of b - length ip"
    using read_exact [OF assms(1-3,5,6)] by auto
  then have "BytesFrom b' (- int (length ip)) = Some ip" using BytesFrom_ok(2) [of b' 0 "length ip"] assms(4) by simp
  then show ?thesis using * by (simp add: readIP_def)
qed

lemma readDomain_ok:
  assumes "good r" "buf_ok b" "content r = of_nat (length d) # d @ rest" "d \<noteq> []" "length d \<le> 255" "length d < room_of b" "length d < fuel"
  shows "\<exists>b' r'. readDomain fuel rd r b = (do { res \<leftarrow> domain_result d; Some (res, b', r') }) \<and> good r' \<and> content r' = rest \<and>
    buf_ok b' \<and> contents b' = contents b @ of_nat (length d) # d \<and> room_of b' = room_of b - (length d + 1)"
proof -
  obtain b1 r1 where 1: "ReadFullFrom fuel rd r b 1 = Some (1, None, b1, r1)" "good r1" "content r1 = d @ rest"
      "buf_ok b1" "contents b1 = contents b @ [of_nat (length d)]" "room_of b1 = room_of b - 1"
    using read_exact [OF assms(1,2), of "[of_nat (length d)]" "d @ rest" fuel] assms by auto
  have room: "length d \<le> room_of b1" using 1(6) assms(6) by simp
  have len: "uint (of_nat (length d) :: u8) = int (length d)" using assms(5) by (simp add: unsigned_of_nat take_bit_nat_eq_self)
  have "Byte b1 (Len b1 - 1) = Some (of_nat (length d))" using Byte_ok [OF 1(4), of "length (contents b)"] 1(4,5) by simp
  moreover obtain b2 r2 where 2: "ReadFullFrom fuel rd r1 b1 (int (length d)) = Some (length d, None, b2, r2)" "good r2" "content r2 = rest"
      "buf_ok b2" "contents b2 = contents b1 @ d" "room_of b2 = room_of b1 - length d"
    using read_exact [OF 1(2,4,3), of fuel] room assms(7) by auto
  moreover have "BytesFrom b2 (- int (length d)) = Some d" using BytesFrom_ok(2) [of b2 0 "length d"] 2 assms(4) by simp
  ultimately show ?thesis using 1 len by (intro exI [of _ b2] exI [of _ r2]) (simp add: readDomain_def Let_def)
qed

lemma readAddress_ok:
  assumes "good r" "buf_ok b" "content r = enc_address p a @ rest" "plain_address a" "knows_family p a"
    "length (enc_address p a) \<le> room_of b" "length (enc_address p a) \<le> fuel"
  shows "\<exists>b' r'. readAddress fuel p rd r b = Some (Inr (Some a), b', r') \<and> good r' \<and> content r' = rest \<and>
    buf_ok b' \<and> contents b' = contents b @ enc_address p a \<and> room_of b' = room_of b - length (enc_address p a)"
proof -
  let ?tb = "ap_addrByteMap p ! unat (Family a)" and ?d = "tl (enc_address p a)"
  have e: "enc_address p a = ?tb # ?d" by (simp add: enc_address_def)
  have len: "length ?d < room_of b" "length ?d < fuel" using assms(6,7) e by (metis Suc_le_eq length_Cons)+
  obtain b1 r1 where 1: "ReadFullFrom fuel rd r b 1 = Some (1, None, b1, r1)" "good r1" "content r1 = ?d @ rest"
      "buf_ok b1" "contents b1 = contents b @ [?tb]" "room_of b1 = room_of b - 1"
    using read_exact [OF assms(1,2), of "[?tb]" "?d @ rest" fuel] assms(3) len e by (auto simp del: length_tl)
  have t: "Byte b1 (Len b1 - 1) = Some ?tb" using Byte_ok [OF 1(4), of "length (contents b)"] 1(4,5) by simp
  have f: "family_of p ?tb = Some (Family a)" using assms(5) by (simp add: knows_family_def)
  have room: "length ?d \<le> room_of b1" using len(1) 1(6) by linarith
  show ?thesis
  proof (cases "\<exists>d. a = domainAddress d")
    case True
    then obtain d where a: "a = domainAddress d" by blast
    then have d: "?d = of_nat (length d) # d" by (simp add: enc_address_def)
    have "length d < room_of b1" "length d < fuel" "d \<noteq> []" "length d \<le> 255" using room [unfolded d] len(2) [unfolded d] assms(4) [unfolded a] by auto
    then obtain b2 r2 where "readDomain fuel rd r1 b1 = do { res \<leftarrow> domain_result d; Some (res, b2, r2) }" "good r2" "content r2 = rest"
        "buf_ok b2" "contents b2 = contents b1 @ ?d" "room_of b2 = room_of b1 - length ?d"
      using readDomain_ok [OF 1(2,4), of d rest fuel] 1(3) [unfolded d] unfolding d by auto
    moreover have "readAddress fuel p rd r b = readDomain fuel rd r1 b1"
      using 1(1) t f a by (simp add: readAddress_def family_consts)
    ultimately show ?thesis
      using 1(5,6) domain_result_plain [of d] assms(4) a by (subst (1 2) e) simp
  next
    case False
    then obtain ip where ip: "IP a = Some ip" "?d = ip" by (cases a) (auto simp: enc_address_def)
    have n: "length ip = (if Family a = AddressFamilyIPv4 then 4 else 16)" "ip \<noteq> []" "IPAddress ip = Some a"
      using ip(1) assms(4) False IPAddress_IP [of a ip] by (cases a; force simp: family_consts)+
    obtain b2 r2 where "readIP fuel rd r1 b1 (int (length ip)) = Some (Inr (IPAddress ip), b2, r2)" "good r2" "content r2 = rest"
        "buf_ok b2" "contents b2 = contents b1 @ ip" "room_of b2 = room_of b1 - length ip"
      using readIP_ok [OF 1(2,4), of ip rest fuel] 1(3) room len(2) n(2) unfolding ip(2) by auto
    moreover have "readAddress fuel p rd r b = readIP fuel rd r1 b1 (int (length ip))"
      using 1(1) t f n(1) False by (cases a) (simp_all add: readAddress_def family_consts)
    ultimately show ?thesis
      using 1(5,6) n(3) ip(2) by (subst (1 2) e) simp
  qed
qed

lemma ReadAddressPort_ok:
  assumes "good r" "content r = enc_address_port s a port @ rest" "plain_address a" "knows_family (parser_of s) a"
    "259 \<le> fuel" "length arr < 2 ^ 31"
  shows "\<exists>b' r'. ReadAddressPort fuel arr s None rd r = Some (Inr (Some a, port), b', r') \<and> good r' \<and> content r' = rest"
proof -
  have b: "buf_ok (New arr)" "room_of (New arr) = 8192" using assms(6) by simp_all
  have len: "length (enc_address (parser_of s) a) \<le> 257" using length_enc_address assms(3) by blast
  show ?thesis
  proof (cases s)
    case (portFirstAddressParser p)
    then obtain b1 r1 where 1: "readPort fuel rd r (New arr) = Some (Inr port, b1, r1)" "good r1" "content r1 = enc_address p a @ rest"
        "buf_ok b1" "room_of b1 = 8190"
      using readPort_ok [OF assms(1) b(1), of port "enc_address p a @ rest" fuel] assms(2,5) b(2) by auto
    then obtain b2 r2 where "readAddress fuel p rd r1 b1 = Some (Inr (Some a), b2, r2)" "good r2" "content r2 = rest"
      using readAddress_ok [OF 1(2,4), of p a rest fuel] assms(3-5) len portFirstAddressParser by auto
    then show ?thesis using 1(1) portFirstAddressParser by (simp add: ReadAddressPort_def)
  next
    case (portLastAddressParser p)
    then obtain b1 r1 where 1: "readAddress fuel p rd r (New arr) = Some (Inr (Some a), b1, r1)" "good r1" "content r1 = put16 port @ rest"
        "buf_ok b1" "room_of b1 = 8192 - length (enc_address p a)"
      using readAddress_ok [OF assms(1) b(1), of p a "put16 port @ rest" fuel] assms(2-5) len b(2) by auto
    have room: "2 \<le> room_of b1" using 1(5) len portLastAddressParser by simp
    then obtain b2 r2 where "readPort fuel rd r1 b1 = Some (Inr port, b2, r2)" "good r2" "content r2 = rest"
      using readPort_ok [OF 1(2,4,3), of fuel] assms(5) room by auto
    then show ?thesis using 1(1) portLastAddressParser by (simp add: ReadAddressPort_def)
  qed
qed

end

text \<open>A domain of length zero: \<^verbatim>\<open>BytesFrom(-0)\<close> is the whole buffer, not its empty end.\<close>

lemma domain_result_total:
  assumes "d \<noteq> []"
  shows "\<exists>res. domain_result d = Some res \<and> (\<forall>x. res = Inr (Some (domainAddress x)) \<longrightarrow> x = d)"
proof -
  obtain a where a: "ParseAddress d = Some a" using ParseAddress_total by blast
  have "\<not> IsIP (Family (domainAddress x))" for x by (simp add: IsIP_def family_consts)
  then show ?thesis
    using assms a by (auto simp: domain_result_def go_index_def)
qed

context byte_source
begin

lemma readAddress_zero:
  assumes "good r" "buf_ok b" "content r = tb # 0 # rest" "family_of p tb = Some AddressFamilyDomain" "2 \<le> room_of b" "2 \<le> fuel"
  shows "\<exists>res b' r'. readAddress fuel p rd r b = Some (res, b', r') \<and> good r' \<and> content r' = rest \<and> buf_ok b' \<and>
    room_of b' = room_of b - 2 \<and> (\<forall>x. res = Inr (Some (domainAddress x)) \<longrightarrow> length x = length (contents b) + 2)"
proof -
  obtain b1 r1 where 1: "ReadFullFrom fuel rd r b 1 = Some (1, None, b1, r1)" "good r1" "content r1 = 0 # rest"
      "buf_ok b1" "contents b1 = contents b @ [tb]" "room_of b1 = room_of b - 1"
    using read_exact [OF assms(1,2), of "[tb]" "0 # rest" fuel] assms by auto
  have room: "1 \<le> room_of b1" using 1(6) assms(5) by simp
  obtain b2 r2 where 2: "ReadFullFrom fuel rd r1 b1 1 = Some (1, None, b2, r2)" "good r2" "content r2 = rest"
      "buf_ok b2" "contents b2 = contents b @ [tb, 0]" "room_of b2 = room_of b - 2"
    using read_exact [OF 1(2,4), of "[0]" rest fuel] 1 room assms(6) by auto
  obtain b3 r3 where 3: "ReadFullFrom fuel rd r2 b2 0 = Some (0, None, b3, r3)" "good r3" "content r3 = rest"
      "buf_ok b3" "contents b3 = contents b @ [tb, 0]" "room_of b3 = room_of b - 2"
    using read_exact [OF 2(2,4), of "[]" rest fuel] 2 by auto
  have t: "Byte b1 (Len b1 - 1) = Some tb" "Byte b2 (Len b2 - 1) = Some 0"
    using Byte_ok [OF 1(4), of "length (contents b)"] Byte_ok [OF 2(4), of "length (contents b) + 1"] 1(4,5) 2(4,5)
    by (auto simp: nth_append)
  have "BytesFrom b3 0 = Some (contents b @ [tb, 0])" using BytesFrom_ok(1) [OF 3(4), of 0] 3(5) by simp
  moreover obtain res where res: "domain_result (contents b @ [tb, 0]) = Some res"
      "\<forall>x. res = Inr (Some (domainAddress x)) \<longrightarrow> x = contents b @ [tb, 0]"
    using domain_result_total [of "contents b @ [tb, 0]"] by auto
  ultimately have "readAddress fuel p rd r b = Some (res, b3, r3)"
    using 1(1) 2(1) 3(1) t assms(4) by (simp add: readAddress_def readDomain_def Let_def family_consts)
  moreover have "\<forall>x. res = Inr (Some (domainAddress x)) \<longrightarrow> length x = length (contents b) + 2"
    using res(2) by (metis length_append length_Cons list.size(3) numeral_2_eq_2)
  ultimately show ?thesis using 3(2,3,4,6) by blast
qed

end

section \<open>The configured serialisers\<close>

lemma replicate_16: "replicate 16 x = [x, x, x, x, x, x, x, x, x, x, x, x, x, x, x, x]"
  by (simp add: numeral_eq_Suc)

lemma byte_bounds: "\<not> (16 :: u8) \<le> 1" "\<not> (16 :: u8) \<le> 0"
  by (simp_all add: word_le_nat_alt)

lemmas configured_defs = byte_bounds NewAddressParser_def mux_options_def socks_options_def shadowsocks_options_def
  family_consts afInvalid_def replicate_16

lemma NewAddressParser_mux:
  "\<exists>s. NewAddressParser mux_options = Some s \<and> knows_family (parser_of s) a"
  by (cases a) (simp_all add: configured_defs knows_family_def family_of_def)

lemma NewAddressParser_socks:
  "\<exists>s. NewAddressParser socks_options = Some s \<and> knows_family (parser_of s) a"
  by (cases a) (simp_all add: configured_defs knows_family_def family_of_def)

lemma NewAddressParser_shadowsocks:
  "\<exists>s. NewAddressParser shadowsocks_options = Some s \<and> knows_family (parser_of s) a"
  by (cases a) (simp_all add: configured_defs knows_family_def family_of_def)

lemma configured_knows:
  "opts \<in> {mux_options, socks_options, shadowsocks_options} \<Longrightarrow> NewAddressParser opts = Some s \<Longrightarrow> knows_family (parser_of s) a"
  using NewAddressParser_mux [of a] NewAddressParser_socks [of a] NewAddressParser_shadowsocks [of a] by auto

text \<open>
  C29. Addresses survive the wire. For each serialiser the protocols configure, every IP address and every
  domain of 1 to 255 valid characters that is not the text of an IP address, with any port: writing it into
  a buffer with room succeeds, and reading from the bytes written, followed by anything, gives the
  address and the port back and consumes exactly what was written.
\<close>

theorem address_roundtrip:
  assumes "opts \<in> {mux_options, socks_options, shadowsocks_options}" "NewAddressParser opts = Some s" "plain_address a"
    "buf_ok b" "259 \<le> room_of b" "contents b = []" "259 \<le> fuel" "length arr < 2 ^ 31"
  shows "\<exists>b' t. WriteAddressPort s Buffer_writer b (Some a) port = Some (None, b') \<and>
    ReadAddressPort fuel arr s None bytes_reader (contents b' @ rest) = Some (Inr (Some a, port), t, rest)"
proof -
  have k: "knows_family (parser_of s) a" using configured_knows [OF assms(1,2)] .
  have "length (enc_address_port s a port) \<le> room_of b" using length_enc_address_port [OF assms(3), of s port] assms(5) by linarith
  then obtain b' where b': "WriteAddressPort s Buffer_writer b (Some a) port = Some (None, b')" "contents b' = enc_address_port s a port"
    using buffer_sink.WriteAddressPort_ok [of b "UDP b" "bstart b" "length (bv b)", OF _ assms(3) k] assms(4,6) by auto
  then show ?thesis
    using bytes_src.ReadAddressPort_ok [OF _ _ assms(3) k assms(7,8), of "contents b' @ rest" port rest] by auto
qed

theorem address_roundtrip_witness:
  "\<exists>s b' t. NewAddressParser mux_options = Some s \<and>
    WriteAddressPort s Buffer_writer (New []) (Some (domainAddress [97, 46, 98])) 443 = Some (None, b') \<and>
    ReadAddressPort 300 [] s None bytes_reader (contents b' @ [9]) = Some (Inr (Some (domainAddress [97, 46, 98]), 443), t, [9])"
proof -
  obtain s where s: "NewAddressParser mux_options = Some s" using NewAddressParser_mux by blast
  have "plain_address (domainAddress [97, 46, 98])" by (simp add: isValidDomain_def isAlphaNum_def maybeIPPrefix_def is_digit_def is_lower_def)
  then show ?thesis using address_roundtrip [OF _ s, of "domainAddress [97, 46, 98]" "New []" 300 "[]" 443 "[9]"] s by auto
qed

lemma ReadAddressPort_zero:
  assumes "family_of (parser_of s) tb = Some AddressFamilyDomain" "length arr < 2 ^ 31"
    "enc = (case s of portFirstAddressParser p \<Rightarrow> put16 port @ tb # 0 # rest | portLastAddressParser p \<Rightarrow> tb # 0 # rest @ put16 port)"
    "2 \<le> length rest"
  shows "\<exists>res t r'. ReadAddressPort 300 arr s None bytes_reader enc = Some (res, t, r') \<and>
    (\<forall>x q. res = Inr (Some (domainAddress x), q) \<longrightarrow> length x \<le> 4)"
proof -
  have b: "buf_ok (New arr)" "room_of (New arr) = 8192" using assms(2) by simp_all
  show ?thesis
  proof (cases s)
    case (portFirstAddressParser p)
    then obtain b1 r1 where 1: "readPort 300 bytes_reader enc (New arr) = Some (Inr port, b1, r1)" "r1 = tb # 0 # rest"
        "buf_ok b1" "contents b1 = put16 port" "room_of b1 = 8190"
      using bytes_src.readPort_ok [OF _ b(1), of enc port "tb # 0 # rest" 300] assms(3) b(2) by auto
    then obtain res b2 r2 where "readAddress 300 p bytes_reader r1 b1 = Some (res, b2, r2)"
        "\<forall>x. res = Inr (Some (domainAddress x)) \<longrightarrow> length x = 4"
      using bytes_src.readAddress_zero [OF _ 1(3), of r1 tb rest p 300] assms(1) portFirstAddressParser by auto
    then show ?thesis using 1(1) portFirstAddressParser by (cases res) (auto simp: ReadAddressPort_def)
  next
    case (portLastAddressParser p)
    then obtain res b1 r1 where 1: "readAddress 300 p bytes_reader enc (New arr) = Some (res, b1, r1)" "r1 = rest @ put16 port"
        "buf_ok b1" "room_of b1 = 8190" "\<forall>x. res = Inr (Some (domainAddress x)) \<longrightarrow> length x = 2"
      using bytes_src.readAddress_zero [OF _ b(1), of enc tb "rest @ put16 port" p 300] assms(1,3) b(2) by auto
    obtain q rest' where q: "r1 = put16 q @ rest'"
    proof (cases rest rule: be_uint16.cases)
      case (1 x y rest')
      then have "r1 = put16 (push_bit 8 (ucast x) OR ucast y) @ rest' @ put16 port" using \<open>r1 = _\<close> by (simp add: put16_byte)
      then show ?thesis by (rule that)
    qed (use assms(4) in auto)
    then obtain b2 r2 where "readPort 300 bytes_reader r1 b1 = Some (Inr q, b2, r2)"
      using bytes_src.readPort_ok [OF _ 1(3) q, of 300] 1(4) by auto
    then show ?thesis using 1(1,5) portLastAddressParser by (cases res) (auto simp: ReadAddressPort_def)
  qed
qed



end
