(* ===== verification/Xray_MuxFrame.thy ===== *)
theory Xray_MuxFrame
  imports Xray_Address Xray_MultiBuffer
begin

text \<open>
  Frames of the multiplexer (\<^verbatim>\<open>xray-core/common/mux/frame.go\<close>, with \<^verbatim>\<open>common/bitmask\<close> and
  \<^verbatim>\<open>ReadUint16\<close> of \<^verbatim>\<open>common/serial\<close>): the metadata of a frame, its writing into a buffer and its
  reading from a stream. The lemmas show that a frame survives the wire.
\<close>

section \<open>Bit masks and integers\<close>

definition Bitmask_Has :: "u8 \<Rightarrow> u8 \<Rightarrow> bool" where "Bitmask_Has b bb \<longleftrightarrow> b AND bb \<noteq> 0"
definition Bitmask_Set :: "u8 \<Rightarrow> u8 \<Rightarrow> u8" where "Bitmask_Set b bb = b OR bb"
definition Bitmask_Clear :: "u8 \<Rightarrow> u8 \<Rightarrow> u8" where "Bitmask_Clear b bb = b AND NOT bb"
definition Bitmask_Toggle :: "u8 \<Rightarrow> u8 \<Rightarrow> u8" where "Bitmask_Toggle b bb = b XOR bb"

definition ReadUint16 :: "nat \<Rightarrow> 'r reader \<Rightarrow> 'r \<Rightarrow> ((go_error + u16) \<times> 'r) option" where
  "ReadUint16 fuel rd r = do {
     (p, n, e, r') \<leftarrow> ReadFull fuel rd r [0, 0];
     case e of
       Some er \<Rightarrow> Some (Inl er, r')
     | None \<Rightarrow> do { v \<leftarrow> be_uint16 p; Some (Inr v, r') } }"

section \<open>Metadata\<close>

definition SessionStatusNew :: u8 where "SessionStatusNew = 1"
definition SessionStatusKeep :: u8 where "SessionStatusKeep = 2"
definition SessionStatusEnd :: u8 where "SessionStatusEnd = 3"
definition SessionStatusKeepAlive :: u8 where "SessionStatusKeepAlive = 4"
definition OptionData :: u8 where "OptionData = 1"
definition OptionError :: u8 where "OptionError = 2"
definition TargetNetworkTCP :: u8 where "TargetNetworkTCP = 1"
definition TargetNetworkUDP :: u8 where "TargetNetworkUDP = 2"

lemmas mux_consts = SessionStatusNew_def SessionStatusKeep_def SessionStatusEnd_def SessionStatusKeepAlive_def
  OptionData_def OptionError_def TargetNetworkTCP_def TargetNetworkUDP_def

definition addrParser :: AddressSerializer where
  "addrParser = the (NewAddressParser mux_options)"

text \<open>Of \<^verbatim>\<open>session.Inbound\<close>, the two destinations a frame carries.\<close>

record Inbound =
  ib_Source :: Destination
  ib_Local :: Destination

definition zero_Inbound :: Inbound where
  "zero_Inbound = \<lparr>ib_Source = zero_Destination, ib_Local = zero_Destination\<rparr>"

record FrameMetadata =
  fm_Target :: Destination
  fm_SessionID :: u16
  fm_Option :: u8
  fm_SessionStatus :: u8
  fm_GlobalID :: bytes
  fm_Inbound :: "Inbound option"

definition zero_FrameMetadata :: FrameMetadata where
  "zero_FrameMetadata = \<lparr>fm_Target = zero_Destination, fm_SessionID = 0, fm_Option = 0, fm_SessionStatus = 0,
     fm_GlobalID = replicate 8 0, fm_Inbound = None\<rparr>"

section \<open>Writing\<close>

text \<open>\<^verbatim>\<open>common.Must(b.WriteByte(v))\<close>: it panics when the buffer is full.\<close>

definition must_byte :: "u8 \<Rightarrow> Buffer \<Rightarrow> Buffer option" where
  "must_byte v b = do { (e, b') \<leftarrow> WriteByte b v; if e = None then Some b' else None }"

text \<open>The byte of a TCP or UDP network: its number in the enumeration, less one.\<close>

definition is_tcp_udp :: "Network \<Rightarrow> bool" where
  "is_tcp_udp n \<longleftrightarrow> n = Network_TCP \<or> n = Network_UDP"

fun network_byte :: "Network \<Rightarrow> u8" where
  "network_byte Network_UDP = 2"
| "network_byte _ = 1"

definition write_dest :: "Destination \<Rightarrow> Buffer \<Rightarrow> (err \<times> Buffer) option" where
  "write_dest d b = WriteAddressPort addrParser Buffer_writer b (Dest_Address d) (Dest_Port d)"

definition write_inbound :: "Inbound \<Rightarrow> Buffer \<Rightarrow> (err \<times> Buffer) option" where
  "write_inbound ib b =
     (if \<not> is_tcp_udp (Dest_Network (ib_Source ib)) then Some (None, b)
      else do {
        b1 \<leftarrow> must_byte (network_byte (Dest_Network (ib_Source ib))) b;
        (e, b2) \<leftarrow> write_dest (ib_Source ib) b1;
        if e \<noteq> None then Some (e, b2)
        else if \<not> is_tcp_udp (Dest_Network (ib_Local ib)) then Some (None, b2)
        else do {
          b3 \<leftarrow> must_byte (network_byte (Dest_Network (ib_Local ib))) b2;
          write_dest (ib_Local ib) b3 } })"

definition write_new :: "FrameMetadata \<Rightarrow> Buffer \<Rightarrow> (err \<times> Buffer) option" where
  "write_new f b = do {
     b1 \<leftarrow> (if is_tcp_udp (Dest_Network (fm_Target f)) then must_byte (network_byte (Dest_Network (fm_Target f))) b else Some b);
     (e, b2) \<leftarrow> write_dest (fm_Target f) b1;
     if e \<noteq> None then Some (e, b2)
     else case fm_Inbound f of
       Some ib \<Rightarrow> write_inbound ib b2
     | None \<Rightarrow> (if UDP b2 \<noteq> None then do { (n, e, b3) \<leftarrow> Write b2 (fm_GlobalID f); Some (None, b3) } else Some (None, b2)) }"

text \<open>A later frame of a UDP packet: the errors of the two writes are not looked at.\<close>

definition write_keep :: "Buffer \<Rightarrow> (err \<times> Buffer) option" where
  "write_keep b =
     (case UDP b of
        None \<Rightarrow> Some (None, b)
      | Some d \<Rightarrow> do {
          (e1, b1) \<leftarrow> WriteByte b TargetNetworkUDP;
          (e2, b2) \<leftarrow> write_dest d b1;
          Some (None, b2) })"

definition WriteTo :: "FrameMetadata \<Rightarrow> Buffer \<Rightarrow> (err \<times> Buffer) option" where
  "WriteTo f b = do {
     ((lo, hi), b1) \<leftarrow> Extend b 2;
     let len0 = Len b1;
     ((slo, shi), b2) \<leftarrow> Extend b1 2;
     let b3 = store slo (put16 (fm_SessionID f)) b2;
     b4 \<leftarrow> must_byte (fm_SessionStatus f) b3;
     b5 \<leftarrow> must_byte (fm_Option f) b4;
     (e, b6) \<leftarrow> (if fm_SessionStatus f = SessionStatusNew then write_new f b5 else write_keep b5);
     if e \<noteq> None then Some (e, b6)
     else Some (None, store lo (put16 (of_int (Len b6 - len0))) b6) }"

section \<open>Reading\<close>

text \<open>The \<^verbatim>\<open>switch\<close> on the network byte.\<close>

definition dest_of :: "u8 \<Rightarrow> Address option \<Rightarrow> u16 \<Rightarrow> Destination option" where
  "dest_of network addr port =
     (if network = TargetNetworkTCP then Some (TCPDestination addr port)
      else if network = TargetNetworkUDP then Some (UDPDestination addr port)
      else None)"

text \<open>
  Reading one of the destinations of a frame from \<open>b\<close>, after its network byte: \<open>pre\<close> starts the error
  messages.
\<close>

definition read_dest :: "nat \<Rightarrow> bytes \<Rightarrow> string \<Rightarrow> u8 \<Rightarrow> Buffer \<Rightarrow> ((go_error + Destination) \<times> Buffer) option" where
  "read_dest fuel arr pre network b = do {
     (res, t, b1) \<leftarrow> ReadAddressPort fuel arr addrParser None Buffer_reader b;
     case res of
       Inl er \<Rightarrow> Some (Inl (BaseError (pre @ ''failed to parse address and port'') er), b1)
     | Inr (addr, port) \<Rightarrow>
         (case dest_of network addr port of
            None \<Rightarrow> Some (Inl (NewError (pre @ ''unknown network type: '')), b1)
          | Some d \<Rightarrow> Some (Inr d, b1)) }"

definition read_local :: "nat \<Rightarrow> (nat \<Rightarrow> bytes) \<Rightarrow> FrameMetadata \<Rightarrow> Inbound \<Rightarrow> Buffer \<Rightarrow> (err \<times> FrameMetadata \<times> Buffer) option" where
  "read_local fuel pool f ib b =
     (let f1 = f\<lparr>fm_Inbound := Some ib\<rparr> in
      if Len b = 0 then Some (None, f1, b)
      else do {
        network \<leftarrow> Byte b 0;
        if network = 0 then Some (None, f1, b)
        else do {
          (res, b1) \<leftarrow> read_dest fuel (pool 2) ''reading local: '' network (Advance b 1);
          case res of
            Inl er \<Rightarrow> Some (Some er, f1, b1)
          | Inr d \<Rightarrow> Some (None, f\<lparr>fm_Inbound := Some (ib\<lparr>ib_Local := d\<rparr>)\<rparr>, b1) } })"

definition read_inbound :: "nat \<Rightarrow> (nat \<Rightarrow> bytes) \<Rightarrow> FrameMetadata \<Rightarrow> Buffer \<Rightarrow> (err \<times> FrameMetadata \<times> Buffer) option" where
  "read_inbound fuel pool f b =
     (let f1 = f\<lparr>fm_Inbound := Some zero_Inbound\<rparr> in
      if Len b = 0 then Some (None, f1, b)
      else do {
        network \<leftarrow> Byte b 0;
        if network = 0 then Some (None, f1, b)
        else do {
          (res, b1) \<leftarrow> read_dest fuel (pool 1) ''reading source: '' network (Advance b 1);
          case res of
            Inl er \<Rightarrow> Some (Some er, f1, b1)
          | Inr d \<Rightarrow> read_local fuel pool f (zero_Inbound\<lparr>ib_Source := d\<rparr>) b1 } })"

text \<open>What \<^verbatim>\<open>UnmarshalFromBuffer\<close> does after the target.\<close>

definition read_tail :: "nat \<Rightarrow> (nat \<Rightarrow> bytes) \<Rightarrow> bool \<Rightarrow> FrameMetadata \<Rightarrow> Buffer \<Rightarrow> (err \<times> FrameMetadata \<times> Buffer) option" where
  "read_tail fuel pool readSourceAndLocal f b =
     (if fm_SessionStatus f = SessionStatusNew \<and> readSourceAndLocal then read_inbound fuel pool f b
      else if fm_SessionStatus f = SessionStatusNew \<and> Bitmask_Has (fm_Option f) OptionData \<and>
           Dest_Network (fm_Target f) = Network_UDP \<and> Len b \<ge> 8 then do {
        bs \<leftarrow> Bytes b;
        Some (None, f\<lparr>fm_GlobalID := overwrite (fm_GlobalID f) 0 bs\<rparr>, b) }
      else Some (None, f, b))"

definition UnmarshalFromBuffer :: "nat \<Rightarrow> (nat \<Rightarrow> bytes) \<Rightarrow> Buffer \<Rightarrow> bool \<Rightarrow> FrameMetadata \<Rightarrow> (err \<times> FrameMetadata \<times> Buffer) option" where
  "UnmarshalFromBuffer fuel pool b readSourceAndLocal f0 =
     (if Len b < 4 then Some (Some (NewError ''insufficient buffer: ''), f0, b)
      else do {
        hd2 \<leftarrow> BytesTo b 2;
        sid \<leftarrow> be_uint16 hd2;
        status \<leftarrow> Byte b 2;
        opt \<leftarrow> Byte b 3;
        let f = f0\<lparr>fm_SessionID := sid, fm_SessionStatus := status, fm_Option := opt,
                  fm_Target := (fm_Target f0)\<lparr>Dest_Network := Network_Unknown\<rparr>\<rparr>;
        target \<leftarrow> (if status = SessionStatusNew then Some True
                  else if status = SessionStatusKeep \<and> Len b > 4 then do { n \<leftarrow> Byte b 4; Some (n = TargetNetworkUDP) }
                  else Some False);
        if \<not> target then read_tail fuel pool readSourceAndLocal f b
        else if Len b < 8 then Some (Some (NewError ''insufficient buffer: ''), f, b)
        else do {
          network \<leftarrow> Byte b 4;
          (res, b1) \<leftarrow> read_dest fuel (pool 0) [] network (Advance b 5);
          case res of
            Inl er \<Rightarrow> Some (Some er, f, b1)
          | Inr d \<Rightarrow> read_tail fuel pool readSourceAndLocal (f\<lparr>fm_Target := d\<rparr>) b1 } })"

definition Unmarshal :: "nat \<Rightarrow> (nat \<Rightarrow> bytes) \<Rightarrow> 'r reader \<Rightarrow> 'r \<Rightarrow> bool \<Rightarrow> FrameMetadata \<Rightarrow> (err \<times> FrameMetadata \<times> 'r) option" where
  "Unmarshal fuel pool rd r readSourceAndLocal f = do {
     (res, r1) \<leftarrow> ReadUint16 fuel rd r;
     case res of
       Inl er \<Rightarrow> Some (Some er, f, r1)
     | Inr metaLen \<Rightarrow>
         if metaLen > 512 then Some (Some (NewError ''invalid metalen ''), f, r1)
         else do {
           (n, e, b, r2) \<leftarrow> ReadFullFrom fuel rd r1 (New (pool 3)) (int (unat metaLen));
           case e of
             Some er \<Rightarrow> Some (Some er, f, r2)
           | None \<Rightarrow> do {
               (e, f', b') \<leftarrow> UnmarshalFromBuffer fuel pool b readSourceAndLocal f;
               Some (e, f', r2) } } }"

section \<open>Appending to a buffer\<close>

text \<open>\<open>b'\<close> is \<open>b\<close> with \<open>d\<close> appended in place.\<close>

definition grown :: "Buffer \<Rightarrow> bytes \<Rightarrow> Buffer \<Rightarrow> bool" where
  "grown b d b' \<longleftrightarrow> buf_ok b' \<and> contents b' = contents b @ d \<and> room_of b = room_of b' + length d \<and> UDP b' = UDP b \<and>
     bstart b' = bstart b"

lemma grown_trans: "grown a x b \<Longrightarrow> grown b y c \<Longrightarrow> grown a (x @ y) c"
  by (auto simp: grown_def)

lemma grown_refl: "buf_ok b \<Longrightarrow> grown b [] b"
  by (simp add: grown_def)

lemma must_byte_grown: "buf_ok b \<Longrightarrow> 0 < room_of b \<Longrightarrow> \<exists>b'. must_byte v b = Some b' \<and> WriteByte b v = Some (None, b') \<and> grown b [v] b'"
  using WriteByte_ok [of b v] by (auto simp: must_byte_def grown_def WriteByte_def Let_def split: if_splits bind_splits)

lemma Extend_grown:
  assumes "buf_ok b" "n \<le> room_of b"
  shows "\<exists>b' hi. Extend b (int n) = Some ((nat (bend b), hi), b') \<and> grown b (replicate n 0) b'"
  using Extend_ok [OF assms] assms(2) by (auto simp: grown_def)

lemma Write_grown: "buf_ok b \<Longrightarrow> length d \<le> room_of b \<Longrightarrow> \<exists>b'. Write b d = Some (length d, None, b') \<and> grown b d b'"
  unfolding grown_def using Write_fits [of b d] Write_bstart by fastforce

text \<open>Storing over a part of the content.\<close>

lemma store_contents:
  assumes "buf_ok b" "contents b = x @ y @ z" "length d = length y" "lo = nat (bstart b) + length x"
  shows "buf_ok (store lo d b)" "contents (store lo d b) = x @ d @ z" "room_of (store lo d b) = room_of b"
proof -
  obtain s e where b: "bstart b = int s" "bend b = int e" "s \<le> e" "e \<le> length (bv b)"
    "length (bv b) + length (spare b) < 2147483648" "length (bv b) < 2147483648"
    using assms(1) by (rule buf_okE)
  have c: "contents b = take (e - s) (drop s (bv b))" using b by (simp add: contents_def take_drop)
  have len: "length (contents b) = e - s" using b c by simp
  have lo: "lo = s + length x" "lo + length d \<le> e" using assms(2-4) b len by auto
  show "buf_ok (store lo d b)" "room_of (store lo d b) = room_of b"
    using assms(1) lo b by (auto simp: buf_ok_def room_of_def)
  have "contents (store lo d b) = take (e - s) (drop s (overwrite (bv b) lo d))"
    using b by (simp add: contents_def take_drop)
  also have "\<dots> = overwrite (contents b) (length x) d"
    unfolding c by (rule nth_equalityI) (use lo b in \<open>auto simp: nth_overwrite\<close>)
  also have "\<dots> = x @ d @ z" using assms(2,3) by (simp add: overwrite_def)
  finally show "contents (store lo d b) = x @ d @ z" .
qed

lemma grown_store:
  assumes "grown b (x @ y @ z) b'" "buf_ok b" "length d = length y" "lo = nat (bend b) + length x"
  shows "grown b (x @ d @ z) (store lo d b')"
proof -
  have "nat (bend b) = nat (bstart b) + length (contents b)" using assms(2) by (elim buf_okE) (simp add: contents_def)
  then show ?thesis
    using store_contents [of b' "contents b @ x" y z d lo] assms by (auto simp: grown_def)
qed

section \<open>The encoding of a frame\<close>

definition dest_ok :: "Destination \<Rightarrow> bool" where
  "dest_ok d \<longleftrightarrow> (\<exists>a. Dest_Address d = Some a \<and> plain_address a)"

definition enc_target :: "Destination \<Rightarrow> bytes" where
  "enc_target d = enc_address_port addrParser (the (Dest_Address d)) (Dest_Port d)"

definition enc_dest :: "Destination \<Rightarrow> bytes" where
  "enc_dest d = network_byte (Dest_Network d) # enc_target d"

definition enc_inbound :: "Inbound \<Rightarrow> bytes" where
  "enc_inbound ib =
     (if is_tcp_udp (Dest_Network (ib_Source ib))
      then enc_dest (ib_Source ib) @ (if is_tcp_udp (Dest_Network (ib_Local ib)) then enc_dest (ib_Local ib) else [])
      else [])"

definition inbound_ok :: "Inbound \<Rightarrow> bool" where
  "inbound_ok ib \<longleftrightarrow> (is_tcp_udp (Dest_Network (ib_Source ib)) \<longrightarrow> dest_ok (ib_Source ib)) \<and>
     (is_tcp_udp (Dest_Network (ib_Local ib)) \<longrightarrow> dest_ok (ib_Local ib))"

definition frame_tail :: "FrameMetadata \<Rightarrow> Destination option \<Rightarrow> bytes" where
  "frame_tail f u =
     (if fm_SessionStatus f = SessionStatusNew then
        enc_dest (fm_Target f) @
        (case fm_Inbound f of Some ib \<Rightarrow> enc_inbound ib | None \<Rightarrow> if u \<noteq> None then fm_GlobalID f else [])
      else case u of None \<Rightarrow> [] | Some d \<Rightarrow> TargetNetworkUDP # enc_target d)"

definition frame_body :: "FrameMetadata \<Rightarrow> Destination option \<Rightarrow> bytes" where
  "frame_body f u = put16 (fm_SessionID f) @ [fm_SessionStatus f, fm_Option f] @ frame_tail f u"

definition enc_frame :: "FrameMetadata \<Rightarrow> Destination option \<Rightarrow> bytes" where
  "enc_frame f u = put16 (of_nat (length (frame_body f u))) @ frame_body f u"

text \<open>The frames the multiplexer builds; \<open>u\<close> is the UDP destination attached to the buffer.\<close>

definition frame_ok :: "FrameMetadata \<Rightarrow> Destination option \<Rightarrow> bool" where
  "frame_ok f u \<longleftrightarrow> length (fm_GlobalID f) = 8 \<and> length (frame_body f u) \<le> 512 \<and>
     (if fm_SessionStatus f = SessionStatusNew
      then is_tcp_udp (Dest_Network (fm_Target f)) \<and> dest_ok (fm_Target f) \<and> (\<forall>ib. fm_Inbound f = Some ib \<longrightarrow> inbound_ok ib)
      else (\<forall>d. u = Some d \<longrightarrow> dest_ok d))"

lemma addrParser_knows [simp]: "knows_family (parser_of addrParser) a"
  using NewAddressParser_mux [of a] by (auto simp: addrParser_def)

lemma write_dest_grown:
  assumes "buf_ok b" "dest_ok d" "length (enc_target d) \<le> room_of b"
  shows "\<exists>b'. write_dest d b = Some (None, b') \<and> grown b (enc_target d) b'"
proof -
  obtain a where a: "Dest_Address d = Some a" "plain_address a" using assms(2) by (auto simp: dest_ok_def)
  then show ?thesis
    using buffer_sink.WriteAddressPort_ok [of b "UDP b" "bstart b" "length (bv b)", OF _ a(2) addrParser_knows, of "Dest_Port d"] assms
    by (auto simp: write_dest_def enc_target_def grown_def)
qed

text \<open>A network byte and a destination.\<close>

lemma write_net_dest_grown:
  assumes "buf_ok b" "dest_ok d" "Suc (length (enc_target d)) \<le> room_of b"
  shows "\<exists>b1 b2. must_byte v b = Some b1 \<and> WriteByte b v = Some (None, b1) \<and> write_dest d b1 = Some (None, b2) \<and> grown b (v # enc_target d) b2"
proof -
  obtain b1 where b1: "must_byte v b = Some b1" "WriteByte b v = Some (None, b1)" "grown b [v] b1"
    using must_byte_grown [of b v] assms by auto
  then obtain b2 where "write_dest d b1 = Some (None, b2)" "grown b1 (enc_target d) b2"
    using write_dest_grown [of b1 d] assms(2,3) by (auto simp: grown_def)
  then show ?thesis using grown_trans [OF b1(3)] b1 by fastforce
qed

lemma write_inbound_grown:
  assumes "buf_ok b" "inbound_ok ib" "length (enc_inbound ib) \<le> room_of b"
  shows "\<exists>b'. write_inbound ib b = Some (None, b') \<and> grown b (enc_inbound ib) b'"
proof (cases "is_tcp_udp (Dest_Network (ib_Source ib))")
  case True
  let ?s = "enc_dest (ib_Source ib)"
  obtain b1 b2 where 1: "must_byte (network_byte (Dest_Network (ib_Source ib))) b = Some b1"
      "write_dest (ib_Source ib) b1 = Some (None, b2)" "grown b ?s b2"
    using write_net_dest_grown [of b "ib_Source ib" "network_byte (Dest_Network (ib_Source ib))"] assms True
    by (auto simp: enc_inbound_def inbound_ok_def enc_dest_def split: if_splits)
  show ?thesis
  proof (cases "is_tcp_udp (Dest_Network (ib_Local ib))")
    case l: True
    obtain b3 b4 where "must_byte (network_byte (Dest_Network (ib_Local ib))) b2 = Some b3"
        "write_dest (ib_Local ib) b3 = Some (None, b4)" "grown b2 (enc_dest (ib_Local ib)) b4"
      using write_net_dest_grown [of b2 "ib_Local ib" "network_byte (Dest_Network (ib_Local ib))"] assms True l 1(3)
      by (auto simp: enc_inbound_def inbound_ok_def enc_dest_def grown_def)
    then show ?thesis using 1 True l grown_trans [OF 1(3)] by (auto simp: write_inbound_def enc_inbound_def)
  qed (use 1 True in \<open>auto simp: write_inbound_def enc_inbound_def\<close>)
qed (use assms(1) in \<open>simp add: write_inbound_def enc_inbound_def grown_refl\<close>)

lemma write_tail_grown:
  assumes "buf_ok b" "frame_ok f (UDP b)" "length (frame_tail f (UDP b)) \<le> room_of b"
  shows "\<exists>b'. (if fm_SessionStatus f = SessionStatusNew then write_new f b else write_keep b) = Some (None, b') \<and>
    grown b (frame_tail f (UDP b)) b'"
proof (cases "fm_SessionStatus f = SessionStatusNew")
  case True
  let ?t = "fm_Target f"
  have ok: "is_tcp_udp (Dest_Network ?t)" "dest_ok ?t" using assms(2) True by (simp_all add: frame_ok_def)
  have len: "length (enc_dest ?t) \<le> room_of b" using assms(3) True by (simp add: frame_tail_def)
  then obtain b1 b2 where 1: "must_byte (network_byte (Dest_Network ?t)) b = Some b1" "write_dest ?t b1 = Some (None, b2)"
      "grown b (enc_dest ?t) b2"
    using write_net_dest_grown [OF assms(1) ok(2), of "network_byte (Dest_Network ?t)"] by (auto simp: enc_dest_def)
  have b2: "buf_ok b2" "UDP b2 = UDP b" using 1(3) by (simp_all add: grown_def)
  show ?thesis
  proof (cases "fm_Inbound f")
    case (Some ib)
    then obtain b3 where "write_inbound ib b2 = Some (None, b3)" "grown b2 (enc_inbound ib) b3"
      using write_inbound_grown [OF b2(1), of ib] assms(2,3) True 1(3) by (auto simp: frame_ok_def frame_tail_def grown_def)
    then show ?thesis using Some True 1 ok grown_trans [OF 1(3)] by (auto simp: write_new_def frame_tail_def)
  next
    case None
    show ?thesis
    proof (cases "UDP b")
      case (Some d)
      obtain b3 where w: "Write b2 (fm_GlobalID f) = Some (8, None, b3)" "grown b2 (fm_GlobalID f) b3"
        using Write_grown [OF b2(1), of "fm_GlobalID f"] assms(2,3) 1(3) True None Some
        by (auto simp: frame_ok_def frame_tail_def grown_def)
      then show ?thesis using None Some True 1 ok b2 grown_trans [OF 1(3)] by (auto simp: write_new_def frame_tail_def)
    next
      case no: None
      then show ?thesis using None True 1 ok b2 by (auto simp: write_new_def frame_tail_def)
    qed
  qed
next
  case False
  show ?thesis
  proof (cases "UDP b")
    case (Some d)
    then show ?thesis
      using write_net_dest_grown [OF assms(1), of d TargetNetworkUDP] assms(2,3) False
      by (auto simp: write_keep_def frame_tail_def frame_ok_def)
  qed (use assms(1) False in \<open>simp add: write_keep_def frame_tail_def grown_refl\<close>)
qed

lemma WriteTo_ok:
  assumes "buf_ok b" "frame_ok f (UDP b)" "514 \<le> room_of b"
  shows "\<exists>b'. WriteTo f b = Some (None, b') \<and> grown b (enc_frame f (UDP b)) b'"
proof -
  let ?u = "UDP b" and ?tail = "frame_tail f (UDP b)"
  have len: "length ?tail \<le> 508" using assms(2) by (simp add: frame_ok_def frame_body_def)
  obtain b1 hi where 1: "Extend b 2 = Some ((nat (bend b), hi), b1)" "grown b [0, 0] b1"
    using Extend_grown [OF assms(1), of 2] assms(3) by (auto simp: numeral_2_eq_2)
  have k1: "buf_ok b1" "2 \<le> room_of b1" using 1(2) assms(3) by (auto simp: grown_def)
  obtain b2 hi2 where 2: "Extend b1 2 = Some ((nat (bend b1), hi2), b2)" "grown b1 [0, 0] b2"
    using Extend_grown [OF k1] by (auto simp: numeral_2_eq_2)
  let ?b3 = "store (nat (bend b1)) (put16 (fm_SessionID f)) b2"
  have 3: "grown b1 (put16 (fm_SessionID f)) ?b3" using grown_store [of b1 "[]" "[0, 0]" "[]" b2] 2(2) k1(1) by auto
  obtain b4 where 4: "must_byte (fm_SessionStatus f) ?b3 = Some b4" "grown ?b3 [fm_SessionStatus f] b4"
    using must_byte_grown [of ?b3 "fm_SessionStatus f"] 1(2) 3 assms(3) by (auto simp: grown_def)
  obtain b5 where 5: "must_byte (fm_Option f) b4 = Some b5" "grown b4 [fm_Option f] b5"
    using must_byte_grown [of b4 "fm_Option f"] 1(2) 3 4(2) assms(3) by (auto simp: grown_def)
  have g5: "grown b1 (put16 (fm_SessionID f) @ [fm_SessionStatus f, fm_Option f]) b5"
    using grown_trans [OF 3 grown_trans [OF 4(2) 5(2)]] by simp
  have k5: "buf_ok b5" "UDP b5 = ?u" "length ?tail \<le> room_of b5"
    using g5 1(2) assms(3) len by (auto simp: grown_def)
  obtain b6 where 6: "(if fm_SessionStatus f = SessionStatusNew then write_new f b5 else write_keep b5) = Some (None, b6)"
      "grown b5 ?tail b6"
    using write_tail_grown [of b5 f] k5 assms(2) by auto
  have g6: "grown b1 (frame_body f ?u) b6" using grown_trans [OF g5 6(2)] by (simp add: frame_body_def)
  have "Len b6 - Len b1 = int (length (frame_body f ?u))" using g6 k1(1) by (simp add: grown_def)
  then have "WriteTo f b = Some (None, store (nat (bend b)) (put16 (of_nat (length (frame_body f ?u)))) b6)"
    using 1(1) 2(1) 4(1) 5(1) 6(1) by (simp add: WriteTo_def Let_def del: of_int_diff)
  moreover have "grown b (enc_frame f ?u) (store (nat (bend b)) (put16 (of_nat (length (frame_body f ?u)))) b6)"
    using grown_store [of b "[]" "[0, 0]" "frame_body f ?u" b6] grown_trans [OF 1(2) g6] assms(1) by (auto simp: enc_frame_def)
  ultimately show ?thesis by blast
qed

section \<open>Reading a frame back\<close>

definition canon_inbound :: "Inbound \<Rightarrow> Inbound" where
  "canon_inbound ib =
     (if is_tcp_udp (Dest_Network (ib_Source ib))
      then (if is_tcp_udp (Dest_Network (ib_Local ib)) then ib else ib\<lparr>ib_Local := zero_Destination\<rparr>)
      else zero_Inbound)"

text \<open>
  What a reader gets: the target of a new session, or of a UDP packet of a kept one; the inbound addresses that
  are TCP or UDP; the global id of a new UDP session with data.
\<close>

definition received :: "FrameMetadata \<Rightarrow> Destination option \<Rightarrow> FrameMetadata" where
  "received f u = \<lparr>
     fm_Target = (if fm_SessionStatus f = SessionStatusNew then fm_Target f
       else if fm_SessionStatus f = SessionStatusKeep then (case u of Some d \<Rightarrow> UDPDestination (Dest_Address d) (Dest_Port d) | None \<Rightarrow> zero_Destination)
       else zero_Destination),
     fm_SessionID = fm_SessionID f, fm_Option = fm_Option f, fm_SessionStatus = fm_SessionStatus f,
     fm_GlobalID = (if fm_SessionStatus f = SessionStatusNew \<and> fm_Inbound f = None \<and> u \<noteq> None \<and>
         Bitmask_Has (fm_Option f) OptionData \<and> Dest_Network (fm_Target f) = Network_UDP then fm_GlobalID f else replicate 8 0),
     fm_Inbound = (if fm_SessionStatus f = SessionStatusNew then map_option canon_inbound (fm_Inbound f) else None)\<rparr>"

lemma read_dest_ok:
  assumes "buf_ok b" "contents b = enc_target d @ rest" "dest_ok d" "259 \<le> fuel" "length arr < 2 ^ 31"
    "is_tcp_udp (Dest_Network d)"
  shows "\<exists>b'. read_dest fuel arr pre (network_byte (Dest_Network d)) b = Some (Inr d, b') \<and> buf_ok b' \<and> contents b' = rest"
proof -
  obtain a where a: "Dest_Address d = Some a" "plain_address a" using assms(3) by (auto simp: dest_ok_def)
  then obtain t b' where "ReadAddressPort fuel arr addrParser None Buffer_reader b = Some (Inr (Some a, Dest_Port d), t, b')"
      "buf_ok b'" "contents b' = rest"
    using Buffer_src.ReadAddressPort_ok [OF assms(1) _ a(2) addrParser_knows assms(4,5), of "Dest_Port d" rest] assms(2)
    by (auto simp: enc_target_def)
  moreover have "dest_of (network_byte (Dest_Network d)) (Some a) (Dest_Port d) = Some d"
    using assms(6) a(1) by (cases d) (auto simp: is_tcp_udp_def dest_of_def mux_consts TCPDestination_def UDPDestination_def)
  ultimately show ?thesis by (simp add: read_dest_def)
qed

text \<open>A destination behind its network byte, as \<^verbatim>\<open>UnmarshalFromBuffer\<close> finds it.\<close>

lemma read_enc_dest_ok:
  assumes "buf_ok b" "contents b = enc_dest d @ rest" "dest_ok d" "259 \<le> fuel" "length arr < 2 ^ 31"
    "is_tcp_udp (Dest_Network d)"
  shows "\<exists>b'. Byte b 0 = Some (network_byte (Dest_Network d)) \<and> Len b \<noteq> 0 \<and> network_byte (Dest_Network d) \<noteq> 0 \<and>
    read_dest fuel arr pre (network_byte (Dest_Network d)) (Advance b 1) = Some (Inr d, b') \<and> buf_ok b' \<and> contents b' = rest"
proof -
  have "buf_ok (Advance b 1)" "contents (Advance b 1) = enc_target d @ rest"
    using Advance_ok [OF assms(1), of 1] assms(2) by (simp_all add: enc_dest_def)
  then obtain b' where "read_dest fuel arr pre (network_byte (Dest_Network d)) (Advance b 1) = Some (Inr d, b')" "buf_ok b'" "contents b' = rest"
    using read_dest_ok [OF _ _ assms(3-6)] by blast
  moreover have "Byte b 0 = Some (network_byte (Dest_Network d))" using Byte_ok [OF assms(1), of 0] assms(2) by (simp add: enc_dest_def)
  moreover have "network_byte (Dest_Network d) \<noteq> 0" by (cases "Dest_Network d") simp_all
  ultimately show ?thesis using assms(1,2) by (simp add: enc_dest_def)
qed

lemma read_inbound_ok:
  assumes "buf_ok b" "contents b = enc_inbound ib" "inbound_ok ib" "259 \<le> fuel" "\<forall>i. length (pool i) < 2 ^ 31"
  shows "\<exists>b'. read_inbound fuel pool f b = Some (None, f\<lparr>fm_Inbound := Some (canon_inbound ib)\<rparr>, b')"
proof (cases "is_tcp_udp (Dest_Network (ib_Source ib))")
  case s: True
  let ?rest = "if is_tcp_udp (Dest_Network (ib_Local ib)) then enc_dest (ib_Local ib) else []"
  obtain b1 where 1: "Byte b 0 = Some (network_byte (Dest_Network (ib_Source ib)))" "Len b \<noteq> 0" "network_byte (Dest_Network (ib_Source ib)) \<noteq> 0"
      "read_dest fuel (pool 1) ''reading source: '' (network_byte (Dest_Network (ib_Source ib))) (Advance b 1) = Some (Inr (ib_Source ib), b1)"
      "buf_ok b1" "contents b1 = ?rest"
    using read_enc_dest_ok [OF assms(1), of "ib_Source ib" ?rest fuel "pool 1" "''reading source: ''"] assms(2-5) s
    by (auto simp: enc_inbound_def inbound_ok_def)
  let ?ib = "zero_Inbound\<lparr>ib_Source := ib_Source ib\<rparr>"
  have "read_inbound fuel pool f b = read_local fuel pool f ?ib b1" using 1(1-4) by (simp add: read_inbound_def Let_def)
  moreover have "\<exists>b'. read_local fuel pool f ?ib b1 = Some (None, f\<lparr>fm_Inbound := Some (canon_inbound ib)\<rparr>, b')"
  proof (cases "is_tcp_udp (Dest_Network (ib_Local ib))")
    case l: True
    obtain b2 where "Byte b1 0 = Some (network_byte (Dest_Network (ib_Local ib)))" "Len b1 \<noteq> 0" "network_byte (Dest_Network (ib_Local ib)) \<noteq> 0"
      "read_dest fuel (pool 2) ''reading local: '' (network_byte (Dest_Network (ib_Local ib))) (Advance b1 1) = Some (Inr (ib_Local ib), b2)"
      using read_enc_dest_ok [OF 1(5), of "ib_Local ib" "[]" fuel "pool 2" "''reading local: ''"] 1(6) assms(3-5) l
      by (auto simp: inbound_ok_def)
    then show ?thesis using s l by (simp add: read_local_def Let_def canon_inbound_def zero_Inbound_def)
  next
    case False
    then show ?thesis using s 1(5,6) by (simp add: read_local_def Let_def canon_inbound_def zero_Inbound_def)
  qed
  ultimately show ?thesis by simp
next
  case False
  then show ?thesis using assms(1,2) by (simp add: enc_inbound_def read_inbound_def Let_def canon_inbound_def)
qed

text \<open>The fixed part of the body and the target.\<close>

lemma enc_address_port_ge: "plain_address a \<Longrightarrow> 4 \<le> length (enc_address_port s a p)"
  by (cases a; cases s) (auto simp: enc_address_def Suc_le_eq)

lemma Unmarshal_target:
  assumes "buf_ok b" "contents b = put16 sid @ [status, opt] @ tail" "259 \<le> fuel" "\<forall>i. length (pool i) < 2 ^ 31"
    "status = SessionStatusNew \<or> status = SessionStatusKeep" "tail = enc_dest d @ rest" "dest_ok d" "is_tcp_udp (Dest_Network d)"
    "status = SessionStatusKeep \<longrightarrow> Dest_Network d = Network_UDP"
  shows "\<exists>b'. UnmarshalFromBuffer fuel pool b rsl f0 =
      read_tail fuel pool rsl (f0\<lparr>fm_SessionID := sid, fm_SessionStatus := status, fm_Option := opt, fm_Target := d\<rparr>) b' \<and>
    buf_ok b' \<and> contents b' = rest"
proof -
  obtain a where a: "Dest_Address d = Some a" "plain_address a" using assms(7) by (auto simp: dest_ok_def)
  let ?n = "network_byte (Dest_Network d)"
  have len: "4 \<le> length (enc_target d)"
    using a enc_address_port_ge [of a addrParser "Dest_Port d"] by (simp add: enc_target_def)
  have c: "contents b = put16 sid @ status # opt # ?n # enc_target d @ rest" using assms(2,6) by (simp add: enc_dest_def)
  have at: "contents b ! 2 = status" "contents b ! 3 = opt" "contents b ! 4 = ?n" unfolding c by (simp_all add: put16_def nth_Cons')
  have L: "9 \<le> length (contents b)" unfolding c using len by simp
  have bytes: "Byte b 2 = Some status" "Byte b 3 = Some opt" "Byte b 4 = Some ?n" "BytesTo b 2 = Some (put16 sid)"
    using Byte_ok [OF assms(1), of 2] Byte_ok [OF assms(1), of 3] Byte_ok [OF assms(1), of 4] BytesTo_ok [OF assms(1), of 2] L at
    by (simp_all add: c)
  have adv: "buf_ok (Advance b 5)" "contents (Advance b 5) = enc_target d @ rest"
    using Advance_ok [OF assms(1), of 5] L by (simp_all add: c put16_def)
  obtain b' where b': "read_dest fuel (pool 0) [] ?n (Advance b 5) = Some (Inr d, b')" "buf_ok b'" "contents b' = rest"
    using read_dest_ok [OF adv assms(7,3) _ assms(8), of "pool 0" "[]"] assms(4) by blast
  have u: "be_uint16 (put16 sid) = Some sid" using be_uint16_put16 [of sid "[]"] by simp
  have lens: "\<not> Len b < 4" "\<not> Len b < 8" "Len b > 4" using L assms(1) by simp_all
  have "(if status = SessionStatusNew then Some True
      else if status = SessionStatusKeep \<and> Len b > 4 then do { n \<leftarrow> Byte b 4; Some (n = TargetNetworkUDP) }
      else Some False) = Some True"
    using assms(5,9) bytes(3) lens by (auto simp: mux_consts)
  then have "UnmarshalFromBuffer fuel pool b rsl f0 =
      read_tail fuel pool rsl (f0\<lparr>fm_SessionID := sid, fm_SessionStatus := status, fm_Option := opt, fm_Target := d\<rparr>) b'"
    unfolding UnmarshalFromBuffer_def using lens bytes u b'(1) by (simp add: Let_def)
  then show ?thesis using b' by blast
qed

lemma Unmarshal_no_target:
  assumes "buf_ok b" "contents b = put16 sid @ [status, opt] @ tail" "status \<noteq> SessionStatusNew"
    "status = SessionStatusKeep \<longrightarrow> tail = []"
  shows "UnmarshalFromBuffer fuel pool b rsl f0 =
      Some (None, f0\<lparr>fm_SessionID := sid, fm_SessionStatus := status, fm_Option := opt,
        fm_Target := (fm_Target f0)\<lparr>Dest_Network := Network_Unknown\<rparr>\<rparr>, b)"
proof -
  have at: "contents b ! 2 = status" "contents b ! 3 = opt" unfolding assms(2) by (simp_all add: put16_def)
  have "Byte b 2 = Some status" "Byte b 3 = Some opt" "BytesTo b 2 = Some (put16 sid)"
    using Byte_ok [OF assms(1), of 2] Byte_ok [OF assms(1), of 3] BytesTo_ok [OF assms(1), of 2] at
    by (simp_all add: assms(2))
  moreover have "be_uint16 (put16 sid) = Some sid" using be_uint16_put16 [of sid "[]"] by simp
  moreover have "\<not> Len b < 4" "status = SessionStatusKeep \<Longrightarrow> \<not> Len b > 4" using assms by simp_all
  ultimately show ?thesis
    using assms(3) unfolding UnmarshalFromBuffer_def by (auto simp: Let_def read_tail_def)
qed

text \<open>The destination a frame carries after its fixed part.\<close>

lemma UnmarshalFromBuffer_ok:
  assumes "buf_ok b" "contents b = frame_body f u" "frame_ok f u" "259 \<le> fuel" "\<forall>i. length (pool i) < 2 ^ 31"
    "fm_SessionStatus f = SessionStatusNew \<longrightarrow> rsl = (fm_Inbound f \<noteq> None)"
  shows "\<exists>b'. UnmarshalFromBuffer fuel pool b rsl zero_FrameMetadata = Some (None, received f u, b')"
proof -
  note c = assms(2) [unfolded frame_body_def]
  consider (new) "fm_SessionStatus f = SessionStatusNew"
    | (keep) d where "fm_SessionStatus f = SessionStatusKeep" "u = Some d"
    | (none) "fm_SessionStatus f \<noteq> SessionStatusNew" "fm_SessionStatus f = SessionStatusKeep \<longrightarrow> u = None" by fastforce
  then show ?thesis
  proof cases
    case new
    let ?rest = "case fm_Inbound f of Some ib \<Rightarrow> enc_inbound ib | None \<Rightarrow> if u \<noteq> None then fm_GlobalID f else []"
    have ok: "is_tcp_udp (Dest_Network (fm_Target f))" "dest_ok (fm_Target f)" "length (fm_GlobalID f) = 8"
      "\<forall>ib. fm_Inbound f = Some ib \<longrightarrow> inbound_ok ib" using assms(3) new by (simp_all add: frame_ok_def)
    have keep: "fm_SessionStatus f \<noteq> SessionStatusKeep" using new by (simp add: mux_consts)
    have tail: "frame_tail f u = enc_dest (fm_Target f) @ ?rest" using new by (simp add: frame_tail_def)
    let ?f = "zero_FrameMetadata\<lparr>fm_SessionID := fm_SessionID f, fm_SessionStatus := fm_SessionStatus f, fm_Option := fm_Option f,
        fm_Target := fm_Target f\<rparr>"
    obtain b' where b': "UnmarshalFromBuffer fuel pool b rsl zero_FrameMetadata = read_tail fuel pool rsl ?f b'" "buf_ok b'" "contents b' = ?rest"
      using Unmarshal_target [OF assms(1) c assms(4,5) _ tail ok(2,1)] new keep by blast
    show ?thesis
    proof (cases "fm_Inbound f")
      case (Some ib)
      then obtain b2 where "read_inbound fuel pool ?f b' = Some (None, ?f\<lparr>fm_Inbound := Some (canon_inbound ib)\<rparr>, b2)"
        using read_inbound_ok [OF b'(2), of ib fuel pool ?f] b'(3) ok(4) assms(4,5) by auto
      then show ?thesis
        using b'(1) Some new assms(6) by (simp add: read_tail_def received_def zero_FrameMetadata_def)
    next
      case None
      then show ?thesis
        using b' new assms(6) ok(3) by (auto simp: read_tail_def received_def zero_FrameMetadata_def overwrite_def)
    qed
  next
    case (keep d)
    let ?d = "UDPDestination (Dest_Address d) (Dest_Port d)"
    have s: "fm_SessionStatus f \<noteq> SessionStatusNew" using keep by (simp add: mux_consts)
    then have ok: "dest_ok ?d" "is_tcp_udp (Dest_Network ?d)" "Dest_Network ?d = Network_UDP"
      using assms(3) keep by (simp_all add: frame_ok_def dest_ok_def UDPDestination_def is_tcp_udp_def)
    have tail: "frame_tail f u = enc_dest ?d @ []"
      using keep s by (simp add: frame_tail_def enc_dest_def enc_target_def UDPDestination_def mux_consts)
    show ?thesis
      using Unmarshal_target [OF assms(1) c assms(4,5) _ tail ok(1,2), of rsl zero_FrameMetadata] keep ok(3) s
      by (auto simp: read_tail_def received_def zero_FrameMetadata_def)
  next
    case none
    then show ?thesis
      using Unmarshal_no_target [OF assms(1) c none(1), of fuel pool rsl zero_FrameMetadata]
      by (auto simp: frame_tail_def received_def zero_FrameMetadata_def zero_Destination_def)
  qed
qed

context byte_source
begin

lemma ReadUint16_ok:
  assumes "good r" "content r = put16 v @ rest" "2 \<le> fuel"
  shows "\<exists>r'. ReadUint16 fuel rd r = Some (Inr v, r') \<and> good r' \<and> content r' = rest"
  using ReadFull_spec [OF assms(1), of "[0, 0]" fuel] assms(2,3) be_uint16_put16 [of v "[]"]
  by (auto simp: ReadUint16_def)

lemma Unmarshal_ok:
  assumes "good r" "content r = enc_frame f u @ rest" "frame_ok f u" "512 \<le> fuel" "\<forall>i. length (pool i) < 2 ^ 31"
    "fm_SessionStatus f = SessionStatusNew \<longrightarrow> rsl = (fm_Inbound f \<noteq> None)"
  shows "\<exists>r'. Unmarshal fuel pool rd r rsl zero_FrameMetadata = Some (None, received f u, r') \<and> good r' \<and> content r' = rest"
proof -
  let ?n = "length (frame_body f u)"
  have n: "?n \<le> 512" using assms(3) by (simp add: frame_ok_def)
  then have w: "uint (of_nat ?n :: u16) = int ?n" by (simp add: unsigned_of_nat take_bit_nat_eq_self)
  then have "\<not> (of_nat ?n :: u16) > 512" using n by (simp add: word_less_def)
  moreover obtain r1 where r1: "ReadUint16 fuel rd r = Some (Inr (of_nat ?n), r1)" "good r1" "content r1 = frame_body f u @ rest"
    using ReadUint16_ok [OF assms(1), of "of_nat ?n" "frame_body f u @ rest" fuel] assms(2,4) by (auto simp: enc_frame_def)
  moreover obtain b r2 where b: "ReadFullFrom fuel rd r1 (New (pool 3)) (int ?n) = Some (?n, None, b, r2)" "good r2" "content r2 = rest"
      "buf_ok b" "contents b = frame_body f u"
    using read_exact [OF r1(2) _ r1(3), of "New (pool 3)" fuel] n assms(4,5) by auto
  moreover obtain b' where "UnmarshalFromBuffer fuel pool b rsl zero_FrameMetadata = Some (None, received f u, b')"
    using UnmarshalFromBuffer_ok [OF b(4,5) assms(3) _ assms(5,6), of fuel] assms(4) by auto
  ultimately show ?thesis using w by (simp add: Unmarshal_def)
qed

end

text \<open>
  C31. Frames survive the wire. For every frame the multiplexer builds (its metadata at most 512 bytes, its
  destinations plain addresses), \<^verbatim>\<open>WriteTo\<close> into a buffer with room does not panic, and \<^verbatim>\<open>Unmarshal\<close> applied to
  the bytes written and whatever follows them reads exactly the frame: session, status, option, target, the
  inbound addresses and the global id, and leaves exactly what follows.
\<close>

theorem frame_roundtrip:
  assumes "frame_ok f (UDP b)" "buf_ok b" "contents b = []" "514 \<le> room_of b" "512 \<le> fuel" "\<forall>i. length (pool i) < 2 ^ 31"
    "fm_SessionStatus f = SessionStatusNew \<longrightarrow> rsl = (fm_Inbound f \<noteq> None)"
  shows "\<exists>b'. WriteTo f b = Some (None, b') \<and>
    Unmarshal fuel pool bytes_reader (contents b' @ rest) rsl zero_FrameMetadata = Some (None, received f (UDP b), rest)"
proof -
  obtain b' where "WriteTo f b = Some (None, b')" "contents b' = enc_frame f (UDP b)"
    using WriteTo_ok [OF assms(2,1,4)] assms(3) by (auto simp: grown_def)
  then show ?thesis
    using bytes_src.Unmarshal_ok [OF _ _ assms(1,5,6,7), of "contents b' @ rest" rest] by auto
qed

theorem frame_roundtrip_witness:
  "\<exists>b'. WriteTo (zero_FrameMetadata\<lparr>fm_SessionID := 5, fm_SessionStatus := SessionStatusEnd\<rparr>) (New []) = Some (None, b') \<and>
    Unmarshal 512 (\<lambda>_. []) bytes_reader (contents b' @ [1]) False zero_FrameMetadata =
      Some (None, zero_FrameMetadata\<lparr>fm_SessionID := 5, fm_SessionStatus := SessionStatusEnd\<rparr>, [1])"
proof -
  let ?f = "zero_FrameMetadata\<lparr>fm_SessionID := 5, fm_SessionStatus := SessionStatusEnd\<rparr>"
  have u: "UDP (New []) = None" by simp
  have "frame_ok ?f None" by (simp add: frame_ok_def frame_body_def frame_tail_def zero_FrameMetadata_def mux_consts)
  moreover have "received ?f None = ?f" by (simp add: received_def zero_FrameMetadata_def mux_consts)
  ultimately show ?thesis
    using frame_roundtrip [of ?f "New []" 512 "\<lambda>_. []" False "[1]"] u by (simp add: mux_consts zero_FrameMetadata_def)
qed

end
