(* ===== verification/Xray_MuxWriter.thy ===== *)
theory Xray_MuxWriter
  imports Xray_MuxFrame
begin

text \<open>
  The data path of a multiplexed session (\<^verbatim>\<open>xray-core/common/mux/writer.go\<close> and \<^verbatim>\<open>reader.go\<close>): the writer that
  cuts what a session sends into frames, and the packet reader. The writer below it takes lists of
  buffers. The lemmas show that what is written is a sequence of frames around the data, and that a
  receiver reads the data back, chunk by chunk.
\<close>

section \<open>The writer\<close>

type_synonym 's mb_writer = "'s \<Rightarrow> MultiBuffer \<Rightarrow> err \<times> 's"

datatype TransferType = TransferTypeStream | TransferTypePacket

record Writer =
  mw_dest :: Destination
  mw_id :: u16
  mw_followup :: bool
  mw_hasError :: bool
  mw_transferType :: TransferType
  mw_globalID :: bytes
  mw_inbound :: "Inbound option"

definition NewWriter :: "u16 \<Rightarrow> Destination \<Rightarrow> TransferType \<Rightarrow> bytes \<Rightarrow> Inbound option \<Rightarrow> Writer" where
  "NewWriter i dest transferType globalID inbound = \<lparr>mw_dest = dest, mw_id = i, mw_followup = False, mw_hasError = False,
     mw_transferType = transferType, mw_globalID = globalID, mw_inbound = inbound\<rparr>"

definition NewResponseWriter :: "u16 \<Rightarrow> TransferType \<Rightarrow> Writer" where
  "NewResponseWriter i transferType = \<lparr>mw_dest = zero_Destination, mw_id = i, mw_followup = True, mw_hasError = False,
     mw_transferType = transferType, mw_globalID = replicate 8 0, mw_inbound = None\<rparr>"

definition getNextFrameMeta :: "Writer \<Rightarrow> FrameMetadata \<times> Writer" where
  "getNextFrameMeta w =
     (let meta = zero_FrameMetadata\<lparr>fm_SessionID := mw_id w, fm_Target := mw_dest w, fm_GlobalID := mw_globalID w, fm_Inbound := mw_inbound w\<rparr>
      in if mw_followup w then (meta\<lparr>fm_SessionStatus := SessionStatusKeep\<rparr>, w)
         else (meta\<lparr>fm_SessionStatus := SessionStatusNew\<rparr>, w\<lparr>mw_followup := True\<rparr>))"

definition writeMetaOnly :: "bytes \<Rightarrow> 's mb_writer \<Rightarrow> 's \<Rightarrow> Writer \<Rightarrow> (err \<times> 's \<times> Writer) option" where
  "writeMetaOnly arr wr s w = do {
     let (meta, w') = getNextFrameMeta w;
     (e, b) \<leftarrow> WriteTo meta (New arr);
     if e \<noteq> None then Some (e, s, w')
     else let (e, s') = wr s [b] in Some (e, s', w') }"

definition writeMetaWithFrame :: "bytes \<Rightarrow> 's mb_writer \<Rightarrow> 's \<Rightarrow> FrameMetadata \<Rightarrow> MultiBuffer \<Rightarrow> (err \<times> 's) option" where
  "writeMetaWithFrame arr wr s meta data = do {
     let frame = (case data of [d] \<Rightarrow> (New arr)\<lparr>UDP := UDP d\<rparr> | _ \<Rightarrow> New arr);
     (e, frame1) \<leftarrow> WriteTo meta frame;
     if e \<noteq> None then Some (e, s)
     else
       let (e, frame2) = WriteUint16 Buffer_writer frame1 (of_int (MultiBuffer_Len data)) in
       if e \<noteq> None then Some (e, s) else Some (wr s (frame2 # data)) }"

definition writeData :: "bytes \<Rightarrow> 's mb_writer \<Rightarrow> 's \<Rightarrow> Writer \<Rightarrow> MultiBuffer \<Rightarrow> (err \<times> 's \<times> Writer) option" where
  "writeData arr wr s w mb = do {
     let (meta, w') = getNextFrameMeta w;
     (e, s') \<leftarrow> writeMetaWithFrame arr wr s (meta\<lparr>fm_Option := Bitmask_Set (fm_Option meta) OptionData\<rparr>) mb;
     Some (e, s', w') }"

text \<open>The loop of \<^verbatim>\<open>WriteMultiBuffer\<close>; each round takes two arrays of the pool.\<close>

fun write_chunks :: "nat \<Rightarrow> (nat \<Rightarrow> bytes) \<Rightarrow> 's mb_writer \<Rightarrow> 's \<Rightarrow> Writer \<Rightarrow> MultiBuffer \<Rightarrow> (err \<times> 's \<times> Writer) option" where
  "write_chunks 0 pool wr s w mb = None"
| "write_chunks (Suc fuel) pool wr s w mb =
     (if MultiBuffer_IsEmpty mb then Some (None, s, w)
      else do {
        (mb', chunk) \<leftarrow> (case mw_transferType w of
           TransferTypeStream \<Rightarrow> SplitSize (pool (2 * fuel)) mb 8192
         | TransferTypePacket \<Rightarrow> (case SplitFirst mb of (mb2, Some b) \<Rightarrow> Some (mb2, [b]) | _ \<Rightarrow> None));
        (e, s', w') \<leftarrow> writeData (pool (2 * fuel + 1)) wr s w chunk;
        if e \<noteq> None then Some (e, s', w') else write_chunks fuel pool wr s' w' mb' })"

definition Mux_WriteMultiBuffer :: "nat \<Rightarrow> (nat \<Rightarrow> bytes) \<Rightarrow> 's mb_writer \<Rightarrow> 's \<Rightarrow> Writer \<Rightarrow> MultiBuffer \<Rightarrow> (err \<times> 's \<times> Writer) option" where
  "Mux_WriteMultiBuffer fuel pool wr s w mb =
     (if MultiBuffer_IsEmpty mb then writeMetaOnly (pool 0) wr s w else write_chunks fuel pool wr s w mb)"

definition Mux_Close :: "bytes \<Rightarrow> 's mb_writer \<Rightarrow> 's \<Rightarrow> Writer \<Rightarrow> (err \<times> 's) option" where
  "Mux_Close arr wr s w = do {
     let meta = zero_FrameMetadata\<lparr>fm_SessionID := mw_id w, fm_SessionStatus := SessionStatusEnd,
           fm_Option := (if mw_hasError w then Bitmask_Set 0 OptionError else 0)\<rparr>;
     (e, frame) \<leftarrow> WriteTo meta (New arr);
     if e \<noteq> None then None else Some (None, snd (wr s [frame])) }"

section \<open>The packet reader\<close>

record PacketReader =
  mp_eof :: bool
  mp_dest :: "Destination option"

definition NewPacketReader :: "Destination option \<Rightarrow> PacketReader" where
  "NewPacketReader dest = \<lparr>mp_eof = False, mp_dest = dest\<rparr>"

definition Packet_ReadMultiBuffer :: "nat \<Rightarrow> bytes \<Rightarrow> 'r reader \<Rightarrow> 'r \<Rightarrow> PacketReader \<Rightarrow> (MultiBuffer \<times> err \<times> 'r \<times> PacketReader) option" where
  "Packet_ReadMultiBuffer fuel arr rd r pr =
     (if mp_eof pr then Some ([], Some EOF, r, pr)
      else do {
        (res, r1) \<leftarrow> ReadUint16 fuel rd r;
        case res of
          Inl er \<Rightarrow> Some ([], Some er, r1, pr)
        | Inr sz \<Rightarrow>
            if unat sz > Size then Some ([], Some (NewError ''packet size too large: ''), r1, pr)
            else do {
              (n, e, b, r2) \<leftarrow> ReadFullFrom fuel rd r1 (New arr) (int (unat sz));
              case e of
                Some er \<Rightarrow> Some ([], Some er, r2, pr)
              | None \<Rightarrow>
                  (let b' = (case mp_dest pr of
                      Some d \<Rightarrow> if Dest_Network d = Network_UDP then b\<lparr>UDP := Some d\<rparr> else b
                    | None \<Rightarrow> b)
                   in Some ([b'], None, r2, pr\<lparr>mp_eof := True\<rparr>)) } })"

section \<open>What is written\<close>

definition data_meta :: "Writer \<Rightarrow> FrameMetadata" where
  "data_meta w = (fst (getNextFrameMeta w))\<lparr>fm_Option := OptionData\<rparr>"

text \<open>The frames of chunks of data; \<open>u\<close> is the UDP destination of a chunk.\<close>

fun frames :: "Writer \<Rightarrow> (Destination option \<times> bytes) list \<Rightarrow> bytes list" where
  "frames w [] = []"
| "frames w ((u, d) # cs) = (enc_frame (data_meta w) u @ put16 (of_nat (length d)) @ d) # frames (w\<lparr>mw_followup := True\<rparr>) cs"

text \<open>A writer whose frames fit for the UDP destinations \<open>us\<close>.\<close>

definition writer_ok :: "Writer \<Rightarrow> Destination option set \<Rightarrow> bool" where
  "writer_ok w us \<longleftrightarrow> (\<forall>u\<in>us. frame_ok (data_meta w) u \<and> frame_ok (data_meta (w\<lparr>mw_followup := True\<rparr>)) u)"

lemma writer_ok_followup: "writer_ok w us \<Longrightarrow> writer_ok (w\<lparr>mw_followup := True\<rparr>) us"
  by (simp add: writer_ok_def)

lemma snd_getNext: "snd (getNextFrameMeta w) = w\<lparr>mw_followup := True\<rparr>"
  by (cases w) (simp add: getNextFrameMeta_def Let_def)

definition chunk_udp :: "MultiBuffer \<Rightarrow> Destination option" where
  "chunk_udp data = (case data of [d] \<Rightarrow> UDP d | _ \<Rightarrow> None)"

lemma New_UDP_ok:
  assumes "length arr < 2 ^ 31"
  shows "buf_ok ((New arr)\<lparr>UDP := u\<rparr>)" "contents ((New arr)\<lparr>UDP := u\<rparr>) = []" "room_of ((New arr)\<lparr>UDP := u\<rparr>) = 8192"
  using New_ok [OF assms] New_contents [of arr] New_room [of arr] by (simp_all add: buf_ok_def contents_def room_of_def)

lemma writeData_ok:
  assumes "frame_ok (data_meta w) (chunk_udp data)" "length arr < 2 ^ 31" "mb_ok data" "length (mb_contents data) < 2 ^ 31"
  shows "\<exists>b. writeData arr wr s w data = (let (e, s') = wr s (b # data) in Some (e, s', w\<lparr>mw_followup := True\<rparr>)) \<and>
    contents b = enc_frame (data_meta w) (chunk_udp data) @ put16 (of_nat (length (mb_contents data)))"
proof -
  let ?u = "chunk_udp data" and ?f = "data_meta w"
  let ?fr = "(New arr)\<lparr>UDP := ?u\<rparr>"
  have fr: "(case data of [d] \<Rightarrow> (New arr)\<lparr>UDP := UDP d\<rparr> | _ \<Rightarrow> New arr) = ?fr"
    by (auto simp: chunk_udp_def New_def split: list.splits)
  obtain b1 where b1: "WriteTo ?f ?fr = Some (None, b1)" "grown ?fr (enc_frame ?f ?u) b1"
    using WriteTo_ok [of ?fr ?f] New_UDP_ok [OF assms(2), of ?u] assms(1) by auto
  have "length (enc_frame ?f ?u) \<le> 514" using assms(1) by (simp add: enc_frame_def frame_ok_def)
  then have r: "buf_ok b1" "2 \<le> room_of b1" using b1(2) New_UDP_ok(3) [OF assms(2), of ?u] by (auto simp: grown_def)
  obtain b2 where b2: "Buffer_writer b1 (put16 (of_nat (length (mb_contents data)))) = (None, b2)"
      "contents b2 = contents b1 @ put16 (of_nat (length (mb_contents data)))"
    using Write_fits [OF r(1), of "put16 (of_nat (length (mb_contents data)))"] r(2) by (auto simp: Buffer_writer_def)
  have l: "of_int (MultiBuffer_Len data) = (of_nat (length (mb_contents data)) :: u16)"
    using MultiBuffer_Len_eq [OF assms(3,4)] by simp
  have m: "(fst (getNextFrameMeta w))\<lparr>fm_Option := Bitmask_Set (fm_Option (fst (getNextFrameMeta w))) OptionData\<rparr> = ?f"
    by (simp add: data_meta_def getNextFrameMeta_def Let_def Bitmask_Set_def zero_FrameMetadata_def)
  have "writeData arr wr s w data = (let (e, s') = wr s (b2 # data) in Some (e, s', w\<lparr>mw_followup := True\<rparr>))"
    using b1(1) b2(1) snd_getNext [of w] m
    by (cases "getNextFrameMeta w") (simp add: writeData_def writeMetaWithFrame_def fr l WriteUint16_def Let_def split_def)
  moreover have "contents b1 = enc_frame ?f ?u" using b1(2) New_UDP_ok(2) [OF assms(2), of ?u] by (simp add: grown_def)
  ultimately show ?thesis using b2(2) by auto
qed

text \<open>A writer that records what it is given.\<close>

definition recorder :: "MultiBuffer list mb_writer" where
  "recorder s mb = (None, s @ [mb])"

lemma writeData_recorder:
  assumes "frame_ok (data_meta w) (chunk_udp data)" "length arr < 2 ^ 31" "mb_ok data" "length (mb_contents data) < 2 ^ 31"
  shows "\<exists>o1. writeData arr recorder s w data = Some (None, s @ [o1], w\<lparr>mw_followup := True\<rparr>) \<and>
    [mb_contents o1] = frames w [(chunk_udp data, mb_contents data)]"
  using writeData_ok [OF assms, of recorder s] by (auto simp: recorder_def)

lemma frames_Cons: "frames w (c # cs) = frames w [c] @ frames (w\<lparr>mw_followup := True\<rparr>) cs"
  by (cases c) simp

lemma Advance_UDP: "UDP (Advance b n) = UDP b"
  by (simp add: Advance_def Check_def Let_def)

lemma SplitSize_UDP:
  assumes "SplitSize arr mb n = Some (mb', r)" "\<forall>b\<in>set mb. UDP b = None" "mb_ok mb" "length (mb_contents mb) < 2 ^ 31" "0 \<le> n"
  shows "\<forall>b\<in>set mb'. UDP b = None" "\<forall>b\<in>set r. UDP b = None"
proof -
  have s: "mb = snd (split_size_loop 0 n mb) @ fst (split_size_loop 0 n mb)"
    using split_size_loop_spec [OF assms(3), of 0 "nat n"] assms(4,5) by (auto split: prod.splits)
  then have "\<forall>b\<in>set (fst (split_size_loop 0 n mb)). UDP b = None" "\<forall>b\<in>set (snd (split_size_loop 0 n mb)). UDP b = None"
    using assms(2) by (metis Un_iff set_append)+
  moreover have "UDP b = None" if "Extend (New arr) n = Some (lh, b)" for lh b
    using that by (auto simp: Extend_def New_def clear_range_def set_whole_def Let_def split: if_splits bind_splits prod.splits)
  ultimately show "\<forall>b\<in>set mb'. UDP b = None" "\<forall>b\<in>set r. UDP b = None"
    using assms(1,2) by (auto simp: SplitSize_def Advance_UDP bind_eq_Some_conv split: list.splits if_splits prod.splits)
qed

lemma SplitSize_shrinks:
  assumes "SplitSize arr mb (int n) = Some (mb', r)" "mb \<noteq> []" "mb_ok mb" "length (mb_contents mb) < 2 ^ 31" "0 < n" "n \<le> 8192" "length arr < 2 ^ 31"
  shows "length mb' + length (mb_contents mb') < length mb + length (mb_contents mb)"
proof -
  obtain b0 mb0 where mb: "mb = b0 # mb0" using assms(2) by (cases mb) auto
  have c: "mb_contents r @ mb_contents mb' = mb_contents mb" "r \<noteq> []"
    using SplitSize_ok [OF assms(3,4,6,7)] assms(1,2) by auto
  show ?thesis
  proof (cases "Len b0 > int n")
    case True
    then have m: "mb' = Advance b0 (int n) # mb0" using assms(1) by (auto simp: SplitSize_def mb bind_eq_Some_conv)
    have "n \<le> length (contents b0)" using True assms(3) mb by simp
    then have "length (contents (Advance b0 (int n))) < length (contents b0)"
      using Advance_ok(2) [of b0 n] assms(3,5) mb True by simp
    then show ?thesis using m mb by simp
  next
    case False
    then have "(mb', r) = split_size_loop 0 (int n) mb" using assms(1) by (auto simp: SplitSize_def mb)
    then have "mb = r @ mb'" using split_size_loop_spec [OF assms(3), of 0 n] assms(4) by (auto split: prod.splits)
    then show ?thesis using c(2) by (cases r) auto
  qed
qed

lemma write_chunks_stream:
  assumes "mw_transferType w = TransferTypeStream" "mb_ok mb" "length (mb_contents mb) < 2 ^ 31" "\<forall>b\<in>set mb. UDP b = None"
    "writer_ok w {None}" "pool_ok pool" "length mb + length (mb_contents mb) < fuel"
  shows "\<exists>out cs w'. write_chunks fuel pool recorder s w mb = Some (None, s @ out, w') \<and> map mb_contents out = frames w cs \<and>
    concat (map snd cs) = mb_contents mb \<and> (\<forall>(u, d)\<in>set cs. u = None \<and> length d \<le> 8192)"
  using assms
proof (induction fuel arbitrary: s w mb)
  case (Suc fuel)
  show ?case
  proof (cases "mb_contents mb = []")
    case True
    then show ?thesis using Suc.prems(2) by (intro exI [of _ "[]"]) auto
  next
    case False
    then have ne: "mb \<noteq> []" by auto
    have arr: "length (pool (2 * fuel)) < 2 ^ 31" "length (pool (2 * fuel + 1)) < 2 ^ 31" using Suc.prems(6) by blast+
    obtain mb' r where r: "SplitSize (pool (2 * fuel)) mb 8192 = Some (mb', r)" "mb_ok mb'" "mb_ok r"
        "mb_contents r @ mb_contents mb' = mb_contents mb" "length (mb_contents r) \<le> 8192"
      using SplitSize_ok [OF Suc.prems(2,3), of 8192 "pool (2 * fuel)"] arr by auto
    have u: "\<forall>b\<in>set mb'. UDP b = None" "\<forall>b\<in>set r. UDP b = None" using SplitSize_UDP [OF r(1) Suc.prems(4,2,3)] by auto
    have shrink: "length mb' + length (mb_contents mb') < fuel"
      using SplitSize_shrinks [of "pool (2 * fuel)" mb 8192 mb' r] r(1) ne Suc.prems(2,3,7) arr(1) by auto
    have cu: "chunk_udp r = None" using u(2) by (auto simp: chunk_udp_def split: list.splits)
    let ?w = "w\<lparr>mw_followup := True\<rparr>"
    have lr: "length (mb_contents r) < 2 ^ 31" using r(5) by simp
    have fo: "frame_ok (data_meta w) (chunk_udp r)" using Suc.prems(5) cu by (simp add: writer_ok_def)
    obtain o1 where o1: "writeData (pool (2 * fuel + 1)) recorder s w r = Some (None, s @ [o1], ?w)"
        "[mb_contents o1] = frames w [(None, mb_contents r)]"
      using writeData_recorder [OF fo arr(2) r(3) lr] cu by auto
    have l': "length (mb_contents mb') < 2 ^ 31" using arg_cong [OF r(4), of length] Suc.prems(3) by simp
    obtain out cs w' where *: "write_chunks fuel pool recorder (s @ [o1]) ?w mb' = Some (None, (s @ [o1]) @ out, w')"
        "map mb_contents out = frames ?w cs" "concat (map snd cs) = mb_contents mb'" "\<forall>(u, d)\<in>set cs. u = None \<and> length d \<le> 8192"
      using Suc.IH [of ?w mb' "s @ [o1]"] Suc.prems(1,6) r(2) l' u(1) writer_ok_followup [OF Suc.prems(5)] shrink by auto
    have "write_chunks (Suc fuel) pool recorder s w mb = Some (None, s @ o1 # out, w')"
      using False Suc.prems(1,2) r(1) o1(1) *(1) by simp
    moreover have "map mb_contents (o1 # out) = frames w ((None, mb_contents r) # cs)"
      using o1(2) *(2) by (simp add: frames_Cons [of w _ cs])
    moreover have "concat (map snd ((None, mb_contents r) # cs)) = mb_contents mb" using *(3) r(4) by simp
    moreover have "\<forall>(u, d)\<in>set ((None, mb_contents r) # cs). u = None \<and> length d \<le> 8192" using *(4) r(5) by auto
    ultimately show ?thesis by blast
  qed
qed simp

lemma write_chunks_packet:
  assumes "mw_transferType w = TransferTypePacket" "mb_ok mb" "\<forall>b\<in>set mb. contents b \<noteq> [] \<and> length (contents b) \<le> 8192"
    "writer_ok w (UDP ` set mb)" "pool_ok pool" "length mb < fuel"
  shows "\<exists>out w'. write_chunks fuel pool recorder s w mb = Some (None, s @ out, w') \<and>
    map mb_contents out = frames w (map (\<lambda>b. (UDP b, contents b)) mb)"
  using assms
proof (induction fuel arbitrary: s w mb)
  case (Suc fuel)
  show ?case
  proof (cases mb)
    case Nil
    then show ?thesis by simp
  next
    case (Cons b mb')
    let ?w = "w\<lparr>mw_followup := True\<rparr>"
    have b: "buf_ok b" "contents b \<noteq> []" "length (contents b) < 2 ^ 31" using Suc.prems(2,3) Cons by auto
    have fo: "frame_ok (data_meta w) (chunk_udp [b])" using Suc.prems(4) Cons by (simp add: writer_ok_def chunk_udp_def)
    have arr: "length (pool (2 * fuel + 1)) < 2 ^ 31" using Suc.prems(5) by blast
    obtain o1 where o1: "writeData (pool (2 * fuel + 1)) recorder s w [b] = Some (None, s @ [o1], ?w)"
        "[mb_contents o1] = frames w [(UDP b, contents b)]"
      using writeData_recorder [OF fo arr, of s] b by (auto simp: chunk_udp_def)
    have "writer_ok ?w (UDP ` set mb')" using Suc.prems(4) Cons by (auto simp: writer_ok_def)
    then obtain out w' where *: "write_chunks fuel pool recorder (s @ [o1]) ?w mb' = Some (None, (s @ [o1]) @ out, w')"
        "map mb_contents out = frames ?w (map (\<lambda>b. (UDP b, contents b)) mb')"
      using Suc.IH [of ?w mb' "s @ [o1]"] Suc.prems(1-3,5,6) Cons by auto
    have "write_chunks (Suc fuel) pool recorder s w mb = Some (None, s @ o1 # out, w')"
      using Suc.prems(1,2) b(2) o1(1) *(1) Cons by (simp add: SplitFirst_def)
    moreover have "map mb_contents (o1 # out) = frames w (map (\<lambda>b. (UDP b, contents b)) mb)"
      using o1(2) *(2) Cons frames_Cons [of w "(UDP b, contents b)"] by simp
    ultimately show ?thesis by blast
  qed
qed simp

section \<open>What is read back\<close>

text \<open>A receiver: \<open>n\<close> times the metadata of a frame and the packet behind it.\<close>

fun receive :: "nat \<Rightarrow> nat \<Rightarrow> (nat \<Rightarrow> bytes) \<Rightarrow> 'r reader \<Rightarrow> bool \<Rightarrow> 'r \<Rightarrow> ((FrameMetadata \<times> bytes) list \<times> 'r) option" where
  "receive 0 fuel pool rd rsl r = Some ([], r)"
| "receive (Suc n) fuel pool rd rsl r = do {
     (e, meta, r1) \<leftarrow> Unmarshal fuel pool rd r rsl zero_FrameMetadata;
     if e \<noteq> None then None
     else do {
       (mb, e, r2, pr) \<leftarrow> Packet_ReadMultiBuffer fuel (pool 4) rd r1 (NewPacketReader (Some (fm_Target meta)));
       if e \<noteq> None then None
       else do {
         (rest, r3) \<leftarrow> receive n fuel pool rd rsl r2;
         Some ((meta, mb_contents mb) # rest, r3) } } }"

fun delivered :: "Writer \<Rightarrow> (Destination option \<times> bytes) list \<Rightarrow> (FrameMetadata \<times> bytes) list" where
  "delivered w [] = []"
| "delivered w ((u, d) # cs) = (received (data_meta w) u, d) # delivered (w\<lparr>mw_followup := True\<rparr>) cs"

lemma contents_UDP: "contents (b\<lparr>UDP := u\<rparr>) = contents b"
  by (simp add: contents_def)

context byte_source
begin

lemma Packet_ok:
  assumes "good r" "content r = put16 (of_nat (length d)) @ d @ rest" "length d \<le> 8192" "8192 \<le> fuel" "length arr < 2 ^ 31"
  shows "\<exists>mb r' pr. Packet_ReadMultiBuffer fuel arr rd r (NewPacketReader dest) = Some (mb, None, r', pr) \<and> mb_contents mb = d \<and>
    good r' \<and> content r' = rest"
proof -
  obtain r1 where r1: "ReadUint16 fuel rd r = Some (Inr (of_nat (length d)), r1)" "good r1" "content r1 = d @ rest"
    using ReadUint16_ok [OF assms(1), of "of_nat (length d)" "d @ rest" fuel] assms(2,4) by auto
  have u: "unat (of_nat (length d) :: u16) = length d" "uint (of_nat (length d) :: u16) = int (length d)"
    using assms(3) by (simp_all add: unat_of_nat unsigned_of_nat take_bit_nat_eq_self)
  obtain b r2 where b: "ReadFullFrom fuel rd r1 (New arr) (int (length d)) = Some (length d, None, b, r2)" "good r2" "content r2 = rest"
      "contents b = d"
    using read_exact [OF r1(2) _ r1(3), of "New arr" fuel] assms(3-5) by auto
  have "Packet_ReadMultiBuffer fuel arr rd r (NewPacketReader dest) =
      Some ([case dest of Some d \<Rightarrow> if Dest_Network d = Network_UDP then b\<lparr>UDP := Some d\<rparr> else b | None \<Rightarrow> b], None, r2,
        (NewPacketReader dest)\<lparr>mp_eof := True\<rparr>)"
    using r1(1) b(1) assms(3) unfolding Packet_ReadMultiBuffer_def
    by (simp add: NewPacketReader_def u Size_def Let_def)
  then show ?thesis using b by (auto simp: contents_UDP split: option.splits)
qed

lemma receive_ok:
  assumes "good r" "content r = concat (frames w cs) @ rest" "\<forall>(u, d)\<in>set cs. frame_ok (data_meta w) u \<and>
      frame_ok (data_meta (w\<lparr>mw_followup := True\<rparr>)) u \<and> length d \<le> 8192"
    "8192 \<le> fuel" "pool_ok pool" "rsl = (mw_inbound w \<noteq> None)"
  shows "\<exists>r'. receive (length cs) fuel pool rd rsl r = Some (delivered w cs, r') \<and> content r' = rest"
  using assms
proof (induction cs arbitrary: r w)
  case (Cons c cs)
  obtain u d where c: "c = (u, d)" by (cases c)
  let ?w = "w\<lparr>mw_followup := True\<rparr>"
  have ok: "frame_ok (data_meta w) u" "length d \<le> 8192" using Cons.prems(3) c by auto
  have rsl: "rsl = (fm_Inbound (data_meta w) \<noteq> None)" using Cons.prems(6) by (simp add: data_meta_def getNextFrameMeta_def Let_def)
  have cr: "content r = enc_frame (data_meta w) u @ put16 (of_nat (length d)) @ d @ concat (frames ?w cs) @ rest"
    using Cons.prems(2) c by simp
  obtain r1 where r1: "Unmarshal fuel pool rd r rsl zero_FrameMetadata = Some (None, received (data_meta w) u, r1)" "good r1"
      "content r1 = put16 (of_nat (length d)) @ d @ concat (frames ?w cs) @ rest"
    using Unmarshal_ok [OF Cons.prems(1) cr ok(1) _ Cons.prems(5), of fuel rsl] Cons.prems(4) rsl by auto
  obtain mb r2 pr where r2: "Packet_ReadMultiBuffer fuel (pool 4) rd r1 (NewPacketReader (Some (fm_Target (received (data_meta w) u)))) =
      Some (mb, None, r2, pr)" "mb_contents mb = d" "good r2" "content r2 = concat (frames ?w cs) @ rest"
    using Packet_ok [OF r1(2,3) ok(2) Cons.prems(4), of "pool 4"] Cons.prems(5) by blast
  have "\<forall>(u, d)\<in>set cs. frame_ok (data_meta ?w) u \<and> frame_ok (data_meta (?w\<lparr>mw_followup := True\<rparr>)) u \<and> length d \<le> 8192"
    using Cons.prems(3) by auto
  then obtain r3 where "receive (length cs) fuel pool rd rsl r2 = Some (delivered ?w cs, r3)" "content r3 = rest"
    using Cons.IH [OF r2(3,4) _ Cons.prems(4,5)] Cons.prems(6) by auto
  then show ?case using c r1(1) r2(1,2) by simp
qed simp

end



end
