(* ===== verification/Xray_MuxSession.thy ===== *)
theory Xray_MuxSession
  imports Xray_MuxWriter "HOL-Library.AList"
begin

text \<open>
  The sessions of a multiplexed connection (\<^verbatim>\<open>xray-core/common/mux/session.go\<close>). Sessions and XUDP records are
  shared by pointer, so they live in explicit stores, by reference numbers; the Go maps are association
  lists, whose order is the order of iteration. What closing a session does to the pipes it was given is
  recorded in a log. Each locked method is one step. The lemmas show, for the manager of a client, that
  identifiers of live sessions never collide, that the limits hold and that every session is released
  exactly once.
\<close>

section \<open>State\<close>

record Session =
  ss_ID :: u16
  ss_transferType :: TransferType
  ss_closed :: bool
  ss_done :: bool
  ss_XUDP :: "nat option"

datatype XUDPStatus = Initializing | Active | Expiring

record XUDP =
  xu_GlobalID :: bytes
  xu_Status :: XUDPStatus
  xu_Expire :: int
  xu_Mux :: nat

datatype session_event =
    DoneClosed nat
  | InputInterrupted nat
  | OutputClosed nat
  | InputReturnAnError nat go_error
  | InputRecovered nat

record SessionManager =
  sm_sessions :: "(u16 \<times> nat) list"
  sm_count :: u16
  sm_closed :: bool
  sm_store :: "nat \<rightharpoonup> Session"
  sm_next :: nat
  sm_xudps :: "nat \<rightharpoonup> XUDP"
  sm_xudpMap :: "(bytes \<times> nat) list"
  sm_log :: "session_event list"

record ClientStrategy =
  MaxConcurrency :: u32
  MaxConnection :: u32

definition NewSessionManager :: SessionManager where
  "NewSessionManager = \<lparr>sm_sessions = [], sm_count = 0, sm_closed = False, sm_store = Map.empty, sm_next = 0,
     sm_xudps = Map.empty, sm_xudpMap = [], sm_log = []\<rparr>"

section \<open>Operations\<close>

definition Manager_Size :: "SessionManager \<Rightarrow> int" where "Manager_Size m = int (length (sm_sessions m))"
definition Manager_Count :: "SessionManager \<Rightarrow> int" where "Manager_Count m = int (unat (sm_count m))"

text \<open>Storing a session object under a new reference.\<close>

definition new_session :: "Session \<Rightarrow> SessionManager \<Rightarrow> nat \<times> SessionManager" where
  "new_session s m = (sm_next m, m\<lparr>sm_store := (sm_store m)(sm_next m \<mapsto> s), sm_next := sm_next m + 1\<rparr>)"

definition Allocate :: "ClientStrategy \<Rightarrow> SessionManager \<Rightarrow> nat option \<times> SessionManager" where
  "Allocate strategy m =
     (let maxConcurrency = unat (MaxConcurrency strategy); maxConnection = (ucast (MaxConnection strategy) :: u16) in
      if sm_closed m \<or> (maxConcurrency > 0 \<and> length (sm_sessions m) \<ge> maxConcurrency) \<or>
         (maxConnection > 0 \<and> sm_count m \<ge> maxConnection)
      then (None, m)
      else
        let m1 = m\<lparr>sm_count := sm_count m + 1\<rparr>;
            (ref, m2) = new_session \<lparr>ss_ID = sm_count m1, ss_transferType = TransferTypeStream, ss_closed = False, ss_done = True, ss_XUDP = None\<rparr> m1
        in (Some ref, m2\<lparr>sm_sessions := AList.update (sm_count m1) ref (sm_sessions m2)\<rparr>))"

definition Manager_Add :: "nat \<Rightarrow> SessionManager \<Rightarrow> (bool \<times> SessionManager) option" where
  "Manager_Add ref m = do {
     s \<leftarrow> sm_store m ref;
     Some (if sm_closed m then (False, m)
           else (True, m\<lparr>sm_count := sm_count m + 1, sm_sessions := AList.update (ss_ID s) ref (sm_sessions m)\<rparr>)) }"

definition Manager_Remove :: "u16 \<Rightarrow> SessionManager \<Rightarrow> SessionManager" where
  "Manager_Remove i m = (if sm_closed m then m else m\<lparr>sm_sessions := AList.delete i (sm_sessions m)\<rparr>)"

definition Manager_Get :: "u16 \<Rightarrow> SessionManager \<Rightarrow> nat option" where
  "Manager_Get i m = (if sm_closed m then None else map_of (sm_sessions m) i)"

definition CloseIfNoSessionAndIdle :: "int \<Rightarrow> int \<Rightarrow> SessionManager \<Rightarrow> bool \<times> SessionManager" where
  "CloseIfNoSessionAndIdle checkSize checkCount m =
     (if sm_closed m then (True, m)
      else if sm_sessions m \<noteq> [] \<or> checkSize \<noteq> 0 \<or> checkCount \<noteq> Manager_Count m then (False, m)
      else (True, m\<lparr>sm_closed := True, sm_sessions := []\<rparr>))"

definition minute :: int where "minute = 60000000000"

text \<open>Releasing an XUDP session: its record expires a minute later.\<close>

definition expire_xudp :: "int \<Rightarrow> nat \<Rightarrow> SessionManager \<Rightarrow> SessionManager" where
  "expire_xudp now x m =
     (case sm_xudps m x of
        Some xu \<Rightarrow> if xu_Status xu = Active then m\<lparr>sm_xudps := (sm_xudps m)(x \<mapsto> xu\<lparr>xu_Expire := now + minute, xu_Status := Expiring\<rparr>)\<rparr> else m
      | None \<Rightarrow> m)"

definition logs :: "session_event list \<Rightarrow> SessionManager \<Rightarrow> SessionManager" where
  "logs es m = m\<lparr>sm_log := sm_log m @ es\<rparr>"

definition Session_Close :: "int \<Rightarrow> nat \<Rightarrow> SessionManager \<Rightarrow> SessionManager option" where
  "Session_Close now ref m = do {
     s \<leftarrow> sm_store m ref;
     Some (if ss_closed s then m
           else
             let m1 = m\<lparr>sm_store := (sm_store m)(ref \<mapsto> s\<lparr>ss_closed := True\<rparr>)\<rparr>;
                 m2 = (if ss_done s then logs [DoneClosed ref] m1 else m1);
                 m3 = (case ss_XUDP s of
                         None \<Rightarrow> logs [InputInterrupted ref, OutputClosed ref] m2
                       | Some x \<Rightarrow> expire_xudp now x (logs [InputReturnAnError ref EOF, InputRecovered ref] m2))
             in Manager_Remove (ss_ID s) m3) }"

fun close_all :: "int \<Rightarrow> (u16 \<times> nat) list \<Rightarrow> SessionManager \<Rightarrow> SessionManager option" where
  "close_all now [] m = Some m"
| "close_all now ((i, ref) # rs) m = do { m' \<leftarrow> Session_Close now ref m; close_all now rs m' }"

definition Manager_Close :: "int \<Rightarrow> SessionManager \<Rightarrow> SessionManager option" where
  "Manager_Close now m =
     (if sm_closed m then Some m
      else do {
        m' \<leftarrow> close_all now (sm_sessions m) (m\<lparr>sm_closed := True\<rparr>);
        Some (m'\<lparr>sm_sessions := []\<rparr>) })"

text \<open>The reader a session gets for incoming data.\<close>

datatype session_reader = StreamReader | FromPacketReader PacketReader

definition Session_NewReader :: "Session \<Rightarrow> Destination option \<Rightarrow> session_reader" where
  "Session_NewReader s dest = (if ss_transferType s = TransferTypeStream then StreamReader else FromPacketReader (NewPacketReader dest))"

definition XUDP_Interrupt :: "XUDP \<Rightarrow> SessionManager \<Rightarrow> SessionManager" where
  "XUDP_Interrupt x m = logs [InputInterrupted (xu_Mux x), OutputClosed (xu_Mux x)] m"

text \<open>One round of the goroutine that expires XUDP records, over the entries of the map.\<close>

fun expire_round :: "int \<Rightarrow> (bytes \<times> nat) list \<Rightarrow> SessionManager \<Rightarrow> SessionManager" where
  "expire_round now [] m = m"
| "expire_round now ((i, x) # xs) m =
     (case sm_xudps m x of
        Some xu \<Rightarrow>
          if xu_Status xu = Expiring \<and> now > xu_Expire xu
          then expire_round now xs ((XUDP_Interrupt xu m)\<lparr>sm_xudpMap := AList.delete i (sm_xudpMap m)\<rparr>)
          else expire_round now xs m
      | None \<Rightarrow> expire_round now xs m)"

section \<open>The manager of a client\<close>

text \<open>What a client does with its manager, in any order.\<close>

inductive client_step :: "ClientStrategy \<Rightarrow> SessionManager \<Rightarrow> SessionManager \<Rightarrow> bool" for strategy where
  allocate: "client_step strategy m (snd (Allocate strategy m))"
| session_close: "Session_Close now ref m = Some m' \<Longrightarrow> client_step strategy m m'"
| idle_close: "client_step strategy m (snd (CloseIfNoSessionAndIdle checkSize checkCount m))"
| close: "Manager_Close now m = Some m' \<Longrightarrow> client_step strategy m m'"

inductive_cases client_stepE: "client_step strategy m m'"

text \<open>How often the output of a session was closed.\<close>

definition released :: "SessionManager \<Rightarrow> nat \<Rightarrow> nat" where
  "released m ref = count_list (sm_log m) (OutputClosed ref)"

text \<open>Every stored session is older than the next reference and released exactly when closed.\<close>

definition store_inv :: "SessionManager \<Rightarrow> bool" where
  "store_inv m \<longleftrightarrow> (\<forall>ref. case sm_store m ref of
      None \<Rightarrow> released m ref = 0
    | Some s \<Rightarrow> ref < sm_next m \<and> ss_XUDP s = None \<and> released m ref = (if ss_closed s then 1 else 0))"

lemma store_invI:
  assumes "\<And>ref. sm_store m ref = None \<Longrightarrow> released m ref = 0"
    "\<And>ref s. sm_store m ref = Some s \<Longrightarrow> ref < sm_next m \<and> ss_XUDP s = None \<and> released m ref = (if ss_closed s then 1 else 0)"
  shows "store_inv m"
  unfolding store_inv_def
proof
  fix ref
  show "case sm_store m ref of None \<Rightarrow> released m ref = 0
    | Some s \<Rightarrow> ref < sm_next m \<and> ss_XUDP s = None \<and> released m ref = (if ss_closed s then 1 else 0)"
    using assms [of ref] by (cases "sm_store m ref") simp_all
qed

lemma store_invD:
  assumes "store_inv m"
  shows "sm_store m ref = None \<Longrightarrow> released m ref = 0"
    "sm_store m ref = Some s \<Longrightarrow> ref < sm_next m \<and> ss_XUDP s = None \<and> released m ref = (if ss_closed s then 1 else 0)"
  using spec [OF assms [unfolded store_inv_def], of ref] by simp_all

lemma store_inv_same:
  "store_inv m \<Longrightarrow> sm_store m' = sm_store m \<Longrightarrow> sm_log m' = sm_log m \<Longrightarrow> sm_next m' = sm_next m \<Longrightarrow> store_inv m'"
  using store_invD [of m] by (intro store_invI) (auto simp: released_def)

definition open_at :: "SessionManager \<Rightarrow> u16 \<Rightarrow> nat \<Rightarrow> bool" where
  "open_at m i ref \<longleftrightarrow> (\<exists>s. sm_store m ref = Some s \<and> ss_ID s = i \<and> \<not> ss_closed s)"

text \<open>The map holds exactly the open sessions, each under its identifier.\<close>

definition map_inv :: "SessionManager \<Rightarrow> bool" where
  "map_inv m \<longleftrightarrow> distinct (map fst (sm_sessions m)) \<and>
     (\<forall>i ref. (i, ref) \<in> set (sm_sessions m) \<longleftrightarrow> open_at m i ref) \<and>
     (\<forall>i\<in>fst ` set (sm_sessions m). i \<le> sm_count m)"

definition sess_inv :: "ClientStrategy \<Rightarrow> SessionManager \<Rightarrow> bool" where
  "sess_inv strategy m \<longleftrightarrow> store_inv m \<and> map_inv m \<and> (sm_closed m \<longrightarrow> sm_sessions m = []) \<and>
     (0 < unat (MaxConcurrency strategy) \<longrightarrow> length (sm_sessions m) \<le> unat (MaxConcurrency strategy)) \<and>
     sm_count m \<le> ucast (MaxConnection strategy)"

lemma sess_inv_New: "sess_inv strategy NewSessionManager"
  by (simp add: sess_inv_def store_inv_def map_inv_def open_at_def released_def NewSessionManager_def)

lemma map_update_fresh: "k \<notin> fst ` set xs \<Longrightarrow> AList.update k v xs = xs @ [(k, v)]"
  by (induction xs) auto

lemma set_delete: "set (AList.delete k xs) = {x \<in> set xs. fst x \<noteq> k}"
  by (auto simp: AList.delete_eq)

lemma Allocate_fresh:
  assumes "sess_inv strategy m" "ucast (MaxConnection strategy) \<noteq> (0 :: u16)" "Allocate strategy m = (Some ref, m')"
  shows "sm_count m' \<notin> fst ` set (sm_sessions m)" "sm_count m < ucast (MaxConnection strategy)" "sm_count m' = sm_count m + 1"
    "unat (sm_count m + 1) = unat (sm_count m) + 1"
proof -
  have pos: "(0 :: u16) < ucast (MaxConnection strategy)" using assms(2) by (simp add: word_gt_0)
  have lt: "sm_count m < ucast (MaxConnection strategy)" "sm_count m' = sm_count m + 1"
    using pos assms(3) by (auto simp: Allocate_def Let_def new_session_def split: if_splits)
  show "sm_count m < ucast (MaxConnection strategy)" "sm_count m' = sm_count m + 1" using lt by blast+
  have "unat (ucast (MaxConnection strategy) :: u16) < 2 ^ LENGTH(16)" by (rule unsigned_less)
  then have "unat (sm_count m) + 1 < 2 ^ 16" using lt(1) by (simp add: word_less_nat_alt)
  then show u: "unat (sm_count m + 1) = unat (sm_count m) + 1" by (simp add: unat_word_ariths)
  show "sm_count m' \<notin> fst ` set (sm_sessions m)"
  proof
    assume "sm_count m' \<in> fst ` set (sm_sessions m)"
    then have "sm_count m' \<le> sm_count m" using assms(1) by (auto simp: sess_inv_def map_inv_def)
    then show False using lt(2) u by (simp add: word_le_nat_alt)
  qed
qed

lemma sess_inv_Allocate:
  assumes "sess_inv strategy m" "ucast (MaxConnection strategy) \<noteq> (0 :: u16)"
  shows "sess_inv strategy (snd (Allocate strategy m))"
proof (cases "fst (Allocate strategy m)")
  case None
  then have "snd (Allocate strategy m) = m" by (auto simp: Allocate_def Let_def new_session_def split: if_splits)
  then show ?thesis using assms(1) by simp
next
  case (Some ref)
  then obtain m' where m': "Allocate strategy m = (Some ref, m')" by (cases "Allocate strategy m") auto
  note fresh = Allocate_fresh [OF assms m']
  let ?i = "sm_count m + 1"
  let ?s = "\<lparr>ss_ID = ?i, ss_transferType = TransferTypeStream, ss_closed = False, ss_done = True, ss_XUDP = None\<rparr>"
  have lim: "\<not> sm_closed m" "0 < unat (MaxConcurrency strategy) \<longrightarrow> length (sm_sessions m) < unat (MaxConcurrency strategy)"
    using m' by (auto simp: Allocate_def Let_def split: if_splits)
  have eq: "m' = m\<lparr>sm_count := ?i, sm_store := (sm_store m)(sm_next m \<mapsto> ?s), sm_next := sm_next m + 1,
      sm_sessions := sm_sessions m @ [(?i, sm_next m)]\<rparr>"
    using m' fresh(1,3) by (auto simp: Allocate_def Let_def new_session_def map_update_fresh split: if_splits)
  have inv: "store_inv m" "map_inv m" using assms(1) by (simp_all add: sess_inv_def)
  have none: "sm_store m (sm_next m) = None" using store_invD(2) [OF inv(1)] by (cases "sm_store m (sm_next m)") blast+
  have "store_inv m'"
    using store_invD [OF inv(1)] none unfolding released_def
    by (intro store_invI) (auto simp: released_def eq split: if_splits intro: less_SucI)
  moreover have "open_at m' i r \<longleftrightarrow> open_at m i r \<or> (i = ?i \<and> r = sm_next m)" for i r
    using none by (auto simp: open_at_def eq)
  moreover have "i \<le> ?i" if "i \<le> sm_count m" for i using that fresh(4) by (simp add: word_le_nat_alt)
  ultimately have "map_inv m'" "store_inv m'"
    using inv(2) fresh(1,3) unfolding map_inv_def by (auto simp: eq)
  moreover have "?i \<le> ucast (MaxConnection strategy)" using fresh(2,4) by (simp add: word_le_nat_alt word_less_nat_alt)
  ultimately show ?thesis using m' assms(1) lim by (auto simp: sess_inv_def eq)
qed

text \<open>Closing a session that is not an XUDP one.\<close>

lemma Session_Close_cases:
  assumes "store_inv m" "Session_Close now ref m = Some m'"
  shows "(\<exists>s. sm_store m ref = Some s \<and> ss_closed s \<and> m' = m) \<or>
    (\<exists>s es. sm_store m ref = Some s \<and> \<not> ss_closed s \<and> count_list es (OutputClosed ref) = 1 \<and>
      (\<forall>r. r \<noteq> ref \<longrightarrow> count_list es (OutputClosed r) = 0) \<and>
      m' = Manager_Remove (ss_ID s) (m\<lparr>sm_store := (sm_store m)(ref \<mapsto> s\<lparr>ss_closed := True\<rparr>), sm_log := sm_log m @ es\<rparr>))"
proof -
  obtain s where s: "sm_store m ref = Some s" using assms(2) by (auto simp: Session_Close_def bind_eq_Some_conv)
  then have x: "ss_XUDP s = None" using store_invD(2) [OF assms(1)] by blast
  show ?thesis
  proof (cases "ss_closed s")
    case False
    let ?es = "(if ss_done s then [DoneClosed ref] else []) @ [InputInterrupted ref, OutputClosed ref]"
    have "m' = Manager_Remove (ss_ID s) (m\<lparr>sm_store := (sm_store m)(ref \<mapsto> s\<lparr>ss_closed := True\<rparr>), sm_log := sm_log m @ ?es\<rparr>)"
      using assms(2) s x False by (auto simp: Session_Close_def Let_def logs_def)
    moreover have "count_list ?es (OutputClosed ref) = 1" "\<forall>r. r \<noteq> ref \<longrightarrow> count_list ?es (OutputClosed r) = 0" by auto
    ultimately show ?thesis using s False by blast
  qed (use s assms(2) in \<open>auto simp: Session_Close_def\<close>)
qed

lemma Manager_Remove_fields [simp]:
  "sm_store (Manager_Remove i m) = sm_store m" "sm_log (Manager_Remove i m) = sm_log m" "sm_count (Manager_Remove i m) = sm_count m"
  "sm_closed (Manager_Remove i m) = sm_closed m" "sm_next (Manager_Remove i m) = sm_next m"
  by (simp_all add: Manager_Remove_def)

lemma Session_Close_store:
  assumes "store_inv m" "Session_Close now ref m = Some m'"
  shows "store_inv m'" "sm_next m' = sm_next m" "sm_count m' = sm_count m" "sm_closed m' = sm_closed m"
    "sm_store m' = (sm_store m)(ref := map_option (\<lambda>s. s\<lparr>ss_closed := True\<rparr>) (sm_store m ref))"
proof -
  from Session_Close_cases [OF assms] show "sm_next m' = sm_next m" "sm_count m' = sm_count m" "sm_closed m' = sm_closed m"
    "sm_store m' = (sm_store m)(ref := map_option (\<lambda>s. s\<lparr>ss_closed := True\<rparr>) (sm_store m ref))"
    by (auto intro!: ext simp: fun_eq_iff)
  from Session_Close_cases [OF assms] show "store_inv m'"
  proof (elim disjE exE conjE)
    fix s es assume s: "sm_store m ref = Some s" "\<not> ss_closed s" "count_list es (OutputClosed ref) = 1"
      "\<forall>r. r \<noteq> ref \<longrightarrow> count_list es (OutputClosed r) = 0"
      "m' = Manager_Remove (ss_ID s) (m\<lparr>sm_store := (sm_store m)(ref \<mapsto> s\<lparr>ss_closed := True\<rparr>), sm_log := sm_log m @ es\<rparr>)"
    have "released m' r = released m r + (if r = ref then 1 else 0)" for r using s(3-5) by (simp add: released_def)
    moreover have "sm_store m' r = (if r = ref then Some (s\<lparr>ss_closed := True\<rparr>) else sm_store m r)" "sm_next m' = sm_next m" for r
      using s(5) by simp_all
    moreover have "ref < sm_next m" "ss_XUDP s = None" "released m ref = 0"
      using store_invD(2) [OF assms(1) s(1)] s(2) by simp_all
    ultimately show ?thesis
      using store_invD [OF assms(1)] by (intro store_invI) (auto split: if_splits)
  qed (use assms(1) in simp)
qed

lemma open_at_unique: "open_at m i ref \<Longrightarrow> sm_store m ref = Some s \<Longrightarrow> ss_ID s = i \<and> \<not> ss_closed s"
  by (auto simp: open_at_def)

lemma open_at_close:
  assumes "sm_store m' = (sm_store m)(ref := map_option (\<lambda>s. s\<lparr>ss_closed := True\<rparr>) (sm_store m ref))"
  shows "open_at m' i r \<longleftrightarrow> open_at m i r \<and> r \<noteq> ref"
  using assms by (auto simp: open_at_def)

lemma sess_inv_Session_Close:
  assumes "sess_inv strategy m" "Session_Close now ref m = Some m'"
  shows "sess_inv strategy m'"
proof -
  have inv: "store_inv m" "map_inv m" using assms(1) by (simp_all add: sess_inv_def)
  note st = Session_Close_store [OF inv(1) assms(2)]
  consider "m' = m" | s es where "sm_store m ref = Some s" "\<not> ss_closed s"
      "m' = Manager_Remove (ss_ID s) (m\<lparr>sm_store := (sm_store m)(ref \<mapsto> s\<lparr>ss_closed := True\<rparr>), sm_log := sm_log m @ es\<rparr>)"
    using Session_Close_cases [OF inv(1) assms(2)] by blast
  then show ?thesis
  proof cases
    case 2
    have mem: "(ss_ID s, ref) \<in> set (sm_sessions m)" using inv(2) 2(1,2) by (auto simp: map_inv_def open_at_def)
    then have open_m: "\<not> sm_closed m" using assms(1) by (auto simp: sess_inv_def)
    then have ss: "sm_sessions m' = AList.delete (ss_ID s) (sm_sessions m)" using 2(3) by (simp add: Manager_Remove_def)
    have d: "distinct (map fst (sm_sessions m))" using inv(2) by (simp add: map_inv_def)
    have key: "(i, r) \<in> set (sm_sessions m) \<Longrightarrow> i = ss_ID s \<longleftrightarrow> r = ref" for i r
    proof
      assume "(i, r) \<in> set (sm_sessions m)" "r = ref"
      then show "i = ss_ID s" using inv(2) 2(1) by (auto simp: map_inv_def dest: open_at_unique)
    next
      assume "(i, r) \<in> set (sm_sessions m)" "i = ss_ID s"
      then show "r = ref" using mem d by (metis eq_key_imp_eq_value)
    qed
    have "distinct (map fst (sm_sessions m'))" using d ss by (simp add: distinct_delete)
    moreover have "(i, r) \<in> set (sm_sessions m') \<longleftrightarrow> open_at m' i r" for i r
      using inv(2) key by (auto simp: ss set_delete open_at_close [OF st(5)] map_inv_def)
    moreover have "\<forall>i\<in>fst ` set (sm_sessions m'). i \<le> sm_count m'"
      using inv(2) by (auto simp: ss set_delete st(3) map_inv_def)
    moreover have "length (sm_sessions m') \<le> length (sm_sessions m)" by (simp add: ss AList.delete_eq)
    ultimately show ?thesis
      using assms(1) st(1,3,4) open_m unfolding sess_inv_def map_inv_def by auto
  qed (use assms(1) in simp)
qed

lemma close_all_store:
  assumes "store_inv m" "sm_closed m" "\<forall>(i, ref)\<in>set rs. sm_store m ref \<noteq> None"
  shows "\<exists>m'. close_all now rs m = Some m' \<and> store_inv m' \<and> sm_closed m' \<and> sm_count m' = sm_count m \<and>
    (\<forall>i r. open_at m' i r \<longleftrightarrow> open_at m i r \<and> r \<notin> snd ` set rs)"
  using assms
proof (induction rs arbitrary: m)
  case (Cons p rs)
  obtain i ref where p: "p = (i, ref)" by (cases p)
  then obtain s where s: "sm_store m ref = Some s" using Cons.prems(3) by auto
  then obtain m1 where m1: "Session_Close now ref m = Some m1" by (simp add: Session_Close_def)
  note st = Session_Close_store [OF Cons.prems(1) m1]
  have "\<forall>(i, ref)\<in>set rs. sm_store m1 ref \<noteq> None" using Cons.prems(3) by (auto simp: st(5))
  then obtain m' where "close_all now rs m1 = Some m'" "store_inv m'" "sm_closed m'" "sm_count m' = sm_count m1"
      "\<forall>i r. open_at m' i r \<longleftrightarrow> open_at m1 i r \<and> r \<notin> snd ` set rs"
    using Cons.IH [of m1] st(1,4) Cons.prems(2) by auto
  then show ?case using p m1 st(3) open_at_close [OF st(5)] by auto
qed simp

lemma sess_inv_Close:
  assumes "sess_inv strategy m" "Manager_Close now m = Some m'"
  shows "sess_inv strategy m'"
proof (cases "sm_closed m")
  case False
  let ?m = "m\<lparr>sm_closed := True\<rparr>"
  have inv: "store_inv m" "map_inv m" using assms(1) by (simp_all add: sess_inv_def)
  have s: "store_inv ?m" using inv(1) by (rule store_inv_same) simp_all
  have o: "open_at ?m i r \<longleftrightarrow> (i, r) \<in> set (sm_sessions m)" for i r using inv(2) by (simp add: map_inv_def open_at_def)
  have "\<forall>(i, ref)\<in>set (sm_sessions m). sm_store ?m ref \<noteq> None" using inv(2) by (auto simp: map_inv_def open_at_def)
  then obtain m1 where m1: "close_all now (sm_sessions m) ?m = Some m1" "store_inv m1" "sm_closed m1" "sm_count m1 = sm_count m"
      "\<forall>i r. open_at m1 i r \<longleftrightarrow> open_at ?m i r \<and> r \<notin> snd ` set (sm_sessions m)"
    using close_all_store [OF s, of "sm_sessions m" now] by auto
  then have m': "m' = m1\<lparr>sm_sessions := []\<rparr>" using assms(2) False by (simp add: Manager_Close_def)
  have "\<not> open_at m1 i r" for i r using m1(5) o by (metis image_eqI snd_conv)
  then have "\<not> open_at m' i r" for i r by (simp add: m' open_at_def)
  moreover have "store_inv m'" using m1(2) by (rule store_inv_same) (simp_all add: m')
  ultimately show ?thesis using assms(1) m1(4) by (simp add: sess_inv_def map_inv_def m')
qed (use assms in \<open>simp add: Manager_Close_def\<close>)

lemma sess_inv_idle:
  assumes "sess_inv strategy m"
  shows "sess_inv strategy (snd (CloseIfNoSessionAndIdle checkSize checkCount m))"
proof (cases "snd (CloseIfNoSessionAndIdle checkSize checkCount m) = m")
  case False
  then have e: "sm_sessions m = []" "snd (CloseIfNoSessionAndIdle checkSize checkCount m) = m\<lparr>sm_closed := True, sm_sessions := []\<rparr>"
    by (auto simp: CloseIfNoSessionAndIdle_def split: if_splits)
  have "store_inv (m\<lparr>sm_closed := True, sm_sessions := []\<rparr>)"
    by (rule store_inv_same [of m]) (use assms in \<open>simp_all add: sess_inv_def\<close>)
  moreover have "open_at (m\<lparr>sm_closed := True, sm_sessions := []\<rparr>) i r = open_at m i r" for i r by (simp add: open_at_def)
  ultimately show ?thesis using assms unfolding e(2) sess_inv_def map_inv_def by (simp add: e(1))
qed (use assms in simp)

lemma sess_inv_step:
  assumes "client_step strategy m m'" "sess_inv strategy m" "ucast (MaxConnection strategy) \<noteq> (0 :: u16)"
  shows "sess_inv strategy m'"
  using assms(1)
  by cases (use assms(2,3) in \<open>auto intro: sess_inv_Allocate sess_inv_Session_Close sess_inv_Close sess_inv_idle\<close>)

lemma sess_inv_steps:
  assumes "(client_step strategy)\<^sup>*\<^sup>* NewSessionManager m" "ucast (MaxConnection strategy) \<noteq> (0 :: u16)"
  shows "sess_inv strategy m"
  using assms(1) by (induction rule: rtranclp_induct) (simp_all add: sess_inv_New sess_inv_step [OF _ _ assms(2)])



end
