(* ===== verification/Xray_Pipe.thy ===== *)
theory Xray_Pipe
  imports Xray_MultiBuffer
begin

text \<open>
  The in-memory pipe (\<^verbatim>\<open>xray-core/transport/pipe\<close>, with \<^verbatim>\<open>signal.Notifier\<close> and \<^verbatim>\<open>done.Instance\<close>): a queue of
  buffers between a reader and a writer, with a size limit, two notifiers and a close state. The sections
  that hold the lock are functions; a blocking method is given what the other goroutines do during
  each of its waits and which case of its \<^verbatim>\<open>select\<close> it takes. For the concurrent behaviour, the step relation
  \<open>pipe_step\<close> interleaves a reader, a writer and closing at the granularity of the lock and of the
  notifiers. The lemmas show that bytes come out once and in order and that no wake-up is lost.
\<close>

section \<open>State\<close>

datatype pipe_state = st_open | st_closed | st_errord

record pipeOption =
  po_limit :: int
  po_discardOverflow :: bool

definition isFull :: "pipeOption \<Rightarrow> int \<Rightarrow> bool" where
  "isFull o' curSize \<longleftrightarrow> po_limit o' \<ge> 0 \<and> curSize > po_limit o'"

record pipe =
  pi_data :: "MultiBuffer option"
  pi_readSignal :: bool
  pi_writeSignal :: bool
  pi_done :: bool
  pi_errChan :: "go_error option"
  pi_option :: pipeOption
  pi_state :: pipe_state

definition errBufferFull :: go_error where "errBufferFull = NewError ''buffer full''"
definition ErrReadTimeout :: go_error where "ErrReadTimeout = NewError ''IO timeout''"

datatype pipe_opt = WithoutSizeLimit | WithSizeLimit int | DiscardOverflow

fun apply_opt :: "pipe_opt \<Rightarrow> pipeOption \<Rightarrow> pipeOption" where
  "apply_opt WithoutSizeLimit o' = o'\<lparr>po_limit := - 1\<rparr>"
| "apply_opt (WithSizeLimit l) o' = o'\<lparr>po_limit := l\<rparr>"
| "apply_opt DiscardOverflow o' = o'\<lparr>po_discardOverflow := True\<rparr>"

definition OptionsFromPolicy :: "int \<Rightarrow> pipe_opt list" where
  "OptionsFromPolicy perConnection = [if perConnection \<ge> 0 then WithSizeLimit perConnection else WithoutSizeLimit]"

definition NewPipe :: "pipe_opt list \<Rightarrow> pipe" where
  "NewPipe opts = \<lparr>pi_data = None, pi_readSignal = False, pi_writeSignal = False, pi_done = False, pi_errChan = None,
     pi_option = fold apply_opt opts \<lparr>po_limit = - 1, po_discardOverflow = False\<rparr>, pi_state = st_open\<rparr>"

text \<open>The list of buffers, a nil one being empty.\<close>

definition data_of :: "pipe \<Rightarrow> MultiBuffer" where
  "data_of p = (case pi_data p of None \<Rightarrow> [] | Some mb \<Rightarrow> mb)"

definition pipe_Len :: "pipe \<Rightarrow> int" where "pipe_Len p = MultiBuffer_Len (data_of p)"

section \<open>Operations\<close>

definition getState :: "bool \<Rightarrow> pipe \<Rightarrow> err" where
  "getState forRead p =
     (case pi_state p of
        st_open \<Rightarrow> if \<not> forRead \<and> isFull (pi_option p) (pipe_Len p) then Some errBufferFull else None
      | st_closed \<Rightarrow> if \<not> forRead then Some ErrClosedPipe else if \<not> MultiBuffer_IsEmpty (data_of p) then None else Some EOF
      | st_errord \<Rightarrow> Some ErrClosedPipe)"

definition readMultiBufferInternal :: "pipe \<Rightarrow> (MultiBuffer option \<times> err) \<times> pipe" where
  "readMultiBufferInternal p =
     (case getState True p of
        Some e \<Rightarrow> ((None, Some e), p)
      | None \<Rightarrow> ((pi_data p, None), p\<lparr>pi_data := None\<rparr>))"

definition writeMultiBufferInternal :: "MultiBuffer \<Rightarrow> pipe \<Rightarrow> err \<times> pipe" where
  "writeMultiBufferInternal mb p =
     (case getState False p of
        Some e \<Rightarrow> (Some e, p)
      | None \<Rightarrow>
          (case pi_data p of
             None \<Rightarrow> (None, p\<lparr>pi_data := Some mb\<rparr>)
           | Some d \<Rightarrow> (None, p\<lparr>pi_data := Some (fst (MergeMulti d mb))\<rparr>)))"

text \<open>The cases of the two \<^verbatim>\<open>select\<close> statements; a case that is not ready cannot be taken.\<close>

datatype wake = OnReadSignal | OnWriteSignal | OnDone | OnErrChan | OnTimer

fun take_wake :: "wake \<Rightarrow> pipe \<Rightarrow> pipe option" where
  "take_wake OnReadSignal p = (if pi_readSignal p then Some (p\<lparr>pi_readSignal := False\<rparr>) else None)"
| "take_wake OnWriteSignal p = (if pi_writeSignal p then Some (p\<lparr>pi_writeSignal := False\<rparr>) else None)"
| "take_wake OnDone p = (if pi_done p then Some p else None)"
| "take_wake OnErrChan p = (if pi_errChan p \<noteq> None then Some (p\<lparr>pi_errChan := None\<rparr>) else None)"
| "take_wake OnTimer p = Some p"

text \<open>
  A wait: what the other goroutines do meanwhile and the case taken then. \<open>None\<close>: still waiting when the list
  ends, or a case that was not ready or is not in this \<^verbatim>\<open>select\<close>.
\<close>

type_synonym pipe_waits = "((pipe \<Rightarrow> pipe) \<times> wake) list"

fun Pipe_ReadMultiBuffer :: "bool \<Rightarrow> pipe_waits \<Rightarrow> pipe \<Rightarrow> ((MultiBuffer option \<times> err) \<times> pipe) option" where
  "Pipe_ReadMultiBuffer timed ws p =
     (let ((d, e), p1) = readMultiBufferInternal p in
      if d \<noteq> None \<or> e \<noteq> None then Some ((d, e), p1\<lparr>pi_writeSignal := True\<rparr>)
      else case ws of
        [] \<Rightarrow> None
      | (others, w) # ws' \<Rightarrow>
          (let p2 = others p1 in
           case w of
             OnReadSignal \<Rightarrow> do { p3 \<leftarrow> take_wake w p2; Pipe_ReadMultiBuffer timed ws' p3 }
           | OnDone \<Rightarrow> do { p3 \<leftarrow> take_wake w p2; Pipe_ReadMultiBuffer timed ws' p3 }
           | OnErrChan \<Rightarrow> if timed then None else do { p3 \<leftarrow> take_wake w p2; Some ((None, pi_errChan p2), p3) }
           | OnTimer \<Rightarrow> if timed then Some ((None, Some ErrReadTimeout), p2) else None
           | OnWriteSignal \<Rightarrow> None))"

fun write_attempts :: "pipe_waits \<Rightarrow> MultiBuffer \<Rightarrow> pipe \<Rightarrow> (err \<times> pipe) option" where
  "write_attempts ws mb p =
     (let (e, p1) = writeMultiBufferInternal mb p in
      if e = None then Some (None, p1\<lparr>pi_readSignal := True\<rparr>)
      else if e = Some errBufferFull then
        (if po_discardOverflow (pi_option p1) then Some (None, p1)
         else case ws of
           [] \<Rightarrow> None
         | (others, w) # ws' \<Rightarrow>
             (let p2 = others p1 in
              case w of
                OnWriteSignal \<Rightarrow> do { p3 \<leftarrow> take_wake w p2; write_attempts ws' mb p3 }
              | OnDone \<Rightarrow> do { p3 \<leftarrow> take_wake w p2; Some (Some ErrClosedPipe, p3) }
              | _ \<Rightarrow> None))
      else Some (e, p1\<lparr>pi_readSignal := True\<rparr>))"

definition Pipe_WriteMultiBuffer :: "pipe_waits \<Rightarrow> MultiBuffer \<Rightarrow> pipe \<Rightarrow> (err \<times> pipe) option" where
  "Pipe_WriteMultiBuffer ws mb p = (if MultiBuffer_IsEmpty mb then Some (None, p) else write_attempts ws mb p)"

definition Pipe_Close :: "pipe \<Rightarrow> pipe" where
  "Pipe_Close p =
     (if pi_state p = st_closed \<or> pi_state p = st_errord then p
      else p\<lparr>pi_state := st_closed, pi_done := True\<rparr>)"

definition Pipe_Interrupt :: "pipe \<Rightarrow> pipe" where
  "Pipe_Interrupt p =
     (let p1 = (if \<not> MultiBuffer_IsEmpty (data_of p)
                then p\<lparr>pi_data := None, pi_state := (if pi_state p = st_closed then st_errord else pi_state p)\<rparr>
                else p)
      in if pi_state p1 = st_closed \<or> pi_state p1 = st_errord then p1
         else p1\<lparr>pi_state := st_errord, pi_done := True\<rparr>)"

text \<open>\<^verbatim>\<open>ReturnAnError\<close> blocks when the channel of one error is full: \<open>None\<close>.\<close>

definition ReturnAnError :: "go_error \<Rightarrow> pipe \<Rightarrow> pipe option" where
  "ReturnAnError e p = (if pi_errChan p \<noteq> None then None else Some (p\<lparr>pi_errChan := Some e\<rparr>))"

definition Recover :: "pipe \<Rightarrow> err \<times> pipe" where
  "Recover p = (pi_errChan p, p\<lparr>pi_errChan := None\<rparr>)"

section \<open>A reader and a writer, interleaved\<close>

text \<open>Where the reader and the writer are; \<open>RSignal\<close> and \<open>WSignal\<close> are between the lock and the notifier.\<close>

datatype reader_pc = RIdle | RTry | RSignal | RWait
datatype writer_pc = WIdle | WTry MultiBuffer | WSignal | WWait MultiBuffer

record run =
  rn_pipe :: pipe
  rn_rpc :: reader_pc
  rn_wpc :: writer_pc
  rn_accepted :: bytes
  rn_read :: bytes
  rn_dropped :: bool

inductive pipe_step :: "run \<Rightarrow> run \<Rightarrow> bool" where
  read_call: "rn_rpc s = RIdle \<Longrightarrow> pipe_step s (s\<lparr>rn_rpc := RTry\<rparr>)"
| read_try: "rn_rpc s = RTry \<Longrightarrow> readMultiBufferInternal (rn_pipe s) = ((d, e), p') \<Longrightarrow>
    pipe_step s (s\<lparr>rn_pipe := p', rn_rpc := (if d \<noteq> None \<or> e \<noteq> None then RSignal else RWait),
      rn_read := rn_read s @ (case d of None \<Rightarrow> [] | Some mb \<Rightarrow> mb_contents mb)\<rparr>)"
| read_signal: "rn_rpc s = RSignal \<Longrightarrow> pipe_step s (s\<lparr>rn_pipe := (rn_pipe s)\<lparr>pi_writeSignal := True\<rparr>, rn_rpc := RIdle\<rparr>)"
| read_wake: "rn_rpc s = RWait \<Longrightarrow> w \<in> {OnReadSignal, OnDone} \<Longrightarrow> take_wake w (rn_pipe s) = Some p' \<Longrightarrow>
    pipe_step s (s\<lparr>rn_pipe := p', rn_rpc := RTry\<rparr>)"
| read_error: "rn_rpc s = RWait \<Longrightarrow> w \<in> {OnErrChan, OnTimer} \<Longrightarrow> take_wake w (rn_pipe s) = Some p' \<Longrightarrow>
    pipe_step s (s\<lparr>rn_pipe := p', rn_rpc := RIdle\<rparr>)"
| write_call: "rn_wpc s = WIdle \<Longrightarrow> mb_ok mb \<Longrightarrow> mb_contents mb \<noteq> [] \<Longrightarrow> pipe_step s (s\<lparr>rn_wpc := WTry mb\<rparr>)"
| write_try: "rn_wpc s = WTry mb \<Longrightarrow> writeMultiBufferInternal mb (rn_pipe s) = (e, p') \<Longrightarrow>
    pipe_step s (s\<lparr>rn_pipe := p',
      rn_wpc := (if e = Some errBufferFull then if po_discardOverflow (pi_option p') then WIdle else WWait mb else WSignal),
      rn_accepted := rn_accepted s @ (if e = None then mb_contents mb else [])\<rparr>)"
| write_signal: "rn_wpc s = WSignal \<Longrightarrow> pipe_step s (s\<lparr>rn_pipe := (rn_pipe s)\<lparr>pi_readSignal := True\<rparr>, rn_wpc := WIdle\<rparr>)"
| write_wake: "rn_wpc s = WWait mb \<Longrightarrow> take_wake OnWriteSignal (rn_pipe s) = Some p' \<Longrightarrow>
    pipe_step s (s\<lparr>rn_pipe := p', rn_wpc := WTry mb\<rparr>)"
| write_done: "rn_wpc s = WWait mb \<Longrightarrow> pi_done (rn_pipe s) \<Longrightarrow> pipe_step s (s\<lparr>rn_wpc := WIdle\<rparr>)"
| close: "pipe_step s (s\<lparr>rn_pipe := Pipe_Close (rn_pipe s)\<rparr>)"
| interrupt: "pipe_step s (s\<lparr>rn_pipe := Pipe_Interrupt (rn_pipe s), rn_dropped := True\<rparr>)"
| return_error: "ReturnAnError e (rn_pipe s) = Some p' \<Longrightarrow> pipe_step s (s\<lparr>rn_pipe := p'\<rparr>)"
| recover: "pipe_step s (s\<lparr>rn_pipe := snd (Recover (rn_pipe s))\<rparr>)"

definition start :: "pipe_opt list \<Rightarrow> run" where
  "start opts = \<lparr>rn_pipe = NewPipe opts, rn_rpc = RIdle, rn_wpc = WIdle, rn_accepted = [], rn_read = [], rn_dropped = False\<rparr>"

section \<open>Invariants\<close>

text \<open>
  The queue: it holds well-formed lists that are not empty; what was read and what it holds is what was
  accepted, unless it was interrupted, after which nothing is accepted or read any more.
\<close>

definition queue_inv :: "run \<Rightarrow> bool" where
  "queue_inv s \<longleftrightarrow>
     (\<forall>mb. pi_data (rn_pipe s) = Some mb \<longrightarrow> mb_ok mb \<and> mb_contents mb \<noteq> []) \<and>
     (\<forall>mb. rn_wpc s = WTry mb \<or> rn_wpc s = WWait mb \<longrightarrow> mb_ok mb \<and> mb_contents mb \<noteq> []) \<and>
     (pi_done (rn_pipe s) \<longleftrightarrow> pi_state (rn_pipe s) \<noteq> st_open) \<and>
     (if rn_dropped s then pi_done (rn_pipe s) \<and> pi_data (rn_pipe s) = None \<and> prefix (rn_read s) (rn_accepted s)
      else rn_read s @ mb_contents (data_of (rn_pipe s)) = rn_accepted s)"

text \<open>No lost wake-up: whoever waits for something that is there is about to be woken.\<close>

definition wake_inv :: "run \<Rightarrow> bool" where
  "wake_inv s \<longleftrightarrow>
     (rn_rpc s = RWait \<and> pi_data (rn_pipe s) \<noteq> None \<longrightarrow> pi_readSignal (rn_pipe s) \<or> rn_wpc s = WSignal \<or> pi_done (rn_pipe s)) \<and>
     (\<forall>mb. rn_wpc s = WWait mb \<and> pi_data (rn_pipe s) = None \<longrightarrow> pi_writeSignal (rn_pipe s) \<or> rn_rpc s = RSignal \<or> pi_done (rn_pipe s))"

lemma getState_None: "getState fr p = None \<Longrightarrow> pi_state p = st_open \<or> (fr \<and> pi_state p = st_closed)"
  by (auto simp: getState_def split: pipe_state.splits if_splits)

lemma readInternal_cases:
  assumes "readMultiBufferInternal p = ((d, e), p')"
  shows "(e \<noteq> None \<and> d = None \<and> p' = p) \<or> (e = None \<and> d = pi_data p \<and> p' = p\<lparr>pi_data := None\<rparr> \<and> pi_state p \<noteq> st_errord)"
  using assms by (auto simp: readMultiBufferInternal_def split: option.splits dest: getState_None)

lemma writeInternal_cases:
  assumes "writeMultiBufferInternal mb p = (e, p')"
  shows "(e \<noteq> None \<and> p' = p \<and> getState False p = e) \<or>
    (e = None \<and> pi_state p = st_open \<and> p' = p\<lparr>pi_data := Some (data_of p @ mb)\<rparr>)"
  using assms by (auto simp: writeMultiBufferInternal_def data_of_def MergeMulti_def split: option.splits dest: getState_None)

lemma data_of_upd [simp]: "data_of (p\<lparr>pi_data := None\<rparr>) = []" "data_of (p\<lparr>pi_data := Some mb\<rparr>) = mb"
  "data_of (p\<lparr>pi_writeSignal := b\<rparr>) = data_of p" "data_of (p\<lparr>pi_readSignal := b\<rparr>) = data_of p"
  "data_of (p\<lparr>pi_errChan := x\<rparr>) = data_of p" "data_of (p\<lparr>pi_state := st, pi_done := b\<rparr>) = data_of p"
  by (simp_all add: data_of_def)

lemma take_wake_fields:
  assumes "take_wake w p = Some p'"
  shows "pi_data p' = pi_data p" "pi_done p' = pi_done p" "pi_state p' = pi_state p" "data_of p' = data_of p"
  using assms by (cases w; auto split: if_splits simp: data_of_def)+

lemma Close_fields:
  "pi_data (Pipe_Close p) = pi_data p" "data_of (Pipe_Close p) = data_of p"
  "pi_readSignal (Pipe_Close p) = pi_readSignal p" "pi_writeSignal (Pipe_Close p) = pi_writeSignal p"
  "(pi_done p \<longleftrightarrow> pi_state p \<noteq> st_open) \<Longrightarrow> pi_done (Pipe_Close p) \<and> pi_state (Pipe_Close p) \<noteq> st_open"
  by (cases "pi_state p"; simp add: Pipe_Close_def)+

lemma Interrupt_fields:
  assumes "pi_done p \<longleftrightarrow> pi_state p \<noteq> st_open" "\<forall>mb. pi_data p = Some mb \<longrightarrow> mb_ok mb \<and> mb_contents mb \<noteq> []"
  shows "pi_done (Pipe_Interrupt p)" "pi_state (Pipe_Interrupt p) \<noteq> st_open" "pi_data (Pipe_Interrupt p) = None"
  using assms by (cases "pi_state p"; cases "pi_data p"; simp add: Pipe_Interrupt_def data_of_def)+

lemma data_of_None: "data_of p = [] \<longleftrightarrow> pi_data p = None \<or> pi_data p = Some []"
  by (auto simp: data_of_def split: option.splits)

lemma queue_inv_prefix: "queue_inv s \<Longrightarrow> prefix (rn_read s) (rn_accepted s)"
  unfolding queue_inv_def by (cases "rn_dropped s") (metis prefixI)+

lemma queue_inv_step: "pipe_step s s' \<Longrightarrow> queue_inv s \<Longrightarrow> queue_inv s'"
proof (induction rule: pipe_step.induct)
  case (read_try s d e p')
  then show ?case
    using readInternal_cases [OF read_try(2)]
    by (auto simp: queue_inv_def data_of_def split: option.splits)
next
  case (write_try s mb e p')
  have mb: "mb_ok mb" "mb_contents mb \<noteq> []" using write_try(1,3) by (auto simp: queue_inv_def)
  have "mb_ok (data_of (rn_pipe s))" using write_try(3) by (auto simp: queue_inv_def data_of_def split: option.splits)
  then show ?case
    using writeInternal_cases [OF write_try(2)] write_try(1,3) mb by (auto simp: queue_inv_def split: if_splits)
next
  case (close s)
  then show ?case using Close_fields [of "rn_pipe s"] by (auto simp: queue_inv_def)
next
  case (interrupt s)
  then have "prefix (rn_read s) (rn_accepted s)" by (rule queue_inv_prefix)
  then show ?case using Interrupt_fields [of "rn_pipe s"] interrupt by (auto simp: queue_inv_def)
qed (auto simp: queue_inv_def ReturnAnError_def Recover_def dest: take_wake_fields split: if_splits)

lemma full_data: "queue_inv s \<Longrightarrow> getState False (rn_pipe s) = Some errBufferFull \<Longrightarrow> pi_data (rn_pipe s) \<noteq> None"
  by (cases "pi_data (rn_pipe s)")
    (auto simp: getState_def errBufferFull_def isFull_def pipe_Len_def data_of_def MultiBuffer_Len_def split: pipe_state.splits if_splits)

lemma wake_inv_step: "pipe_step s s' \<Longrightarrow> queue_inv s \<Longrightarrow> wake_inv s \<Longrightarrow> wake_inv s'"
proof (induction rule: pipe_step.induct)
  case (read_try s d e p')
  then show ?case using readInternal_cases [OF read_try(2)] by (auto simp: wake_inv_def)
next
  case (write_try s mb e p')
  have "pi_data (rn_pipe s) \<noteq> None" if "e = Some errBufferFull"
    using that writeInternal_cases [OF write_try(2)] full_data [OF write_try(3)] by auto
  then show ?case
    using writeInternal_cases [OF write_try(2)] write_try(1,4) by (auto simp: wake_inv_def)
next
  case (close s)
  then have "pi_done (Pipe_Close (rn_pipe s))" using Close_fields(5) by (auto simp: queue_inv_def)
  then show ?case by (auto simp: wake_inv_def)
next
  case (interrupt s)
  then have "pi_done (Pipe_Interrupt (rn_pipe s))" using Interrupt_fields(1) by (auto simp: queue_inv_def)
  then show ?case by (auto simp: wake_inv_def)
qed (auto simp: wake_inv_def ReturnAnError_def Recover_def split: if_splits)

lemma pipe_invs:
  assumes "pipe_step\<^sup>*\<^sup>* (start opts) s"
  shows "queue_inv s \<and> wake_inv s"
  using assms
proof (induction rule: rtranclp_induct)
  case base
  show ?case by (simp add: queue_inv_def wake_inv_def start_def NewPipe_def data_of_def)
qed (auto intro: queue_inv_step wake_inv_step)

text \<open>
  C34. The pipe under concurrency. However a reader, a writer, closing, interrupting and injected errors
  interleave: what was read is a prefix of what was accepted, and what is missing is exactly what the pipe
  holds unless it was interrupted; a reader never waits with data in the pipe, nor a writer with the pipe
  drained, unless its wake-up is pending or the other side is about to send it; so the two never wait for
  each other.
\<close>

theorem pipe_interleaving:
  assumes "pipe_step\<^sup>*\<^sup>* (start opts) s"
  shows "prefix (rn_read s) (rn_accepted s) \<and>
    (\<not> rn_dropped s \<longrightarrow> rn_read s @ mb_contents (data_of (rn_pipe s)) = rn_accepted s) \<and>
    (rn_rpc s = RWait \<and> pi_data (rn_pipe s) \<noteq> None \<longrightarrow>
       pi_readSignal (rn_pipe s) \<or> pi_done (rn_pipe s) \<or> rn_wpc s = WSignal) \<and>
    (rn_wpc s = WWait mb \<and> pi_data (rn_pipe s) = None \<longrightarrow>
       pi_writeSignal (rn_pipe s) \<or> pi_done (rn_pipe s) \<or> rn_rpc s = RSignal) \<and>
    (rn_rpc s = RWait \<and> rn_wpc s = WWait mb \<longrightarrow> pi_readSignal (rn_pipe s) \<or> pi_writeSignal (rn_pipe s) \<or> pi_done (rn_pipe s))"
proof -
  have inv: "queue_inv s" "wake_inv s" using pipe_invs [OF assms] by simp_all
  then have "\<not> rn_dropped s \<longrightarrow> rn_read s @ mb_contents (data_of (rn_pipe s)) = rn_accepted s" by (simp add: queue_inv_def)
  then show ?thesis using queue_inv_prefix [OF inv(1)] inv(2) unfolding wake_inv_def by auto
qed

theorem pipe_interleaving_witness:
  "prefix (rn_read ((start [WithSizeLimit 10])\<lparr>rn_rpc := RTry\<rparr>)) (rn_accepted ((start [WithSizeLimit 10])\<lparr>rn_rpc := RTry\<rparr>))"
proof -
  have "pipe_step (start [WithSizeLimit 10]) ((start [WithSizeLimit 10])\<lparr>rn_rpc := RTry\<rparr>)"
    by (rule pipe_step.read_call) (simp add: start_def)
  then have "pipe_step\<^sup>*\<^sup>* (start [WithSizeLimit 10]) ((start [WithSizeLimit 10])\<lparr>rn_rpc := RTry\<rparr>)" by (rule r_into_rtranclp)
  from pipe_interleaving [OF this] show ?thesis by blast
qed



end
