(* ===== verification/Xray_Cache.thy ===== *)
theory Xray_Cache
  imports Prelude
begin

text \<open>
  The least-recently-used cache \<^verbatim>\<open>xray-core/common/cache/lru.go\<close> that the fake DNS pool rests on. The elements of
  Go's \<^verbatim>\<open>container/list\<close> are shared by pointer, so the cache keeps a store of elements by reference and the
  list as references, front first. The locale \<open>recency_cache\<close> is the contract of a bounded cache with
  recency; it is interpreted on the model of the code.
\<close>

section \<open>The cache\<close>

record ('k, 'v) lru =
  lr_capacity :: int
  lr_list :: "nat list"
  lr_elem :: "nat \<Rightarrow> 'k \<times> 'v"
  lr_fresh :: nat
  lr_keyToElement :: "'k \<rightharpoonup> nat"
  lr_valueToElement :: "'v \<rightharpoonup> nat"

definition NewLru :: "int \<Rightarrow> ('k, 'v) lru" where
  "NewLru cap = \<lparr>lr_capacity = cap, lr_list = [], lr_elem = (\<lambda>_. undefined), lr_fresh = 0,
     lr_keyToElement = Map.empty, lr_valueToElement = Map.empty\<rparr>"

text \<open>\<^verbatim>\<open>MoveToFront\<close> leaves the list alone when the element is not in it any more.\<close>

definition MoveToFront :: "nat \<Rightarrow> ('k, 'v) lru \<Rightarrow> ('k, 'v) lru" where
  "MoveToFront r l = (if r \<in> set (lr_list l) then l\<lparr>lr_list := r # remove1 r (lr_list l)\<rparr> else l)"

definition PushFront :: "'k \<times> 'v \<Rightarrow> ('k, 'v) lru \<Rightarrow> nat \<times> ('k, 'v) lru" where
  "PushFront e l = (lr_fresh l, l\<lparr>lr_list := lr_fresh l # lr_list l, lr_elem := (lr_elem l)(lr_fresh l := e), lr_fresh := lr_fresh l + 1\<rparr>)"

definition Lru_Get :: "'k \<Rightarrow> ('k, 'v) lru \<Rightarrow> 'v option \<times> ('k, 'v) lru" where
  "Lru_Get k l =
     (case lr_keyToElement l k of
        Some r \<Rightarrow> (Some (snd (lr_elem l r)), MoveToFront r l)
      | None \<Rightarrow> (None, l))"

definition GetKeyFromValue :: "'v \<Rightarrow> ('k, 'v) lru \<Rightarrow> 'k option \<times> ('k, 'v) lru" where
  "GetKeyFromValue v l =
     (case lr_valueToElement l v of
        Some r \<Rightarrow> (Some (fst (lr_elem l r)), MoveToFront r l)
      | None \<Rightarrow> (None, l))"

definition PeekKeyFromValue :: "'v \<Rightarrow> ('k, 'v) lru \<Rightarrow> 'k option" where
  "PeekKeyFromValue v l = map_option (\<lambda>r. fst (lr_elem l r)) (lr_valueToElement l v)"

definition Lru_Put :: "'k \<Rightarrow> 'v \<Rightarrow> ('k, 'v) lru \<Rightarrow> ('k, 'v) lru" where
  "Lru_Put k v l =
     (case lr_keyToElement l k of
        Some r \<Rightarrow> MoveToFront r (l\<lparr>lr_elem := (lr_elem l)(r := (k, v))\<rparr>)
      | None \<Rightarrow>
          (let (r, l1) = PushFront (k, v) l;
               l2 = l1\<lparr>lr_keyToElement := (lr_keyToElement l1)(k \<mapsto> r), lr_valueToElement := (lr_valueToElement l1)(v \<mapsto> r)\<rparr>
           in if int (length (lr_list l2)) > lr_capacity l2 then
                (let b = last (lr_list l2)
                 in l2\<lparr>lr_list := butlast (lr_list l2),
                      lr_keyToElement := (lr_keyToElement l2)(fst (lr_elem l2 b) := None),
                      lr_valueToElement := (lr_valueToElement l2)(snd (lr_elem l2 b) := None)\<rparr>)
              else l2))"

section \<open>The contract of a bounded cache\<close>

text \<open>\<open>abs c\<close> lists the entries, the most recently used first.\<close>

locale recency_cache =
  fixes get :: "'k \<Rightarrow> 'c \<Rightarrow> 'v option \<times> 'c"
    and put :: "'k \<Rightarrow> 'v \<Rightarrow> 'c \<Rightarrow> 'c"
    and abs :: "'c \<Rightarrow> ('k \<times> 'v) list"
    and cap :: "'c \<Rightarrow> nat"
    and inv :: "'c \<Rightarrow> bool"
  assumes abs_put: "inv c \<Longrightarrow> abs (put k v c) = take (cap c) ((k, v) # filter (\<lambda>(k', _). k' \<noteq> k) (abs c))"
    and inv_put: "inv c \<Longrightarrow> inv (put k v c)"
    and cap_put: "inv c \<Longrightarrow> cap (put k v c) = cap c"
    and fst_get: "inv c \<Longrightarrow> fst (get k c) = map_of (abs c) k"
    and abs_get: "inv c \<Longrightarrow> abs (snd (get k c)) =
      (case map_of (abs c) k of None \<Rightarrow> abs c | Some v \<Rightarrow> (k, v) # filter (\<lambda>(k', _). k' \<noteq> k) (abs c))"
    and inv_get: "inv c \<Longrightarrow> inv (snd (get k c))"
    and cap_get: "inv c \<Longrightarrow> cap (snd (get k c)) = cap c"
    and bounded: "inv c \<Longrightarrow> length (abs c) \<le> cap c"
begin

lemma get_after_put: "inv c \<Longrightarrow> 0 < cap c \<Longrightarrow> fst (get k (put k v c)) = Some v"
  by (cases "cap c") (simp_all add: fst_get inv_put abs_put)

text \<open>
  The entry of \<open>k\<close> is among the first \<open>n\<close>. Using another key moves it back by at most one place, so a key stays
  while fewer than \<open>cap\<close> other keys are used after it.
\<close>

definition within :: "nat \<Rightarrow> 'k \<Rightarrow> 'v \<Rightarrow> 'c \<Rightarrow> bool" where
  "within n k v c \<longleftrightarrow> (\<exists>xs ys. abs c = xs @ (k, v) # ys \<and> length xs < n \<and> k \<notin> fst ` set xs)"

lemma withinI: "abs c = xs @ (k, v) # ys \<Longrightarrow> length xs < n \<Longrightarrow> k \<notin> fst ` set xs \<Longrightarrow> within n k v c"
  unfolding within_def by blast

lemma within_put_self:
  assumes "inv c" "0 < cap c"
  shows "within 1 k v (put k v c)"
  by (rule withinI [of _ "[]" _ _ "take (cap c - 1) (filter (\<lambda>(k', _). k' \<noteq> k) (abs c))"])
    (use assms in \<open>simp_all add: abs_put take_Cons'\<close>)

lemma map_of_no_key: "k \<notin> fst ` set xs \<Longrightarrow> map_of (xs @ (k, v) # ys) k = Some v"
  by (induction xs) auto

lemma within_get: "inv c \<Longrightarrow> within n k v c \<Longrightarrow> fst (get k c) = Some v"
  by (auto simp del: map_of_append simp: within_def fst_get map_of_no_key)

lemma within_filter:
  assumes "within n k v c" "k' \<noteq> k"
  shows "\<exists>xs ys. filter (\<lambda>(k'', _). k'' \<noteq> k') (abs c) = xs @ (k, v) # ys \<and> length xs < n \<and> k \<notin> fst ` set xs"
proof -
  obtain xs ys where xy: "abs c = xs @ (k, v) # ys" "length xs < n" "k \<notin> fst ` set xs" using assms(1) by (auto simp: within_def)
  let ?P = "\<lambda>(k'', _). k'' \<noteq> k'"
  have "filter ?P (abs c) = filter ?P xs @ (k, v) # filter ?P ys" using xy(1) assms(2) by auto
  moreover have "length (filter ?P xs) < n" using xy(2) le_less_trans [OF length_filter_le] by blast
  moreover have "k \<notin> fst ` set (filter ?P xs)" using xy(3) by auto
  ultimately show ?thesis by blast
qed

lemma within_get_other:
  assumes "inv c" "within n k v c" "k' \<noteq> k"
  shows "within (Suc n) k v (snd (get k' c))"
proof (cases "map_of (abs c) k'")
  case None
  then have "abs (snd (get k' c)) = abs c" using abs_get [OF assms(1), of k'] by simp
  then show ?thesis using assms(2) unfolding within_def by (metis less_Suc_eq)
next
  case (Some v')
  obtain xs ys where xy: "filter (\<lambda>(k'', _). k'' \<noteq> k') (abs c) = xs @ (k, v) # ys" "length xs < n" "k \<notin> fst ` set xs"
    using within_filter [OF assms(2,3)] by blast
  show ?thesis
    by (rule withinI [of _ "(k', v') # xs" _ _ ys]) (use Some abs_get [OF assms(1), of k'] xy assms(3) in auto)
qed

lemma within_put_other:
  assumes "inv c" "within n k v c" "k' \<noteq> k" "n < cap c"
  shows "within (Suc n) k v (put k' v' c)"
proof -
  obtain xs ys where xy: "filter (\<lambda>(k'', _). k'' \<noteq> k') (abs c) = xs @ (k, v) # ys" "length xs < n" "k \<notin> fst ` set xs"
    using within_filter [OF assms(2,3)] by blast
  have "abs (put k' v' c) = take (cap c) (((k', v') # xs) @ (k, v) # ys)" using abs_put [OF assms(1), of k' v'] xy(1) by simp
  also have "\<dots> = ((k', v') # xs) @ (k, v) # take (cap c - (length xs + 2)) ys"
    using xy(2) assms(4) by (subst take_append) (simp add: take_Cons')
  finally show ?thesis by (rule withinI) (use xy assms(3) in auto)
qed

end

section \<open>The code implements the contract\<close>

text \<open>
  The list has no reference twice and only old ones, it is within the capacity, and the key index holds exactly
  the keys of its elements.
\<close>

definition lru_inv :: "('k, 'v) lru \<Rightarrow> bool" where
  "lru_inv l \<longleftrightarrow> 0 \<le> lr_capacity l \<and> distinct (lr_list l) \<and> (\<forall>r\<in>set (lr_list l). r < lr_fresh l) \<and>
     int (length (lr_list l)) \<le> lr_capacity l \<and>
     (\<forall>k r. lr_keyToElement l k = Some r \<longleftrightarrow> r \<in> set (lr_list l) \<and> fst (lr_elem l r) = k)"

definition lru_abs :: "('k, 'v) lru \<Rightarrow> ('k \<times> 'v) list" where
  "lru_abs l = map (lr_elem l) (lr_list l)"

lemma lru_keys_inj:
  assumes "lru_inv l"
  shows "inj_on (\<lambda>r. fst (lr_elem l r)) (set (lr_list l))"
  using assms by (auto simp: inj_on_def lru_inv_def) (metis option.inject)

lemma lru_lookup:
  assumes "lru_inv l"
  shows "map_of (lru_abs l) k = map_option (\<lambda>r. snd (lr_elem l r)) (lr_keyToElement l k)"
proof -
  have *: "map_of (map (lr_elem l) rs) k =
      (if \<exists>r\<in>set rs. fst (lr_elem l r) = k then map_option (\<lambda>r. snd (lr_elem l r)) (lr_keyToElement l k) else None)"
    if "set rs \<subseteq> set (lr_list l)" for rs
    using that
  proof (induction rs)
    case (Cons r rs)
    then have "lr_keyToElement l (fst (lr_elem l r)) = Some r" using assms by (simp add: lru_inv_def)
    then show ?case using Cons by (cases "lr_elem l r") auto
  qed simp
  show ?thesis
  proof (cases "lr_keyToElement l k")
    case None
    then show ?thesis using * [of "lr_list l"] by (simp add: lru_abs_def)
  next
    case (Some r)
    then have "\<exists>r\<in>set (lr_list l). fst (lr_elem l r) = k" using assms by (auto simp: lru_inv_def)
    then show ?thesis using * [of "lr_list l"] by (simp add: lru_abs_def)
  qed
qed

text \<open>The elements other than \<open>r\<close>, by key and by reference.\<close>

lemma filter_live_key:
  assumes "lru_inv l" "lr_keyToElement l k = Some r"
  shows "filter (\<lambda>(k', _). k' \<noteq> k) (lru_abs l) = map (lr_elem l) (remove1 r (lr_list l))"
proof -
  have r: "r \<in> set (lr_list l)" "fst (lr_elem l r) = k" using assms by (auto simp: lru_inv_def)
  have "fst (lr_elem l s) \<noteq> k \<longleftrightarrow> s \<noteq> r" if "s \<in> set (lr_list l)" for s
    using that r lru_keys_inj [OF assms(1)] by (auto simp: inj_on_def)
  then have "filter (\<lambda>s. fst (lr_elem l s) \<noteq> k) (lr_list l) = filter (\<lambda>s. s \<noteq> r) (lr_list l)" by (intro filter_cong) auto
  moreover have "filter (\<lambda>s. s \<noteq> r) (lr_list l) = remove1 r (lr_list l)"
    using assms(1) by (simp add: lru_inv_def distinct_remove1_removeAll removeAll_filter_not_eq eq_commute)
  ultimately show ?thesis by (simp add: lru_abs_def filter_map comp_def split_def)
qed

lemma filter_no_key:
  assumes "lru_inv l" "lr_keyToElement l k = None"
  shows "filter (\<lambda>(k', _). k' \<noteq> k) (lru_abs l) = lru_abs l"
proof -
  have "lr_keyToElement l (fst (lr_elem l r)) = Some r" if "r \<in> set (lr_list l)" for r
    using assms(1) that by (simp add: lru_inv_def)
  then have "fst (lr_elem l r) \<noteq> k" if "r \<in> set (lr_list l)" for r using assms(2) that by force
  then show ?thesis by (intro filter_True) (auto simp: lru_abs_def split_def)
qed

lemma MoveToFront_inv:
  assumes "lru_inv l" "r \<in> set (lr_list l)"
  shows "lru_inv (MoveToFront r l)"
proof -
  have "length (lr_list l) > 0" using assms(2) by (cases "lr_list l") auto
  then have "length (r # remove1 r (lr_list l)) = length (lr_list l)" "set (r # remove1 r (lr_list l)) = set (lr_list l)"
    "distinct (r # remove1 r (lr_list l))"
    using assms by (auto simp: lru_inv_def length_remove1 set_remove1_eq)
  then show ?thesis using assms unfolding lru_inv_def MoveToFront_def by simp
qed

lemma MoveToFront_abs: "r \<in> set (lr_list l) \<Longrightarrow> lru_abs (MoveToFront r l) = lr_elem l r # map (lr_elem l) (remove1 r (lr_list l))"
  by (simp add: lru_abs_def MoveToFront_def)

lemma MoveToFront_capacity [simp]: "lr_capacity (MoveToFront r l) = lr_capacity l"
  by (simp add: MoveToFront_def)

lemma lru_index:
  assumes "lru_inv l" "lr_keyToElement l k = Some r"
  shows "r \<in> set (lr_list l)" "fst (lr_elem l r) = k"
  using assms by (auto simp: lru_inv_def)

lemma Get_some:
  assumes "lru_inv l" "lr_keyToElement l k = Some r"
  shows "Lru_Get k l = (Some (snd (lr_elem l r)), MoveToFront r l)"
    and "lru_inv (snd (Lru_Get k l))"
    and "lru_abs (snd (Lru_Get k l)) = (k, snd (lr_elem l r)) # filter (\<lambda>(k', _). k' \<noteq> k) (lru_abs l)"
proof -
  note r = lru_index [OF assms]
  show g: "Lru_Get k l = (Some (snd (lr_elem l r)), MoveToFront r l)" using assms(2) by (simp add: Lru_Get_def)
  show "lru_inv (snd (Lru_Get k l))" using g MoveToFront_inv [OF assms(1) r(1)] by simp
  show "lru_abs (snd (Lru_Get k l)) = (k, snd (lr_elem l r)) # filter (\<lambda>(k', _). k' \<noteq> k) (lru_abs l)"
    using g MoveToFront_abs [OF r(1)] filter_live_key [OF assms] r(2) by (cases "lr_elem l r") simp
qed

text \<open>A new value in the element of a key keeps the invariant: the element keeps its key.\<close>

lemma update_elem_inv:
  assumes "lru_inv l" "lr_keyToElement l k = Some r"
  shows "lru_inv (l\<lparr>lr_elem := (lr_elem l)(r := (k, v))\<rparr>)"
  using assms(1) lru_index [OF assms] by (auto simp: lru_inv_def)

lemma Put_some:
  assumes "lru_inv l" "lr_keyToElement l k = Some r"
  shows "lru_inv (Lru_Put k v l)" "lr_capacity (Lru_Put k v l) = lr_capacity l"
    and "lru_abs (Lru_Put k v l) = (k, v) # filter (\<lambda>(k', _). k' \<noteq> k) (lru_abs l)"
proof -
  let ?l = "l\<lparr>lr_elem := (lr_elem l)(r := (k, v))\<rparr>"
  note r = lru_index [OF assms]
  have p: "Lru_Put k v l = MoveToFront r ?l" using assms(2) by (simp add: Lru_Put_def)
  show "lru_inv (Lru_Put k v l)" unfolding p by (rule MoveToFront_inv [OF update_elem_inv [OF assms]]) (simp add: r)
  show "lr_capacity (Lru_Put k v l) = lr_capacity l" by (simp add: p)
  have "r \<notin> set (remove1 r (lr_list l))" using assms(1) by (simp add: lru_inv_def set_remove1_eq)
  then have "map (lr_elem ?l) (remove1 r (lr_list l)) = map (lr_elem l) (remove1 r (lr_list l))" by (intro map_cong) auto
  then show "lru_abs (Lru_Put k v l) = (k, v) # filter (\<lambda>(k', _). k' \<noteq> k) (lru_abs l)"
    unfolding p using MoveToFront_abs [of r ?l] r filter_live_key [OF assms] by simp
qed

text \<open>A new key, before the eviction; the key index is exact for the longer list.\<close>

definition pushed :: "'k \<Rightarrow> 'v \<Rightarrow> ('k, 'v) lru \<Rightarrow> ('k, 'v) lru" where
  "pushed k v l = l\<lparr>lr_list := lr_fresh l # lr_list l, lr_elem := (lr_elem l)(lr_fresh l := (k, v)), lr_fresh := lr_fresh l + 1,
     lr_keyToElement := (lr_keyToElement l)(k \<mapsto> lr_fresh l), lr_valueToElement := (lr_valueToElement l)(v \<mapsto> lr_fresh l)\<rparr>"

definition evicted :: "('k, 'v) lru \<Rightarrow> ('k, 'v) lru" where
  "evicted l = (let b = last (lr_list l)
     in l\<lparr>lr_list := butlast (lr_list l), lr_keyToElement := (lr_keyToElement l)(fst (lr_elem l b) := None),
          lr_valueToElement := (lr_valueToElement l)(snd (lr_elem l b) := None)\<rparr>)"

definition lru_shape :: "('k, 'v) lru \<Rightarrow> bool" where
  "lru_shape l \<longleftrightarrow> distinct (lr_list l) \<and> (\<forall>r\<in>set (lr_list l). r < lr_fresh l) \<and>
     (\<forall>k r. lr_keyToElement l k = Some r \<longleftrightarrow> r \<in> set (lr_list l) \<and> fst (lr_elem l r) = k)"

lemma lru_inv_shape: "lru_inv l \<longleftrightarrow> 0 \<le> lr_capacity l \<and> int (length (lr_list l)) \<le> lr_capacity l \<and> lru_shape l"
  by (auto simp: lru_inv_def lru_shape_def)

lemma Put_none:
  "lr_keyToElement l k = None \<Longrightarrow>
   Lru_Put k v l = (if int (length (lr_list l)) + 1 > lr_capacity l then evicted (pushed k v l) else pushed k v l)"
  by (simp add: Lru_Put_def PushFront_def pushed_def evicted_def Let_def)

lemma pushed_shape:
  assumes "lru_shape l" "lr_keyToElement l k = None"
  shows "lru_shape (pushed k v l)"
proof -
  have fresh: "lr_fresh l \<notin> set (lr_list l)" using assms(1) by (auto simp: lru_shape_def)
  have "lr_keyToElement l (fst (lr_elem l r)) = Some r" if "r \<in> set (lr_list l)" for r
    using assms(1) that by (simp add: lru_shape_def)
  then have key: "fst (lr_elem l r) \<noteq> k" if "r \<in> set (lr_list l)" for r using assms(2) that by force
  show ?thesis using assms(1) fresh key by (auto simp: lru_shape_def pushed_def less_SucI)
qed

lemma pushed_abs:
  assumes "lru_shape l"
  shows "lru_abs (pushed k v l) = (k, v) # lru_abs l"
  using assms by (auto simp: lru_abs_def pushed_def lru_shape_def)

lemma evicted_shape:
  assumes "lru_shape l" "lr_list l \<noteq> []"
  shows "lru_shape (evicted l)"
proof -
  obtain rs b where rs: "lr_list l = rs @ [b]" using assms(2) by (metis append_butlast_last_id)
  then have b: "b \<notin> set rs" "distinct rs" using assms(1) by (auto simp: lru_shape_def)
  have key: "lr_keyToElement l k = Some r \<longleftrightarrow> (r \<in> set rs \<or> r = b) \<and> fst (lr_elem l r) = k" for k r
    using assms(1) rs by (auto simp: lru_shape_def)
  have "fst (lr_elem l r) \<noteq> fst (lr_elem l b)" if "r \<in> set rs" for r
    using that b key [of "fst (lr_elem l b)" r] key [of "fst (lr_elem l b)" b] by auto
  then show ?thesis using assms(1) rs b key by (auto simp: lru_shape_def evicted_def Let_def)
qed

lemma Put_none_ok:
  assumes "lru_inv l" "lr_keyToElement l k = None"
  shows "lru_inv (Lru_Put k v l)" "lr_capacity (Lru_Put k v l) = lr_capacity l"
    and "lru_abs (Lru_Put k v l) = take (nat (lr_capacity l)) ((k, v) # lru_abs l)"
proof -
  have sh: "lru_shape (pushed k v l)" and ne: "lr_list (pushed k v l) \<noteq> []"
    using assms pushed_shape by (auto simp: lru_inv_shape pushed_def)
  note ev = evicted_shape [OF sh ne]
  have len: "length (lr_list (pushed k v l)) = Suc (length (lr_list l))" "lr_capacity (pushed k v l) = lr_capacity l"
    "lr_capacity (evicted (pushed k v l)) = lr_capacity l" "length (lr_list (evicted (pushed k v l))) = length (lr_list l)"
    by (simp_all add: pushed_def evicted_def Let_def)
  have ab: "lru_abs (pushed k v l) = (k, v) # lru_abs l" using assms(1) by (simp add: pushed_abs lru_inv_shape)
  have la: "length (lru_abs l) = length (lr_list l)" by (simp add: lru_abs_def)
  have eab: "lru_abs (evicted (pushed k v l)) = butlast ((k, v) # lru_abs l)"
    unfolding ab [symmetric] by (simp add: lru_abs_def evicted_def Let_def map_butlast)
  show "lru_inv (Lru_Put k v l)" using assms(1) sh ev len by (auto simp: Put_none [OF assms(2)] lru_inv_shape)
  show "lr_capacity (Lru_Put k v l) = lr_capacity l" by (simp add: Put_none [OF assms(2)] len)
  show "lru_abs (Lru_Put k v l) = take (nat (lr_capacity l)) ((k, v) # lru_abs l)"
  proof (cases "int (length (lr_list l)) + 1 > lr_capacity l")
    case True
    then have "nat (lr_capacity l) = length (lru_abs l)" using assms(1) la by (auto simp: lru_inv_def)
    then show ?thesis using True by (simp add: Put_none [OF assms(2)] eab butlast_conv_take)
  next
    case False
    then have "length ((k, v) # lru_abs l) \<le> nat (lr_capacity l)" using la by simp
    then show ?thesis using False by (simp only: Put_none [OF assms(2)] ab if_False take_all)
  qed
qed

lemma lru_inv_length: "lru_inv l \<Longrightarrow> length (lru_abs l) \<le> nat (lr_capacity l)"
  by (auto simp: lru_inv_def lru_abs_def)

lemma Put_ok:
  assumes "lru_inv l"
  shows "lru_inv (Lru_Put k v l)" "lr_capacity (Lru_Put k v l) = lr_capacity l"
    and "lru_abs (Lru_Put k v l) = take (nat (lr_capacity l)) ((k, v) # filter (\<lambda>(k', _). k' \<noteq> k) (lru_abs l))"
proof -
  show inv: "lru_inv (Lru_Put k v l)" and cap: "lr_capacity (Lru_Put k v l) = lr_capacity l"
    by (cases "lr_keyToElement l k"; simp add: Put_some [OF assms] Put_none_ok [OF assms])+
  show "lru_abs (Lru_Put k v l) = take (nat (lr_capacity l)) ((k, v) # filter (\<lambda>(k', _). k' \<noteq> k) (lru_abs l))"
  proof (cases "lr_keyToElement l k")
    case None
    then show ?thesis by (simp add: Put_none_ok [OF assms] filter_no_key [OF assms])
  next
    case (Some r)
    then have e: "lru_abs (Lru_Put k v l) = (k, v) # filter (\<lambda>(k', _). k' \<noteq> k) (lru_abs l)" by (rule Put_some [OF assms])
    have "length (lru_abs (Lru_Put k v l)) \<le> nat (lr_capacity l)" using lru_inv_length [OF inv] cap by simp
    then show ?thesis unfolding e by (simp only: take_all)
  qed
qed

lemma Get_ok:
  assumes "lru_inv l"
  shows "lru_inv (snd (Lru_Get k l))" "lr_capacity (snd (Lru_Get k l)) = lr_capacity l"
    and "fst (Lru_Get k l) = map_of (lru_abs l) k"
    and "lru_abs (snd (Lru_Get k l)) =
      (case map_of (lru_abs l) k of None \<Rightarrow> lru_abs l | Some v \<Rightarrow> (k, v) # filter (\<lambda>(k', _). k' \<noteq> k) (lru_abs l))"
  using assms Get_some [OF assms, of k]
  by (cases "lr_keyToElement l k"; simp add: lru_lookup [OF assms] Lru_Get_def)+

interpretation lru_cache: recency_cache Lru_Get Lru_Put lru_abs "\<lambda>l. nat (lr_capacity l)" lru_inv
  by unfold_locales (simp_all add: Put_ok Get_ok lru_inv_length)

lemma NewLru_inv: "0 \<le> cap \<Longrightarrow> lru_inv (NewLru cap)"
  by (simp add: lru_inv_def NewLru_def)

lemma NewLru_abs [simp]: "lru_abs (NewLru cap) = []" "lr_capacity (NewLru cap) = cap"
  by (simp_all add: lru_abs_def NewLru_def)

section \<open>Sequences of operations\<close>

text \<open>The calls run one after the other (each holds the mutex); a reference run on the recency list alone.\<close>

datatype ('k, 'v) lru_op = OpGet 'k | OpPut 'k 'v

fun lru_run :: "('k, 'v) lru_op list \<Rightarrow> ('k, 'v) lru \<Rightarrow> 'v option list \<times> ('k, 'v) lru" where
  "lru_run [] l = ([], l)"
| "lru_run (OpGet k # ops) l =
     (let (v, l') = Lru_Get k l; (vs, l'') = lru_run ops l' in (v # vs, l''))"
| "lru_run (OpPut k v # ops) l = lru_run ops (Lru_Put k v l)"

fun recency_run :: "nat \<Rightarrow> ('k, 'v) lru_op list \<Rightarrow> ('k \<times> 'v) list \<Rightarrow> 'v option list \<times> ('k \<times> 'v) list" where
  "recency_run n [] es = ([], es)"
| "recency_run n (OpGet k # ops) es =
     (let es' = (case map_of es k of None \<Rightarrow> es | Some v \<Rightarrow> (k, v) # filter (\<lambda>(k', _). k' \<noteq> k) es);
          (vs, es'') = recency_run n ops es'
      in (map_of es k # vs, es''))"
| "recency_run n (OpPut k v # ops) es = recency_run n ops (take n ((k, v) # filter (\<lambda>(k', _). k' \<noteq> k) es))"

lemma lru_run_refines:
  assumes "lru_inv l"
  shows "lru_inv (snd (lru_run ops l)) \<and> lr_capacity (snd (lru_run ops l)) = lr_capacity l \<and>
    (fst (lru_run ops l), lru_abs (snd (lru_run ops l))) = recency_run (nat (lr_capacity l)) ops (lru_abs l)"
  using assms
proof (induction ops l rule: lru_run.induct)
  case (2 k ops l)
  obtain v l' where g: "Lru_Get k l = (v, l')" by fastforce
  have "lru_inv l'" "lr_capacity l' = lr_capacity l" "v = map_of (lru_abs l) k"
    "lru_abs l' = (case map_of (lru_abs l) k of None \<Rightarrow> lru_abs l | Some v \<Rightarrow> (k, v) # filter (\<lambda>(k', _). k' \<noteq> k) (lru_abs l))"
    using Get_ok [OF 2(2), of k] g by simp_all
  then show ?case using 2(1) [OF g [symmetric] refl] g by (auto simp: split_def Let_def prod_eq_iff)
next
  case (3 k v ops l)
  then show ?case using Put_ok [OF 3(2), of k v] by simp
qed simp

section \<open>The reverse index\<close>

text \<open>
  Looking up a key by its value is exact while every \<^verbatim>\<open>Put\<close> brings a new key and a new value, which is how
  the fake DNS pool uses the cache.
\<close>

definition lru_bi_inv :: "('k, 'v) lru \<Rightarrow> bool" where
  "lru_bi_inv l \<longleftrightarrow> lru_inv l \<and> (\<forall>v r. lr_valueToElement l v = Some r \<longleftrightarrow> r \<in> set (lr_list l) \<and> snd (lr_elem l r) = v)"

definition live :: "'k \<Rightarrow> 'v \<Rightarrow> ('k, 'v) lru \<Rightarrow> bool" where
  "live k v l \<longleftrightarrow> (k, v) \<in> set (lru_abs l)"

lemma live_elem: "live k v l \<longleftrightarrow> (\<exists>r\<in>set (lr_list l). lr_elem l r = (k, v))"
  unfolding live_def lru_abs_def by (force simp: image_iff)

lemma lru_bi_value:
  assumes "lru_bi_inv l" "r \<in> set (lr_list l)"
  shows "lr_valueToElement l (snd (lr_elem l r)) = Some r"
  using assms by (simp add: lru_bi_inv_def)

lemma Peek_live:
  assumes "lru_bi_inv l"
  shows "PeekKeyFromValue v l = Some k \<longleftrightarrow> live k v l"
proof -
  have "(\<exists>r. lr_valueToElement l v = Some r \<and> fst (lr_elem l r) = k) \<longleftrightarrow> (\<exists>r\<in>set (lr_list l). lr_elem l r = (k, v))"
    using assms by (auto simp: lru_bi_inv_def prod_eq_iff)
  then show ?thesis by (auto simp: live_elem PeekKeyFromValue_def)
qed

lemma pushed_bi:
  assumes "lru_bi_inv l" "lr_valueToElement l v = None"
  shows "lr_valueToElement (pushed k v l) w = Some r \<longleftrightarrow> r \<in> set (lr_list (pushed k v l)) \<and> snd (lr_elem (pushed k v l) r) = w"
proof -
  have fresh: "lr_fresh l \<notin> set (lr_list l)" using assms(1) by (auto simp: lru_bi_inv_def lru_inv_def)
  have "snd (lr_elem l r) \<noteq> v" if "r \<in> set (lr_list l)" for r using lru_bi_value [OF assms(1) that] assms(2) by force
  then show ?thesis using assms(1) fresh by (auto simp: lru_bi_inv_def pushed_def)
qed

lemma evicted_bi:
  assumes "lru_shape l" "lr_list l \<noteq> []"
    and bi: "\<And>w r. lr_valueToElement l w = Some r \<longleftrightarrow> r \<in> set (lr_list l) \<and> snd (lr_elem l r) = w"
  shows "lr_valueToElement (evicted l) w = Some r \<longleftrightarrow> r \<in> set (lr_list (evicted l)) \<and> snd (lr_elem (evicted l) r) = w"
proof -
  obtain rs b where rs: "lr_list l = rs @ [b]" using assms(2) by (metis append_butlast_last_id)
  then have b: "b \<notin> set rs" using assms(1) by (auto simp: lru_shape_def)
  have "snd (lr_elem l s) \<noteq> snd (lr_elem l b)" if "s \<in> set rs" for s
    using that b rs bi [of "snd (lr_elem l b)" s] bi [of "snd (lr_elem l b)" b] by auto
  then show ?thesis using rs b bi by (auto simp: evicted_def Let_def)
qed

lemma Put_new_bi:
  assumes "lru_bi_inv l" "lr_keyToElement l k = None" "lr_valueToElement l v = None"
  shows "lru_bi_inv (Lru_Put k v l)"
proof -
  have inv: "lru_inv l" using assms(1) by (simp add: lru_bi_inv_def)
  have sh: "lru_shape (pushed k v l)" and ne: "lr_list (pushed k v l) \<noteq> []"
    using inv pushed_shape [OF _ assms(2)] by (auto simp: lru_inv_shape pushed_def)
  note bi = pushed_bi [OF assms(1,3)] evicted_bi [OF sh ne pushed_bi [OF assms(1,3)]]
  show ?thesis unfolding lru_bi_inv_def
  proof (intro conjI allI)
    show "lru_inv (Lru_Put k v l)" by (rule Put_ok [OF inv])
    show "lr_valueToElement (Lru_Put k v l) w = Some r \<longleftrightarrow> r \<in> set (lr_list (Lru_Put k v l)) \<and> snd (lr_elem (Lru_Put k v l) r) = w" for w r
      using bi(1) [of k w r] bi(2) [of w r] by (simp only: Put_none [OF assms(2)] split: if_split) blast
  qed
qed

lemma MoveToFront_bi:
  assumes "lru_bi_inv l" "r \<in> set (lr_list l)"
  shows "lru_bi_inv (MoveToFront r l)"
proof -
  have "set (lr_list (MoveToFront r l)) = set (lr_list l)"
    using assms by (auto simp: MoveToFront_def lru_bi_inv_def lru_inv_def set_remove1_eq)
  moreover have "lr_elem (MoveToFront r l) = lr_elem l" "lr_valueToElement (MoveToFront r l) = lr_valueToElement l"
    by (simp_all add: MoveToFront_def)
  ultimately show ?thesis using assms MoveToFront_inv by (auto simp: lru_bi_inv_def)
qed

lemma GetKeyFromValue_ok:
  assumes "lru_bi_inv l"
  shows "lru_bi_inv (snd (GetKeyFromValue v l))"
    and "fst (GetKeyFromValue v l) = PeekKeyFromValue v l"
    and "live k v l \<Longrightarrow> lru_abs (snd (GetKeyFromValue v l)) = (k, v) # filter (\<lambda>(k', _). k' \<noteq> k) (lru_abs l)"
proof -
  have inv: "lru_inv l" using assms by (simp add: lru_bi_inv_def)
  show "fst (GetKeyFromValue v l) = PeekKeyFromValue v l"
    by (simp add: GetKeyFromValue_def PeekKeyFromValue_def split: option.splits)
  show "lru_bi_inv (snd (GetKeyFromValue v l))"
    using assms MoveToFront_bi [OF assms] by (auto simp: GetKeyFromValue_def lru_bi_inv_def split: option.splits)
  assume "live k v l"
  then obtain r where r: "r \<in> set (lr_list l)" "lr_elem l r = (k, v)" by (auto simp: live_elem)
  then have "lr_valueToElement l v = Some r" "lr_keyToElement l k = Some r"
    using assms inv by (auto simp: lru_bi_inv_def lru_inv_def)
  then show "lru_abs (snd (GetKeyFromValue v l)) = (k, v) # filter (\<lambda>(k', _). k' \<noteq> k) (lru_abs l)"
    using MoveToFront_abs [OF r(1)] r(2) filter_live_key [OF inv] by (simp add: GetKeyFromValue_def)
qed

text \<open>Putting a key that is present changes the element and leaves the index of values alone.\<close>

lemma Put_old_index:
  assumes "lr_keyToElement l k = Some r"
  shows "lr_valueToElement (Lru_Put k v l) = lr_valueToElement l" "lr_elem (Lru_Put k v l) = (lr_elem l)(r := (k, v))"
  using assms by (simp_all add: Lru_Put_def MoveToFront_def)

lemma Put_old_stale:
  assumes "lru_bi_inv l" "live k v0 l"
  shows "PeekKeyFromValue v0 (Lru_Put k v l) = Some k"
    and "\<nexists>k'. live k' v l \<Longrightarrow> PeekKeyFromValue v (Lru_Put k v l) = None"
proof -
  obtain r where r: "r \<in> set (lr_list l)" "lr_elem l r = (k, v0)" using assms(2) by (auto simp: live_elem)
  then have i: "lr_valueToElement l v0 = Some r" "lr_keyToElement l k = Some r"
    using assms(1) by (auto simp: lru_bi_inv_def lru_inv_def)
  show "PeekKeyFromValue v0 (Lru_Put k v l) = Some k" using i by (simp add: PeekKeyFromValue_def Put_old_index)
  assume "\<nexists>k'. live k' v l"
  then have "lr_valueToElement l v = None"
    using Peek_live [OF assms(1), of v] by (cases "lr_valueToElement l v") (auto simp: PeekKeyFromValue_def)
  then show "PeekKeyFromValue v (Lru_Put k v l) = None" using i by (simp add: PeekKeyFromValue_def Put_old_index)
qed

section \<open>Properties\<close>

fun op_key :: "('k, 'v) lru_op \<Rightarrow> 'k" where
  "op_key (OpGet k) = k"
| "op_key (OpPut k v) = k"

lemma lru_run_within:
  assumes "lru_inv l" "lru_cache.within n k v l" "k \<notin> op_key ` set ops" "n + length ops \<le> nat (lr_capacity l)"
  shows "lru_cache.within (n + length ops) k v (snd (lru_run ops l))"
  using assms
proof (induction ops l arbitrary: n rule: lru_run.induct)
  case (2 k' ops l)
  have "lru_cache.within (Suc n) k v (snd (Lru_Get k' l))"
    using 2(2-4) by (intro lru_cache.within_get_other) auto
  then have "lru_cache.within (Suc n + length ops) k v (snd (lru_run ops (snd (Lru_Get k' l))))"
    using 2(2,4,5) Get_ok [OF 2(2), of k'] by (intro 2(1) [OF refl prod.collapse]) auto
  then show ?case by (simp add: split_def Let_def)
next
  case (3 k' v' ops l)
  have "lru_cache.within (Suc n) k v (Lru_Put k' v' l)"
    using 3(2-5) by (intro lru_cache.within_put_other) auto
  then have "lru_cache.within (Suc n + length ops) k v (snd (lru_run ops (Lru_Put k' v' l)))"
    using 3(2,4,5) Put_ok [OF 3(2), of k' v'] by (intro 3(1)) auto
  then show ?case by simp
qed simp

lemma lru_run_append: "snd (lru_run (a @ b) l) = snd (lru_run b (snd (lru_run a l)))"
proof (induction a l rule: lru_run.induct)
  case (2 k ops l)
  then show ?case using 2 [OF refl prod.collapse] by (simp add: split_def Let_def)
qed simp_all

text \<open>
  C36. The cache is the bounded recency list. For every sequence of \<^verbatim>\<open>Get\<close> and \<^verbatim>\<open>Put\<close> calls on a new cache, the
  values returned and the entries kept are those of a list of key-value pairs, most recently used first, cut
  at the capacity; the linked list never exceeds the capacity; and a key that was put stays retrievable
  through any sequence of fewer than capacity calls on other keys.
\<close>

theorem lru_is_recency_list:
  assumes "0 \<le> cap" and "length others < nat cap" and "k \<notin> op_key ` set others"
  shows "(fst (lru_run ops (NewLru cap)), lru_abs (snd (lru_run ops (NewLru cap)))) = recency_run (nat cap) ops [] \<and>
    int (length (lr_list (snd (lru_run ops (NewLru cap))))) \<le> cap \<and>
    fst (Lru_Get k (snd (lru_run (ops @ OpPut k v # others) (NewLru cap)))) = Some v"
proof (intro conjI)
  let ?l = "snd (lru_run ops (NewLru cap))"
  note run = lru_run_refines [OF NewLru_inv [OF assms(1)]]
  show "(fst (lru_run ops (NewLru cap)), lru_abs ?l) = recency_run (nat cap) ops []" using run [of ops] by simp
  show "int (length (lr_list ?l)) \<le> cap" using run [of ops] by (auto simp: lru_inv_def)
  have l: "lru_inv ?l" "lr_capacity ?l = cap" using run [of ops] by auto
  then have "lru_cache.within 1 k v (Lru_Put k v ?l)" using assms(2) by (intro lru_cache.within_put_self) auto
  then have w: "lru_cache.within (1 + length others) k v (snd (lru_run others (Lru_Put k v ?l)))"
    using Put_ok [OF l(1), of k v] l(2) assms by (intro lru_run_within) auto
  have "lru_inv (snd (lru_run others (Lru_Put k v ?l)))" using lru_run_refines [OF Put_ok(1) [OF l(1)]] by blast
  then show "fst (Lru_Get k (snd (lru_run (ops @ OpPut k v # others) (NewLru cap)))) = Some v"
    using lru_cache.within_get [OF _ w] by (simp add: lru_run_append)
qed

theorem lru_is_recency_list_witness:
  "fst (Lru_Get (7 :: nat) (snd (lru_run ([OpPut 1 ''a''] @ OpPut 7 ''b'' # [OpPut 2 ''c'', OpGet 1]) (NewLru 3)))) = Some ''b''"
  using lru_is_recency_list [of 3 "[OpPut 2 ''c'', OpGet 1]" "7 :: nat" "[OpPut 1 ''a'']" "''b''"] by simp


definition two_entries :: "(nat, string) lru" where
  "two_entries = snd (lru_run [OpPut 1 ''a'', OpPut 2 ''b''] (NewLru 2))"

lemma two_entries_bi: "lru_bi_inv two_entries"
proof -
  have "lru_bi_inv (NewLru 2 :: (nat, string) lru)" by (simp add: lru_bi_inv_def NewLru_inv) (simp add: NewLru_def)
  then have "lru_bi_inv (Lru_Put 1 ''a'' (NewLru 2 :: (nat, string) lru))" by (rule Put_new_bi) (simp_all add: NewLru_def)
  then have "lru_bi_inv (Lru_Put 2 ''b'' (Lru_Put 1 ''a'' (NewLru 2 :: (nat, string) lru)))"
    by (rule Put_new_bi) (simp_all add: NewLru_def Lru_Put_def PushFront_def)
  then show ?thesis by (simp add: two_entries_def)
qed

lemma two_entries_abs: "lru_abs two_entries = [(2, ''b''), (1, ''a'')]" "lr_capacity two_entries = 2"
  by (simp_all add: two_entries_def NewLru_def Lru_Put_def PushFront_def lru_abs_def)


end
