(* ===== verification/Xray_Antireplay.thy ===== *)
theory Xray_Antireplay
  imports Go_Time
begin

text \<open>
  The replay filter \<^verbatim>\<open>xray-core/common/antireplay/mapfilter.go\<close>: two pools of sums seen, rotated when the
  interval has passed. \<^verbatim>\<open>time.Now()\<close> is an argument; the mutex makes the calls one sequence.
\<close>

record 'a replay_filter =
  rf_poolA :: "'a set"
  rf_poolB :: "'a set"
  rf_interval :: duration
  rf_lastClean :: instant

definition NewMapFilter :: "int \<Rightarrow> instant \<Rightarrow> 'a replay_filter" where
  "NewMapFilter interval now =
     \<lparr>rf_poolA = {}, rf_poolB = {}, rf_interval = i64 (interval * Second), rf_lastClean = now\<rparr>"

definition rotate_pools :: "instant \<Rightarrow> 'a replay_filter \<Rightarrow> 'a replay_filter" where
  "rotate_pools now f =
     (if Sub now (rf_lastClean f) \<ge> rf_interval f
      then f\<lparr>rf_poolB := rf_poolA f, rf_poolA := {}, rf_lastClean := now\<rparr> else f)"

definition Filter_Check :: "instant \<Rightarrow> 'a \<Rightarrow> 'a replay_filter \<Rightarrow> bool \<times> 'a replay_filter" where
  "Filter_Check now digest f =
     (let f = rotate_pools now f;
          existsA = digest \<in> rf_poolA f;
          existsB = digest \<in> rf_poolB f
      in (\<not> (existsA \<or> existsB),
          if \<not> existsA \<and> \<not> existsB then f\<lparr>rf_poolA := insert digest (rf_poolA f)\<rparr> else f))"

fun check_run :: "(instant \<times> 'a) list \<Rightarrow> 'a replay_filter \<Rightarrow> bool list" where
  "check_run [] f = []"
| "check_run ((now, digest) # cs) f = fst (Filter_Check now digest f) # check_run cs (snd (Filter_Check now digest f))"

lemma length_check_run [simp]: "length (check_run cs f) = length cs"
  by (induction cs f rule: check_run.induct) auto

section \<open>Remembering\<close>

text \<open>
  A sum accepted at time \<open>t\<close> is in the current pool, or in the old one and was accepted before the last
  rotation, or a whole interval has passed before the last rotation.
\<close>

definition remembers :: "instant \<Rightarrow> 'a \<Rightarrow> 'a replay_filter \<Rightarrow> bool" where
  "remembers t s f \<longleftrightarrow> s \<in> rf_poolA f \<or> s \<in> rf_poolB f \<and> t \<le> rf_lastClean f \<or> t + rf_interval f \<le> rf_lastClean f"

lemma interval_Filter_Check [simp]: "rf_interval (snd (Filter_Check now digest f)) = rf_interval f"
  by (simp add: Filter_Check_def rotate_pools_def Let_def)

lemma Filter_Check_lastClean:
  assumes "rf_lastClean f \<le> now"
  shows "rf_lastClean (snd (Filter_Check now digest f)) \<le> now"
  using assms by (simp add: Filter_Check_def rotate_pools_def Let_def)

lemma rotate_remembers:
  assumes "remembers t s f" "t \<le> now" "rf_lastClean f \<le> now" "rf_interval f < 2 ^ 63"
  shows "remembers t s (rotate_pools now f)"
  using assms by (auto simp: remembers_def rotate_pools_def Sub_ge_iff)

lemma Filter_Check_remembers:
  assumes "remembers t s f" "t \<le> now" "rf_lastClean f \<le> now" "rf_interval f < 2 ^ 63"
  shows "remembers t s (snd (Filter_Check now digest f))"
  using rotate_remembers [OF assms] by (auto simp: remembers_def Filter_Check_def Let_def)

lemma Filter_Check_accept_late:
  assumes "remembers t s f" "t \<le> now" "rf_lastClean f \<le> now" "rf_interval f < 2 ^ 63" "fst (Filter_Check now s f)"
  shows "t + rf_interval f \<le> now"
proof -
  have "remembers t s (rotate_pools now f)" by (rule rotate_remembers [OF assms(1-4)])
  moreover have "s \<notin> rf_poolA (rotate_pools now f)" "s \<notin> rf_poolB (rotate_pools now f)" using assms(5) by (auto simp: Filter_Check_def Let_def)
  moreover have "rf_lastClean (rotate_pools now f) \<le> now" "rf_interval (rotate_pools now f) = rf_interval f"
    using assms(3) by (simp_all add: rotate_pools_def)
  ultimately show ?thesis by (auto simp: remembers_def)
qed

lemma Filter_Check_accept_remembers: "fst (Filter_Check now s f) \<Longrightarrow> remembers now s (snd (Filter_Check now s f))"
  by (auto simp: Filter_Check_def Let_def remembers_def)

lemma check_run_remembered:
  assumes "remembers t s f" "t \<le> t0" "rf_lastClean f \<le> t0" "rf_interval f < 2 ^ 63"
    and "sorted (t0 # map fst cs)" "j < length cs" "snd (cs ! j) = s" "check_run cs f ! j"
  shows "t + rf_interval f \<le> fst (cs ! j)"
  using assms
proof (induction cs f arbitrary: j t0 rule: check_run.induct)
  case (2 now digest cs f)
  have now: "t \<le> now" "rf_lastClean f \<le> now" using 2(3,4,6) by auto
  show ?case
  proof (cases j)
    case 0
    then show ?thesis using Filter_Check_accept_late [OF 2(2) now 2(5)] 2(8,9) by simp
  next
    case (Suc i)
    have "t + rf_interval (snd (Filter_Check now digest f)) \<le> fst (cs ! i)"
      using 2(5-9) Suc now Filter_Check_remembers [OF 2(2) now 2(5)] Filter_Check_lastClean [OF now(2)]
      by (intro 2(1) [of now]) auto
    then show ?thesis using Suc by simp
  qed
qed simp

lemma check_run_twice:
  assumes "rf_lastClean f \<le> t0" "rf_interval f < 2 ^ 63"
    and "sorted (t0 # map fst cs)" "i < j" "j < length cs" "snd (cs ! i) = snd (cs ! j)" "check_run cs f ! i" "check_run cs f ! j"
  shows "fst (cs ! i) + rf_interval f \<le> fst (cs ! j)"
  using assms
proof (induction cs f arbitrary: i j t0 rule: check_run.induct)
  case (2 now digest cs f)
  have now: "rf_lastClean f \<le> now" using 2(2,4) by auto
  obtain j' where j: "j = Suc j'" using 2(5) by (cases j) auto
  show ?case
  proof (cases i)
    case 0
    then have "now + rf_interval (snd (Filter_Check now digest f)) \<le> fst (cs ! j')"
      using 2(3,4,6-9) j Filter_Check_lastClean [OF now] Filter_Check_accept_remembers [of now digest f]
      by (intro check_run_remembered [where s = digest and t0 = now]) auto
    then show ?thesis using 0 j by simp
  next
    case (Suc i')
    have "fst (cs ! i') + rf_interval (snd (Filter_Check now digest f)) \<le> fst (cs ! j')"
      using 2(3-9) j Suc Filter_Check_lastClean [OF now] by (intro 2(1) [of now]) auto
    then show ?thesis using Suc j by simp
  qed
qed simp

lemma Filter_Check_unseen:
  "s \<notin> rf_poolA f \<union> rf_poolB f \<Longrightarrow> fst (Filter_Check now s f)"
  "s \<notin> rf_poolA f \<union> rf_poolB f \<Longrightarrow> s \<noteq> digest \<Longrightarrow> s \<notin> rf_poolA (snd (Filter_Check now digest f)) \<union> rf_poolB (snd (Filter_Check now digest f))"
  by (auto simp: Filter_Check_def rotate_pools_def Let_def)

lemma check_run_unseen:
  assumes "s \<notin> rf_poolA f \<union> rf_poolB f" "i < length cs" "snd (cs ! i) = s" "s \<notin> snd ` set (take i cs)"
  shows "check_run cs f ! i"
  using assms
proof (induction cs f arbitrary: i rule: check_run.induct)
  case (2 now digest cs f)
  show ?case
  proof (cases i)
    case 0
    then show ?thesis using 2(2,4) Filter_Check_unseen(1) by simp
  next
    case (Suc i')
    then have "check_run cs (snd (Filter_Check now digest f)) ! i'"
      using 2(2-5) Filter_Check_unseen(2) [OF 2(2), of digest now] by (intro 2(1)) auto
    then show ?thesis using Suc by simp
  qed
qed simp

text \<open>Two rotations forget: what was seen before the first is accepted after the second.\<close>

lemma rotate_twice_forgets:
  assumes "rf_lastClean f + rf_interval f \<le> t" "t + rf_interval f \<le> u" "rf_interval f < 2 ^ 63" "0 \<le> rf_interval f" "s \<noteq> digest"
  shows "fst (Filter_Check u s (snd (Filter_Check t digest f)))"
  using assms by (auto simp: Filter_Check_def rotate_pools_def Let_def Sub_ge_iff)

section \<open>Property\<close>

text \<open>
  C38. Replay protection. On a new filter, for any sequence of checks at times that do not go back: a sum is
  accepted the first time it comes; one that is accepted twice comes the second time at least the interval
  later, so every repetition within the interval is rejected; and once two rotations have passed without it, a
  sum is accepted again.
\<close>

theorem replay_filter_rejects_repeats:
  fixes cs :: "(instant \<times> 'a) list"
  assumes "0 \<le> interval" "interval * Second < 2 ^ 63" "sorted (start # map fst cs)"
  shows "(\<forall>j < length cs. (snd (cs ! j) \<notin> snd ` set (take j cs) \<longrightarrow> check_run cs (NewMapFilter interval start) ! j) \<and>
      (\<forall>i < j. snd (cs ! i) = snd (cs ! j) \<and> check_run cs (NewMapFilter interval start) ! i \<and>
         fst (cs ! j) < fst (cs ! i) + interval * Second \<longrightarrow> \<not> check_run cs (NewMapFilter interval start) ! j)) \<and>
    (\<forall>(s :: 'a) s' t u. start + interval * Second \<le> t \<and> t + interval * Second \<le> u \<and> s \<noteq> s' \<longrightarrow>
       fst (Filter_Check u s (snd (Filter_Check t s' (snd (Filter_Check start s (NewMapFilter interval start)))))))"
proof (intro conjI allI impI)
  let ?f = "NewMapFilter interval start :: 'a replay_filter"
  have iv: "rf_interval ?f = interval * Second" using assms by (simp add: NewMapFilter_def Second_def)
  show "check_run cs ?f ! j" if "j < length cs" "snd (cs ! j) \<notin> snd ` set (take j cs)" for j
    using that by (intro check_run_unseen [where s = "snd (cs ! j)"]) (simp_all add: NewMapFilter_def)
  show "\<not> check_run cs ?f ! j"
    if "j < length cs" "i < j" "snd (cs ! i) = snd (cs ! j) \<and> check_run cs ?f ! i \<and> fst (cs ! j) < fst (cs ! i) + interval * Second" for i j
    using check_run_twice [of ?f start cs i j] that iv assms(2,3) by (auto simp: NewMapFilter_def)
  show "fst (Filter_Check u s (snd (Filter_Check t s' (snd (Filter_Check start s ?f)))))"
    if "start + interval * Second \<le> t \<and> t + interval * Second \<le> u \<and> s \<noteq> s'" for s s' :: 'a and t u
  proof (rule rotate_twice_forgets)
    have "rf_lastClean (snd (Filter_Check start s ?f)) \<le> start" by (rule Filter_Check_lastClean) (simp add: NewMapFilter_def)
    then show "rf_lastClean (snd (Filter_Check start s ?f)) + rf_interval (snd (Filter_Check start s ?f)) \<le> t" using that iv by simp
  qed (use that iv assms in \<open>simp_all add: Second_def\<close>)
qed

theorem replay_filter_rejects_repeats_witness:
  "check_run [(5, ''a''), (6, ''b''), (7, ''a'')] (NewMapFilter 120 0) ! 0 \<and>
   \<not> check_run [(5, ''a''), (6, ''b''), (7, ''a'')] (NewMapFilter 120 0) ! 2"
proof -
  let ?r = "check_run [(5, ''a''), (6, ''b''), (7, ''a'')] (NewMapFilter 120 0)"
  note ok = replay_filter_rejects_repeats [of 120 0 "[(5, ''a''), (6, ''b''), (7, ''a'')]", THEN conjunct1, simplified Second_def, simplified]
  have "?r ! 0" using ok [rule_format, of 0] by simp
  moreover have "\<not> ?r ! 2" using ok [rule_format, of 2] calculation by (auto dest!: spec [of _ 0])
  ultimately show ?thesis by blast
qed

end
