(* ===== verification/Spec2Isabelle.thy ===== *)
theory Spec2Isabelle
  imports Awg_Replay Awg_RateLimiter Ray_Engine Ray_Socks Kcp_Transfer Xray_MuxSession Xray_Pipe Xray_Cache Xray_Antireplay
begin

text \<open>
  Verification of the core of the PersianRay iOS VPN engine.

  \<^bold>\<open>The program.\<close> The repository bundles tunnel engines that an iOS application drives through C bridges. Two of them
  carry the program's own packet logic and are modelled here: AmneziaWG (\<^verbatim>\<open>src/awg-ios\<close>), a WireGuard device whose
  datagrams are disguised, and Xray (\<^verbatim>\<open>src/xray-core\<close>), whose buffers, multiplexer, pipes and KCP transport move the
  bytes of all its proxies. The client that the application starts for AmneziaWG
  (\<^verbatim>\<open>src/awg-ios/cmd/persianray\<close>) is modelled on top of the device.

  A WireGuard device receives configuration requests (\<^verbatim>\<open>uapi.go\<close>), keeps a map of peers and a table of prefixes that
  routes each packet to a peer, wraps the peer's messages in padding, disguised types and header protection, and on
  the way in tells the messages apart again and drops replayed counters and addresses that send too many handshakes.
  The client turns the configuration of the application into such a request, opens a device with it and, for two hops,
  a second device whose datagrams travel through the first, and serves SOCKS connections through the inner one, subject
  to a policy on hosts.
  Xray reads streams into pooled buffers, chains them, cuts them into multiplexer frames or KCP segments, hands them
  through pipes, and over KCP rebuilds the stream from datagrams that are lost, reordered and repeated.

  \<^bold>\<open>Conventions.\<close> A Go function is a function with its state passed in and out; \<open>None\<close> is a panic, and error results
  are values. Integers whose wrap-around matters are words (\<open>u8\<close> to \<open>u64\<close>) or go through \<open>i32\<close> and \<open>i64\<close>. A slice is a
  list; slicing and indexing check their bounds with \<open>go_slice\<close> and \<open>go_index\<close>. Clocks, random bytes, pooled arrays,
  ciphers and operating system calls are arguments, with what the code relies on as named hypotheses. A lock makes a
  method one step; theorems on interleavings quantify over all sequences of such steps.

  \<^bold>\<open>Theories.\<close>
  \<^item> \<open>Prelude\<close>, \<open>Go_Time\<close>: words as big-endian bytes, slices, 64-bit wrap-around, durations and instants.
  \<^item> \<open>Awg_Replay\<close> (\<^verbatim>\<open>replay/replay.go\<close>): the anti-replay window refines the set of accepted counters (C1) and never accepts a
    counter twice, whatever the order of arrival and also after a reset (C2).
  \<^item> \<open>Awg_IpBits\<close>, \<open>Awg_Trie\<close>, \<open>Awg_AllowedIPs\<close> (\<^verbatim>\<open>device/allowedips.go\<close>): the path-compressed tries are a map from prefixes to
    peers; lookup is longest-prefix match (C3), insertion and removal are point updates (C4, C5), a revoked peer gets no
    traffic (C6), and iteration visits each prefix once. The locale \<open>cryptokey_table\<close> states the interface and is
    interpreted on the tries.
  \<^item> \<open>Awg_Ranges\<close> (\<^verbatim>\<open>device/noise-types.go\<close>): ranges of integers, their text and the text of keys.
  \<^item> \<open>Awg_ObfChain\<close> (\<^verbatim>\<open>device/obf*.go\<close>): the special packets before a handshake; a negative length is accepted by the parser
    and panics when the packet is built (C14).
  \<^item> \<open>Awg_Framing\<close> (\<^verbatim>\<open>device/send.go\<close>, \<^verbatim>\<open>receive.go\<close>, \<^verbatim>\<open>noise-protocol.go\<close>, \<^verbatim>\<open>uapi.go\<close>): what the sender disguises the receiver
    recognises and recovers, for every key stream and all random choices (C7).
  \<^item> \<open>Awg_Device\<close> (\<^verbatim>\<open>device/device.go\<close>, \<^verbatim>\<open>peer.go\<close>, \<^verbatim>\<open>uapi.go\<close>): the device composes the table, the settings and its peers; no sequence
    of requests and state changes panics or breaks the invariant that only current peers are routed to and run (C10),
    and an accepted request leaves every peer running (C18).
  \<^item> \<open>Awg_RateLimiter\<close> (\<^verbatim>\<open>ratelimiter/ratelimiter.go\<close>): each address sees its own token bucket (C39).
  \<^item> \<open>Ray_Config\<close>, \<open>Ray_Request\<close> (\<^verbatim>\<open>cmd/persianray/config.go\<close>, \<^verbatim>\<open>i1.go\<close>): an accepted configuration gives a request that a new device
    accepts, with the routes, the peer and the first packets it asks for (C8).
  \<^item> \<open>Ray_Engine\<close> (\<^verbatim>\<open>engine.go\<close>, \<^verbatim>\<open>hop.go\<close>, \<^verbatim>\<open>hopbind.go\<close>, \<^verbatim>\<open>ping.go\<close>, \<^verbatim>\<open>export.go\<close>): no call panics and no device or listener is left open
    outside the live tunnel (C11); which of the two hops carries the connections, also after a failure (C12).
  \<^item> \<open>Ray_Socks\<close> (\<^verbatim>\<open>policy.go\<close>, \<^verbatim>\<open>socks.go\<close>): what is dialled and forwarded respects the policy (C17), and the messages of the SOCKS
    protocol are read back (C28).
  \<^item> \<open>Xray_Io\<close>, \<open>Xray_Buffer\<close>, \<open>Xray_MultiBuffer\<close> (\<^verbatim>\<open>common/buf\<close>): buffers show no stale bytes of a pooled array (C9), streams read
    exactly what is asked, and chains of buffers are byte queues (C13, C15).
  \<^item> \<open>Kcp_Segment\<close>, \<open>Kcp_Receiving\<close>, \<open>Kcp_Sending\<close>, \<open>Kcp_Connection\<close>, \<open>Kcp_Transfer\<close> (\<^verbatim>\<open>transport/internet/kcp\<close>): segments read back
    (C16), data is delivered in order (C19), acknowledgements are kept and flushed (C20, C21) and remove exactly
    what they name (C22), windows and round-trip estimates stay in their bounds (C23 to C25), the states of a connection
    follow the closing handshake and an unresponsive peer is given up (C26, C27), writes are cut in chunks, and the
    two ends together transfer a stream reliably over a network that loses, reorders and repeats datagrams (C40).
  \<^item> \<open>Xray_Net\<close>, \<open>Xray_Address\<close> (\<^verbatim>\<open>common/net\<close>, \<^verbatim>\<open>common/protocol/address.go\<close>): the address codec reads back what it writes (C29),
    but for domains of 256 bytes (C30).
  \<^item> \<open>Xray_MuxFrame\<close>, \<open>Xray_MuxWriter\<close>, \<open>Xray_MuxSession\<close> (\<^verbatim>\<open>common/mux\<close>): frames read back (C31), the writer loses nothing (C32), and
    sessions are closed exactly once and numbered uniquely (C33).
  \<^item> \<open>Xray_Pipe\<close> (\<^verbatim>\<open>transport/pipe\<close>): a pipe is a bounded queue in all interleavings (C34, C35).
  \<^item> \<open>Xray_Cache\<close> (\<^verbatim>\<open>common/cache/lru.go\<close>): the cache is a list by recency (C36), whose reverse index goes stale on an update (C37);
    the locale \<open>recency_cache\<close> is interpreted on it. \<open>Xray_Antireplay\<close> (\<^verbatim>\<open>common/antireplay\<close>): repetitions are rejected (C38).

  \<^bold>\<open>Bounds.\<close> Loops whose end depends on a reader are given fuel, and the theorems show how much is enough: one step for
  each byte or buffer left. Contents of buffers and chains are below \<open>2 ^ 31\<close> bytes, as the 32-bit lengths of the code
  need; sequence numbers and timestamps of KCP wrap at 32 bits, and reliable transfer is shown for fewer than \<open>2 ^ 31\<close>
  payloads, since the code compares some numbers without regard to wrapping. Clocks are below \<open>2 ^ 62\<close> nanoseconds where
  durations are subtracted. The total length of a special packet is below \<open>2 ^ 63\<close>, and transport messages are claimed to
  arrive only when they fit the 1700 bytes of an element's buffer. A request is shown to be accepted for a server name of at
  most 10000 characters and lines that fit the 65536 bytes of the scanner.

  \<^bold>\<open>Not modelled.\<close> The Noise handshake and the cookies are calls into external cryptography; key pairs, their timers, and
  the queues between the workers of a device are left to the recorded calls of \<open>Awg_Device\<close>; sockets, tunnel interfaces
  and control sockets are I/O. Of the client, the HTTP exchanges of its look-ups and probes and the copying of bytes between
  connections are not modelled, nor is the goroutine of a device that raises it when its interface comes up; parallel
  probes are taken one after the other, and a Go string is taken as ASCII where spaces and case matter. Of Xray, routing, DNS, the proxies, the transports over HTTP and TLS, the workers of the
  multiplexer and the assembly from configuration objects are not modelled. The share-link converter, the MASQUE client,
  the Psiphon core and the bridges are outside the development.
\<close>

end
